(* ===== verification/Prelude.thy ===== *)
theory Prelude
  imports Main "HOL-Library.Word" "HOL-Library.Product_Lexorder"
begin

text \<open>
  Shared vocabulary of the development: the machine integer types of the ARMv7 target,
  the error codes of \<^verbatim>\<open>errors/errno.fugu\<close> that the modelled code returns, the outcome type
  of a C function that may return an error or fail an assertion, and the lemmas on
  lists, maxima and words that several components use.
\<close>

unbundle bit_operations_syntax

section \<open>Machine integers\<close>

type_synonym u8 = "8 word"
type_synonym u16 = "16 word"
type_synonym u32 = "32 word"
type_synonym u64 = "64 word"

section \<open>Error codes and outcomes\<close>

text \<open>
  The constructors are the names of the error codes; only the codes that modelled
  functions return are listed. \<open>SYS_ERR_OK\<close> is not an error: success is \<open>Ok\<close>. An error code
  that \<open>err_push\<close> stacks on another one is represented by the outer code.
\<close>

datatype errval =
    CAPS_ERR_MDB_DUPLICATE_ENTRY
  | CAPS_ERR_MDB_ENTRY_NOTFOUND
  | CAPS_ERR_INVALID_ARGS
  | SYS_ERR_CAP_NOT_FOUND
  | SYS_ERR_NO_LOCAL_COPIES
  | AOS_NET_ERR_UDP_PORT_EXISTS
  | AOS_NET_ERR_UDP_NO_SUCH_PORT
  | LIB_ERR_SLOT_ALLOC_NO_SPACE
  | LIB_ERR_SLOT_ALLOC_WRONG_CNODE
  | LIB_ERR_SLOT_UNALLOCATED
  | LIB_ERR_SLOT_ALLOC
  | LIB_ERR_SLOT_ALLOC_INIT
  | LIB_ERR_RANGE_ALLOC_NOT_HEAD
  | LIB_ERR_SLAB_ALLOC_FAIL
  | LIB_ERR_CNODE_CREATE
  | LIB_ERR_MALLOC_FAIL
  | LIB_ERR_SINGLE_SLOT_ALLOC_INIT_RAW
  | LIB_ERR_ROOTSA_RESIZE
  | LIB_ERR_RAM_ALLOC
  | MM_ERR_ALREADY_ALLOCATED
  | MM_ERR_NOT_FOUND
  | MM_ERR_MM_FREE
  | MM_ERR_SLOT_NOSLOTS
  | MM_ERR_SLOT_MM_ALLOC
  | SYS_ERR_REVOKE_FIRST
  | SYS_ERR_VM_MAP_SIZE
  | SYS_ERR_VNODE_SLOT_INVALID
  | SYS_ERR_VNODE_SLOT_RESERVED
  | SYS_ERR_FRAME_OFFSET_INVALID
  | SYS_ERR_SLOT_IN_USE
  | SYS_ERR_VNODE_NOT_INSTALLED
  | SYS_ERR_VNODE_LOOKUP_NEXT
  | SYS_ERR_VNODE_TYPE
  | LIB_ERR_OUT_OF_VIRTUAL_ADDR
  | LIB_ERR_VSPACE_MMU_AWARE_NO_SPACE

text \<open>
  What a call can do: return normally, return an error code, or fail: an \<open>assert\<close> or
  \<open>panic\<close> that stops the program, or an access outside an object, which C leaves undefined.
\<close>

datatype 'a outcome = Ok 'a | Err errval | Abort

fun bind_outcome :: "'a outcome \<Rightarrow> ('a \<Rightarrow> 'b outcome) \<Rightarrow> 'b outcome" where
  "bind_outcome (Ok x) f = f x"
| "bind_outcome (Err e) f = Err e"
| "bind_outcome Abort f = Abort"

lemma bind_outcome_eq_Ok [simp]:
  "bind_outcome m f = Ok y \<longleftrightarrow> (\<exists>x. m = Ok x \<and> f x = Ok y)"
  by (cases m) auto

lemma bind_outcome_assoc:
  "bind_outcome (bind_outcome m f) g = bind_outcome m (\<lambda>x. bind_outcome (f x) g)"
  by (cases m) auto

lemma bind_outcome_cong [fundef_cong]:
  "m = m' \<Longrightarrow> (\<And>x. m' = Ok x \<Longrightarrow> f x = g x) \<Longrightarrow> bind_outcome m f = bind_outcome m' g"
  by (cases m') auto

section \<open>Maxima\<close>

lemma max_left_idem3: "max a (max a b) = max a (b :: 'a :: linorder)"
  by (simp add: max.assoc [symmetric])

lemmas max_ac = max.assoc max.commute max.left_commute

section \<open>Words and natural numbers\<close>

lemma unat_of_nat_less: "n < 2 ^ LENGTH('a) \<Longrightarrow> unat (of_nat n :: 'a :: len word) = n"
  by (simp add: unat_of_nat)

lemma unat_exp_less: "unat (w :: 'a :: len word) < 2 ^ LENGTH('a)"
  by (rule unsigned_less)

lemma unat_plus_less: "unat a + unat b < 2 ^ LENGTH('a) \<Longrightarrow> unat (a + b :: 'a :: len word) = unat a + unat b"
  by (simp add: unat_word_ariths)

lemma unat_minus_le: "b \<le> a \<Longrightarrow> unat (a - b :: 'a :: len word) = unat a - unat b"
  by (simp add: unat_sub_if' word_le_nat_alt)

lemma unat_times_less: "unat a * unat b < 2 ^ LENGTH('a) \<Longrightarrow> unat (a * b :: 'a :: len word) = unat a * unat b"
  by (simp add: unat_word_ariths)

lemma unat_ucast_64: "unat (ucast (w :: u32) :: u64) = unat w"
  unfolding unsigned_ucast_eq using unat_exp_less [of w] by (simp add: take_bit_eq_mod)

lemma unat_ucast_32: "unat (ucast (w :: u64) :: u32) = unat w mod 2 ^ 32"
  unfolding unsigned_ucast_eq by (simp add: take_bit_eq_mod)

section \<open>Ends of a list\<close>

definition hd_opt :: "'a list \<Rightarrow> 'a option" where
  "hd_opt xs = (case xs of [] \<Rightarrow> None | x # _ \<Rightarrow> Some x)"

definition last_opt :: "'a list \<Rightarrow> 'a option" where
  "last_opt xs = (if xs = [] then None else Some (last xs))"

lemma hd_opt_simps [simp]:
  "hd_opt [] = None" "hd_opt (x # xs) = Some x"
  "hd_opt (xs @ ys) = (if xs = [] then hd_opt ys else hd_opt xs)"
  by (auto simp: hd_opt_def split: list.splits)

lemma last_opt_simps [simp]:
  "last_opt [] = None" "last_opt (xs @ ys) = (if ys = [] then last_opt xs else last_opt ys)"
  "last_opt (x # xs) = (if xs = [] then Some x else last_opt xs)"
  by (auto simp: last_opt_def)

lemma hd_opt_eq_Some: "hd_opt xs = Some x \<longleftrightarrow> (\<exists>ys. xs = x # ys)"
  by (auto simp: hd_opt_def split: list.splits)

lemma last_opt_eq_Some: "last_opt xs = Some x \<longleftrightarrow> (\<exists>ys. xs = ys @ [x])"
  by (cases xs rule: rev_cases) auto

lemma hd_opt_eq_None [simp]: "hd_opt xs = None \<longleftrightarrow> xs = []"
  by (auto simp: hd_opt_def split: list.splits)

lemma last_opt_eq_None [simp]: "last_opt xs = None \<longleftrightarrow> xs = []"
  by (auto simp: last_opt_def)

end
