(* ===== verification/Caps.thy ===== *)
theory Caps
  imports Prelude
begin

text \<open>
  The capability predicates. The C functions \<open>get_address\<close>, \<open>get_size\<close>,
  \<open>get_type_root\<close>, \<open>compare_caps\<close> and \<open>is_copy\<close> (declared in
  \<^verbatim>\<open>kernel/include/cap_predicates.h\<close>) are generated by the Hamlet compiler when the
  system is built. They are therefore a parameter of the model: a record of functions
  over references to capabilities. The locale \<open>cap_order\<close> holds what the mapping database
  relies on, and the section on Hamlet gives the functions that the generator
  \<^verbatim>\<open>tools/hamlet/HamletBackend.lhs\<close> emits, and shows that they satisfy it.
\<close>

section \<open>The interface\<close>

text \<open>
  A value of type \<open>'c\<close> is a reference to a capability (a \<open>struct capability *\<close>):
  two references are equal when they point to the same slot.
\<close>

record 'c cap_preds =
  objtype :: "'c \<Rightarrow> nat"
  get_type_root :: "nat \<Rightarrow> u8"
  get_address :: "'c \<Rightarrow> u64"
  get_size :: "'c \<Rightarrow> u64"
  compare_caps :: "'c \<Rightarrow> 'c \<Rightarrow> bool \<Rightarrow> int"
  is_copy :: "'c \<Rightarrow> 'c \<Rightarrow> bool"

definition cap_root :: "('c, 'z) cap_preds_scheme \<Rightarrow> 'c \<Rightarrow> u8" where
  "cap_root P c = get_type_root P (objtype P c)"

definition cap_end :: "('c, 'z) cap_preds_scheme \<Rightarrow> 'c \<Rightarrow> u64" where
  "cap_end P c = get_address P c + get_size P c"

text \<open>
  \<open>compare_caps\<close> orders capabilities by type root, then address, then descending size
  (so that an ancestor comes before its descendants), then further keys. Without the
  tie break two copies compare equal; with it only a reference and itself do.
\<close>

locale cap_order =
  fixes P :: "'c cap_preds"
  assumes cmp_swap: "compare_caps P b a t = - compare_caps P a b t"
    and cmp_trans: "compare_caps P a b t \<le> 0 \<Longrightarrow> compare_caps P b c t \<le> 0 \<Longrightarrow>
          compare_caps P a c t \<le> 0"
    and cmp_tie: "compare_caps P a b True = 0 \<longleftrightarrow> a = b"
    and cmp_refine: "compare_caps P a b False \<noteq> 0 \<Longrightarrow>
          compare_caps P a b True = compare_caps P a b False"
    and cmp_key: "compare_caps P a b t \<le> 0 \<Longrightarrow>
          cap_root P a < cap_root P b \<or> cap_root P a = cap_root P b \<and>
            (get_address P a < get_address P b \<or> get_address P a = get_address P b \<and>
             get_size P b \<le> get_size P a)"
    and copy_iff: "objtype P a \<noteq> 0 \<Longrightarrow> is_copy P a b \<longleftrightarrow> compare_caps P a b False = 0"
begin

lemma cmp_same [simp]: "compare_caps P a a t = 0"
  using cmp_swap [of a a t] by simp

lemma cmp_neg_iff: "compare_caps P a b t < 0 \<longleftrightarrow> 0 < compare_caps P b a t"
  using cmp_swap [of b a t] by simp

lemma cmp_lessD:
  assumes "compare_caps P a b t < 0"
  shows "0 < compare_caps P b a t" and "\<not> compare_caps P b a t < 0"
  using assms cmp_swap [of b a t] by simp_all

lemma cmp_less_trans:
  assumes "compare_caps P a b t < 0" and "compare_caps P b c t < 0"
  shows "compare_caps P a c t < 0"
proof (rule ccontr)
  assume "\<not> ?thesis"
  then have "compare_caps P c a t \<le> 0" using cmp_swap [of c a t] by simp
  with assms(1) have "compare_caps P c b t \<le> 0" using cmp_trans [of c a t b] by simp
  with assms(2) show False using cmp_swap [of c b t] by simp
qed

lemma cmp_le_less_trans:
  assumes "compare_caps P a b t \<le> 0" and "compare_caps P b c t < 0"
  shows "compare_caps P a c t < 0"
proof (rule ccontr)
  assume "\<not> ?thesis"
  then have "compare_caps P c a t \<le> 0" using cmp_swap [of c a t] by simp
  with assms(1) have "compare_caps P c b t \<le> 0" using cmp_trans [of c a t b] by simp
  with assms(2) show False using cmp_swap [of c b t] by simp
qed

lemma cmp_less_le_trans:
  assumes "compare_caps P a b t < 0" and "compare_caps P b c t \<le> 0"
  shows "compare_caps P a c t < 0"
proof (rule ccontr)
  assume "\<not> ?thesis"
  then have "compare_caps P c a t \<le> 0" using cmp_swap [of c a t] by simp
  with assms(2) have "compare_caps P b a t \<le> 0" using cmp_trans [of b c t a] by simp
  with assms(1) show False using cmp_swap [of a b t] by simp
qed

text \<open>The order without tie break is coarser than the order with it.\<close>

lemma cmp_True_le_False: "compare_caps P a b True < 0 \<Longrightarrow> compare_caps P a b False \<le> 0"
  using cmp_refine [of a b] by force

lemma cmp_less_False_True: "compare_caps P a b False < 0 \<Longrightarrow> compare_caps P a b True < 0"
  using cmp_refine [of a b] by simp

lemma cmp_le_root: "compare_caps P a b t \<le> 0 \<Longrightarrow> cap_root P a \<le> cap_root P b"
  using cmp_key [of a b t] by auto

lemma cmp_le_address:
  "compare_caps P a b t \<le> 0 \<Longrightarrow> cap_root P a = cap_root P b \<Longrightarrow>
   get_address P a \<le> get_address P b"
  using cmp_key [of a b t] by auto

end

section \<open>The predicates that Hamlet generates\<close>

text \<open>
  A capability as the generated code sees it: its type, the values of the address and size
  expressions that \<^verbatim>\<open>capabilities/caps.hl\<close> gives for the type, and the values of its \<open>eq\<close>
  fields (compared in their order, so one number stands for them). A reference is the
  address of a slot, and the memory maps it to the capability.

  Types are numbered in the order of \<open>caps.hl\<close> (0 is \<open>Null\<close>, 1 \<open>PhysAddr\<close>, 2 \<open>RAM\<close>, \<dots>).
\<close>

record capability =
  cap_type :: nat
  cap_base :: u64
  cap_bytes :: u64
  cap_eq_fields :: nat

type_synonym cap_memory = "u32 \<Rightarrow> capability"

text \<open>
  The index of the root of a type among the types without \<open>from\<close>: \<open>Null\<close>, \<open>PhysAddr\<close>,
  \<open>FCNode\<close>, \<open>Kernel\<close>, \<open>IRQTable\<close>, \<open>IO\<close>, \<open>Notify_IPI\<close>, \<open>ID\<close>, \<open>PerfMon\<close>, \<open>IPI\<close>. All other types
  derive from \<open>PhysAddr\<close>.
\<close>

definition hamlet_type_root :: "nat \<Rightarrow> u8" where
  "hamlet_type_root ty =
     (if ty = 0 then 0 else if ty = 5 then 2 else if ty = 12 then 3 else if ty = 39 then 4
      else if ty = 40 then 5 else if ty = 41 then 6 else if ty = 42 then 7
      else if ty = 43 then 8 else if ty = 45 then 9 else 1)"

text \<open>The types with an \<open>address\<close> are those that derive from \<open>PhysAddr\<close>; \<open>EndPoint\<close> has no \<open>size\<close>.\<close>

definition hamlet_address :: "capability \<Rightarrow> u64" where
  "hamlet_address c = (if hamlet_type_root (cap_type c) = 1 then cap_base c else 0)"

definition hamlet_size :: "capability \<Rightarrow> u64" where
  "hamlet_size c =
     (if hamlet_type_root (cap_type c) = 1 \<and> cap_type c \<noteq> 7 then cap_bytes c else 0)"

text \<open>The types with \<open>eq\<close> fields: \<open>FCNode\<close>, \<open>IO\<close>, \<open>Notify_IPI\<close>, \<open>ID\<close> and the mapping types.\<close>

definition hamlet_eq_fields :: "capability \<Rightarrow> nat" where
  "hamlet_eq_fields c =
     (if cap_type c \<in> {5, 9, 11, 40, 41, 42} \<or>
         14 \<le> cap_type c \<and> cap_type c \<le> 38 \<and> even (cap_type c)
      then cap_eq_fields c else 0)"

text \<open>
  One comparison of \<open>mkCmp\<close>: when the two values differ the result is decided by the
  given order, otherwise the next comparison follows.
\<close>

definition mkCmp :: "'a \<Rightarrow> 'a \<Rightarrow> ('a \<Rightarrow> 'a \<Rightarrow> bool) \<Rightarrow> int \<Rightarrow> int" where
  "mkCmp l r lt k = (if l \<noteq> r then (if lt l r then -1 else 1) else k)"

definition hamlet_compare_caps :: "cap_memory \<Rightarrow> u32 \<Rightarrow> u32 \<Rightarrow> bool \<Rightarrow> int" where
  "hamlet_compare_caps h left right tiebreak =
     mkCmp (hamlet_type_root (cap_type (h left))) (hamlet_type_root (cap_type (h right))) (<)
    (mkCmp (hamlet_address (h left)) (hamlet_address (h right)) (<)
    (mkCmp (hamlet_size (h left)) (hamlet_size (h right)) (>)
    (mkCmp (cap_type (h left)) (cap_type (h right)) (<)
    (mkCmp (hamlet_eq_fields (h left)) (hamlet_eq_fields (h right)) (<)
    (if tiebreak then mkCmp left right (<) 0 else 0)))))"

text \<open>\<open>Null\<close> is never a copy; \<open>Kernel\<close>, \<open>IRQTable\<close>, \<open>PerfMon\<close> and \<open>IPI\<close> always are.\<close>

definition hamlet_general_equality :: "nat \<Rightarrow> bool option" where
  "hamlet_general_equality ty =
     (if ty = 0 then Some False else if ty \<in> {12, 39, 43, 45} then Some True else None)"

definition hamlet_is_copy :: "cap_memory \<Rightarrow> u32 \<Rightarrow> u32 \<Rightarrow> bool" where
  "hamlet_is_copy h left right =
     (if cap_type (h left) \<noteq> cap_type (h right) then False
      else case hamlet_general_equality (cap_type (h left)) of
        Some b \<Rightarrow> b
      | None \<Rightarrow> hamlet_compare_caps h left right False = 0)"

definition hamlet_preds :: "cap_memory \<Rightarrow> u32 cap_preds" where
  "hamlet_preds h = \<lparr>
     objtype = (\<lambda>p. cap_type (h p)),
     get_type_root = hamlet_type_root,
     get_address = (\<lambda>p. hamlet_address (h p)),
     get_size = (\<lambda>p. hamlet_size (h p)),
     compare_caps = hamlet_compare_caps h,
     is_copy = hamlet_is_copy h\<rparr>"

lemma mkCmp_swap:
  "(l \<noteq> r \<Longrightarrow> lt r l = (\<not> lt l r)) \<Longrightarrow> k' = - k \<Longrightarrow> mkCmp r l lt k' = - mkCmp l r lt k"
  by (auto simp: mkCmp_def)

lemma mkCmp_less_le0 [simp]: "mkCmp l r (<) k \<le> 0 \<longleftrightarrow> l < r \<or> l = r \<and> k \<le> 0"
  for l r :: "'a :: linorder"
  by (auto simp: mkCmp_def)

lemma mkCmp_greater_le0 [simp]:
  "mkCmp l r (\<lambda>x y. y < x) k \<le> 0 \<longleftrightarrow> r < l \<or> l = r \<and> k \<le> 0"
  for l r :: "'a :: linorder"
  by (auto simp: mkCmp_def)

lemma mkCmp_eq0 [simp]: "mkCmp l r lt k = 0 \<longleftrightarrow> l = r \<and> k = 0"
  by (auto simp: mkCmp_def)

lemma mkCmp_refine:
  "mkCmp l r lt k \<noteq> 0 \<Longrightarrow> (k \<noteq> 0 \<Longrightarrow> k' = k) \<Longrightarrow> mkCmp l r lt k' = mkCmp l r lt k"
  by (auto simp: mkCmp_def)

lemma hamlet_compare_swap: "hamlet_compare_caps h b a t = - hamlet_compare_caps h a b t"
  unfolding hamlet_compare_caps_def
  by (cases t) ((rule mkCmp_swap, fastforce)+, simp)+

lemma hamlet_compare_refine:
  "hamlet_compare_caps h a b False \<noteq> 0 \<Longrightarrow>
   hamlet_compare_caps h a b True = hamlet_compare_caps h a b False"
  unfolding hamlet_compare_caps_def
  by (erule mkCmp_refine)+ simp

text \<open>The same order as a lexicographic key, which makes its transitivity immediate.\<close>

definition hamlet_key :: "cap_memory \<Rightarrow> bool \<Rightarrow> u32 \<Rightarrow> u8 \<times> u64 \<times> int \<times> nat \<times> nat \<times> u32" where
  "hamlet_key h t p =
     (hamlet_type_root (cap_type (h p)), hamlet_address (h p), - uint (hamlet_size (h p)),
      cap_type (h p), hamlet_eq_fields (h p), if t then p else 0)"

lemma lex_le_iff: "(x, p) \<le> (y, q) \<longleftrightarrow> x < y \<or> x = y \<and> p \<le> q"
  for x y :: "'a :: order" and p q :: "'b :: ord"
  unfolding less_eq_prod_simp order_le_less [of x y] by blast

lemma hamlet_compare_key:
  "hamlet_compare_caps h a b t \<le> 0 \<longleftrightarrow> hamlet_key h t a \<le> hamlet_key h t b"
proof -
  have "- uint (hamlet_size (h a)) < - uint (hamlet_size (h b)) \<longleftrightarrow> hamlet_size (h b) < hamlet_size (h a)"
    and "- uint (hamlet_size (h a)) = - uint (hamlet_size (h b)) \<longleftrightarrow> hamlet_size (h a) = hamlet_size (h b)"
    by (simp_all add: word_less_def word_uint_eq_iff)
  moreover have "a \<le> b \<longleftrightarrow> a < b \<or> a = b" by (rule order_le_less)
  ultimately show ?thesis
    unfolding hamlet_compare_caps_def hamlet_key_def lex_le_iff by (cases t) simp_all
qed

lemma hamlet_compare_eq0:
  "hamlet_compare_caps h a b t = 0 \<longleftrightarrow>
     hamlet_type_root (cap_type (h a)) = hamlet_type_root (cap_type (h b)) \<and>
     hamlet_address (h a) = hamlet_address (h b) \<and> hamlet_size (h a) = hamlet_size (h b) \<and>
     cap_type (h a) = cap_type (h b) \<and> hamlet_eq_fields (h a) = hamlet_eq_fields (h b) \<and>
     (t \<longrightarrow> a = b)"
  unfolding hamlet_compare_caps_def by (cases t) simp_all

lemma hamlet_always_copy:
  assumes "cap_type (h a) = cap_type (h b)" and "cap_type (h a) \<in> {12, 39, 43, 45}"
  shows "hamlet_compare_caps h a b False = 0"
  using assms unfolding hamlet_compare_eq0
  by (auto simp: hamlet_address_def hamlet_size_def hamlet_eq_fields_def hamlet_type_root_def)

lemma hamlet_copy_iff:
  assumes "cap_type (h a) \<noteq> 0"
  shows "hamlet_is_copy h a b \<longleftrightarrow> hamlet_compare_caps h a b False = 0"
proof (cases "cap_type (h a) = cap_type (h b)")
  case True
  show ?thesis
    unfolding hamlet_is_copy_def hamlet_general_equality_def
    using hamlet_always_copy [OF True] True assms
    by (cases "cap_type (h a) \<in> {12, 39, 43, 45}") simp_all
next
  case False
  then show ?thesis by (simp add: hamlet_is_copy_def hamlet_compare_eq0)
qed

interpretation hamlet: cap_order "hamlet_preds h" for h
proof unfold_locales
  show "compare_caps (hamlet_preds h) b a t = - compare_caps (hamlet_preds h) a b t" for a b t
    using hamlet_compare_swap [of h b a t] by (simp add: hamlet_preds_def)
next
  show "compare_caps (hamlet_preds h) a c t \<le> 0"
    if "compare_caps (hamlet_preds h) a b t \<le> 0" and "compare_caps (hamlet_preds h) b c t \<le> 0"
    for a b c t
    using that order_trans [of "hamlet_key h t a" "hamlet_key h t b" "hamlet_key h t c"]
    by (simp add: hamlet_preds_def hamlet_compare_key)
next
  show "compare_caps (hamlet_preds h) a b True = 0 \<longleftrightarrow> a = b" for a b
    by (auto simp: hamlet_preds_def hamlet_compare_eq0)
next
  show "compare_caps (hamlet_preds h) a b True = compare_caps (hamlet_preds h) a b False"
    if "compare_caps (hamlet_preds h) a b False \<noteq> 0" for a b
    using that hamlet_compare_refine by (simp add: hamlet_preds_def)
next
  show "cap_root (hamlet_preds h) a < cap_root (hamlet_preds h) b \<or>
        cap_root (hamlet_preds h) a = cap_root (hamlet_preds h) b \<and>
          (get_address (hamlet_preds h) a < get_address (hamlet_preds h) b \<or>
           get_address (hamlet_preds h) a = get_address (hamlet_preds h) b \<and>
           get_size (hamlet_preds h) b \<le> get_size (hamlet_preds h) a)"
    if "compare_caps (hamlet_preds h) a b t \<le> 0" for a b t
    using that by (auto simp: hamlet_preds_def hamlet_compare_caps_def cap_root_def)
next
  show "is_copy (hamlet_preds h) a b \<longleftrightarrow> compare_caps (hamlet_preds h) a b False = 0"
    if "objtype (hamlet_preds h) a \<noteq> 0" for a b
    using that hamlet_copy_iff by (simp add: hamlet_preds_def)
qed

end
