(* ===== verification/Mdb_Tree.thy ===== *)
theory Mdb_Tree
  imports Caps
begin

text \<open>
  The mapping database of \<^verbatim>\<open>lib/mdb/mdb_tree.c\<close>: all capabilities of a core in an
  Andersson (AA) tree ordered by \<open>compare_caps\<close>, in which every node also records the
  largest end address below it. This theory holds the tree, the rebalancing steps,
  insertion, removal and the invariant checker, and what these do to the sequence of
  capabilities in the tree. Balance and the recorded ends are the subject of
  \<open>Mdb_Balance\<close>, the queries of \<open>Mdb_Query\<close>.

  A pointer to a \<open>struct cte\<close> in the tree is modelled by the subtree it is the root of;
  a function that updates \<open>*current\<close> returns the new subtree. The global \<open>mdb_root\<close> is
  the whole tree, so \<open>set_root\<close> is the replacement of the root by the result. Levels are
  natural numbers; \<open>Mdb_Balance\<close> proves that a \<open>uint8_t\<close> holds them.
\<close>

section \<open>The tree\<close>

text \<open>The part of a \<open>struct cte\<close> that the database stores for its clients.\<close>

record 'c cte =
  cap :: 'c
  remote_copies :: bool
  remote_ancs :: bool
  remote_descs :: bool

datatype 'c mdb =
    Null
  | Node (left: "'c mdb") (entry: "'c cte") (node_end: u64) (node_end_root: u8)
      (level: nat) (right: "'c mdb")

fun set_left :: "'c mdb \<Rightarrow> 'c mdb \<Rightarrow> 'c mdb" where
  "set_left Null l' = Null"
| "set_left (Node l c e er k r) l' = Node l' c e er k r"

fun set_right :: "'c mdb \<Rightarrow> 'c mdb \<Rightarrow> 'c mdb" where
  "set_right Null r' = Null"
| "set_right (Node l c e er k r) r' = Node l c e er k r'"

fun set_level :: "'c mdb \<Rightarrow> nat \<Rightarrow> 'c mdb" where
  "set_level Null k' = Null"
| "set_level (Node l c e er k r) k' = Node l c e er k' r"

fun inorder :: "'c mdb \<Rightarrow> 'c cte list" where
  "inorder Null = []"
| "inorder (Node l c e er k r) = inorder l @ c # inorder r"

abbreviation entries :: "'c mdb \<Rightarrow> 'c cte set" where
  "entries t \<equiv> set (inorder t)"

text \<open>A slot as the kernel hands it to \<open>mdb_insert\<close>: its tree fields are zeroed.\<close>

definition new_cte :: "'c cte \<Rightarrow> 'c mdb" where
  "new_cte c = Node Null c 0 0 0 Null"

section \<open>Invariant checking\<close>

datatype mdb_invariant =
    MDB_INVARIANT_OK
  | MDB_INVARIANT_BOTHCHILDREN
  | MDB_INVARIANT_LEFT_LEVEL_LESS
  | MDB_INVARIANT_RIGHT_LEVEL_LEQ
  | MDB_INVARIANT_RIGHTRIGHT_LEVEL_LESS
  | MDB_INVARIANT_RIGHTLEFT_LEVEL_LESS
  | MDB_INVARIANT_END_IS_MAX
  | MDB_INVARIANT_LEFT_SMALLER
  | MDB_INVARIANT_RIGHT_GREATER

text \<open>
  The end root and end that a node must record: the largest type root in its subtree, and
  the largest end address among the capabilities with that root.
\<close>

definition expected_end_root :: "'c cap_preds \<Rightarrow> 'c mdb \<Rightarrow> 'c cte \<Rightarrow> 'c mdb \<Rightarrow> u8" where
  "expected_end_root P l c r =
     (let er = cap_root P (cap c);
          er = (if l \<noteq> Null then max er (node_end_root l) else er);
          er = (if r \<noteq> Null then max er (node_end_root r) else er)
      in er)"

definition expected_end :: "'c cap_preds \<Rightarrow> 'c mdb \<Rightarrow> 'c cte \<Rightarrow> 'c mdb \<Rightarrow> u8 \<Rightarrow> u64" where
  "expected_end P l c r er =
     (let e = (if cap_root P (cap c) = er then get_address P (cap c) + get_size P (cap c) else 0);
          e = (if l \<noteq> Null \<and> node_end_root l = er then max e (node_end l) else e);
          e = (if r \<noteq> Null \<and> node_end_root r = er then max e (node_end r) else e)
      in e)"

fun mdb_check_subtree_invariants :: "'c cap_preds \<Rightarrow> 'c mdb \<Rightarrow> mdb_invariant outcome" where
  "mdb_check_subtree_invariants P Null = Ok MDB_INVARIANT_OK"
| "mdb_check_subtree_invariants P (Node l c e er k r) =
    (if objtype P (cap c) = 0 then Abort
     else if k > 0 \<and> \<not> (l \<noteq> Null \<and> r \<noteq> Null) then Ok MDB_INVARIANT_BOTHCHILDREN
     else if l \<noteq> Null \<and> \<not> level l < k then Ok MDB_INVARIANT_LEFT_LEVEL_LESS
     else if r \<noteq> Null \<and> \<not> level r \<le> k then Ok MDB_INVARIANT_RIGHT_LEVEL_LEQ
     else if r \<noteq> Null \<and> right r \<noteq> Null \<and> \<not> level (right r) < k
       then Ok MDB_INVARIANT_RIGHTRIGHT_LEVEL_LESS
     else if r \<noteq> Null \<and> left r \<noteq> Null \<and> \<not> level (left r) < k
       then Ok MDB_INVARIANT_RIGHTLEFT_LEVEL_LESS
     else if er \<noteq> expected_end_root P l c r then Ok MDB_INVARIANT_END_IS_MAX
     else if e \<noteq> expected_end P l c r er then Ok MDB_INVARIANT_END_IS_MAX
     else if l \<noteq> Null \<and> compare_caps P (cap (entry l)) (cap c) True \<ge> 0
       then Ok MDB_INVARIANT_LEFT_SMALLER
     else case mdb_check_subtree_invariants P l of
       Ok MDB_INVARIANT_OK \<Rightarrow>
         (if r \<noteq> Null \<and> compare_caps P (cap (entry r)) (cap c) True \<le> 0
          then Ok MDB_INVARIANT_RIGHT_GREATER
          else mdb_check_subtree_invariants P r)
     | res \<Rightarrow> res)"

fun mdb_is_reachable :: "'c mdb \<Rightarrow> 'c \<Rightarrow> bool" where
  "mdb_is_reachable Null x = False"
| "mdb_is_reachable (Node l c e er k r) x =
     (if cap c = x then True
      else if l \<noteq> Null \<and> mdb_is_reachable l x then True
      else if r \<noteq> Null \<and> mdb_is_reachable r x then True
      else False)"

section \<open>Rebalancing\<close>

fun mdb_update_end :: "'c cap_preds \<Rightarrow> 'c mdb \<Rightarrow> 'c mdb" where
  "mdb_update_end P Null = Null"
| "mdb_update_end P (Node l c e er k r) =
     (let er' = expected_end_root P l c r
      in Node l c (expected_end P l c r er') er' k r)"

fun mdb_skew :: "'c cap_preds \<Rightarrow> 'c mdb \<Rightarrow> 'c mdb" where
  "mdb_skew P (Node (Node a lc le ler lk b) c e er k r) =
     (if k = lk
      then mdb_update_end P (Node a lc le ler lk (mdb_update_end P (Node b c e er k r)))
      else Node (Node a lc le ler lk b) c e er k r)"
| "mdb_skew P t = t"

fun mdb_split :: "'c cap_preds \<Rightarrow> 'c mdb \<Rightarrow> 'c mdb" where
  "mdb_split P (Node a c e er k (Node b rc re rer rk (Node xl xc xe xer xk xr))) =
     (if k = xk
      then mdb_update_end P (Node (mdb_update_end P (Node a c e er k b)) rc re rer (rk + 1)
             (Node xl xc xe xer xk xr))
      else Node a c e er k (Node b rc re rer rk (Node xl xc xe xer xk xr)))"
| "mdb_split P t = t"

text \<open>The callers check \<open>assert(node)\<close>.\<close>

fun mdb_decrease_level :: "'c mdb \<Rightarrow> 'c mdb" where
  "mdb_decrease_level Null = Null"
| "mdb_decrease_level (Node l c e er k r) =
     (let expected = (if l = Null \<or> r = Null then 0 else min (level l) (level r) + 1)
      in if expected < k
         then Node l c e er expected
                (if r \<noteq> Null \<and> expected < level r then set_level r expected else r)
         else Node l c e er k r)"

definition mdb_rebalance :: "'c cap_preds \<Rightarrow> 'c mdb \<Rightarrow> 'c mdb outcome" where
  "mdb_rebalance P node =
     (if node = Null then Abort
      else
        let node = mdb_update_end P node;
            node = mdb_decrease_level node;
            node = mdb_skew P node;
            node = set_right node (mdb_skew P (right node));
            node = (if right node \<noteq> Null
                    then set_right node
                           (set_right (right node) (mdb_skew P (right (right node))))
                    else node);
            node = mdb_split P node;
            node = set_right node (mdb_split P (right node))
        in Ok node)"

section \<open>Insertion\<close>

fun mdb_sub_insert :: "'c cap_preds \<Rightarrow> 'c mdb \<Rightarrow> 'c mdb \<Rightarrow> 'c mdb outcome" where
  "mdb_sub_insert P new_node Null =
     (if new_node = Null then Abort else Ok (mdb_update_end P new_node))"
| "mdb_sub_insert P new_node (Node l c e er k r) =
     (if new_node = Null then Abort
      else
        let compare = compare_caps P (cap (entry new_node)) (cap c) True in
        if compare < 0 then
          bind_outcome (mdb_sub_insert P new_node l) (\<lambda>l'.
            Ok (mdb_split P (mdb_skew P (mdb_update_end P (Node l' c e er k r)))))
        else if compare > 0 then
          bind_outcome (mdb_sub_insert P new_node r) (\<lambda>r'.
            Ok (mdb_split P (mdb_skew P (mdb_update_end P (Node l c e er k r')))))
        else Err CAPS_ERR_MDB_DUPLICATE_ENTRY)"

definition mdb_insert :: "'c cap_preds \<Rightarrow> 'c mdb \<Rightarrow> 'c mdb \<Rightarrow> 'c mdb outcome" where
  "mdb_insert P mdb_root new_node = mdb_sub_insert P new_node mdb_root"

section \<open>Removal\<close>

text \<open>
  \<open>mdb_exchange_nodes\<close> lets two slots change places: each takes the children and the level
  of the other. Removal exchanges the target with the predecessor (or successor) leaf, so
  in the tree the leaf's slot appears where the target was. \<open>mdb_exchange_remove\<close> returns
  the subtree without that leaf, and the slot that takes the target's place
  (\<open>*ret_target\<close>).

  The last case of a search for the successor (\<open>dir < 0\<close>) is a node without left child
  whose right child \<open>rc\<close> is at the same level. There the node and its right child change
  places first, and then the node and the target: the right child is left in the place of
  the node, with an end computed while the node was still below it.
\<close>

fun mdb_exchange_remove ::
  "'c cap_preds \<Rightarrow> 'c \<Rightarrow> int \<Rightarrow> 'c mdb \<Rightarrow> ('c mdb \<times> 'c cte) outcome" where
  "mdb_exchange_remove P target dir Null = Abort"
| "mdb_exchange_remove P target dir (Node l c e er k r) =
     (if objtype P target = 0 \<or> objtype P (cap c) = 0 \<or> dir = 0 \<or>
         compare_caps P target (cap c) True = 0 then Abort
      else if dir > 0 then
        (if r \<noteq> Null then
           bind_outcome (mdb_exchange_remove P target dir r) (\<lambda>(r', ret_target).
             bind_outcome (mdb_rebalance P (Node l c e er k r')) (\<lambda>t. Ok (t, ret_target)))
         else if l = Null then Ok (Null, c) else Abort)
      else
        (if l \<noteq> Null then
           bind_outcome (mdb_exchange_remove P target dir l) (\<lambda>(l', ret_target).
             bind_outcome (mdb_rebalance P (Node l' c e er k r)) (\<lambda>t. Ok (t, ret_target)))
         else case r of
           Node rl rc re rer rk rr \<Rightarrow>
             (if k \<noteq> 0 then Abort
              else
                let node_below = mdb_update_end P (Node rl c e er rk rr);
                    new_current = mdb_update_end P (Node l rc re rer k node_below)
                in Ok (set_right new_current Null, c))
         | Null \<Rightarrow> Ok (Null, c)))"

text \<open>The end of \<open>mdb_subtree_remove\<close>: rebalance, and check the types.\<close>

definition mdb_remove_rebalance :: "'c cap_preds \<Rightarrow> 'c \<Rightarrow> 'c mdb \<Rightarrow> 'c mdb outcome" where
  "mdb_remove_rebalance P target t =
     bind_outcome (mdb_rebalance P t) (\<lambda>t'.
       if objtype P target = 0 \<or> t' \<noteq> Null \<and> objtype P (cap (entry t')) = 0 then Abort
       else Ok t')"

fun mdb_subtree_remove :: "'c cap_preds \<Rightarrow> 'c \<Rightarrow> 'c mdb \<Rightarrow> 'c mdb outcome" where
  "mdb_subtree_remove P target Null = Err CAPS_ERR_MDB_ENTRY_NOTFOUND"
| "mdb_subtree_remove P target (Node l c e er k r) =
     (let compare = compare_caps P target (cap c) True in
      if compare > 0 then
        bind_outcome (mdb_subtree_remove P target r) (\<lambda>r'.
          mdb_remove_rebalance P target (Node l c e er k r'))
      else if compare < 0 then
        bind_outcome (mdb_subtree_remove P target l) (\<lambda>l'.
          mdb_remove_rebalance P target (Node l' c e er k r))
      else if cap c \<noteq> target then Abort
      else if l = Null \<and> r = Null then Ok Null
      else if l = Null then
        bind_outcome (mdb_exchange_remove P target (-1) r) (\<lambda>(new_right, new_current).
          mdb_remove_rebalance P target (Node l new_current e er k new_right))
      else
        bind_outcome (mdb_exchange_remove P target 1 l) (\<lambda>(new_left, new_current).
          mdb_remove_rebalance P target (Node new_left new_current e er k r)))"

definition mdb_remove :: "'c cap_preds \<Rightarrow> 'c mdb \<Rightarrow> 'c \<Rightarrow> 'c mdb outcome" where
  "mdb_remove P mdb_root target = mdb_subtree_remove P target mdb_root"

section \<open>What rebalancing keeps\<close>

lemma update_end_Null_iff [simp]: "mdb_update_end P t = Null \<longleftrightarrow> t = Null"
  by (cases t) (auto simp: Let_def)

lemma inorder_update_end [simp]: "inorder (mdb_update_end P t) = inorder t"
  by (cases t) (auto simp: Let_def)

lemma inorder_skew [simp]: "inorder (mdb_skew P t) = inorder t"
  by (cases "(P, t)" rule: mdb_skew.cases) (auto simp: Let_def)

lemma inorder_split [simp]: "inorder (mdb_split P t) = inorder t"
  by (cases "(P, t)" rule: mdb_split.cases) (auto simp: Let_def)

lemma inorder_set_level [simp]: "inorder (set_level t k) = inorder t"
  by (cases t) auto

lemma inorder_decrease_level [simp]: "inorder (mdb_decrease_level t) = inorder t"
  by (cases t) (auto simp: Let_def)

lemma inorder_set_right:
  "inorder (right t) = inorder r' \<Longrightarrow> inorder (set_right t r') = inorder t"
  by (cases t) auto

lemma skew_Null_iff [simp]: "mdb_skew P t = Null \<longleftrightarrow> t = Null"
  by (cases "(P, t)" rule: mdb_skew.cases) (auto simp: Let_def)

lemma split_Null_iff [simp]: "mdb_split P t = Null \<longleftrightarrow> t = Null"
  by (cases "(P, t)" rule: mdb_split.cases) (auto simp: Let_def)

lemma decrease_level_Null_iff [simp]: "mdb_decrease_level t = Null \<longleftrightarrow> t = Null"
  by (cases t) (auto simp: Let_def)

lemma set_right_Null_iff [simp]: "set_right t r = Null \<longleftrightarrow> t = Null"
  by (cases t) auto

lemma set_level_Null_iff [simp]: "set_level t k = Null \<longleftrightarrow> t = Null"
  by (cases t) auto

lemma rebalance_Node: "t \<noteq> Null \<Longrightarrow> \<exists>t'. mdb_rebalance P t = Ok t'"
  by (simp add: mdb_rebalance_def Let_def)

lemma rebalance_inorder: "mdb_rebalance P t = Ok t' \<Longrightarrow> inorder t' = inorder t"
  by (auto simp: mdb_rebalance_def Let_def inorder_set_right split: if_splits)

lemma rebalance_not_Null: "mdb_rebalance P t = Ok t' \<Longrightarrow> t' \<noteq> Null"
  by (auto simp: mdb_rebalance_def Let_def split: if_splits)

lemma rebalance_not_Err [simp]: "mdb_rebalance P t \<noteq> Err x"
  by (simp add: mdb_rebalance_def Let_def)

section \<open>The order of the capabilities\<close>

definition mdb_sorted :: "'c cap_preds \<Rightarrow> 'c mdb \<Rightarrow> bool" where
  "mdb_sorted P t \<longleftrightarrow>
     sorted_wrt (\<lambda>a b. compare_caps P (cap a) (cap b) True < 0) (inorder t)"

definition mdb_typed :: "'c cap_preds \<Rightarrow> 'c mdb \<Rightarrow> bool" where
  "mdb_typed P t \<longleftrightarrow> (\<forall>c \<in> entries t. objtype P (cap c) \<noteq> 0)"

lemma mdb_sorted_Null [simp]: "mdb_sorted P Null"
  by (simp add: mdb_sorted_def)

lemma mdb_sorted_Node:
  "mdb_sorted P (Node l c e er k r) \<longleftrightarrow>
     mdb_sorted P l \<and> mdb_sorted P r \<and>
     (\<forall>x \<in> entries l. compare_caps P (cap x) (cap c) True < 0) \<and>
     (\<forall>x \<in> entries r. compare_caps P (cap c) (cap x) True < 0) \<and>
     (\<forall>x \<in> entries l. \<forall>y \<in> entries r. compare_caps P (cap x) (cap y) True < 0)"
  by (auto simp: mdb_sorted_def sorted_wrt_append)

lemma mdb_typed_Node [simp]:
  "mdb_typed P (Node l c e er k r) \<longleftrightarrow>
     mdb_typed P l \<and> objtype P (cap c) \<noteq> 0 \<and> mdb_typed P r"
  by (auto simp: mdb_typed_def)

lemma mdb_is_reachable_iff: "mdb_is_reachable t x \<longleftrightarrow> (\<exists>c \<in> entries t. cap c = x)"
  by (induction t) auto

context cap_order
begin

lemma sorted_distinct:
  assumes "mdb_sorted P t" and "c \<in> entries t" and "d \<in> entries t" and "cap c = cap d"
  shows "c = d"
proof -
  obtain i j where ij: "i < length (inorder t)" "inorder t ! i = c"
      "j < length (inorder t)" "inorder t ! j = d"
    using assms(2,3) by (metis in_set_conv_nth)
  have less: "\<And>m n. m < n \<Longrightarrow> n < length (inorder t) \<Longrightarrow>
      compare_caps P (cap (inorder t ! m)) (cap (inorder t ! n)) True < 0"
    using assms(1) unfolding mdb_sorted_def by (metis sorted_wrt_nth_less)
  have "i = j"
  proof (rule ccontr)
    assume "i \<noteq> j"
    then consider "i < j" | "j < i" by linarith
    then show False using less [of i j] less [of j i] ij assms(4) by cases auto
  qed
  with ij show ?thesis by simp
qed

text \<open>Insertion puts the new slot between a prefix and a suffix of the sequence.\<close>

lemma sub_insert_inorder:
  assumes "mdb_sub_insert P (new_cte c) t = Ok t'"
  shows "\<exists>xs ys. inorder t = xs @ ys \<and> inorder t' = xs @ c # ys"
  using assms
proof (induction t arbitrary: t')
  case Null
  then show ?case by (auto simp: new_cte_def Let_def)
next
  case (Node l d e er k r)
  consider (lt) "compare_caps P (cap c) (cap d) True < 0"
    | (gt) "compare_caps P (cap c) (cap d) True > 0"
    using Node.prems by (auto simp: new_cte_def Let_def split: if_splits)
  then show ?case
  proof cases
    case lt
    then obtain l' where l': "mdb_sub_insert P (new_cte c) l = Ok l'"
      and t': "inorder t' = inorder l' @ d # inorder r"
      using Node.prems by (auto simp: new_cte_def Let_def)
    from Node.IH(1) [OF l'] obtain xs ys where
      "inorder l = xs @ ys" "inorder l' = xs @ c # ys" by auto
    with t' show ?thesis by (intro exI [of _ xs] exI [of _ "ys @ d # inorder r"]) simp
  next
    case gt
    then obtain r' where r': "mdb_sub_insert P (new_cte c) r = Ok r'"
      and t': "inorder t' = inorder l @ d # inorder r'"
      using Node.prems by (auto simp: new_cte_def Let_def)
    from Node.IH(2) [OF r'] obtain xs ys where
      "inorder r = xs @ ys" "inorder r' = xs @ c # ys" by auto
    with t' show ?thesis by (intro exI [of _ "inorder l @ d # xs"] exI [of _ ys]) simp
  qed
qed

lemma sub_insert_entries:
  "mdb_sub_insert P (new_cte c) t = Ok t' \<Longrightarrow> entries t' = insert c (entries t)"
  using sub_insert_inorder [of c t t'] by auto

lemma sub_insert_sorted:
  "mdb_sub_insert P (new_cte c) t = Ok t' \<Longrightarrow> mdb_sorted P t \<Longrightarrow> mdb_sorted P t'"
proof (induction t arbitrary: t')
  case Null
  then show ?case by (auto simp: new_cte_def Let_def mdb_sorted_def)
next
  case (Node l d e er k r)
  note sorted = Node.prems(2) [unfolded mdb_sorted_Node]
  consider (lt) "compare_caps P (cap c) (cap d) True < 0"
    | (gt) "compare_caps P (cap d) (cap c) True < 0"
    using Node.prems(1) by (auto simp: new_cte_def Let_def cmp_neg_iff split: if_splits)
  then show ?case
  proof cases
    case lt
    then obtain l' where l': "mdb_sub_insert P (new_cte c) l = Ok l'"
      and t': "inorder t' = inorder l' @ d # inorder r"
      using Node.prems(1) by (auto simp: new_cte_def Let_def)
    have "mdb_sorted P (Node l' d e er k r)"
      using Node.IH(1) [OF l'] sorted lt cmp_less_trans
      by (auto simp: mdb_sorted_Node sub_insert_entries [OF l'])
    then show ?thesis by (simp add: mdb_sorted_def t')
  next
    case gt
    then have "\<not> compare_caps P (cap c) (cap d) True < 0" "compare_caps P (cap c) (cap d) True > 0"
      using cmp_lessD by blast+
    then obtain r' where r': "mdb_sub_insert P (new_cte c) r = Ok r'"
      and t': "inorder t' = inorder l @ d # inorder r'"
      using Node.prems(1) by (auto simp: new_cte_def Let_def)
    have "mdb_sorted P (Node l d e er k r')"
      using Node.IH(2) [OF r'] sorted gt cmp_less_trans
      by (auto simp: mdb_sorted_Node sub_insert_entries [OF r'])
    then show ?thesis by (simp add: mdb_sorted_def t')
  qed
qed

text \<open>Insertion fails exactly when the slot is in the tree already.\<close>

lemma sub_insert_cases:
  "mdb_sorted P t \<Longrightarrow>
   (if \<exists>d \<in> entries t. cap d = cap c
    then mdb_sub_insert P (new_cte c) t = Err CAPS_ERR_MDB_DUPLICATE_ENTRY
    else \<exists>t'. mdb_sub_insert P (new_cte c) t = Ok t')"
proof (induction t)
  case Null
  then show ?case by (simp add: new_cte_def)
next
  case (Node l d e er k r)
  note sorted = Node.prems [unfolded mdb_sorted_Node]
  consider (lt) "compare_caps P (cap c) (cap d) True < 0"
    | (gt) "compare_caps P (cap d) (cap c) True < 0" | (eq) "cap c = cap d"
    using cmp_tie cmp_neg_iff by (meson linorder_less_linear)
  then show ?case
  proof cases
    case lt
    have "\<not> (\<exists>x \<in> insert d (entries r). cap x = cap c)"
      using lt sorted cmp_less_trans [OF lt] by (metis cmp_same insertE order_less_irrefl)
    then show ?thesis using Node.IH(1) sorted lt by (auto simp: new_cte_def Let_def split: if_splits)
  next
    case gt
    have "\<not> (\<exists>x \<in> insert d (entries l). cap x = cap c)"
      using gt sorted cmp_less_trans by (metis cmp_same insertE order_less_irrefl)
    moreover have "\<not> compare_caps P (cap c) (cap d) True < 0" "compare_caps P (cap c) (cap d) True > 0"
      using cmp_lessD [OF gt] by blast+
    ultimately show ?thesis using Node.IH(2) sorted
      by (auto simp: new_cte_def Let_def split: if_splits)
  next
    case eq
    then show ?thesis by (auto simp: new_cte_def)
  qed
qed

end

end
