(* ===== verification/Mdb_Balance.thy ===== *)
theory Mdb_Balance
  imports Mdb_Tree
begin

text \<open>
  The invariants of the mapping database and that insertion and removal keep them: the
  AA balance condition, the recorded ends as a lexicographic maximum, and the order and
  the types of the capabilities. Removal needs the balance condition to satisfy its own
  assertions, so its functional correctness is here too. The theory ends with the
  soundness of the invariant checker and the bounds on levels and depth.
\<close>

section \<open>Balance\<close>

fun lvl :: "'c mdb \<Rightarrow> nat" where
  "lvl Null = 0"
| "lvl (Node l c e er k r) = Suc k"

fun mdb_aa :: "'c mdb \<Rightarrow> bool" where
  "mdb_aa Null = True"
| "mdb_aa (Node l c e er k r) \<longleftrightarrow>
     mdb_aa l \<and> mdb_aa r \<and> lvl l = k \<and> (lvl r = k \<or> lvl r = Suc k \<and> lvl (right r) = k)"

text \<open>A node without a horizontal right link.\<close>

fun sngl :: "'c mdb \<Rightarrow> bool" where
  "sngl Null = False"
| "sngl (Node l c e er k r) = (lvl r = k)"

lemma lvl_0_iff [simp]: "lvl t = 0 \<longleftrightarrow> t = Null" "0 = lvl t \<longleftrightarrow> t = Null"
  by (cases t; simp)+

lemma lvl_Suc_iff: "lvl t = Suc k \<longleftrightarrow> (\<exists>l c e er r. t = Node l c e er k r)"
  by (cases t) auto

lemma sngl_iff: "sngl t \<longleftrightarrow> t \<noteq> Null \<and> lvl t = Suc (lvl (right t))"
  by (cases t) auto

lemma update_end_Node:
  "\<exists>e' er'. mdb_update_end P (Node l c e er k r) = Node l c e' er' k r"
  by (simp add: Let_def)

lemma lvl_update_end [simp]: "lvl (mdb_update_end P t) = lvl t"
  by (cases t) (auto simp: Let_def)

lemma aa_update_end [simp]: "mdb_aa (mdb_update_end P t) = mdb_aa t"
  by (cases t) (auto simp: Let_def)

lemma sngl_update_end [simp]: "sngl (mdb_update_end P t) = sngl t"
  by (cases t) (auto simp: Let_def)

lemma skew_id: "lvl l \<noteq> Suc k \<Longrightarrow> mdb_skew P (Node l c e er k r) = Node l c e er k r"
  by (cases l) simp_all

lemma split_id:
  assumes "r \<noteq> Null \<Longrightarrow> lvl (right r) \<noteq> Suc k"
  shows "mdb_split P (Node l c e er k r) = Node l c e er k r"
proof (cases r)
  case (Node b rc re rer rk rr)
  with assms show ?thesis by (cases rr) simp_all
qed simp

lemma aa_right_lvl: "mdb_aa (Node l c e er k r) \<Longrightarrow> r \<noteq> Null \<Longrightarrow> lvl (right r) \<le> k"
  by (cases r) auto

lemma aa_skew_id: "mdb_aa (Node l c e er k r) \<Longrightarrow> mdb_skew P (Node l c e er k r) = Node l c e er k r"
  by (rule skew_id) simp

lemma aa_split_id:
  "mdb_aa (Node l c e er k r) \<Longrightarrow> mdb_split P (Node l c e er k r) = Node l c e er k r"
  by (rule split_id) (use aa_right_lvl in fastforce)

lemma decrease_level_Node:
  "mdb_decrease_level (Node l c e er k r) =
     (if min (lvl l) (lvl r) < k
      then Node l c e er (min (lvl l) (lvl r))
             (if Suc (min (lvl l) (lvl r)) < lvl r then set_level r (min (lvl l) (lvl r)) else r)
      else Node l c e er k r)"
  by (cases l; cases r) (auto simp: Let_def)

declare mdb_decrease_level.simps(2) [simp del]

subsection \<open>Insertion\<close>

text \<open>What insertion does to the level: it grows only from a node with a horizontal link.\<close>

definition post_ins :: "'c mdb \<Rightarrow> 'c mdb \<Rightarrow> bool" where
  "post_ins t t' \<longleftrightarrow>
     mdb_aa t' \<and> (lvl t' = lvl t \<or> lvl t' = Suc (lvl t) \<and> \<not> sngl t \<and> sngl t')"

text \<open>A balanced node is left alone.\<close>

lemma aa_step_id:
  assumes "mdb_aa (Node l c e er k r)"
  shows "mdb_split P (mdb_skew P (mdb_update_end P (Node l c e er k r))) =
    mdb_update_end P (Node l c e er k r)"
proof -
  obtain e' er' where *: "mdb_update_end P (Node l c e er k r) = Node l c e' er' k r"
    using update_end_Node by blast
  moreover have "mdb_aa (Node l c e' er' k r)" using assms by simp
  ultimately show ?thesis using aa_skew_id aa_split_id by metis
qed

lemma post_ins_left:
  assumes t: "mdb_aa (Node l c e er k r)" and l': "post_ins l l'"
  shows "post_ins (Node l c e er k r)
           (mdb_split P (mdb_skew P (mdb_update_end P (Node l' c e er k r))))"
proof (cases "lvl l' = lvl l")
  case True
  with t l' have "mdb_aa (Node l' c e er k r)" by (simp add: post_ins_def)
  with t True show ?thesis
    unfolding aa_step_id [OF \<open>mdb_aa (Node l' c e er k r)\<close>] by (simp add: post_ins_def Let_def)
next
  case False
  with t l' obtain a d ae aer b where l'_eq: "l' = Node a d ae aer k b" and "lvl b = k" "lvl a = k"
    by (auto simp: post_ins_def lvl_Suc_iff)
  with t l' show ?thesis
    by (cases r) (auto simp: post_ins_def Let_def)
qed

lemma post_ins_right:
  assumes t: "mdb_aa (Node l c e er k r)" and r': "post_ins r r'"
  shows "post_ins (Node l c e er k r)
           (mdb_split P (mdb_skew P (mdb_update_end P (Node l c e er k r'))))"
proof (cases "mdb_aa (Node l c e er k r')")
  case True
  then show ?thesis unfolding aa_step_id [OF True]
    using t by (simp add: post_ins_def Let_def)
next
  case False
  then have "\<not> (lvl r' = k \<or> lvl r' = Suc k \<and> lvl (right r') = k)"
    using t r' by (simp add: post_ins_def)
  moreover have "lvl r = k \<or> lvl r = Suc k \<and> lvl (right r) = k" using t by simp
  ultimately have "lvl r' = Suc k" "lvl (right r') \<noteq> k" "lvl r = Suc k" "lvl (right r) = k"
    using r' by (auto simp: post_ins_def sngl_iff)
  moreover from this obtain b d be ber rr where r'_eq: "r' = Node b d be ber k rr" and "lvl b = k"
      "lvl rr = Suc k"
    using r' by (auto simp: post_ins_def lvl_Suc_iff)
  moreover from this obtain xl xc xe xer xr where rr_eq: "rr = Node xl xc xe xer k xr"
    by (auto simp: lvl_Suc_iff)
  ultimately show ?thesis using t r'
    by (simp add: post_ins_def Let_def skew_id)
qed

lemma sub_insert_aa:
  "mdb_sub_insert P (new_cte c) t = Ok t' \<Longrightarrow> mdb_aa t \<Longrightarrow> post_ins t t'"
proof (induction t arbitrary: t')
  case Null
  then show ?case by (auto simp: new_cte_def post_ins_def Let_def)
next
  case (Node l d e er k r)
  note aa = Node.prems(2)
  from aa have "mdb_aa l" "mdb_aa r" by simp_all
  with Node.IH Node.prems(1) show ?case
    using post_ins_left [OF aa] post_ins_right [OF aa]
    by (auto simp: new_cte_def Let_def simp del: mdb_update_end.simps split: if_splits)
qed

subsection \<open>Removal\<close>

lemma aa_skew: "mdb_aa t \<Longrightarrow> mdb_skew P t = t"
  by (cases t) (auto intro!: aa_skew_id)

lemma aa_split: "mdb_aa t \<Longrightarrow> mdb_split P t = t"
  by (cases t) (auto intro!: aa_split_id)

lemma aa_right [simp]: "mdb_aa t \<Longrightarrow> t \<noteq> Null \<Longrightarrow> mdb_aa (right t)"
  by (cases t) auto

lemma set_right_same [simp]: "set_right t (right t) = t"
  by (cases t) auto

text \<open>What removal does to the level: it shrinks by at most one.\<close>

definition post_del :: "'c mdb \<Rightarrow> 'c mdb \<Rightarrow> bool" where
  "post_del t t' \<longleftrightarrow>
     mdb_aa t' \<and> (lvl t' = lvl t \<or> Suc (lvl t') = lvl t) \<and>
     (lvl t' = lvl t \<and> sngl t \<longrightarrow> sngl t')"

lemma rebalance_id:
  assumes "mdb_aa (Node l c e er k r)"
  shows "mdb_rebalance P (Node l c e er k r) = Ok (mdb_update_end P (Node l c e er k r))"
proof -
  obtain e' er' where *: "mdb_update_end P (Node l c e er k r) = Node l c e' er' k r"
    using update_end_Node by blast
  let ?t = "Node l c e' er' k r"
  have aa: "mdb_aa ?t" using assms by simp
  then have "mdb_decrease_level ?t = ?t" by (auto simp: decrease_level_Node)
  moreover have "mdb_skew P r = r" "mdb_split P r = r" using aa by (simp_all add: aa_skew aa_split)
  moreover have "r \<noteq> Null \<Longrightarrow> mdb_skew P (right r) = right r" using aa by (simp add: aa_skew)
  moreover note aa_skew [OF aa, of P] aa_split [OF aa, of P]
  ultimately show ?thesis
    unfolding mdb_rebalance_def * by (cases "r = Null") (simp_all add: Let_def)
qed

lemma rebalance_decrease_right:
  assumes "mdb_aa l" "mdb_aa r" "lvl l = Suc k" "lvl r = k"
  shows "\<exists>t'. mdb_rebalance P (Node l c e er (Suc k) r) = Ok t' \<and> mdb_aa t' \<and>
    (lvl t' = Suc k \<or> lvl t' = Suc (Suc k) \<and> sngl t')"
proof -
  obtain a d ae aer b where l: "l = Node a d ae aer k b" using assms(3) by (auto simp: lvl_Suc_iff)
  show ?thesis
  proof (cases "lvl b = k")
    case True
    then show ?thesis using assms
      by (cases r) (auto simp: l mdb_rebalance_def Let_def decrease_level_Node skew_id split_id)
  next
    case False
    then obtain b1 bc be ber b2 where b: "b = Node b1 bc be ber k b2" "lvl b1 = k" "lvl b2 = k"
      using assms by (auto simp: l lvl_Suc_iff)
    with assms show ?thesis 
      by (cases r) (auto simp: l mdb_rebalance_def Let_def decrease_level_Node skew_id split_id)
  qed
qed

lemma rebalance_decrease_left:
  assumes "mdb_aa l" "mdb_aa r" "lvl l = k" "lvl r = Suc k"
  shows "\<exists>t'. mdb_rebalance P (Node l c e er (Suc k) r) = Ok t' \<and> mdb_aa t' \<and>
    (lvl t' = Suc k \<or> lvl t' = Suc (Suc k) \<and> sngl t')"
proof -
  obtain a d ae aer b where r: "r = Node a d ae aer k b" using assms(4) by (auto simp: lvl_Suc_iff)
  show ?thesis
  proof (cases "lvl b = k")
    case True
    then show ?thesis using assms aa_skew [of b P] aa_right_lvl [of a d ae aer k b]
        aa_split_id [of a d ae aer k b P]
      by (auto simp: r mdb_rebalance_def Let_def decrease_level_Node skew_id split_id)
  next
    case False
    then obtain b1 bc be ber b2 where b: "b = Node b1 bc be ber k b2" "lvl b1 = k" "lvl b2 = k"
      using assms by (auto simp: r lvl_Suc_iff)
    with assms show ?thesis using aa_right_lvl [of b1 bc be ber k b2]
        aa_split_id [of b1 bc be ber k b2 P]
      by (auto simp: r mdb_rebalance_def Let_def decrease_level_Node skew_id split_id)
  qed
qed

lemma rebalance_decrease_both:
  assumes "mdb_aa l" "mdb_aa r" "lvl l = k" "lvl r = Suc (Suc k)" "lvl (right r) = Suc k"
  shows "\<exists>t'. mdb_rebalance P (Node l c e er (Suc k) r) = Ok t' \<and> mdb_aa t' \<and>
    lvl t' = Suc (Suc k)"
proof -
  obtain rl d ae aer rr where r: "r = Node rl d ae aer (Suc k) rr" "lvl rl = Suc k" "lvl rr = Suc k"
    using assms(2,4,5) by (auto simp: lvl_Suc_iff)
  obtain a c1 e1 er1 b where rl: "rl = Node a c1 e1 er1 k b" "lvl a = k"
    using r assms(2) by (auto simp: lvl_Suc_iff)
  obtain x c2 e2 er2 y where rr: "rr = Node x c2 e2 er2 k y" "lvl x = k"
    using r assms(2) by (auto simp: lvl_Suc_iff)
  have y: "lvl y = k \<or> (\<exists>y1 c4 e4 er4 y2. y = Node y1 c4 e4 er4 k y2 \<and> lvl y2 = k)"
    using assms(2) by (cases y) (auto simp: r rr)
  show ?thesis
  proof (cases "lvl b = k")
    case True
    then show ?thesis using assms y
      by (auto simp: r rl rr mdb_rebalance_def Let_def decrease_level_Node skew_id split_id)
  next
    case False
    then obtain b1 c3 e3 er3 b2 where "b = Node b1 c3 e3 er3 k b2" "lvl b1 = k" "lvl b2 = k"
      using assms by (auto simp: r rl lvl_Suc_iff)
    with assms y show ?thesis
      by (auto simp: r rl rr mdb_rebalance_def Let_def decrease_level_Node skew_id split_id)
  qed
qed

lemma rebalance_left:
  assumes t: "mdb_aa (Node l c e er k r)" and l': "post_del l l'"
  shows "\<exists>t'. mdb_rebalance P (Node l' d e' er' k r) = Ok t' \<and> post_del (Node l c e er k r) t'"
proof (cases "lvl l' = lvl l")
  case True
  with t l' have "mdb_aa (Node l' d e' er' k r)" by (simp add: post_del_def)
  from rebalance_id [OF this] show ?thesis using t True l' by (auto simp: post_del_def Let_def)
next
  case False
  with t l' have l'': "mdb_aa l'" "mdb_aa r" "Suc (lvl l') = k"
    and r: "lvl r = k \<or> lvl r = Suc k \<and> lvl (right r) = k"
    by (auto simp: post_del_def)
  from r show ?thesis
  proof
    assume "lvl r = k"
    with l'' rebalance_decrease_left [of l' r "lvl l'" P d e' er'] show ?thesis
      by (auto simp: post_del_def)
  next
    assume "lvl r = Suc k \<and> lvl (right r) = k"
    with l'' rebalance_decrease_both [of l' r "lvl l'" P d e' er'] show ?thesis
      by (auto simp: post_del_def)
  qed
qed

lemma rebalance_right:
  assumes t: "mdb_aa (Node l c e er k r)" and r': "post_del r r'"
  shows "\<exists>t'. mdb_rebalance P (Node l d e' er' k r') = Ok t' \<and> post_del (Node l c e er k r) t'"
proof (cases "mdb_aa (Node l d e' er' k r')")
  case True
  from rebalance_id [OF this] show ?thesis using t True r' by (auto simp: post_del_def Let_def)
next
  case False
  with t r' have "mdb_aa l" "mdb_aa r'" "lvl l = k" "Suc (lvl r') = k" "lvl r = k"
    by (auto simp: post_del_def sngl_iff)
  with rebalance_decrease_right [of l r' "lvl r'" P d e' er'] show ?thesis
    by (auto simp: post_del_def)
qed

section \<open>The recorded ends\<close>

text \<open>
  Every node records the end root and the end that \<open>mdb_update_end\<close> computes from its
  capability and its children.
\<close>

fun mdb_aug :: "'c cap_preds \<Rightarrow> 'c mdb \<Rightarrow> bool" where
  "mdb_aug P Null = True"
| "mdb_aug P (Node l c e er k r) \<longleftrightarrow>
     mdb_aug P l \<and> mdb_aug P r \<and> er = expected_end_root P l c r \<and> e = expected_end P l c r er"

text \<open>
  Seen from outside, a node records the lexicographically largest pair of type root and end
  address below it.
\<close>

definition end_key :: "'c cap_preds \<Rightarrow> 'c cte \<Rightarrow> u8 \<times> u64" where
  "end_key P c = (cap_root P (cap c), cap_end P (cap c))"

lemma max_pair_eq:
  "max (a, x) (b, y) = (max a b, max (if a = max a b then x else 0) (if b = max a b then y else 0))"
  for a b :: u8 and x y :: u64
  by (cases a b rule: linorder_cases) (auto simp: max_def)

lemma max_pair_eq3:
  "max (max (a, x) (b, y)) (c, z) =
     (max (max a b) c,
      max (max (if a = max (max a b) c then x else 0) (if b = max (max a b) c then y else 0))
        (if c = max (max a b) c then z else 0))"
  for a b c :: u8 and x y z :: u64
proof (cases "max a b" c rule: linorder_cases)
  case less
  then have "a \<noteq> c" "b \<noteq> c" "max (max a b) c = c" by auto
  then show ?thesis using less unfolding max_pair_eq [of a x b y] by (auto simp: max_def)
next
  case equal
  then show ?thesis unfolding max_pair_eq [of a x b y] max_pair_eq by auto
next
  case greater
  then have "max (max a b) c = max a b" "c \<noteq> max a b" by auto
  then show ?thesis unfolding max_pair_eq [of a x b y] max_pair_eq by auto
qed

lemma expected_key:
  "(expected_end_root P l c r, expected_end P l c r (expected_end_root P l c r)) =
     (let k = end_key P c;
          k = (if l \<noteq> Null then max k (node_end_root l, node_end l) else k);
          k = (if r \<noteq> Null then max k (node_end_root r, node_end r) else k)
      in k)"
proof -
  have if_max: "(if b then max x y else x) = max x (if b then y else 0)" "max x 0 = x"
    for b and x y :: u64
    by simp_all
  note defs = expected_end_root_def expected_end_def end_key_def Let_def cap_end_def
    if_max simp_thms if_True if_False
  show ?thesis
  proof (cases "l = Null \<or> r = Null")
    case True
    then show ?thesis
      by (elim disjE; cases "l = Null"; cases "r = Null") (simp_all only: defs max_pair_eq)
  next
    case False
    then show ?thesis by (simp only: de_Morgan_disj defs max_pair_eq3)
  qed
qed

lemma aug_key:
  "mdb_aug P t \<Longrightarrow> t \<noteq> Null \<Longrightarrow>
   (node_end_root t, node_end t) = Max (end_key P ` entries t)"
proof (induction t)
  case (Node l c e er k r)
  let ?L = "end_key P ` entries l" and ?R = "end_key P ` entries r"
  have ne: "l \<noteq> Null \<Longrightarrow> ?L \<noteq> {}" "r \<noteq> Null \<Longrightarrow> ?R \<noteq> {}" 
    by (cases l; simp) (cases r; simp)
  have ins: "end_key P ` entries (Node l c e er k r) = insert (end_key P c) (?L \<union> ?R)"
    by auto
  have Max_key: "Max (insert (end_key P c) (?L \<union> ?R)) = (let k = end_key P c;
          k = (if l \<noteq> Null then max k (Max ?L) else k);
          k = (if r \<noteq> Null then max k (Max ?R) else k) in k)"
    using ne by (cases "l = Null"; cases "r = Null") (simp_all add: Max_Un max.assoc)
  have "(er, e) = (let k = end_key P c;
          k = (if l \<noteq> Null then max k (node_end_root l, node_end l) else k);
          k = (if r \<noteq> Null then max k (node_end_root r, node_end r) else k) in k)"
    using Node.prems expected_key [of P l c r] by simp
  also have "\<dots> = Max (insert (end_key P c) (?L \<union> ?R))"
    using Node.prems Node.IH unfolding Max_key
    by (cases "l = Null"; cases "r = Null") (simp_all add: Let_def)
  finally show ?case unfolding ins by simp
qed simp

lemma aug_same_entries:
  assumes "mdb_aug P t" "mdb_aug P t'" "entries t = entries t'" "t \<noteq> Null" "t' \<noteq> Null"
  shows "node_end_root t = node_end_root t'" "node_end t = node_end t'"
  using aug_key [of P t] aug_key [of P t'] assms by (metis prod.inject)+

lemma aug_update_end: "mdb_aug P l \<Longrightarrow> mdb_aug P r \<Longrightarrow> mdb_aug P (mdb_update_end P (Node l c e er k r))"
  by (simp add: Let_def)

lemma aug_skew: "mdb_aug P t \<Longrightarrow> mdb_aug P (mdb_skew P t)"
  by (cases "(P, t)" rule: mdb_skew.cases) (auto simp: Let_def)

lemma aug_split: "mdb_aug P t \<Longrightarrow> mdb_aug P (mdb_split P t)"
  by (cases "(P, t)" rule: mdb_split.cases) (auto simp: Let_def)

lemma aug_set_level [simp]: "mdb_aug P (set_level t k) = mdb_aug P t"
  by (cases t) auto

lemma ends_set_level [simp]:
  "t \<noteq> Null \<Longrightarrow> node_end_root (set_level t k) = node_end_root t"
  "t \<noteq> Null \<Longrightarrow> node_end (set_level t k) = node_end t"
  by (cases t; simp)+

lemma expected_cong_right:
  assumes "r = Null \<longleftrightarrow> r' = Null" "r \<noteq> Null \<Longrightarrow> node_end_root r = node_end_root r'"
    "r \<noteq> Null \<Longrightarrow> node_end r = node_end r'"
  shows "expected_end_root P l c r = expected_end_root P l c r'"
    "expected_end P l c r er = expected_end P l c r' er"
  using assms by (auto simp: expected_end_root_def expected_end_def Let_def)

lemma aug_set_right:
  assumes "mdb_aug P t" "mdb_aug P r'" "inorder r' = inorder (right t)" "t \<noteq> Null"
  shows "mdb_aug P (set_right t r')"
proof (cases t)
  case (Node l c e er k r)
  have Null: "r = Null \<longleftrightarrow> r' = Null" using assms(3) Node by (cases r; cases r') auto
  have "r \<noteq> Null \<Longrightarrow> node_end_root r = node_end_root r'" "r \<noteq> Null \<Longrightarrow> node_end r = node_end r'"
    using aug_same_entries [of P r r'] assms Node Null by auto
  from expected_cong_right [OF Null this, of P l c] show ?thesis
    using assms Node by simp
qed (use assms in simp)

lemma aug_decrease_level: "mdb_aug P t \<Longrightarrow> mdb_aug P (mdb_decrease_level t)"
proof (cases t)
  case (Node l c e er k r)
  have "expected_end_root P l c (set_level r j) = expected_end_root P l c r"
    "expected_end P l c (set_level r j) er = expected_end P l c r er" for j er
    by (rule expected_cong_right; simp)+
  then show "mdb_aug P t \<Longrightarrow> ?thesis" by (auto simp: Node decrease_level_Node)
qed simp

lemma rebalance_aug:
  assumes "mdb_rebalance P (Node l c e er k r) = Ok t'" "mdb_aug P l" "mdb_aug P r"
  shows "mdb_aug P t'"
proof -
  define t1 where "t1 = mdb_skew P (mdb_decrease_level (mdb_update_end P (Node l c e er k r)))"
  define t2 where "t2 = set_right t1 (mdb_skew P (right t1))"
  define t3 where "t3 = (if right t2 \<noteq> Null
    then set_right t2 (set_right (right t2) (mdb_skew P (right (right t2)))) else t2)"
  define t4 where "t4 = mdb_split P t3"
  have sub: "mdb_aug P t \<Longrightarrow> t \<noteq> Null \<Longrightarrow> mdb_aug P (right t)" for t by (cases t) auto
  have "t1 \<noteq> Null" "t2 \<noteq> Null" "t3 \<noteq> Null" "t4 \<noteq> Null"
    by (simp_all add: t1_def t2_def t3_def t4_def del: mdb_update_end.simps)
  moreover have "mdb_aug P t1" unfolding t1_def
    by (intro aug_skew aug_decrease_level aug_update_end assms)
  ultimately have "mdb_aug P t2" unfolding t2_def
    by (intro aug_set_right aug_skew sub) auto
  with \<open>t2 \<noteq> Null\<close> have "mdb_aug P t3" unfolding t3_def
    by (auto intro!: aug_set_right aug_skew sub simp: inorder_set_right)
  then have "mdb_aug P t4" unfolding t4_def by (rule aug_split)
  with \<open>t4 \<noteq> Null\<close> have "mdb_aug P (set_right t4 (mdb_split P (right t4)))"
    by (intro aug_set_right aug_split sub) auto
  moreover have "t' = set_right t4 (mdb_split P (right t4))"
    using assms(1) unfolding mdb_rebalance_def Let_def
    unfolding t1_def [symmetric] unfolding t2_def [symmetric]
    unfolding t3_def [symmetric] unfolding t4_def [symmetric] by simp
  ultimately show ?thesis by simp
qed

lemma sub_insert_aug:
  "mdb_sub_insert P (new_cte c) t = Ok t' \<Longrightarrow> mdb_aug P t \<Longrightarrow> mdb_aug P t'"
proof (induction t arbitrary: t')
  case Null
  then show ?case by (auto simp: new_cte_def Let_def)
next
  case (Node l d e er k r)
  then have "mdb_aug P l" "mdb_aug P r" by simp_all
  with Node.IH Node.prems(1) show ?case
    by (auto simp: new_cte_def Let_def simp del: mdb_update_end.simps
        intro!: aug_split aug_skew aug_update_end split: if_splits)
qed

section \<open>Removal is correct\<close>

lemma exchange_remove_pred:
  assumes "mdb_aa t" "mdb_aug P t" "mdb_typed P t" "t \<noteq> Null" "objtype P target \<noteq> 0"
    "\<forall>x \<in> entries t. compare_caps P target (cap x) True \<noteq> 0"
  shows "\<exists>t' x. mdb_exchange_remove P target 1 t = Ok (t', x) \<and> inorder t = inorder t' @ [x] \<and>
    post_del t t' \<and> mdb_aug P t'"
  using assms
proof (induction t)
  case (Node l c e er k r)
  show ?case
  proof (cases "r = Null")
    case True
    then show ?thesis using Node.prems by (auto simp: post_del_def)
  next
    case False
    with Node obtain r' x where r': "mdb_exchange_remove P target 1 r = Ok (r', x)"
      "inorder r = inorder r' @ [x]" "post_del r r'" "mdb_aug P r'"
      by auto
    obtain t' where t': "mdb_rebalance P (Node l c e er k r') = Ok t'"
      "post_del (Node l c e er k r) t'"
      using rebalance_right [OF Node.prems(1) r'(3)] by blast
    have "mdb_aug P t'" using rebalance_aug [OF t'(1)] Node.prems(2) r'(4) by simp
    moreover have "mdb_exchange_remove P target 1 (Node l c e er k r) = Ok (t', x)"
      using Node.prems False r'(1) t'(1) by simp
    ultimately show ?thesis using rebalance_inorder [OF t'(1)] r'(2) t'(2) by simp
  qed
qed simp

text \<open>
  A node without left child is at level 0, so its right child is a leaf: the search for a
  successor ends at once.
\<close>

lemma exchange_remove_succ:
  assumes "mdb_aa (Node Null c e er k r)" "r \<noteq> Null" "mdb_typed P r" "objtype P target \<noteq> 0"
    "\<forall>x \<in> entries r. compare_caps P target (cap x) True \<noteq> 0"
  shows "\<exists>x. mdb_exchange_remove P target (-1) r = Ok (Null, x) \<and> inorder r = [x] \<and>
    post_del r Null"
  using assms by (cases r) (auto simp: post_del_def)

lemma remove_rebalance_Ok:
  assumes "mdb_rebalance P t = Ok t'" "objtype P target \<noteq> 0" "mdb_typed P t"
  shows "mdb_remove_rebalance P target t = Ok t'"
proof -
  have "mdb_typed P t'" using assms(3) rebalance_inorder [OF assms(1)] by (simp add: mdb_typed_def)
  then show ?thesis using assms by (cases t') (auto simp: mdb_remove_rebalance_def)
qed

text \<open>What a successful removal gives: the sequence without one slot, and the invariants.\<close>

definition removed :: "'c cap_preds \<Rightarrow> 'c \<Rightarrow> 'c mdb \<Rightarrow> 'c mdb \<Rightarrow> bool" where
  "removed P target t t' \<longleftrightarrow>
     (\<exists>xs c ys. inorder t = xs @ c # ys \<and> cap c = target \<and> inorder t' = xs @ ys) \<and>
     post_del t t' \<and> mdb_aug P t'"

lemma removedI:
  "inorder t = xs @ c # ys \<Longrightarrow> inorder t' = xs @ ys \<Longrightarrow> cap c = target \<Longrightarrow> post_del t t' \<Longrightarrow>
   mdb_aug P t' \<Longrightarrow> removed P target t t'"
  by (auto simp: removed_def)

lemma removed_Node:
  assumes t: "mdb_aa (Node l c e er k r)" "mdb_aug P (Node l c e er k r)"
      "mdb_typed P (Node l c e er k r)" "objtype P target \<noteq> 0"
    and sub: "removed P target l l' \<and> r' = r \<or> l' = l \<and> removed P target r r'"
  shows "\<exists>t'. mdb_remove_rebalance P target (Node l' c e er k r') = Ok t' \<and>
    removed P target (Node l c e er k r) t'"
proof -
  have "\<exists>t'. mdb_rebalance P (Node l' c e er k r') = Ok t' \<and> post_del (Node l c e er k r) t'"
    using sub rebalance_left [OF t(1)] rebalance_right [OF t(1)] by (auto simp: removed_def)
  then obtain t' where t': "mdb_rebalance P (Node l' c e er k r') = Ok t'"
    "post_del (Node l c e er k r) t'" by blast
  have "mdb_aug P t'" using rebalance_aug [OF t'(1)] sub t(2) by (auto simp: removed_def)
  moreover have "mdb_typed P (Node l' c e er k r')"
    using sub t(3) by (auto simp: removed_def mdb_typed_def)
  moreover have "\<exists>xs d ys. inorder (Node l c e er k r) = xs @ d # ys \<and> cap d = target \<and>
      inorder t' = xs @ ys"
    using sub
  proof
    assume "removed P target l l' \<and> r' = r"
    then obtain xs d ys where "inorder l = xs @ d # ys" "cap d = target" "inorder l' = xs @ ys"
      "r' = r" by (auto simp: removed_def)
    then show ?thesis using rebalance_inorder [OF t'(1)]
      by (intro exI [of _ xs] exI [of _ d] exI [of _ "ys @ c # inorder r"]) simp
  next
    assume "l' = l \<and> removed P target r r'"
    then obtain xs d ys where "inorder r = xs @ d # ys" "cap d = target" "inorder r' = xs @ ys"
      "l' = l" by (auto simp: removed_def)
    then show ?thesis using rebalance_inorder [OF t'(1)]
      by (intro exI [of _ "inorder l @ c # xs"] exI [of _ d] exI [of _ ys]) simp
  qed
  ultimately show ?thesis
    using t' remove_rebalance_Ok [OF t'(1) t(4)] by (auto simp: removed_def)
qed

section \<open>The invariant of the database\<close>

definition mdb_wf :: "'c cap_preds \<Rightarrow> 'c mdb \<Rightarrow> bool" where
  "mdb_wf P t \<longleftrightarrow> mdb_sorted P t \<and> mdb_aa t \<and> mdb_aug P t \<and> mdb_typed P t"

lemma wf_Null [simp]: "mdb_wf P Null"
  by (simp add: mdb_wf_def mdb_typed_def)

lemma wfD:
  assumes "mdb_wf P t"
  shows "mdb_sorted P t" "mdb_aa t" "mdb_aug P t" "mdb_typed P t"
  using assms unfolding mdb_wf_def by blast+

lemma wf_subtrees:
  "mdb_wf P (Node l c e er k r) \<Longrightarrow> mdb_wf P l"
  "mdb_wf P (Node l c e er k r) \<Longrightarrow> mdb_wf P r"
  by (auto simp: mdb_wf_def mdb_sorted_Node)

lemma sorted_remove: "mdb_sorted P t \<Longrightarrow> removed P target t t' \<Longrightarrow> mdb_sorted P t'"
  by (auto simp: mdb_sorted_def removed_def sorted_wrt_append)

lemma removed_wf:
  assumes "mdb_wf P t" "removed P target t t'"
  shows "mdb_wf P t'"
proof -
  have "entries t' \<subseteq> entries t" using assms(2) by (auto simp: removed_def)
  with assms(1) have "mdb_typed P t'" unfolding mdb_typed_def mdb_wf_def by blast
  moreover have "mdb_sorted P t'" using sorted_remove [OF _ assms(2)] assms(1) by (simp add: mdb_wf_def)
  ultimately show ?thesis using assms by (simp add: mdb_wf_def removed_def post_del_def)
qed

context cap_order
begin

lemma removed_target:
  assumes wf: "mdb_wf P (Node l c e er k r)" and target: "cap c = target"
  shows "\<exists>t'. mdb_subtree_remove P target (Node l c e er k r) = Ok t' \<and>
    removed P target (Node l c e er k r) t'"
proof -
  let ?t = "Node l c e er k r"
  have wf': "mdb_aa ?t" "mdb_aug P ?t" "mdb_typed P ?t" "mdb_sorted P ?t"
    by (rule wfD [OF wf])+
  have type: "objtype P target \<noteq> 0" using wf'(3) target by simp
  have cmp: "\<forall>x \<in> entries l. compare_caps P target (cap x) True \<noteq> 0"
    "\<forall>x \<in> entries r. compare_caps P target (cap x) True \<noteq> 0"
    using wf'(4) target by (auto simp: mdb_sorted_Node cmp_tie)
  consider "l = Null" "r = Null" | "l = Null" "r \<noteq> Null" | "l \<noteq> Null" by blast
  then show ?thesis
  proof cases
    case 1
    then show ?thesis using wf' target by (auto simp: removed_def post_del_def)
  next
    case 2
    then obtain x where x: "mdb_exchange_remove P target (-1) r = Ok (Null, x)" "inorder r = [x]"
      "post_del r Null"
      using exchange_remove_succ [of c e er k r P target] wf' type cmp by auto
    obtain t' where t': "mdb_rebalance P (Node l x e er k Null) = Ok t'" "post_del ?t t'"
      using rebalance_right [OF wf'(1) x(3)] by blast
    have aug: "mdb_aug P t'" using rebalance_aug [OF t'(1)] wf'(2) by simp
    have "mdb_typed P (Node l x e er k Null)"
      using wf'(3) x(2) by (auto simp: mdb_typed_def)
    moreover have "removed P target ?t t'"
      using 2 x t' aug target rebalance_inorder [OF t'(1)]
      by (intro removedI [of _ "[]" c "[x]"]) simp_all
    ultimately show ?thesis using 2 x target remove_rebalance_Ok [OF t'(1) type] by auto
  next
    case 3
    then obtain l' x where x: "mdb_exchange_remove P target 1 l = Ok (l', x)"
      "inorder l = inorder l' @ [x]" "post_del l l'" "mdb_aug P l'"
      using exchange_remove_pred [of l P target] wf' type cmp by auto
    obtain t' where t': "mdb_rebalance P (Node l' x e er k r) = Ok t'" "post_del ?t t'"
      using rebalance_left [OF wf'(1) x(3)] by blast
    have aug: "mdb_aug P t'" using rebalance_aug [OF t'(1)] x(4) wf'(2) by simp
    have "mdb_typed P (Node l' x e er k r)"
      using wf'(3) x(2) by (auto simp: mdb_typed_def)
    moreover have "removed P target ?t t'"
      using 3 x t' aug target rebalance_inorder [OF t'(1)]
      by (intro removedI [of _ "inorder l" c "inorder r"]) simp_all
    ultimately show ?thesis using 3 x target remove_rebalance_Ok [OF t'(1) type] by auto
  qed
qed

lemma subtree_remove_cases:
  "mdb_wf P t \<Longrightarrow>
   (if \<exists>c \<in> entries t. cap c = target
    then \<exists>t'. mdb_subtree_remove P target t = Ok t' \<and> removed P target t t'
    else mdb_subtree_remove P target t = Err CAPS_ERR_MDB_ENTRY_NOTFOUND)"
proof (induction t)
  case Null
  then show ?case by simp
next
  case (Node l d e er k r)
  let ?t = "Node l d e er k r"
  have wf: "mdb_aa ?t" "mdb_aug P ?t" "mdb_typed P ?t"
    and sorted: "mdb_sorted P ?t" by (rule wfD [OF Node.prems])+
  note IH = Node.IH(1) [OF wf_subtrees(1) [OF Node.prems]]
    Node.IH(2) [OF wf_subtrees(2) [OF Node.prems]]
  have type: "c \<in> entries ?t \<Longrightarrow> objtype P (cap c) \<noteq> 0" for c
    using wf(3) by (auto simp: mdb_typed_def)
  consider (lt) "compare_caps P target (cap d) True < 0"
    | (gt) "compare_caps P (cap d) target True < 0" | (eq) "cap d = target"
    using cmp_tie cmp_neg_iff by (meson linorder_less_linear)
  then show ?case
  proof cases
    case lt
    have "\<not> (\<exists>x \<in> insert d (entries r). cap x = target)"
      using lt sorted [unfolded mdb_sorted_Node] cmp_less_trans [OF lt]
      by (metis cmp_same insertE order_less_irrefl)
    then show ?thesis using IH(1) lt type removed_Node [OF wf, of target]
      by (auto split: if_splits)
  next
    case gt
    have "\<not> (\<exists>x \<in> insert d (entries l). cap x = target)"
      using gt sorted [unfolded mdb_sorted_Node] cmp_less_trans
      by (metis cmp_same insertE order_less_irrefl)
    then show ?thesis using IH(2) cmp_lessD [OF gt] type removed_Node [OF wf, of target]
      by (auto split: if_splits)
  next
    case eq
    then show ?thesis using removed_target [OF Node.prems] by auto
  qed
qed

lemma sub_insert_wf:
  assumes "mdb_wf P t" "objtype P (cap c) \<noteq> 0" "mdb_sub_insert P (new_cte c) t = Ok t'"
  shows "mdb_wf P t'"
  using assms sub_insert_sorted [OF assms(3)] sub_insert_aa [OF assms(3)]
    sub_insert_aug [OF assms(3)] sub_insert_entries [OF assms(3)]
  by (auto simp: mdb_wf_def post_ins_def mdb_typed_def)

end

section \<open>Levels and depth\<close>

fun height :: "'c mdb \<Rightarrow> nat" where
  "height Null = 0"
| "height (Node l c e er k r) = Suc (max (height l) (height r))"

fun subtrees :: "'c mdb \<Rightarrow> 'c mdb set" where
  "subtrees Null = {}"
| "subtrees (Node l c e er k r) = insert (Node l c e er k r) (subtrees l \<union> subtrees r)"

lemma aa_size: "mdb_aa t \<Longrightarrow> 2 ^ lvl t \<le> Suc (length (inorder t))"
  by (induction t) auto

lemma aa_height: "mdb_aa t \<Longrightarrow> height t + (if sngl t then 1 else 0) \<le> 2 * lvl t"
  by (induction t) (auto simp: sngl_iff split: if_splits)

lemma aa_subtree_lvl: "mdb_aa t \<Longrightarrow> s \<in> subtrees t \<Longrightarrow> lvl s \<le> lvl t"
  by (induction t) auto

lemma aa_level_bound:
  assumes "mdb_aa t" "length (inorder t) < 2 ^ n" "s \<in> subtrees t"
  shows "level s < n"
proof -
  have "2 ^ lvl t \<le> (2 ^ n :: nat)" using aa_size [OF assms(1)] assms(2) by linarith
  then have "lvl t \<le> n" by simp
  moreover have "s \<noteq> Null" using assms(3) by (induction t) auto
  ultimately show ?thesis using aa_subtree_lvl [OF assms(1,3)] by (cases s) auto
qed

lemma aa_height_bound:
  assumes "mdb_aa t" "length (inorder t) < 2 ^ n"
  shows "height t \<le> 2 * n"
proof -
  have "2 ^ lvl t \<le> (2 ^ n :: nat)" using aa_size [OF assms(1)] assms(2) by linarith
  then have "lvl t \<le> n" by simp
  with aa_height [OF assms(1)] show ?thesis by (simp split: if_splits)
qed

section \<open>The invariant checker\<close>

context cap_order
begin

lemma aa_levels:
  assumes "mdb_aa (Node l c e er k r)"
  shows "k > 0 \<Longrightarrow> l \<noteq> Null \<and> r \<noteq> Null" "l \<noteq> Null \<Longrightarrow> level l < k"
    "r \<noteq> Null \<Longrightarrow> level r \<le> k" "r \<noteq> Null \<Longrightarrow> right r \<noteq> Null \<Longrightarrow> level (right r) < k"
    "r \<noteq> Null \<Longrightarrow> left r \<noteq> Null \<Longrightarrow> level (left r) < k"
proof -
  have lvl: "t \<noteq> Null \<Longrightarrow> lvl t = Suc (level t)" for t :: "'a mdb" by (cases t) auto
  show "k > 0 \<Longrightarrow> l \<noteq> Null \<and> r \<noteq> Null" "l \<noteq> Null \<Longrightarrow> level l < k" "r \<noteq> Null \<Longrightarrow> level r \<le> k"
    using assms by (auto simp: lvl)
  show "r \<noteq> Null \<Longrightarrow> right r \<noteq> Null \<Longrightarrow> level (right r) < k"
    using aa_right_lvl [OF assms] by (simp add: lvl)
  have "r \<noteq> Null \<Longrightarrow> lvl (left r) = level r" using assms by (cases r) auto
  then show "r \<noteq> Null \<Longrightarrow> left r \<noteq> Null \<Longrightarrow> level (left r) < k"
    using assms by (auto simp: lvl)
qed

lemma check_complete: "mdb_wf P t \<Longrightarrow> mdb_check_subtree_invariants P t = Ok MDB_INVARIANT_OK"
proof (induction t)
  case (Node l c e er k r)
  note wf = Node.prems
  have "mdb_check_subtree_invariants P l = Ok MDB_INVARIANT_OK"
    "mdb_check_subtree_invariants P r = Ok MDB_INVARIANT_OK"
    using Node.IH wf_subtrees [OF wf] by simp_all
  moreover have "l \<noteq> Null \<Longrightarrow> compare_caps P (cap (entry l)) (cap c) True < 0"
    using wfD(1) [OF wf] by (cases l) (auto simp: mdb_sorted_Node)
  moreover have "r \<noteq> Null \<Longrightarrow> compare_caps P (cap (entry r)) (cap c) True > 0"
    using wfD(1) [OF wf] cmp_lessD(1) by (cases r) (auto simp: mdb_sorted_Node)
  moreover have "objtype P (cap c) \<noteq> 0" using wfD(4) [OF wf] by simp
  moreover have "er = expected_end_root P l c r" "e = expected_end P l c r er"
    using wfD(3) [OF wf] by simp_all
  moreover note aa_levels [OF wfD(2) [OF wf]]
  ultimately show ?case by (auto simp: not_less not_le leD)
qed simp

end

text \<open>What the checker establishes when it accepts a tree.\<close>

lemma check_Node:
  assumes "mdb_check_subtree_invariants P (Node l c e er k r) = Ok MDB_INVARIANT_OK"
  shows "objtype P (cap c) \<noteq> 0" "mdb_check_subtree_invariants P l = Ok MDB_INVARIANT_OK"
    "mdb_check_subtree_invariants P r = Ok MDB_INVARIANT_OK"
    "er = expected_end_root P l c r" "e = expected_end P l c r er"
    "l \<noteq> Null \<Longrightarrow> level l < k" "r \<noteq> Null \<Longrightarrow> level r \<le> k"
    "r \<noteq> Null \<Longrightarrow> right r \<noteq> Null \<Longrightarrow> level (right r) < k"
  using assms by (auto split: if_splits outcome.splits mdb_invariant.splits)

lemma check_sound:
  "mdb_check_subtree_invariants P t = Ok MDB_INVARIANT_OK \<Longrightarrow>
   mdb_aug P t \<and> mdb_typed P t \<and> height t \<le> 2 * lvl t \<and>
   (t \<noteq> Null \<longrightarrow> lvl (right t) < lvl t \<longrightarrow> Suc (height t) \<le> 2 * lvl t)"
proof (induction t)
  case (Node l c e er k r)
  have lvl: "t \<noteq> Null \<Longrightarrow> lvl t = Suc (level t)" for t :: "'a mdb" by (cases t) auto
  note check = check_Node [OF Node.prems]
  have "mdb_aug P (Node l c e er k r) \<and> mdb_typed P (Node l c e er k r)"
    using Node.IH check(1-5) by simp
  moreover have "height l \<le> 2 * k"
    using Node.IH(1) [OF check(2)] check(6) by (cases "l = Null") (auto simp: lvl)
  moreover have "height r \<le> Suc (2 * k)"
  proof (cases "r = Null \<or> level r < k")
    case True
    then show ?thesis using Node.IH(2) [OF check(3)] lvl [of r] by (cases "r = Null") auto
  next
    case False
    then have "lvl (right r) < lvl r" using check(7,8) lvl [of r] lvl [of "right r"]
      by (cases "right r = Null") auto
    then show ?thesis using False Node.IH(2) [OF check(3)] check(7) by (auto simp: lvl)
  qed
  moreover have "lvl r < Suc k \<Longrightarrow> height r \<le> 2 * k"
    using Node.IH(2) [OF check(3)] by auto
  ultimately show ?case by auto
qed (simp add: mdb_typed_def)

end
