(* ===== verification/Mdb_Query.thy ===== *)
theory Mdb_Query
  imports Mdb_Balance
begin

text \<open>
  The queries on the order of the mapping database (\<open>mdb_find_equal\<close>, \<open>mdb_find_less\<close>,
  \<open>mdb_find_greater\<close>, \<open>mdb_predecessor\<close>, \<open>mdb_successor\<close>) and the traversal of
  \<^verbatim>\<open>lib/mdb/mdb_tree.c\<close>, each shown equal to a search through the sequence of
  capabilities.
\<close>

section \<open>Searching by capability\<close>

fun mdb_sub_find_equal :: "'c cap_preds \<Rightarrow> 'c \<Rightarrow> 'c mdb \<Rightarrow> 'c cte option" where
  "mdb_sub_find_equal P cp Null = None"
| "mdb_sub_find_equal P cp (Node l c e er k r) =
     (let compare = compare_caps P cp (cap c) False in
      if compare < 0 then mdb_sub_find_equal P cp l
      else if compare > 0 then mdb_sub_find_equal P cp r
      else Some c)"

definition mdb_find_equal :: "'c cap_preds \<Rightarrow> 'c mdb \<Rightarrow> 'c \<Rightarrow> 'c cte option" where
  "mdb_find_equal P mdb_root cp = mdb_sub_find_equal P cp mdb_root"

fun mdb_sub_find_less ::
  "'c cap_preds \<Rightarrow> 'c \<Rightarrow> 'c mdb \<Rightarrow> bool \<Rightarrow> bool \<Rightarrow> 'c cte option" where
  "mdb_sub_find_less P cp Null equal_ok tiebreak = None"
| "mdb_sub_find_less P cp (Node l c e er k r) equal_ok tiebreak =
     (let compare = compare_caps P cp (cap c) tiebreak in
      if compare < 0 then mdb_sub_find_less P cp l equal_ok tiebreak
      else if compare > 0 then
        (case mdb_sub_find_less P cp r equal_ok tiebreak of
           Some res \<Rightarrow> Some res
         | None \<Rightarrow> Some c)
      else if equal_ok then Some c
      else mdb_sub_find_less P cp l equal_ok tiebreak)"

definition mdb_find_less :: "'c cap_preds \<Rightarrow> 'c mdb \<Rightarrow> 'c \<Rightarrow> bool \<Rightarrow> 'c cte option" where
  "mdb_find_less P mdb_root cp equal_ok = mdb_sub_find_less P cp mdb_root equal_ok False"

fun mdb_sub_find_greater ::
  "'c cap_preds \<Rightarrow> 'c \<Rightarrow> 'c mdb \<Rightarrow> bool \<Rightarrow> bool \<Rightarrow> 'c cte option" where
  "mdb_sub_find_greater P cp Null equal_ok tiebreak = None"
| "mdb_sub_find_greater P cp (Node l c e er k r) equal_ok tiebreak =
     (let compare = compare_caps P cp (cap c) tiebreak in
      if compare < 0 then
        (case mdb_sub_find_greater P cp l equal_ok tiebreak of
           Some res \<Rightarrow> Some res
         | None \<Rightarrow> Some c)
      else if compare > 0 then mdb_sub_find_greater P cp r equal_ok tiebreak
      else if equal_ok then Some c
      else mdb_sub_find_greater P cp r equal_ok tiebreak)"

definition mdb_find_greater :: "'c cap_preds \<Rightarrow> 'c mdb \<Rightarrow> 'c \<Rightarrow> bool \<Rightarrow> 'c cte option" where
  "mdb_find_greater P mdb_root cp equal_ok = mdb_sub_find_greater P cp mdb_root equal_ok False"

section \<open>Neighbours\<close>

text \<open>The loops that follow the right (left) children to the end.\<close>

fun mdb_rightmost :: "'c mdb \<Rightarrow> 'c cte option" where
  "mdb_rightmost Null = None"
| "mdb_rightmost (Node l c e er k r) = (if r \<noteq> Null then mdb_rightmost r else Some c)"

fun mdb_leftmost :: "'c mdb \<Rightarrow> 'c cte option" where
  "mdb_leftmost Null = None"
| "mdb_leftmost (Node l c e er k r) = (if l \<noteq> Null then mdb_leftmost l else Some c)"

definition mdb_predecessor :: "'c cap_preds \<Rightarrow> 'c mdb \<Rightarrow> 'c mdb \<Rightarrow> 'c cte option" where
  "mdb_predecessor P mdb_root current =
     (if left current \<noteq> Null then mdb_rightmost (left current)
      else mdb_sub_find_less P (cap (entry current)) mdb_root False True)"

definition mdb_successor :: "'c cap_preds \<Rightarrow> 'c mdb \<Rightarrow> 'c mdb \<Rightarrow> 'c cte option" where
  "mdb_successor P mdb_root current =
     (if right current \<noteq> Null then mdb_leftmost (right current)
      else mdb_sub_find_greater P (cap (entry current)) mdb_root False True)"

section \<open>Traversal\<close>

datatype mdb_tree_traversal_order =
    MDB_TRAVERSAL_ORDER_ASCENDING
  | MDB_TRAVERSAL_ORDER_DESCENDING

text \<open>
  The callback updates the caller's \<open>data\<close> or returns an error, which ends the traversal.
\<close>

fun mdb_traverse_subtree ::
  "'c mdb \<Rightarrow> mdb_tree_traversal_order \<Rightarrow> ('c cte \<Rightarrow> 'd \<Rightarrow> 'd outcome) \<Rightarrow> 'd \<Rightarrow> 'd outcome" where
  "mdb_traverse_subtree Null order cb d = Abort"
| "mdb_traverse_subtree (Node l c e er k r) order cb d =
     (if order = MDB_TRAVERSAL_ORDER_ASCENDING then
        bind_outcome (if l \<noteq> Null then mdb_traverse_subtree l order cb d else Ok d) (\<lambda>d.
        bind_outcome (cb c d) (\<lambda>d.
          if r \<noteq> Null then mdb_traverse_subtree r order cb d else Ok d))
      else
        bind_outcome (if r \<noteq> Null then mdb_traverse_subtree r order cb d else Ok d) (\<lambda>d.
        bind_outcome (cb c d) (\<lambda>d.
          if l \<noteq> Null then mdb_traverse_subtree l order cb d else Ok d)))"

definition mdb_traverse ::
  "'c mdb \<Rightarrow> mdb_tree_traversal_order \<Rightarrow> ('c cte \<Rightarrow> 'd \<Rightarrow> 'd outcome) \<Rightarrow> 'd \<Rightarrow> 'd outcome" where
  "mdb_traverse mdb_root order cb d = mdb_traverse_subtree mdb_root order cb d"

section \<open>Correctness\<close>

text \<open>The reference for a traversal: the callback on each element in turn, until one fails.\<close>

fun fold_outcome :: "('a \<Rightarrow> 'd \<Rightarrow> 'd outcome) \<Rightarrow> 'a list \<Rightarrow> 'd \<Rightarrow> 'd outcome" where
  "fold_outcome cb [] d = Ok d"
| "fold_outcome cb (x # xs) d = bind_outcome (cb x d) (fold_outcome cb xs)"

lemma bind_outcome_Ok [simp]: "bind_outcome m Ok = m"
  by (cases m) auto

lemma fold_outcome_Nil [simp]: "fold_outcome cb [] = Ok"
  by (rule ext) simp

lemma fold_outcome_append:
  "fold_outcome cb (xs @ ys) d = bind_outcome (fold_outcome cb xs d) (fold_outcome cb ys)"
  by (induction xs arbitrary: d) (auto simp: bind_outcome_assoc intro!: bind_outcome_cong)

lemma traverse_subtree_fold:
  "t \<noteq> Null \<Longrightarrow> mdb_traverse_subtree t order cb d =
     fold_outcome cb
       (if order = MDB_TRAVERSAL_ORDER_ASCENDING then inorder t else rev (inorder t)) d"
proof (induction t arbitrary: d)
  case (Node l c e er k r)
  then show ?case
    by (cases "l = Null"; cases "r = Null")
      (auto simp: fold_outcome_append bind_outcome_assoc intro!: bind_outcome_cong)
qed simp

lemma inorder_Nil_iff [simp]: "inorder t = [] \<longleftrightarrow> t = Null"
  by (cases t) auto

lemma rightmost_last: "mdb_rightmost t = last_opt (inorder t)"
  by (induction t) auto

lemma leftmost_hd: "mdb_leftmost t = hd_opt (inorder t)"
  by (induction t) auto

lemma subtrees_not_Null: "s \<in> subtrees t \<Longrightarrow> s \<noteq> Null"
  by (induction t) auto

lemma subtree_inorder: "s \<in> subtrees t \<Longrightarrow> \<exists>pre post. inorder t = pre @ inorder s @ post"
proof (induction t)
  case (Node l c e er k r)
  consider "s = Node l c e er k r" | "s \<in> subtrees l" | "s \<in> subtrees r"
    using Node.prems by auto
  then show ?case
  proof cases
    case 1
    then show ?thesis by (intro exI [of _ "[]"]) simp
  next
    case 2
    then obtain pre post where "inorder l = pre @ inorder s @ post" using Node.IH(1) by blast
    then have "inorder (Node l c e er k r) = pre @ inorder s @ (post @ c # inorder r)" by simp
    then show ?thesis by blast
  next
    case 3
    then obtain pre post where "inorder r = pre @ inorder s @ post" using Node.IH(2) by blast
    then have "inorder (Node l c e er k r) = (inorder l @ c # pre) @ inorder s @ post" by simp
    then show ?thesis by blast
  qed
qed simp

context cap_order
begin

lemma sorted_le:
  assumes "mdb_sorted P (Node l d e er k r)"
  shows "x \<in> entries l \<Longrightarrow> compare_caps P (cap x) (cap d) t \<le> 0"
    and "x \<in> entries r \<Longrightarrow> compare_caps P (cap d) (cap x) t \<le> 0"
proof -
  have le: "compare_caps P a b True < 0 \<Longrightarrow> compare_caps P a b t \<le> 0" for a b
    by (cases t) (auto dest: cmp_True_le_False)
  show "x \<in> entries l \<Longrightarrow> compare_caps P (cap x) (cap d) t \<le> 0"
    and "x \<in> entries r \<Longrightarrow> compare_caps P (cap d) (cap x) t \<le> 0"
    using assms by (auto simp: mdb_sorted_Node intro: le)
qed

lemma cmp_pos: "0 < compare_caps P a b t \<longleftrightarrow> compare_caps P b a t < 0"
  using cmp_swap [of a b t] by simp

lemma cmp_zero_sym: "compare_caps P a b t = 0 \<longleftrightarrow> compare_caps P b a t = 0"
  using cmp_swap [of a b t] by simp

text \<open>Where the entries of the subtrees lie, relative to a key on one side of the root.\<close>

lemma key_below:
  assumes "mdb_sorted P (Node l d e er k r)" "compare_caps P cp (cap d) t \<le> 0" "x \<in> entries r"
  shows "\<not> compare_caps P (cap x) cp t < 0"
  using cmp_trans [OF assms(2) sorted_le(2) [OF assms(1,3)]] cmp_swap [of cp "cap x" t] by simp

lemma key_above:
  assumes "mdb_sorted P (Node l d e er k r)" "compare_caps P (cap d) cp t \<le> 0" "x \<in> entries l"
  shows "\<not> compare_caps P cp (cap x) t < 0"
  using cmp_trans [OF sorted_le(1) [OF assms(1,3)] assms(2)] cmp_swap [of cp "cap x" t] by simp

lemma find_less_last:
  "mdb_sorted P t \<Longrightarrow> mdb_sub_find_less P cp t False tb =
     last_opt (filter (\<lambda>x. compare_caps P (cap x) cp tb < 0) (inorder t))"
proof (induction t)
  case (Node l d e er k r)
  have sub: "mdb_sorted P l" "mdb_sorted P r" using Node.prems by (simp_all add: mdb_sorted_Node)
  show ?case
  proof (cases "compare_caps P cp (cap d) tb \<le> 0")
    case True
    then have "\<not> compare_caps P (cap d) cp tb < 0" using cmp_swap [of cp "cap d" tb] by simp
    moreover have "filter (\<lambda>x. compare_caps P (cap x) cp tb < 0) (inorder r) = []"
      using key_below [OF Node.prems True] by (auto simp: filter_empty_conv)
    ultimately show ?thesis using True Node.IH(1) sub by (auto simp: Let_def)
  next
    case False
    then have "compare_caps P (cap d) cp tb < 0" using cmp_swap [of cp "cap d" tb] by simp
    then show ?thesis using False Node.IH(2) sub by (auto simp: Let_def split: option.splits)
  qed
qed simp

lemma find_greater_hd:
  "mdb_sorted P t \<Longrightarrow> mdb_sub_find_greater P cp t False tb =
     hd_opt (filter (\<lambda>x. compare_caps P cp (cap x) tb < 0) (inorder t))"
proof (induction t)
  case (Node l d e er k r)
  have sub: "mdb_sorted P l" "mdb_sorted P r" using Node.prems by (simp_all add: mdb_sorted_Node)
  show ?case
  proof (cases "compare_caps P cp (cap d) tb < 0")
    case True
    then show ?thesis using Node.IH(1) sub by (auto simp: Let_def split: option.splits)
  next
    case False
    then have "compare_caps P (cap d) cp tb \<le> 0" using cmp_swap [of cp "cap d" tb] by simp
    then have "filter (\<lambda>x. compare_caps P cp (cap x) tb < 0) (inorder l) = []"
      using key_above [OF Node.prems] by (auto simp: filter_empty_conv)
    then show ?thesis using False Node.IH(2) sub by (auto simp: Let_def)
  qed
qed simp

text \<open>With \<open>equal_ok\<close> a capability that compares equal is returned when there is one.\<close>

lemma find_less_equal_ok:
  "mdb_sorted P t \<Longrightarrow>
   (if \<exists>x \<in> entries t. compare_caps P (cap x) cp tb = 0
    then \<exists>x \<in> entries t. mdb_sub_find_less P cp t True tb = Some x \<and> compare_caps P (cap x) cp tb = 0
    else mdb_sub_find_less P cp t True tb = mdb_sub_find_less P cp t False tb)"
proof (induction t)
  case (Node l d e er k r)
  have sub: "mdb_sorted P l" "mdb_sorted P r" using Node.prems by (simp_all add: mdb_sorted_Node)
  consider (lt) "compare_caps P cp (cap d) tb < 0" | (gt) "compare_caps P (cap d) cp tb < 0"
    | (eq) "compare_caps P (cap d) cp tb = 0"
    using cmp_pos [of "cap d" cp tb] by linarith
  then show ?case
  proof cases
    case lt
    then have "\<forall>x \<in> insert d (entries r). compare_caps P (cap x) cp tb \<noteq> 0"
      using cmp_less_le_trans [OF lt sorted_le(2) [OF Node.prems, where t = tb]] cmp_zero_sym
      by (metis insertE order_less_irrefl)
    then show ?thesis using Node.IH(1) sub lt by (auto simp: Let_def split: if_splits)
  next
    case gt
    then have "\<forall>x \<in> insert d (entries l). compare_caps P (cap x) cp tb \<noteq> 0"
      using cmp_le_less_trans [OF sorted_le(1) [OF Node.prems, where t = tb] gt]
      by (metis insertE order_less_irrefl)
    then show ?thesis using Node.IH(2) sub cmp_lessD [OF gt]
      by (auto simp: Let_def split: if_splits option.splits)
  next
    case eq
    then show ?thesis using cmp_zero_sym by (auto simp: Let_def)
  qed
qed simp

lemma find_greater_equal_ok:
  "mdb_sorted P t \<Longrightarrow>
   (if \<exists>x \<in> entries t. compare_caps P (cap x) cp tb = 0
    then \<exists>x \<in> entries t. mdb_sub_find_greater P cp t True tb = Some x \<and> compare_caps P (cap x) cp tb = 0
    else mdb_sub_find_greater P cp t True tb = mdb_sub_find_greater P cp t False tb)"
proof (induction t)
  case (Node l d e er k r)
  have sub: "mdb_sorted P l" "mdb_sorted P r" using Node.prems by (simp_all add: mdb_sorted_Node)
  consider (lt) "compare_caps P cp (cap d) tb < 0" | (gt) "compare_caps P (cap d) cp tb < 0"
    | (eq) "compare_caps P (cap d) cp tb = 0"
    using cmp_pos [of "cap d" cp tb] by linarith
  then show ?case
  proof cases
    case lt
    then have "\<forall>x \<in> insert d (entries r). compare_caps P (cap x) cp tb \<noteq> 0"
      using cmp_less_le_trans [OF lt sorted_le(2) [OF Node.prems, where t = tb]] cmp_zero_sym
      by (metis insertE order_less_irrefl)
    then show ?thesis using Node.IH(1) sub lt by (auto simp: Let_def split: if_splits option.splits)
  next
    case gt
    then have "\<forall>x \<in> insert d (entries l). compare_caps P (cap x) cp tb \<noteq> 0"
      using cmp_le_less_trans [OF sorted_le(1) [OF Node.prems, where t = tb] gt]
      by (metis insertE order_less_irrefl)
    then show ?thesis using Node.IH(2) sub cmp_lessD [OF gt]
      by (auto simp: Let_def split: if_splits)
  next
    case eq
    then show ?thesis using cmp_zero_sym by (auto simp: Let_def)
  qed
qed simp

lemma find_equal_iff:
  "mdb_sorted P t \<Longrightarrow>
   (if \<exists>x \<in> entries t. compare_caps P (cap x) cp False = 0
    then \<exists>x \<in> entries t. mdb_sub_find_equal P cp t = Some x \<and> compare_caps P (cap x) cp False = 0
    else mdb_sub_find_equal P cp t = None)"
proof (induction t)
  case (Node l d e er k r)
  have sub: "mdb_sorted P l" "mdb_sorted P r" using Node.prems by (simp_all add: mdb_sorted_Node)
  consider (lt) "compare_caps P cp (cap d) False < 0" | (gt) "compare_caps P (cap d) cp False < 0"
    | (eq) "compare_caps P (cap d) cp False = 0"
    using cmp_pos [of "cap d" cp False] by linarith
  then show ?case
  proof cases
    case lt
    then have "\<forall>x \<in> insert d (entries r). compare_caps P (cap x) cp False \<noteq> 0"
      using cmp_less_le_trans [OF lt sorted_le(2) [OF Node.prems, where t = False]] cmp_zero_sym
      by (metis insertE order_less_irrefl)
    then show ?thesis using Node.IH(1) sub lt by (auto simp: Let_def split: if_splits)
  next
    case gt
    then have "\<forall>x \<in> insert d (entries l). compare_caps P (cap x) cp False \<noteq> 0"
      using cmp_le_less_trans [OF sorted_le(1) [OF Node.prems, where t = False] gt]
      by (metis insertE order_less_irrefl)
    then show ?thesis using Node.IH(2) sub cmp_lessD [OF gt]
      by (auto simp: Let_def split: if_splits option.splits)
  next
    case eq
    then show ?thesis using cmp_zero_sym by (auto simp: Let_def)
  qed
qed simp

lemma sorted_distinct_inorder: "mdb_sorted P t \<Longrightarrow> distinct (inorder t)"
proof -
  have "sorted_wrt (\<lambda>a b. compare_caps P (cap a) (cap b) True < 0) xs \<Longrightarrow> distinct xs" for xs
    by (induction xs) auto
  then show "mdb_sorted P t \<Longrightarrow> distinct (inorder t)" by (simp add: mdb_sorted_def)
qed

text \<open>The neighbours of a slot are its neighbours in the sequence.\<close>

lemma neighbours:
  assumes sorted: "mdb_sorted P t" and s: "s \<in> subtrees t"
    and split: "inorder t = xs @ entry s # ys"
  shows "mdb_predecessor P t s = last_opt xs" and "mdb_successor P t s = hd_opt ys"
proof -
  obtain l c e er k r where s_eq: "s = Node l c e er k r" using s subtrees_not_Null by (cases s) auto
  obtain pre post where "inorder t = pre @ inorder s @ post" using subtree_inorder [OF s] by blast
  then have t: "inorder t = (pre @ inorder l) @ entry s # (inorder r @ post)" by (simp add: s_eq)
  have "entry s \<notin> set xs" "entry s \<notin> set ys"
    using sorted_distinct_inorder [OF sorted] unfolding split by simp_all
  from append_Cons_eq_iff [OF this, of "pre @ inorder l" "inorder r @ post"]
  have xs: "xs = pre @ inorder l" and ys: "ys = inorder r @ post"
    using split t by simp_all
  have lt: "\<forall>x \<in> set xs. compare_caps P (cap x) (cap (entry s)) True < 0"
    "\<forall>x \<in> set ys. compare_caps P (cap (entry s)) (cap x) True < 0"
    using sorted split by (auto simp: mdb_sorted_def sorted_wrt_append)
  have "filter (\<lambda>x. compare_caps P (cap x) (cap (entry s)) True < 0) (inorder t) = xs"
    using lt cmp_lessD(2) unfolding split by (auto simp: filter_id_conv filter_empty_conv)
  then show "mdb_predecessor P t s = last_opt xs"
    using xs by (auto simp: mdb_predecessor_def s_eq rightmost_last find_less_last [OF sorted])
  have "filter (\<lambda>x. compare_caps P (cap (entry s)) (cap x) True < 0) (inorder t) = ys"
    using lt cmp_lessD(2) unfolding split by (auto simp: filter_id_conv filter_empty_conv)
  then show "mdb_successor P t s = hd_opt ys"
    using ys by (auto simp: mdb_successor_def s_eq leftmost_hd find_greater_hd [OF sorted])
qed

end

end
