(* ===== verification/Mdb_Range.thy ===== *)
theory Mdb_Range
  imports Mdb_Query
begin

text \<open>
  The range query of \<^verbatim>\<open>lib/mdb/mdb_tree.c\<close>: is an address range covered by a capability,
  does it contain one, or does it overlap one partially. The search prunes subtrees by
  the recorded ends; the theory shows that the answer is nevertheless the best one over
  all capabilities in the tree, and states what this needs of the capabilities.

  On the 32-bit target \<open>size_t\<close> has 32 bits, so the \<open>size\<close> of the inner functions is a
  32-bit word although \<open>mdb_find_range\<close> takes a \<open>gensize_t\<close>.
\<close>

section \<open>The code\<close>

abbreviation MDB_RANGE_NOT_FOUND :: int where "MDB_RANGE_NOT_FOUND \<equiv> 0"
abbreviation MDB_RANGE_FOUND_SURROUNDING :: int where "MDB_RANGE_FOUND_SURROUNDING \<equiv> 1"
abbreviation MDB_RANGE_FOUND_INNER :: int where "MDB_RANGE_FOUND_INNER \<equiv> 2"
abbreviation MDB_RANGE_FOUND_PARTIAL :: int where "MDB_RANGE_FOUND_PARTIAL \<equiv> 3"

definition mdb_is_inside :: "u64 \<Rightarrow> u64 \<Rightarrow> u64 \<Rightarrow> u64 \<Rightarrow> bool outcome" where
  "mdb_is_inside outer_begin outer_end inner_begin inner_end =
     (if \<not> outer_begin \<le> outer_end \<or> \<not> inner_begin \<le> inner_end then Abort
      else Ok ((inner_begin \<ge> outer_begin \<and> inner_end < outer_end) \<or>
               (inner_begin > outer_begin \<and> inner_end \<le> outer_end)))"

definition mdb_choose_surrounding ::
  "'c cap_preds \<Rightarrow> u64 \<Rightarrow> u32 \<Rightarrow> 'c cte option \<Rightarrow> 'c cte option \<Rightarrow> 'c cte option outcome" where
  "mdb_choose_surrounding P address sz first second =
     (case (first, second) of
        (Some f, Some s) \<Rightarrow>
          (let beg = address; en = address + ucast sz;
               fst_beg = get_address P (cap f);
               snd_beg = get_address P (cap s);
               fst_end = fst_beg + get_size P (cap f);
               snd_end = snd_beg + get_size P (cap s)
           in if cap_root P (cap f) \<noteq> cap_root P (cap s) \<or>
                 \<not> (fst_beg \<le> beg \<and> fst_end \<ge> en) \<or> \<not> (snd_beg \<le> beg \<and> snd_end \<ge> en)
              then Abort
              else if compare_caps P (cap f) (cap s) True \<ge> 0 then Ok first
              else Ok second)
      | _ \<Rightarrow> Abort)"

definition mdb_choose_inner ::
  "'c cap_preds \<Rightarrow> u64 \<Rightarrow> u32 \<Rightarrow> 'c cte option \<Rightarrow> 'c cte option \<Rightarrow> 'c cte option outcome" where
  "mdb_choose_inner P address sz first second =
     (case (first, second) of
        (Some f, Some s) \<Rightarrow>
          (let en = address + ucast sz;
               fst_beg = get_address P (cap f);
               snd_beg = get_address P (cap s);
               fst_end = fst_beg + get_size P (cap f);
               snd_end = snd_beg + get_size P (cap s)
           in if cap_root P (cap f) \<noteq> cap_root P (cap s) \<or>
                 mdb_is_inside address en fst_beg fst_end \<noteq> Ok True \<or>
                 mdb_is_inside address en snd_beg snd_end \<noteq> Ok True
              then Abort
              else if compare_caps P (cap f) (cap s) True \<le> 0 then Ok first
              else Ok second)
      | _ \<Rightarrow> Abort)"

definition mdb_choose_partial ::
  "'c cap_preds \<Rightarrow> u64 \<Rightarrow> u32 \<Rightarrow> 'c cte option \<Rightarrow> 'c cte option \<Rightarrow> 'c cte option outcome" where
  "mdb_choose_partial P address sz first second =
     (case (first, second) of
        (Some f, Some s) \<Rightarrow>
          (let beg = address; en = address + ucast sz;
               fst_beg = get_address P (cap f);
               snd_beg = get_address P (cap s);
               fst_end = fst_beg + get_size P (cap f);
               snd_end = snd_beg + get_size P (cap s)
           in if cap_root P (cap f) \<noteq> cap_root P (cap s) \<or>
                 \<not> (fst_beg < en \<and> snd_beg < en \<and> fst_end > beg \<and> snd_end > beg \<and>
                    fst_beg \<noteq> beg \<and> snd_beg \<noteq> beg \<and> fst_end \<noteq> en \<and> snd_end \<noteq> en \<and>
                    (fst_beg < beg) = (fst_end < en) \<and> (snd_beg < beg) = (snd_end < en))
              then Abort
              else if fst_beg < beg \<and> snd_beg > beg then Ok first
              else if snd_beg < beg \<and> fst_beg > beg then Ok second
              else if compare_caps P (cap f) (cap s) True \<ge> 0 then Ok first
              else Ok second)
      | _ \<Rightarrow> Abort)"

text \<open>
  \<open>mdb_sub_find_range_merge\<close> combines a result with that of a subtree; the result of its
  call of \<open>mdb_sub_find_range\<close> on the subtree is its argument \<open>sub_ret\<close>, \<open>sub_result\<close>.
\<close>

definition mdb_sub_find_range_merge ::
  "'c cap_preds \<Rightarrow> u64 \<Rightarrow> u32 \<Rightarrow> int \<Rightarrow> int \<times> 'c cte option \<Rightarrow> int \<times> 'c cte option \<Rightarrow>
   (int \<times> 'c cte option) outcome" where
  "mdb_sub_find_range_merge P address sz max_precision sub cur =
     (case (sub, cur) of ((sub_ret, sub_result), (ret, result)) \<Rightarrow>
        if max_precision < 0 \<or> ret > max_precision then Abort
        else if sub_ret > max_precision then Ok (sub_ret, sub_result)
        else if sub_ret > ret then Ok (sub_ret, sub_result)
        else if sub_ret = ret then
          (if sub_ret = MDB_RANGE_NOT_FOUND then Ok (ret, result)
           else if sub_ret = MDB_RANGE_FOUND_SURROUNDING then
             bind_outcome (mdb_choose_surrounding P address sz result sub_result)
               (\<lambda>res. Ok (ret, res))
           else if sub_ret = MDB_RANGE_FOUND_INNER then
             bind_outcome (mdb_choose_inner P address sz result sub_result)
               (\<lambda>res. Ok (ret, res))
           else if sub_ret = MDB_RANGE_FOUND_PARTIAL then
             bind_outcome (mdb_choose_partial P address sz result sub_result)
               (\<lambda>res. Ok (ret, res))
           else Abort)
        else Ok (ret, result))"

text \<open>
  How the capability of a node relates to the range: the sequence of tests at the start of
  \<open>mdb_sub_find_range\<close> for a node with the right root.
\<close>

definition mdb_range_class :: "'c cap_preds \<Rightarrow> u64 \<Rightarrow> u64 \<Rightarrow> 'c \<Rightarrow> int outcome" where
  "mdb_range_class P address search_end cp =
     (let current_address = get_address P cp;
          current_end = current_address + get_size P cp;
          ret = MDB_RANGE_NOT_FOUND;
          ret = (if ret < MDB_RANGE_FOUND_PARTIAL \<and> current_address > address \<and>
                    current_address < search_end \<and> current_end > search_end
                 then MDB_RANGE_FOUND_PARTIAL else ret);
          ret = (if ret < MDB_RANGE_FOUND_PARTIAL \<and> current_end > address \<and>
                    current_end < search_end \<and> current_address < address
                 then MDB_RANGE_FOUND_PARTIAL else ret)
      in bind_outcome
           (if ret < MDB_RANGE_FOUND_INNER
            then mdb_is_inside address search_end current_address current_end else Ok False)
           (\<lambda>inside.
             let ret = (if inside then MDB_RANGE_FOUND_INNER else ret);
                 ret = (if ret < MDB_RANGE_FOUND_SURROUNDING \<and> current_address \<le> address \<and>
                           current_address < search_end \<and> current_end \<ge> search_end \<and>
                           current_end > address
                        then MDB_RANGE_FOUND_SURROUNDING else ret)
             in Ok ret))"

fun mdb_sub_find_range ::
  "'c cap_preds \<Rightarrow> u8 \<Rightarrow> u64 \<Rightarrow> u32 \<Rightarrow> int \<Rightarrow> 'c mdb \<Rightarrow> (int \<times> 'c cte option) outcome" where
  "mdb_sub_find_range P root address sz max_precision Null =
     (if max_precision < 0 then Abort else Ok (MDB_RANGE_NOT_FOUND, None))"
| "mdb_sub_find_range P root address sz max_precision (Node l c e er k r) =
     (if max_precision < 0 then Abort
      else if er < root then Ok (MDB_RANGE_NOT_FOUND, None)
      else if er = root \<and> e \<le> address then Ok (MDB_RANGE_NOT_FOUND, None)
      else
        let current_root = cap_root P (cap c);
            current_address = get_address P (cap c);
            search_end = address + ucast sz
        in bind_outcome
          (if current_root = root then mdb_range_class P address search_end (cap c)
           else Ok MDB_RANGE_NOT_FOUND) (\<lambda>ret.
          let result = (if ret = MDB_RANGE_NOT_FOUND then None else Some c) in
          if ret > max_precision then Ok (ret, result)
          else
            bind_outcome
              (if l \<noteq> Null
               then bind_outcome (mdb_sub_find_range P root address sz max_precision l) (\<lambda>sub.
                 mdb_sub_find_range_merge P address sz max_precision sub (ret, result))
               else Ok (ret, result)) (\<lambda>(ret, result).
              if ret > max_precision then Ok (ret, result)
              else if r \<noteq> Null \<and> root \<ge> current_root \<and>
                (search_end > current_address \<or> search_end = current_address \<and> sz = 0)
              then bind_outcome (mdb_sub_find_range P root address sz max_precision r) (\<lambda>sub.
                mdb_sub_find_range_merge P address sz max_precision sub (ret, result))
              else Ok (ret, result))))"

text \<open>
  \<open>mdb_find_range\<close> checks its arguments. Whether the caller passes a place for the node and
  for the result is \<open>has_ret_node\<close> and \<open>has_result\<close>.
\<close>

definition mdb_find_range ::
  "'c cap_preds \<Rightarrow> 'c mdb \<Rightarrow> u8 \<Rightarrow> u64 \<Rightarrow> u64 \<Rightarrow> int \<Rightarrow> bool \<Rightarrow> bool \<Rightarrow>
   (int \<times> 'c cte option) outcome" where
  "mdb_find_range P mdb_root root address sz max_result has_ret_node has_result =
     (if max_result < MDB_RANGE_NOT_FOUND \<or> max_result > MDB_RANGE_FOUND_PARTIAL
      then Err CAPS_ERR_INVALID_ARGS
      else if max_result > MDB_RANGE_NOT_FOUND \<and> \<not> has_ret_node then Err CAPS_ERR_INVALID_ARGS
      else if \<not> has_result then Err CAPS_ERR_INVALID_ARGS
      else mdb_sub_find_range P root address (ucast sz) max_result mdb_root)"

text \<open>\<open>ObjType_RAM\<close> is a constant of the generated type enumeration.\<close>

definition mdb_find_cap_for_address ::
  "'c cap_preds \<Rightarrow> nat \<Rightarrow> 'c mdb \<Rightarrow> u64 \<Rightarrow> 'c cte option outcome" where
  "mdb_find_cap_for_address P ObjType_RAM mdb_root address =
     bind_outcome
       (mdb_find_range P mdb_root (get_type_root P ObjType_RAM) address 1
          MDB_RANGE_FOUND_SURROUNDING True True)
       (\<lambda>(result, ret_node).
         if result \<noteq> MDB_RANGE_FOUND_SURROUNDING then Err SYS_ERR_CAP_NOT_FOUND else Ok ret_node)"

section \<open>Specification\<close>

text \<open>
  How a capability relates to the range \<open>[a, b)\<close>, without assertions, and which of two
  capabilities in the same relation is the better answer: the innermost surrounding one,
  the outermost inner one, and among partial overlaps one that starts before the range.
\<close>

definition range_class :: "'c cap_preds \<Rightarrow> u8 \<Rightarrow> u64 \<Rightarrow> u64 \<Rightarrow> 'c cte \<Rightarrow> int" where
  "range_class P root a b c =
     (let ca = get_address P (cap c); ce = cap_end P (cap c) in
      if cap_root P (cap c) \<noteq> root then 0
      else if a < ca \<and> ca < b \<and> b < ce \<or> a < ce \<and> ce < b \<and> ca < a then 3
      else if a \<le> ca \<and> ce < b \<or> a < ca \<and> ce \<le> b then 2
      else if ca \<le> a \<and> ca < b \<and> b \<le> ce \<and> a < ce then 1
      else 0)"

definition range_better :: "'c cap_preds \<Rightarrow> u64 \<Rightarrow> int \<Rightarrow> 'c cte \<Rightarrow> 'c cte \<Rightarrow> bool" where
  "range_better P a m c d =
     (if m = 1 then compare_caps P (cap d) (cap c) True \<le> 0
      else if m = 2 then compare_caps P (cap c) (cap d) True \<le> 0
      else if get_address P (cap c) < a \<and> get_address P (cap d) > a then True
      else if get_address P (cap d) < a \<and> get_address P (cap c) > a then False
      else compare_caps P (cap d) (cap c) True \<le> 0)"

text \<open>
  \<open>range_answer\<close>: a result above the wanted precision is some capability in that relation;
  otherwise it is the highest relation there is, with the best capability for it.
\<close>

definition range_answer ::
  "'c cap_preds \<Rightarrow> u8 \<Rightarrow> u64 \<Rightarrow> u64 \<Rightarrow> int \<Rightarrow> 'c cte set \<Rightarrow> int \<times> 'c cte option \<Rightarrow> bool" where
  "range_answer P root a b mp S ans =
     (case ans of (ret, res) \<Rightarrow>
        0 \<le> ret \<and>
        (if ret > mp then \<exists>c \<in> S. res = Some c \<and> range_class P root a b c = ret
         else (\<forall>c \<in> S. range_class P root a b c \<le> ret) \<and>
              (if ret = 0 then res = None
               else \<exists>c \<in> S. res = Some c \<and> range_class P root a b c = ret \<and>
                      (\<forall>d \<in> S. range_class P root a b d = ret \<longrightarrow> range_better P a ret c d))))"

text \<open>
  What the query relies on: no wrap-around, no empty capability at a boundary of a
  non-empty range,
  and a smaller type root only at addresses below the end of the range.
\<close>

definition range_pre :: "'c cap_preds \<Rightarrow> u8 \<Rightarrow> u64 \<Rightarrow> u64 \<Rightarrow> 'c cte \<Rightarrow> bool" where
  "range_pre P root a b c \<longleftrightarrow>
     (cap_root P (cap c) = root \<longrightarrow>
        get_address P (cap c) \<le> cap_end P (cap c) \<and>
        (get_size P (cap c) = 0 \<longrightarrow> a = b \<or> get_address P (cap c) \<noteq> a \<and> get_address P (cap c) \<noteq> b)) \<and>
     (cap_root P (cap c) < root \<longrightarrow> get_address P (cap c) < b)"

section \<open>Correctness\<close>

lemma range_class_range: "range_class P root a b c \<in> {0, 1, 2, 3}"
  by (auto simp: range_class_def Let_def)

lemma range_class_nonneg [simp]: "0 \<le> range_class P root a b c"
  using range_class_range [of P root a b c] by auto

lemma class_tests:
  fixes p1 p2 q r :: bool
  defines "ret1 \<equiv> (if (0 :: int) < 3 \<and> p1 then 3 else 0 :: int)"
  defines "ret2 \<equiv> (if ret1 < 3 \<and> p2 then 3 else ret1)"
  shows "bind_outcome (if ret2 < 2 then Ok q else Ok False)
      (\<lambda>inside. Ok (if (if inside then 2 else ret2) < 1 \<and> r then 1
                     else if inside then 2 else ret2)) =
    Ok (if p1 \<or> p2 then 3 else if q then 2 else if r then 1 else 0)"
  unfolding ret1_def ret2_def by (cases p1; cases p2; cases q; cases r) simp_all

lemma mdb_range_class_Ok:
  assumes root: "cap_root P (cap c) = root" and le: "get_address P (cap c) \<le> cap_end P (cap c)" "a \<le> b"
  shows "mdb_range_class P a b (cap c) = Ok (range_class P root a b c)"
proof -
  define ca ce where "ca = get_address P (cap c)" and "ce = cap_end P (cap c)"
  have ce: "ca + get_size P (cap c) = ce" by (simp add: ca_def ce_def cap_end_def)
  have inside: "mdb_is_inside a b ca ce = Ok (a \<le> ca \<and> ce < b \<or> a < ca \<and> ce \<le> b)"
    using le by (simp add: mdb_is_inside_def ca_def ce_def)
  show ?thesis
    unfolding mdb_range_class_def range_class_def ca_def [symmetric] ce_def [symmetric] Let_def ce
      inside root if_False not_True_eq_False simp_thms
    by (rule class_tests)
qed

text \<open>The subtrees that the search leaves out hold nothing that matters.\<close>

lemma class_end_below:
  assumes "range_pre P root a b c" "cap_root P (cap c) = root \<Longrightarrow> cap_end P (cap c) \<le> a"
  shows "range_class P root a b c = 0"
proof (cases "cap_root P (cap c) = root")
  case True
  then have "cap_end P (cap c) \<le> a" "get_address P (cap c) \<le> cap_end P (cap c)"
    using assms by (simp_all add: range_pre_def)
  moreover have "a = b \<or> get_address P (cap c) \<noteq> a \<or> cap_end P (cap c) \<noteq> a"
    using assms(1) True by (auto simp: range_pre_def cap_end_def)
  ultimately show ?thesis using True
    by (auto simp: range_class_def Let_def)
qed (simp add: range_class_def Let_def)

lemma class_start_above:
  assumes "range_pre P root a b c" "a \<le> b" "cap_root P (cap c) = root \<Longrightarrow> b \<le> get_address P (cap c)"
  shows "range_class P root a b c = 0"
proof (cases "cap_root P (cap c) = root")
  case True
  then have "b \<le> get_address P (cap c)" "get_address P (cap c) \<le> cap_end P (cap c)"
    using assms by (simp_all add: range_pre_def)
  moreover have "a = b \<or> get_address P (cap c) \<noteq> b \<or> cap_end P (cap c) \<noteq> b"
    using assms(1) True by (auto simp: range_pre_def cap_end_def)
  ultimately show ?thesis using True assms(2)
    by (auto simp: range_class_def Let_def)
qed (simp add: range_class_def Let_def)

text \<open>What a relation says about the addresses: the assertions of the choices.\<close>

lemma class_if:
  "(if x then 0 else if p then 3 else if q then 2 else if r then 1 else 0 :: int) = 1 \<longleftrightarrow>
     \<not> x \<and> \<not> p \<and> \<not> q \<and> r"
  "(if x then 0 else if p then 3 else if q then 2 else if r then 1 else 0 :: int) = 2 \<longleftrightarrow>
     \<not> x \<and> \<not> p \<and> q"
  "(if x then 0 else if p then 3 else if q then 2 else if r then 1 else 0 :: int) = 3 \<longleftrightarrow>
     \<not> x \<and> p"
  by simp_all

lemma class_root: "range_class P root a b c \<noteq> 0 \<Longrightarrow> cap_root P (cap c) = root"
  by (rule ccontr) (simp add: range_class_def)

lemma class1D:
  assumes "range_class P root a b c = 1"
  shows "cap_root P (cap c) = root" "get_address P (cap c) \<le> a" "b \<le> cap_end P (cap c)"
  using assms unfolding range_class_def Let_def class_if by blast+

lemma class2D:
  assumes "range_class P root a b c = 2" "a \<le> b" "get_address P (cap c) \<le> cap_end P (cap c)"
  shows "cap_root P (cap c) = root"
    "mdb_is_inside a b (get_address P (cap c)) (cap_end P (cap c)) = Ok True"
  using assms unfolding range_class_def Let_def class_if by (blast, simp add: mdb_is_inside_def)

lemma class3D:
  assumes "range_class P root a b c = 3" "a \<le> b"
  shows "cap_root P (cap c) = root" "get_address P (cap c) < b" "cap_end P (cap c) > a"
    "get_address P (cap c) \<noteq> a" "cap_end P (cap c) \<noteq> b"
    "(get_address P (cap c) < a) = (cap_end P (cap c) < b)"
    "get_address P (cap c) > a \<longleftrightarrow> \<not> get_address P (cap c) < a"
proof -
  let ?ca = "get_address P (cap c)" and ?ce = "cap_end P (cap c)"
  have *: "cap_root P (cap c) = root \<and> (a < ?ca \<and> ?ca < b \<and> b < ?ce \<or> a < ?ce \<and> ?ce < b \<and> ?ca < a)"
    using assms(1) unfolding range_class_def Let_def class_if by blast
  then show "cap_root P (cap c) = root" "?ca < b" "?ce > a" "?ca \<noteq> a" "?ce \<noteq> b"
    "(?ca < a) = (?ce < b)" "?ca > a \<longleftrightarrow> \<not> ?ca < a"
    using assms(2) by (meson order_less_trans order_le_less_trans order_less_le_trans order_less_asym
        order_less_irrefl)+
qed

text \<open>Answers compose.\<close>

lemma range_answer_none: "0 \<le> mp \<Longrightarrow> range_answer P root a b mp {} (0, None)"
  by (simp add: range_answer_def)

lemma range_answer_extend:
  assumes "range_answer P root a b mp S (ret, res)"
    "ret \<le> mp \<Longrightarrow> \<forall>c \<in> S'. range_class P root a b c < ret \<or> range_class P root a b c = 0"
  shows "range_answer P root a b mp (S \<union> S') (ret, res)"
proof (cases "ret > mp")
  case True
  then show ?thesis using assms(1) by (auto simp: range_answer_def)
next
  case False
  then have "ret \<le> mp" by simp
  note S' = assms(2) [OF this]
  have "0 \<le> ret" using assms(1) by (simp add: range_answer_def)
  then have "\<forall>c \<in> S'. range_class P root a b c \<le> ret"
    "ret \<noteq> 0 \<Longrightarrow> \<forall>c \<in> S'. range_class P root a b c \<noteq> ret"
    using S' by auto
  then show ?thesis using assms(1) False
    unfolding range_answer_def by (auto simp del: not_less split: if_splits)
qed

lemma range_answer_high:
  "range_answer P root a b mp S (ret, res) \<Longrightarrow> ret \<le> mp \<Longrightarrow> c \<in> S \<Longrightarrow> range_class P root a b c \<le> ret"
  by (auto simp: range_answer_def)

context cap_order
begin

lemma better_refl: "range_better P a m c c"
  by (simp add: range_better_def)

lemma better_trans:
  assumes "range_better P a m c d" "range_better P a m d x"
    "m \<noteq> 1 \<Longrightarrow> m \<noteq> 2 \<Longrightarrow> get_address P (cap d) \<noteq> a \<and> get_address P (cap c) \<noteq> a \<and> get_address P (cap x) \<noteq> a"
  shows "range_better P a m c x"
proof (cases "m = 1 \<or> m = 2")
  case True
  then show ?thesis
    using assms(1,2) cmp_trans [of "cap x" "cap d" True "cap c"]
      cmp_trans [of "cap c" "cap d" True "cap x"]
    by (elim disjE) (simp_all add: range_better_def)
next
  case False
  then have m: "m \<noteq> 1" "m \<noteq> 2" by auto
  note ne = assms(3) [OF m]
  define pc pd px where "pc \<longleftrightarrow> get_address P (cap c) < a" and
    "pd \<longleftrightarrow> get_address P (cap d) < a" and "px \<longleftrightarrow> get_address P (cap x) < a"
  have above: "get_address P (cap c) > a \<longleftrightarrow> \<not> pc" "get_address P (cap d) > a \<longleftrightarrow> \<not> pd"
    "get_address P (cap x) > a \<longleftrightarrow> \<not> px"
    unfolding pc_def pd_def px_def using ne by (metis linorder_neqE order_less_asym)+
  show ?thesis
    using assms(1,2) cmp_trans [of "cap x" "cap d" True "cap c"]
    unfolding range_better_def above pc_def [symmetric] pd_def [symmetric] px_def [symmetric]
    using m by (cases pc; cases pd; cases px) simp_all
qed

lemma choose_surrounding_Ok:
  assumes "range_class P root a (a + ucast sz) f = 1" "range_class P root a (a + ucast sz) s = 1"
  shows "\<exists>x \<in> {f, s}. mdb_choose_surrounding P a sz (Some f) (Some s) = Ok (Some x) \<and>
    range_better P a 1 x f \<and> range_better P a 1 x s"
proof (cases "compare_caps P (cap f) (cap s) True \<ge> 0")
  case True
  then have "range_better P a 1 f s" using cmp_swap [of "cap s" "cap f" True]
    by (simp add: range_better_def)
  then show ?thesis using True class1D [OF assms(1)] class1D [OF assms(2)] better_refl
    by (simp add: mdb_choose_surrounding_def Let_def cap_end_def)
next
  case False
  then have "range_better P a 1 s f" by (simp add: range_better_def)
  then show ?thesis using False class1D [OF assms(1)] class1D [OF assms(2)] better_refl
    by (simp add: mdb_choose_surrounding_def Let_def cap_end_def)
qed

lemma choose_inner_Ok:
  assumes "range_class P root a (a + ucast sz) f = 2" "range_class P root a (a + ucast sz) s = 2"
    "get_address P (cap f) \<le> cap_end P (cap f)" "get_address P (cap s) \<le> cap_end P (cap s)"
    "a \<le> a + ucast sz"
  shows "\<exists>x \<in> {f, s}. mdb_choose_inner P a sz (Some f) (Some s) = Ok (Some x) \<and>
    range_better P a 2 x f \<and> range_better P a 2 x s"
proof -
  note inside = class2D(2) [OF assms(1) assms(5) assms(3)] class2D(2) [OF assms(2) assms(5) assms(4)]
  note roots = class2D(1) [OF assms(1) assms(5) assms(3)] class2D(1) [OF assms(2) assms(5) assms(4)]
  show ?thesis
  proof (cases "compare_caps P (cap f) (cap s) True \<le> 0")
    case True
    then have "range_better P a 2 f s" by (simp add: range_better_def)
    then show ?thesis using True inside roots better_refl
      by (simp add: mdb_choose_inner_def Let_def cap_end_def)
  next
    case False
    then have "range_better P a 2 s f" using cmp_swap [of "cap s" "cap f" True]
      by (simp add: range_better_def)
    then show ?thesis using False inside roots better_refl
      by (simp add: mdb_choose_inner_def Let_def cap_end_def)
  qed
qed

lemma choose_partial_Ok:
  assumes "range_class P root a (a + ucast sz) f = 3" "range_class P root a (a + ucast sz) s = 3"
    "a \<le> a + ucast sz"
  shows "\<exists>x \<in> {f, s}. mdb_choose_partial P a sz (Some f) (Some s) = Ok (Some x) \<and>
    range_better P a 3 x f \<and> range_better P a 3 x s"
proof -
  note f = class3D [OF assms(1,3)] and s = class3D [OF assms(2,3)]
  let ?pf = "get_address P (cap f) < a" and ?ps = "get_address P (cap s) < a"
  have *: "mdb_choose_partial P a sz (Some f) (Some s) =
      (if ?pf \<and> \<not> ?ps then Ok (Some f) else if ?ps \<and> \<not> ?pf then Ok (Some s)
       else if compare_caps P (cap f) (cap s) True \<ge> 0 then Ok (Some f) else Ok (Some s))"
    using f s unfolding mdb_choose_partial_def Let_def cap_end_def
    by (simp only: prod.case option.case simp_thms if_False)
  have b: "range_better P a 3 c d \<longleftrightarrow>
      (if get_address P (cap c) < a \<and> \<not> get_address P (cap d) < a then True
       else if get_address P (cap d) < a \<and> \<not> get_address P (cap c) < a then False
       else compare_caps P (cap d) (cap c) True \<le> 0)" if "c \<in> {f, s}" "d \<in> {f, s}" for c d
    using that f(7) s(7) by (auto simp: range_better_def)
  show ?thesis
    unfolding * using b [of f s] b [of s f] better_refl [of a 3 f] better_refl [of a 3 s]
      cmp_swap [of "cap s" "cap f" True]
    by (cases ?pf; cases ?ps; cases "compare_caps P (cap f) (cap s) True \<ge> 0") simp_all
qed

lemma merge_choice:
  assumes "range_class P root a (a + ucast sz) f = ret" "range_class P root a (a + ucast sz) s = ret"
    "range_pre P root a (a + ucast sz) f" "range_pre P root a (a + ucast sz) s"
    "a \<le> a + ucast sz" "0 < ret" "ret \<le> mp"
  shows "\<exists>x \<in> {f, s}. mdb_sub_find_range_merge P a sz mp (ret, Some s) (ret, Some f) = Ok (ret, Some x) \<and>
    range_better P a ret x f \<and> range_better P a ret x s"
proof -
  have "ret \<in> {1, 2, 3}" using range_class_range [of P root a "a + ucast sz" f] assms(1,6) by auto
  moreover have "ret = 1 \<Longrightarrow> ?thesis"
    using choose_surrounding_Ok [of root a sz f s] assms by (auto simp: mdb_sub_find_range_merge_def)
  moreover have "ret = 2 \<Longrightarrow> ?thesis"
    using choose_inner_Ok [of root a sz f s] assms class_root [of P root a "a + ucast sz"]
    by (auto simp: mdb_sub_find_range_merge_def range_pre_def)
  moreover have "ret = 3 \<Longrightarrow> ?thesis"
    using choose_partial_Ok [of root a sz f s] assms by (auto simp: mdb_sub_find_range_merge_def)
  ultimately show ?thesis by blast
qed

lemma better_trans_class:
  assumes "range_better P a m c d" "range_better P a m d x" "a \<le> b"
    "range_class P root a b c = m" "range_class P root a b d = m" "range_class P root a b x = m" "0 < m"
  shows "range_better P a m c x"
proof (rule better_trans [OF assms(1,2)])
  assume "m \<noteq> 1" "m \<noteq> 2"
  then have "m = 3" using range_class_range [of P root a b c] assms(4,7) by auto
  then show "get_address P (cap d) \<noteq> a \<and> get_address P (cap c) \<noteq> a \<and> get_address P (cap x) \<noteq> a"
    using class3D(4) [OF _ assms(3)] assms(4-6) by auto
qed

lemma merge_answer:
  assumes cur: "range_answer P root a (a + ucast sz) mp S (ret, res)" "ret \<le> mp"
    and sub: "range_answer P root a (a + ucast sz) mp S' (sub_ret, sub_res)"
    and pre: "\<forall>c \<in> S \<union> S'. range_pre P root a (a + ucast sz) c" "a \<le> a + ucast sz" "0 \<le> mp"
  shows "\<exists>ans. mdb_sub_find_range_merge P a sz mp (sub_ret, sub_res) (ret, res) = Ok ans \<and>
    range_answer P root a (a + ucast sz) mp (S \<union> S') ans"
proof -
  let ?cls = "range_class P root a (a + ucast sz)"
  consider (high) "sub_ret > mp" | (more) "sub_ret \<le> mp" "sub_ret > ret" | (less) "sub_ret < ret"
    | (none) "sub_ret = ret" "ret = 0" | (same) "sub_ret = ret" "ret > 0" "sub_ret \<le> mp"
    using cur by (fastforce simp: range_answer_def)
  then show ?thesis
  proof cases
    case same
    then obtain f s where f: "f \<in> S" "res = Some f" "?cls f = ret"
        "\<forall>d \<in> S. ?cls d = ret \<longrightarrow> range_better P a ret f d" "\<forall>d \<in> S. ?cls d \<le> ret"
      and s: "s \<in> S'" "sub_res = Some s" "?cls s = ret"
        "\<forall>d \<in> S'. ?cls d = ret \<longrightarrow> range_better P a ret s d" "\<forall>d \<in> S'. ?cls d \<le> ret"
      using cur sub by (auto simp: range_answer_def)
    then obtain x where x: "x \<in> {f, s}" "range_better P a ret x f" "range_better P a ret x s"
        "mdb_sub_find_range_merge P a sz mp (ret, sub_res) (ret, res) = Ok (ret, Some x)"
      using merge_choice [of root a sz f ret s mp] same pre by auto
    have "?cls x = ret" using x(1) f(3) s(3) by auto
    then have "\<forall>d \<in> S \<union> S'. ?cls d = ret \<longrightarrow> range_better P a ret x d"
      using better_trans_class [OF x(2) _ pre(2), where root = root]
        better_trans_class [OF x(3) _ pre(2), where root = root] f(3,4) s(3,4) same(2) by auto
    then show ?thesis using x f s same cur(2) by (auto simp: range_answer_def)
  next
    case high
    then show ?thesis using cur(2) pre(3) range_answer_extend [OF sub, of S]
      by (simp add: mdb_sub_find_range_merge_def Un_commute)
  next
    case more
    then have "\<forall>c \<in> S. ?cls c < sub_ret" using range_answer_high [OF cur] by fastforce
    with more show ?thesis using cur(2) pre(3) range_answer_extend [OF sub, of S]
      by (simp add: mdb_sub_find_range_merge_def Un_commute)
  next
    case less
    then have "\<forall>c \<in> S'. ?cls c < ret" using range_answer_high [OF sub] cur(2) by fastforce
    with less show ?thesis using cur(2) pre(3) range_answer_extend [OF cur(1), of S']
      by (simp add: mdb_sub_find_range_merge_def)
  next
    case none
    then have "\<forall>c \<in> S'. ?cls c = 0" using range_answer_high [OF sub] cur(2) by (metis range_class_nonneg order_antisym)
    with none show ?thesis using cur(2) pre(3) range_answer_extend [OF cur(1), of S']
      by (simp add: mdb_sub_find_range_merge_def)
  qed
qed

lemma range_answer_single:
  "0 \<le> mp \<Longrightarrow> range_answer P root a b mp {c}
     (range_class P root a b c, if range_class P root a b c = 0 then None else Some c)"
  by (simp add: range_answer_def better_refl)

lemma range_answer_all_zero:
  "0 \<le> mp \<Longrightarrow> \<forall>c \<in> S. range_class P root a b c = 0 \<Longrightarrow> range_answer P root a b mp S (0, None)"
  using range_answer_extend [OF range_answer_none, of mp S P root a b] by simp

lemma aug_end_key_le:
  assumes "mdb_aug P t" "c \<in> entries t"
  shows "end_key P c \<le> (node_end_root t, node_end t)"
proof -
  have "t \<noteq> Null" using assms(2) by auto
  then show ?thesis using aug_key [OF assms(1)] assms(2) by simp
qed

lemma pruned_end:
  assumes "mdb_aug P t" "c \<in> entries t" "range_pre P root a b c"
    "node_end_root t < root \<or> node_end_root t = root \<and> node_end t \<le> a"
  shows "range_class P root a b c = 0"
proof (rule class_end_below [OF assms(3)])
  assume "cap_root P (cap c) = root"
  then show "cap_end P (cap c) \<le> a"
    using aug_end_key_le [OF assms(1,2)] assms(4) unfolding end_key_def lex_le_iff
    by (elim disjE conjE) simp_all
qed

lemma pruned_right:
  assumes sorted: "mdb_sorted P (Node l c e er k r)" and d: "d \<in> entries r"
    and pre: "range_pre P root a b c" "range_pre P root a b d" "a \<le> b"
    and prune: "\<not> (cap_root P (cap c) \<le> root \<and> get_address P (cap c) < b)"
  shows "range_class P root a b d = 0"
proof (rule class_start_above [OF pre(2,3)])
  assume root: "cap_root P (cap d) = root"
  have le: "compare_caps P (cap c) (cap d) True \<le> 0" using sorted_le(2) [OF sorted d] .
  then have "cap_root P (cap c) \<le> root" using cmp_le_root root by metis
  moreover from this have "cap_root P (cap c) = root"
    using prune pre(1) by (auto simp: range_pre_def order_le_less)
  ultimately show "b \<le> get_address P (cap d)"
    using prune cmp_le_address [OF le] root by (metis linorder_not_less order_less_le_trans)
qed

lemma node_class:
  assumes "range_pre P root a b c" "a \<le> b"
  shows "(if cap_root P (cap c) = root then mdb_range_class P a b (cap c) else Ok 0) =
    Ok (range_class P root a b c)"
  using mdb_range_class_Ok [of P c root a b] assms class_root [of P root a b c]
  by (auto simp: range_pre_def)

text \<open>The work at a node that is not pruned, given the answers for its subtrees.\<close>

lemma merge_left:
  assumes "range_answer P root a (a + ucast sz) mp (entries l) ansl"
    "\<forall>d \<in> insert c (entries l). range_pre P root a (a + ucast sz) d" "a \<le> a + ucast sz" "0 \<le> mp"
    "range_class P root a (a + ucast sz) c \<le> mp"
  shows "\<exists>ans. (if l \<noteq> Null then mdb_sub_find_range_merge P a sz mp ansl
      (range_class P root a (a + ucast sz) c,
       if range_class P root a (a + ucast sz) c = 0 then None else Some c)
    else Ok (range_class P root a (a + ucast sz) c,
       if range_class P root a (a + ucast sz) c = 0 then None else Some c)) = Ok ans \<and>
    range_answer P root a (a + ucast sz) mp (insert c (entries l)) ans"
proof -
  note single = range_answer_single [OF assms(4), of root a "a + ucast sz" c]
  show ?thesis
  proof (cases "l = Null")
    case True
    then show ?thesis using single by simp
  next
    case False
    then show ?thesis
      using merge_answer [OF single assms(5), of "entries l" "fst ansl" "snd ansl"] assms(1-4) by simp
  qed
qed

lemma merge_right:
  assumes sorted: "mdb_sorted P (Node l c e er k r)"
    and pre: "\<forall>d \<in> entries (Node l c e er k r). range_pre P root a (a + ucast sz) d"
      "a \<le> a + ucast sz" "0 \<le> mp"
    and left: "range_answer P root a (a + ucast sz) mp (insert c (entries l)) (ret, res)"
    and right: "range_answer P root a (a + ucast sz) mp (entries r) ansr"
  shows "\<exists>ans. (if ret > mp then Ok (ret, res)
    else if r \<noteq> Null \<and> root \<ge> cap_root P (cap c) \<and>
      (a + ucast sz > get_address P (cap c) \<or> a + ucast sz = get_address P (cap c) \<and> sz = 0)
    then mdb_sub_find_range_merge P a sz mp ansr (ret, res) else Ok (ret, res)) = Ok ans \<and>
    range_answer P root a (a + ucast sz) mp (entries (Node l c e er k r)) ans"
proof -
  have entries: "entries (Node l c e er k r) = insert c (entries l) \<union> entries r" by auto
  let ?go = "r \<noteq> Null \<and> root \<ge> cap_root P (cap c) \<and>
      (a + ucast sz > get_address P (cap c) \<or> a + ucast sz = get_address P (cap c) \<and> sz = 0)"
  consider (high) "ret > mp" | (skip) "ret \<le> mp" "\<not> ?go" | (go) "ret \<le> mp" ?go by linarith
  then show ?thesis
  proof cases
    case high
    then show ?thesis using range_answer_extend [OF left, of "entries r"] entries by simp
  next
    case skip
    then have "\<forall>d \<in> entries r. range_class P root a (a + ucast sz) d = 0"
      using pruned_right [OF sorted _ _ _ pre(2)] pre(1) by fastforce
    then show ?thesis using skip range_answer_extend [OF left, of "entries r"] entries by auto
  next
    case go
    have "\<forall>d \<in> insert c (entries l) \<union> entries r. range_pre P root a (a + ucast sz) d"
      using pre(1) unfolding entries .
    then show ?thesis unfolding entries
      using go merge_answer [OF left go(1), of "entries r" "fst ansr" "snd ansr"] right pre by simp
  qed
qed

lemma sub_find_range_answer:
  assumes "mdb_sorted P t" "mdb_aug P t" "\<forall>c \<in> entries t. range_pre P root a (a + ucast sz) c"
    "a \<le> a + ucast sz" "0 \<le> mp"
  shows "\<exists>ans. mdb_sub_find_range P root a sz mp t = Ok ans \<and>
    range_answer P root a (a + ucast sz) mp (entries t) ans"
  using assms
proof (induction t)
  case Null
  then show ?case using range_answer_none by simp
next
  case (Node l c e er k r)
  let ?t = "Node l c e er k r" and ?b = "a + ucast sz"
  let ?ans = "range_answer P root a ?b mp" and ?cls = "range_class P root a ?b"
  let ?c = "(?cls c, if ?cls c = 0 then None else Some c)"
  have pre: "range_pre P root a ?b c" "\<forall>d \<in> entries l. range_pre P root a ?b d"
    "\<forall>d \<in> entries r. range_pre P root a ?b d" using Node.prems(3) by simp_all
  have sub: "mdb_sorted P l" "mdb_sorted P r" "mdb_aug P l" "mdb_aug P r"
    using Node.prems(1,2) by (simp_all add: mdb_sorted_Node)
  obtain ansl where l: "mdb_sub_find_range P root a sz mp l = Ok ansl" "?ans (entries l) ansl"
    using Node.IH(1) sub pre Node.prems(4,5) by blast
  obtain ansr where r: "mdb_sub_find_range P root a sz mp r = Ok ansr" "?ans (entries r) ansr"
    using Node.IH(2) sub pre Node.prems(4,5) by blast
  show ?case
  proof (cases "er < root \<or> er = root \<and> e \<le> a")
    case True
    then have "\<forall>d \<in> entries ?t. ?cls d = 0"
      using pruned_end [OF Node.prems(2)] Node.prems(3) by simp
    then show ?thesis using True range_answer_all_zero [OF Node.prems(5)] Node.prems(5) by auto
  next
    case False
    note step = mdb_sub_find_range.simps(2) [of P root a sz mp l c e er k r] Let_def
      node_class [OF pre(1) Node.prems(4)] bind_outcome.simps(1) l(1) r(1)
    show ?thesis
    proof (cases "?cls c > mp")
      case True
      then show ?thesis
        using range_answer_extend [OF range_answer_single [OF Node.prems(5)], of root a ?b c
            "entries l \<union> entries r"] False Node.prems(5) unfolding step by auto
    next
      case low: False
      obtain ret res where left: "(if l \<noteq> Null then mdb_sub_find_range_merge P a sz mp ansl ?c
          else Ok ?c) = Ok (ret, res)" "?ans (insert c (entries l)) (ret, res)"
        using merge_left [OF l(2), of c] pre Node.prems(4,5) low by auto
      show ?thesis
        using merge_right [OF Node.prems(1,3,4,5) left(2) r(2)] False low Node.prems(5)
        unfolding step by (auto simp: left(1))
    qed
  qed
qed

end

end
