(* ===== verification/Mdb.thy ===== *)
theory Mdb
  imports Mdb_Range
begin

text \<open>
  The operations of \<^verbatim>\<open>lib/mdb/mdb.c\<close> that the kernel calls (\<open>set_init_mapping\<close>,
  \<open>remove_mapping\<close>, \<open>has_copies\<close>, \<open>has_descendants\<close>, \<open>mdb_find_ancestor\<close>, \<dots>), and the
  properties of the mapping database as a whole.

  A pointer to a slot is the reference to its capability; \<open>mdb_node_at\<close> is the slot's node
  in the tree and \<open>mdb_update_cte\<close> a store to its fields.
\<close>

section \<open>The code\<close>

fun mdb_node_at :: "'c mdb \<Rightarrow> 'c \<Rightarrow> 'c mdb" where
  "mdb_node_at Null cp = Null"
| "mdb_node_at (Node l c e er k r) cp =
     (if cap c = cp then Node l c e er k r
      else if mdb_node_at l cp \<noteq> Null then mdb_node_at l cp
      else mdb_node_at r cp)"

fun mdb_update_cte :: "'c \<Rightarrow> ('c cte \<Rightarrow> 'c cte) \<Rightarrow> 'c mdb \<Rightarrow> 'c mdb" where
  "mdb_update_cte cp f Null = Null"
| "mdb_update_cte cp f (Node l c e er k r) =
     Node (mdb_update_cte cp f l) (if cap c = cp then f c else c) e er k (mdb_update_cte cp f r)"

abbreviation RRELS_COPY_BIT :: u8 where "RRELS_COPY_BIT \<equiv> 1"
abbreviation RRELS_ANCS_BIT :: u8 where "RRELS_ANCS_BIT \<equiv> 2"
abbreviation RRELS_DESC_BIT :: u8 where "RRELS_DESC_BIT \<equiv> 4"

definition mdb_set_cte_relations :: "u8 \<Rightarrow> u8 \<Rightarrow> 'c cte \<Rightarrow> 'c cte" where
  "mdb_set_cte_relations relations msk c =
     (let c = (if msk AND RRELS_COPY_BIT \<noteq> 0
               then c\<lparr>remote_copies := relations AND RRELS_COPY_BIT \<noteq> 0\<rparr> else c);
          c = (if msk AND RRELS_ANCS_BIT \<noteq> 0
               then c\<lparr>remote_ancs := relations AND RRELS_ANCS_BIT \<noteq> 0\<rparr> else c);
          c = (if msk AND RRELS_DESC_BIT \<noteq> 0
               then c\<lparr>remote_descs := relations AND RRELS_DESC_BIT \<noteq> 0\<rparr> else c)
      in c)"

text \<open>
  One of the two loops of \<open>mdb_set_relations\<close> that walk to the successors (predecessors) as
  long as they are copies of \<open>cp\<close>. The first argument bounds the number of rounds.
\<close>

fun mdb_set_copies_relations ::
  "nat \<Rightarrow> 'c cap_preds \<Rightarrow> ('c mdb \<Rightarrow> 'c mdb \<Rightarrow> 'c cte option) \<Rightarrow> 'c \<Rightarrow> u8 \<Rightarrow> u8 \<Rightarrow>
   'c cte option \<Rightarrow> 'c mdb \<Rightarrow> 'c mdb option" where
  "mdb_set_copies_relations 0 P step cp relations msk next t = None"
| "mdb_set_copies_relations (Suc n) P step cp relations msk next t =
     (case next of
        None \<Rightarrow> Some t
      | Some x \<Rightarrow>
          if \<not> is_copy P (cap x) cp then Some t
          else
            let t' = mdb_update_cte (cap x) (mdb_set_cte_relations relations msk) t
            in mdb_set_copies_relations n P step cp relations msk
                 (step t' (mdb_node_at t' (cap x))) t')"

definition mdb_set_relations :: "'c cap_preds \<Rightarrow> 'c mdb \<Rightarrow> 'c \<Rightarrow> u8 \<Rightarrow> u8 \<Rightarrow> 'c mdb option" where
  "mdb_set_relations P mdb_root cp relations msk =
     (let old = entry (mdb_node_at mdb_root cp);
          t = mdb_update_cte cp (mdb_set_cte_relations relations msk) mdb_root;
          new = entry (mdb_node_at t cp);
          fuel = Suc (length (inorder mdb_root))
      in if remote_copies new = remote_copies old \<and> remote_ancs new = remote_ancs old \<and>
            remote_descs new = remote_descs old
         then Some t
         else Option.bind
           (mdb_set_copies_relations fuel P (mdb_successor P) cp relations msk
              (mdb_successor P t (mdb_node_at t cp)) t)
           (\<lambda>t. mdb_set_copies_relations fuel P (mdb_predecessor P) cp relations msk
              (mdb_predecessor P t (mdb_node_at t cp)) t))"

definition has_descendants :: "'c cap_preds \<Rightarrow> 'c mdb \<Rightarrow> 'c \<Rightarrow> bool" where
  "has_descendants P mdb_root cp =
     (case mdb_find_greater P mdb_root cp False of
        None \<Rightarrow> False
      | Some next \<Rightarrow>
          cap_root P (cap next) = cap_root P cp \<and>
          get_address P (cap next) < get_address P cp + get_size P cp)"

definition mdb_find_ancestor :: "'c cap_preds \<Rightarrow> 'c mdb \<Rightarrow> 'c \<Rightarrow> 'c cte option outcome" where
  "mdb_find_ancestor P mdb_root cp =
     (let query =
        bind_outcome
          (mdb_find_range P mdb_root (cap_root P cp) (get_address P cp) 0
             MDB_RANGE_FOUND_SURROUNDING True True)
          (\<lambda>(find_result, result).
            if find_result \<noteq> MDB_RANGE_NOT_FOUND then
              (case result of
                 None \<Rightarrow> Abort
               | Some res \<Rightarrow>
                   if find_result = MDB_RANGE_FOUND_SURROUNDING \<and>
                      get_address P (cap res) \<le> get_address P cp \<and>
                      get_address P (cap res) + get_size P (cap res) \<ge> get_address P cp + get_size P cp
                   then Ok result else Abort)
            else if result = None then Ok None else Abort)
      in case mdb_find_less P mdb_root cp False of
           None \<Rightarrow> query
         | Some res \<Rightarrow>
             if cap_root P (cap res) = cap_root P cp \<and>
                get_address P (cap res) + get_size P (cap res) \<ge> get_address P cp + get_size P cp
             then Ok (Some res) else query)"

definition has_ancestors :: "'c cap_preds \<Rightarrow> 'c mdb \<Rightarrow> 'c \<Rightarrow> bool outcome" where
  "has_ancestors P mdb_root cp =
     bind_outcome (mdb_find_ancestor P mdb_root cp) (\<lambda>res. Ok (res \<noteq> None))"

definition has_copies :: "'c cap_preds \<Rightarrow> 'c mdb \<Rightarrow> 'c \<Rightarrow> bool" where
  "has_copies P mdb_root cp =
     (let node = mdb_node_at mdb_root cp in
      case mdb_successor P mdb_root node of
        Some next \<Rightarrow>
          if is_copy P (cap next) cp then True
          else (case mdb_predecessor P mdb_root node of
                  Some prev \<Rightarrow> is_copy P (cap prev) cp
                | None \<Rightarrow> False)
      | None \<Rightarrow>
          (case mdb_predecessor P mdb_root node of
             Some prev \<Rightarrow> is_copy P (cap prev) cp
           | None \<Rightarrow> False))"

definition mdb_get_copy :: "'c cap_preds \<Rightarrow> 'c mdb \<Rightarrow> 'c \<Rightarrow> 'c outcome" where
  "mdb_get_copy P mdb_root cp =
     (case mdb_find_equal P mdb_root cp of
        Some c \<Rightarrow> Ok (cap c)
      | None \<Rightarrow> Err SYS_ERR_NO_LOCAL_COPIES)"

definition mdb_check_invariants :: "'c cap_preds \<Rightarrow> 'c mdb \<Rightarrow> mdb_invariant outcome" where
  "mdb_check_invariants P mdb_root = mdb_check_subtree_invariants P mdb_root"

definition mdb_is_sane :: "'c cap_preds \<Rightarrow> 'c mdb \<Rightarrow> bool outcome" where
  "mdb_is_sane P mdb_root =
     bind_outcome (mdb_check_invariants P mdb_root) (\<lambda>res. Ok (res = MDB_INVARIANT_OK))"

text \<open>Both of these ignore the error code: an error leaves the tree as it is.\<close>

definition ignore_error :: "'a \<Rightarrow> 'a outcome \<Rightarrow> 'a outcome" where
  "ignore_error old res = (case res of Err _ \<Rightarrow> Ok old | _ \<Rightarrow> res)"

fun set_init_mapping :: "'c cap_preds \<Rightarrow> 'c mdb \<Rightarrow> 'c cte list \<Rightarrow> 'c mdb outcome" where
  "set_init_mapping P mdb_root [] = Ok mdb_root"
| "set_init_mapping P mdb_root (c # cs) =
     bind_outcome (ignore_error mdb_root (mdb_insert P mdb_root (new_cte c))) (\<lambda>t.
       set_init_mapping P t cs)"

definition remove_mapping :: "'c cap_preds \<Rightarrow> 'c mdb \<Rightarrow> 'c \<Rightarrow> 'c mdb outcome" where
  "remove_mapping P mdb_root cp = ignore_error mdb_root (mdb_remove P mdb_root cp)"

section \<open>Sequences of operations\<close>

lemma insert_or_ignore:
  assumes "cap_order P" "mdb_wf P t" "objtype P (cap c) \<noteq> 0"
  shows "\<exists>t'. ignore_error t (mdb_insert P t (new_cte c)) = Ok t' \<and> mdb_wf P t' \<and>
    entries t' = (if \<exists>d \<in> entries t. cap d = cap c then entries t else insert c (entries t))"
proof -
  note cases = cap_order.sub_insert_cases [OF assms(1) wfD(1) [OF assms(2)], of c]
  show ?thesis
  proof (cases "\<exists>d \<in> entries t. cap d = cap c")
    case True
    then show ?thesis using cases assms(2) by (simp add: mdb_insert_def ignore_error_def)
  next
    case False
    then obtain t' where t': "mdb_sub_insert P (new_cte c) t = Ok t'" using cases by auto
    then show ?thesis
      using False cap_order.sub_insert_wf [OF assms(1-3) t'] cap_order.sub_insert_entries [OF assms(1) t']
      by (simp add: mdb_insert_def ignore_error_def)
  qed
qed

lemma removed_entries:
  assumes "cap_order P" "mdb_sorted P t" "removed P cp t t'"
  shows "entries t' = {d \<in> entries t. cap d \<noteq> cp}"
proof -
  obtain xs c ys where t: "inorder t = xs @ c # ys" "cap c = cp" "inorder t' = xs @ ys"
    using assms(3) by (auto simp: removed_def)
  have "d = c" if "d \<in> entries t" "cap d = cp" for d
    using cap_order.sorted_distinct [OF assms(1,2) that(1), of c] that(2) t by simp
  moreover have "distinct (inorder t)"
    using cap_order.sorted_distinct_inorder [OF assms(1,2)] .
  ultimately show ?thesis using t by auto
qed

lemma remove_or_ignore:
  assumes "cap_order P" "mdb_wf P t"
  shows "\<exists>t'. remove_mapping P t cp = Ok t' \<and> mdb_wf P t' \<and>
    entries t' = {d \<in> entries t. cap d \<noteq> cp}"
proof -
  note cases = cap_order.subtree_remove_cases [OF assms, of cp]
  show ?thesis
  proof (cases "\<exists>d \<in> entries t. cap d = cp")
    case True
    then obtain t' where "mdb_subtree_remove P cp t = Ok t'" "removed P cp t t'" using cases by auto
    then show ?thesis
      using removed_wf [OF assms(2)] removed_entries [OF assms(1) wfD(1) [OF assms(2)]]
      by (simp add: remove_mapping_def mdb_remove_def ignore_error_def)
  next
    case False
    then show ?thesis using cases assms(2)
      by (auto simp: remove_mapping_def mdb_remove_def ignore_error_def)
  qed
qed

text \<open>
  The operations of the kernel on the database, and what they do to the set of slots: an
  insertion of a slot that is there already changes nothing, as does the removal of one
  that is not.
\<close>

datatype 'c mdb_op = SetInit "'c cte list" | RemoveMapping 'c

fun mdb_exec :: "'c cap_preds \<Rightarrow> 'c mdb_op \<Rightarrow> 'c mdb \<Rightarrow> 'c mdb outcome" where
  "mdb_exec P (SetInit cs) t = set_init_mapping P t cs"
| "mdb_exec P (RemoveMapping cp) t = remove_mapping P t cp"

definition slots_insert :: "'c cte \<Rightarrow> 'c cte set \<Rightarrow> 'c cte set" where
  "slots_insert c S = (if \<exists>d \<in> S. cap d = cap c then S else insert c S)"

fun slots_exec :: "'c mdb_op \<Rightarrow> 'c cte set \<Rightarrow> 'c cte set" where
  "slots_exec (SetInit cs) S = fold slots_insert cs S"
| "slots_exec (RemoveMapping cp) S = {d \<in> S. cap d \<noteq> cp}"

fun op_typed :: "'c cap_preds \<Rightarrow> 'c mdb_op \<Rightarrow> bool" where
  "op_typed P (SetInit cs) = (\<forall>c \<in> set cs. objtype P (cap c) \<noteq> 0)"
| "op_typed P (RemoveMapping cp) = True"

lemma set_init_mapping_slots:
  assumes "cap_order P" "mdb_wf P t" "\<forall>c \<in> set cs. objtype P (cap c) \<noteq> 0"
  shows "\<exists>t'. set_init_mapping P t cs = Ok t' \<and> mdb_wf P t' \<and>
    entries t' = fold slots_insert cs (entries t)"
  using assms(2,3)
proof (induction cs arbitrary: t)
  case (Cons c cs)
  obtain t1 where t1: "ignore_error t (mdb_insert P t (new_cte c)) = Ok t1" "mdb_wf P t1"
    "entries t1 = slots_insert c (entries t)"
    using insert_or_ignore [OF assms(1) Cons.prems(1), of c] Cons.prems(2)
    by (auto simp: slots_insert_def)
  with Cons.IH [OF t1(2)] Cons.prems(2) show ?case by simp
qed simp

lemma mdb_exec_slots:
  assumes "cap_order P" "mdb_wf P t" "op_typed P op"
  shows "\<exists>t'. mdb_exec P op t = Ok t' \<and> mdb_wf P t' \<and> entries t' = slots_exec op (entries t)"
  using set_init_mapping_slots [OF assms(1,2)] remove_or_ignore [OF assms(1,2)] assms(3)
  by (cases op) auto

lemma mdb_exec_list_slots:
  assumes "cap_order P" "mdb_wf P t" "\<forall>op \<in> set ops. op_typed P op"
  shows "\<exists>t'. fold_outcome (mdb_exec P) ops t = Ok t' \<and> mdb_wf P t' \<and>
    entries t' = fold slots_exec ops (entries t)"
  using assms(2,3)
proof (induction ops arbitrary: t)
  case (Cons op ops)
  obtain t1 where "mdb_exec P op t = Ok t1" "mdb_wf P t1" "entries t1 = slots_exec op (entries t)"
    using mdb_exec_slots [OF assms(1) Cons.prems(1), of op] Cons.prems(2) by auto
  with Cons.IH [of t1] Cons.prems(2) show ?case by simp
qed simp

section \<open>Relatives of a capability\<close>

lemma node_at_Null_iff: "mdb_node_at t cp = Null \<longleftrightarrow> (\<forall>c \<in> entries t. cap c \<noteq> cp)"
  by (induction t) auto

lemma node_at_subtree: "mdb_node_at t cp \<noteq> Null \<Longrightarrow> mdb_node_at t cp \<in> subtrees t"
  by (induction t) auto

lemma node_at_cap: "mdb_node_at t cp \<noteq> Null \<Longrightarrow> cap (entry (mdb_node_at t cp)) = cp"
  by (induction t) auto

lemma subtree_entry: "s \<in> subtrees t \<Longrightarrow> entry s \<in> entries t"
  by (induction t) auto

lemma inorder_update_cte:
  "inorder (mdb_update_cte cp f t) = map (\<lambda>c. if cap c = cp then f c else c) (inorder t)"
  by (induction t) auto

lemma update_cte_Null_iff [simp]: "mdb_update_cte cp f t = Null \<longleftrightarrow> t = Null"
  by (cases t) auto

lemma update_cte_fields:
  "t \<noteq> Null \<Longrightarrow> node_end (mdb_update_cte cp f t) = node_end t"
  "t \<noteq> Null \<Longrightarrow> node_end_root (mdb_update_cte cp f t) = node_end_root t"
  "lvl (mdb_update_cte cp f t) = lvl t"
  "t \<noteq> Null \<Longrightarrow> right (mdb_update_cte cp f t) = mdb_update_cte cp f (right t)"
  by (cases t; simp)+

lemma cap_set_relations: "cap (mdb_set_cte_relations relations msk c) = cap c"
  by (simp add: mdb_set_cte_relations_def Let_def)

lemma wf_update_cte:
  assumes "mdb_wf P t" and f: "\<And>c. cap (f c) = cap c"
  shows "mdb_wf P (mdb_update_cte cp f t)"
proof -
  have "mdb_aa t \<Longrightarrow> mdb_aa (mdb_update_cte cp f t)"
  proof (induction t)
    case (Node l c e er k r)
    then show ?case by (cases "r = Null") (auto simp: update_cte_fields)
  qed simp
  moreover have "mdb_aug P t \<Longrightarrow> mdb_aug P (mdb_update_cte cp f t)"
  proof (induction t)
    case (Node l c e er k r)
    let ?c = "if cap c = cp then f c else c"
    have "cap ?c = cap c" by (simp add: f)
    then have "expected_end_root P (mdb_update_cte cp f l) ?c (mdb_update_cte cp f r) =
        expected_end_root P l c r"
      and "expected_end P (mdb_update_cte cp f l) ?c (mdb_update_cte cp f r) er' =
        expected_end P l c r er'" for er'
      unfolding expected_end_root_def expected_end_def Let_def
      by (cases "l = Null"; cases "r = Null"; simp add: update_cte_fields)+
    then show ?case using Node by simp
  qed simp
  moreover have "mdb_sorted P (mdb_update_cte cp f t) = mdb_sorted P t"
    by (auto simp: mdb_sorted_def inorder_update_cte sorted_wrt_map f if_distrib [of cap] cong: if_cong)
  moreover have "map cap (inorder (mdb_update_cte cp f t)) = map cap (inorder t)"
    by (simp add: inorder_update_cte f)
  then have "cap ` entries (mdb_update_cte cp f t) = cap ` entries t" by (metis list.set_map)
  then have "mdb_typed P (mdb_update_cte cp f t) = mdb_typed P t"
    unfolding mdb_typed_def by (metis (no_types, lifting) image_iff)
  ultimately show ?thesis using assms(1) by (simp add: mdb_wf_def)
qed

text \<open>
  An ancestor of \<open>cp\<close>: of the same root, not a copy, earlier in the order, and covering
  all of \<open>cp\<close>.
\<close>

definition is_ancestor_of :: "'c cap_preds \<Rightarrow> 'c \<Rightarrow> 'c cte \<Rightarrow> bool" where
  "is_ancestor_of P cp y \<longleftrightarrow>
     cap_root P (cap y) = cap_root P cp \<and> compare_caps P (cap y) cp False < 0 \<and>
     get_address P (cap y) \<le> get_address P cp \<and> cap_end P cp \<le> cap_end P (cap y)"

text \<open>A capability around the first byte of \<open>cp\<close> that starts before it.\<close>

definition covers_start :: "'c cap_preds \<Rightarrow> 'c \<Rightarrow> 'c cte \<Rightarrow> bool" where
  "covers_start P cp c \<longleftrightarrow>
     cap_root P (cap c) = cap_root P cp \<and> get_address P (cap c) < get_address P cp \<and>
     get_address P cp < cap_end P (cap c)"

text \<open>A capability that contains the byte at an address.\<close>

definition covers_byte :: "'c cap_preds \<Rightarrow> u8 \<Rightarrow> u64 \<Rightarrow> 'c cte \<Rightarrow> bool" where
  "covers_byte P root a c \<longleftrightarrow>
     cap_root P (cap c) = root \<and> get_address P (cap c) \<le> a \<and> a < cap_end P (cap c)"

lemma less_Suc_word:
  fixes a x :: u64
  assumes "a < a + 1"
  shows "x < a + 1 \<longleftrightarrow> x \<le> a" and "a + 1 \<le> x \<longleftrightarrow> a < x"
proof -
  have "unat (a + 1) = unat a + 1" using assms by (metis order_less_imp_le unat_1 unat_plus_simple)
  then show "x < a + 1 \<longleftrightarrow> x \<le> a" "a + 1 \<le> x \<longleftrightarrow> a < x"
    by (auto simp: word_less_nat_alt word_le_nat_alt)
qed

lemma class_byte:
  assumes a: "a < a + 1" and pre: "range_pre P root a (a + 1) c"
  shows "range_class P root a (a + 1) c = (if covers_byte P root a c then 1 else 0)"
proof (cases "cap_root P (cap c) = root")
  case True
  let ?ca = "get_address P (cap c)" and ?ce = "cap_end P (cap c)"
  have le: "?ca \<le> ?ce" using pre True by (simp add: range_pre_def)
  have empty: "\<not> (?ca = a \<and> ?ce = a)" "\<not> (?ca = a + 1 \<and> ?ce = a + 1)"
    using pre True a by (auto simp: range_pre_def cap_end_def)
  have "\<not> (a < ?ca \<and> ?ca < a + 1 \<and> a + 1 < ?ce \<or> a < ?ce \<and> ?ce < a + 1 \<and> ?ca < a)"
    using less_Suc_word [OF a] by (auto simp: not_less)
  moreover have "\<not> (a \<le> ?ca \<and> ?ce < a + 1 \<or> a < ?ca \<and> ?ce \<le> a + 1)"
  proof (rule notI, elim disjE conjE)
    assume "a \<le> ?ca" "?ce < a + 1"
    then have "?ca = a" "?ce = a" using le less_Suc_word(1) [OF a] by (simp_all add: order_antisym)
    then show False using empty(1) by simp
  next
    assume "a < ?ca" "?ce \<le> a + 1"
    then have "a + 1 \<le> ?ca" using less_Suc_word(2) [OF a] by simp
    then have "?ca = a + 1" "?ce = a + 1" using le \<open>?ce \<le> a + 1\<close> by (simp_all add: order_antisym)
    then show False using empty(2) by simp
  qed
  moreover have "(?ca \<le> a \<and> ?ca < a + 1 \<and> a + 1 \<le> ?ce \<and> a < ?ce) = (?ca \<le> a \<and> a < ?ce)"
    using less_Suc_word [OF a] by auto
  ultimately show ?thesis unfolding range_class_def Let_def covers_byte_def True by (simp only: if_False) simp
qed (simp add: range_class_def covers_byte_def)

text \<open>
  What \<open>mdb_find_ancestor\<close> relies on: \<open>cp\<close> is not empty, no capability wraps around, smaller
  type roots lie at lower addresses, and a capability that contains the start of \<open>cp\<close> and
  starts before it contains all of \<open>cp\<close>.
\<close>

definition ancestor_pre :: "'c cap_preds \<Rightarrow> 'c mdb \<Rightarrow> 'c \<Rightarrow> bool" where
  "ancestor_pre P t cp \<longleftrightarrow>
     get_address P cp < cap_end P cp \<and>
     (\<forall>c \<in> entries t.
        get_address P (cap c) \<le> cap_end P (cap c) \<and>
        (cap_root P (cap c) < cap_root P cp \<longrightarrow> get_address P (cap c) < get_address P cp) \<and>
        (covers_start P cp c \<longrightarrow> cap_end P cp \<le> cap_end P (cap c)))"

context cap_order
begin

lemma node_at_entry:
  assumes "mdb_sorted P t" "c \<in> entries t"
  shows "mdb_node_at t (cap c) \<in> subtrees t" "entry (mdb_node_at t (cap c)) = c"
proof -
  have n: "mdb_node_at t (cap c) \<noteq> Null" using assms(2) by (auto simp: node_at_Null_iff)
  then show *: "mdb_node_at t (cap c) \<in> subtrees t" by (rule node_at_subtree)
  show "entry (mdb_node_at t (cap c)) = c"
    using sorted_distinct [OF assms(1) subtree_entry [OF *] assms(2)] node_at_cap [OF n] by simp
qed

lemma slot_neighbours:
  assumes "mdb_sorted P t" "inorder t = xs @ c # ys"
  shows "mdb_predecessor P t (mdb_node_at t (cap c)) = last_opt xs"
    "mdb_successor P t (mdb_node_at t (cap c)) = hd_opt ys"
  using neighbours [OF assms(1) node_at_entry(1) [OF assms(1)], of c xs ys]
    node_at_entry(2) [OF assms(1), of c] assms(2) by simp_all

lemma has_descendants_iff:
  assumes "mdb_sorted P t"
  shows "has_descendants P t cp \<longleftrightarrow>
    (\<exists>d \<in> entries t. compare_caps P cp (cap d) False < 0 \<and> cap_root P (cap d) = cap_root P cp \<and>
       get_address P (cap d) < get_address P cp + get_size P cp)"
proof -
  define ys where "ys = filter (\<lambda>x. compare_caps P cp (cap x) False < 0) (inorder t)"
  have ys: "x \<in> set ys \<longleftrightarrow> x \<in> entries t \<and> compare_caps P cp (cap x) False < 0" for x
    by (simp add: ys_def)
  have nxt: "mdb_find_greater P t cp False = hd_opt ys"
    by (simp add: mdb_find_greater_def find_greater_hd [OF assms] ys_def)
  have sorted: "sorted_wrt (\<lambda>a b. compare_caps P (cap a) (cap b) True < 0) ys"
    using assms unfolding ys_def mdb_sorted_def by (rule sorted_wrt_filter)
  show ?thesis
  proof (cases ys)
    case Nil
    then show ?thesis using ys nxt by (auto simp: has_descendants_def)
  next
    case (Cons n zs)
    have first: "compare_caps P (cap n) (cap d) True \<le> 0" if "d \<in> set ys" for d
      using that sorted Cons by auto
    have n: "n \<in> entries t" "compare_caps P cp (cap n) False < 0" using ys Cons by auto
    have "cap_root P (cap n) = cap_root P cp \<and> get_address P (cap n) \<le> get_address P (cap d)"
      if "d \<in> set ys" "cap_root P (cap d) = cap_root P cp" for d
      using cmp_le_root [OF first [OF that(1)]] cmp_le_address [OF first [OF that(1)]]
        cmp_le_root [of cp "cap n" False] n(2) that(2) by (auto intro: order_antisym)
    then show ?thesis using n ys Cons nxt
      by (auto simp: has_descendants_def) (metis order_le_less_trans)
  qed
qed

text \<open>Copies are next to each other in the order.\<close>

lemma copies_between:
  "compare_caps P (cap d) (cap p) True < 0 \<Longrightarrow> compare_caps P (cap p) (cap c) True < 0 \<Longrightarrow>
   compare_caps P (cap d) (cap c) False = 0 \<Longrightarrow> compare_caps P (cap p) (cap c) False = 0"
  "compare_caps P (cap c) (cap n) True < 0 \<Longrightarrow> compare_caps P (cap n) (cap d) True < 0 \<Longrightarrow>
   compare_caps P (cap d) (cap c) False = 0 \<Longrightarrow> compare_caps P (cap n) (cap c) False = 0"
  using cmp_True_le_False cmp_trans [where t = False] cmp_zero_sym [where t = False]
    cmp_swap [where t = False] by (metis neg_0_le_iff_le order_antisym order_refl)+

lemma has_copies_iff:
  assumes wf: "mdb_wf P t" and c: "c \<in> entries t"
  shows "has_copies P t (cap c) \<longleftrightarrow> (\<exists>d \<in> entries t. d \<noteq> c \<and> is_copy P (cap d) (cap c))"
proof -
  note sorted = wfD(1) [OF wf]
  obtain xs ys where t: "inorder t = xs @ c # ys" using c by (meson split_list)
  have lt: "sorted_wrt (\<lambda>a b. compare_caps P (cap a) (cap b) True < 0) (xs @ c # ys)"
    using sorted t by (simp add: mdb_sorted_def)
  have copy: "is_copy P (cap d) cp \<longleftrightarrow> compare_caps P (cap d) cp False = 0" if "d \<in> entries t" for d cp
    using copy_iff wfD(4) [OF wf] that by (auto simp: mdb_typed_def)
  have "(\<exists>d \<in> entries t. d \<noteq> c \<and> is_copy P (cap d) (cap c)) \<longleftrightarrow>
      (\<exists>d \<in> set xs \<union> set ys. is_copy P (cap d) (cap c))"
    using sorted_distinct_inorder [OF sorted] t by auto
  also have "\<dots> \<longleftrightarrow> (\<exists>p. last_opt xs = Some p \<and> is_copy P (cap p) (cap c)) \<or>
      (\<exists>n. hd_opt ys = Some n \<and> is_copy P (cap n) (cap c))"
  proof (intro iffI)
    assume "\<exists>d \<in> set xs \<union> set ys. is_copy P (cap d) (cap c)"
    then obtain d where d: "d \<in> set xs \<or> d \<in> set ys" "compare_caps P (cap d) (cap c) False = 0"
      using copy [of _ "cap c"] t by auto
    show "(\<exists>p. last_opt xs = Some p \<and> is_copy P (cap p) (cap c)) \<or>
        (\<exists>n. hd_opt ys = Some n \<and> is_copy P (cap n) (cap c))"
      using d(1)
    proof
      assume "d \<in> set xs"
      then obtain zs p where "xs = zs @ [p]" by (cases xs rule: rev_cases) auto
      moreover from this have "d = p \<or> compare_caps P (cap d) (cap p) True < 0"
        "compare_caps P (cap p) (cap c) True < 0"
        using lt \<open>d \<in> set xs\<close> by (auto simp: sorted_wrt_append)
      ultimately show ?thesis using copy [of p] t d(2) copies_between(1) [of d p c] by auto
    next
      assume "d \<in> set ys"
      then obtain n zs where "ys = n # zs" by (cases ys) auto
      moreover from this have "d = n \<or> compare_caps P (cap n) (cap d) True < 0"
        "compare_caps P (cap c) (cap n) True < 0"
        using lt \<open>d \<in> set ys\<close> by (auto simp: sorted_wrt_append)
      ultimately show ?thesis using copy [of n] t d(2) copies_between(2) [of c n d] by auto
    qed
  qed (auto simp: last_opt_eq_Some hd_opt_eq_Some)
  finally show ?thesis using slot_neighbours [OF sorted t]
    by (auto simp: has_copies_def Let_def split: option.splits)
qed

lemma find_less_Some:
  assumes sorted: "mdb_sorted P t" and x: "mdb_find_less P t cp False = Some x"
  shows "x \<in> entries t" "compare_caps P (cap x) cp False < 0"
    "y \<in> entries t \<Longrightarrow> compare_caps P (cap y) cp False < 0 \<Longrightarrow> compare_caps P (cap y) (cap x) True \<le> 0"
proof -
  define xs where "xs = filter (\<lambda>x. compare_caps P (cap x) cp False < 0) (inorder t)"
  obtain zs where xs: "xs = zs @ [x]"
    using x by (auto simp: mdb_find_less_def find_less_last [OF sorted] xs_def last_opt_eq_Some)
  then have "x \<in> set xs" by simp
  then show "x \<in> entries t" "compare_caps P (cap x) cp False < 0" by (auto simp: xs_def)
  have "sorted_wrt (\<lambda>a b. compare_caps P (cap a) (cap b) True < 0) xs"
    using sorted unfolding xs_def mdb_sorted_def by (rule sorted_wrt_filter)
  moreover assume "y \<in> entries t" "compare_caps P (cap y) cp False < 0"
  then have "y \<in> set xs" by (simp add: xs_def)
  ultimately show "compare_caps P (cap y) (cap x) True \<le> 0" using xs by (auto simp: sorted_wrt_append)
qed

lemma find_less_None:
  assumes "mdb_sorted P t" "mdb_find_less P t cp False = None" "y \<in> entries t"
  shows "\<not> compare_caps P (cap y) cp False < 0"
  using assms by (auto simp: mdb_find_less_def find_less_last filter_empty_conv)

lemma ancestor_first_branch:
  assumes sorted: "mdb_sorted P t" and y: "y \<in> entries t" "is_ancestor_of P cp y"
    and addr: "get_address P (cap y) = get_address P cp"
    and wrap: "\<forall>c \<in> entries t. get_address P (cap c) \<le> cap_end P (cap c)"
  shows "\<exists>x. mdb_find_less P t cp False = Some x \<and> cap_root P (cap x) = cap_root P cp \<and>
    cap_end P cp \<le> cap_end P (cap x)"
proof -
  have "mdb_find_less P t cp False \<noteq> None"
    using find_less_None [OF sorted _ y(1)] y(2) by (auto simp: is_ancestor_of_def)
  then obtain x where "mdb_find_less P t cp False = Some x" by blast
  note x = this find_less_Some [OF sorted this]
  have le: "compare_caps P (cap y) (cap x) True \<le> 0" "compare_caps P (cap x) cp False \<le> 0"
    using x(3) x(4) [OF y(1)] y(2) by (auto simp: is_ancestor_of_def)
  have root: "cap_root P (cap x) = cap_root P cp"
    using cmp_le_root [OF le(1)] cmp_le_root [OF le(2)] y(2) by (auto simp: is_ancestor_of_def)
  moreover have "get_address P (cap x) = get_address P cp"
    using cmp_le_address [OF le(1)] cmp_le_address [OF le(2)] root y(2) addr
    by (simp add: is_ancestor_of_def)
  moreover from this have "get_size P cp \<le> get_size P (cap x)" using cmp_key [OF le(2)] root by auto
  ultimately have "cap_end P cp \<le> cap_end P (cap x)"
    using wrap x(2) word_plus_mono_right unfolding cap_end_def by metis
  with x(1) root show ?thesis by blast
qed

lemma class_point:
  assumes "get_address P (cap c) \<le> cap_end P (cap c)"
  shows "range_class P (cap_root P cp) (get_address P cp) (get_address P cp) c =
    (if covers_start P cp c then 1 else 0)"
proof -
  let ?a = "get_address P cp" and ?ca = "get_address P (cap c)" and ?ce = "cap_end P (cap c)"
  have "\<not> (?a < ?ca \<and> ?ca < ?a \<and> ?a < ?ce \<or> ?a < ?ce \<and> ?ce < ?a \<and> ?ca < ?a)"
    "\<not> (?a \<le> ?ca \<and> ?ce < ?a \<or> ?a < ?ca \<and> ?ce \<le> ?a)"
    "(?ca \<le> ?a \<and> ?ca < ?a \<and> ?a \<le> ?ce \<and> ?a < ?ce) = (?ca < ?a \<and> ?a < ?ce)"
    using assms by (meson order_less_asym order_le_less_trans order_less_le_trans order_less_imp_le)+
  then show ?thesis unfolding range_class_def Let_def covers_start_def by (simp only: if_False) metis
qed

lemma point_query:
  assumes wf: "mdb_wf P t" and pre: "ancestor_pre P t cp"
  shows "\<exists>ret res. mdb_find_range P t (cap_root P cp) (get_address P cp) 0 1 True True = Ok (ret, res) \<and>
    (case res of
       None \<Rightarrow> ret = 0 \<and> (\<forall>c \<in> entries t. \<not> covers_start P cp c)
     | Some x \<Rightarrow> ret = 1 \<and> x \<in> entries t \<and> covers_start P cp x \<and>
         (\<forall>c \<in> entries t. covers_start P cp c \<longrightarrow> compare_caps P (cap c) (cap x) True \<le> 0))"
proof -
  let ?a = "get_address P cp" and ?root = "cap_root P cp"
  have cls: "c \<in> entries t \<Longrightarrow> range_class P ?root ?a ?a c = (if covers_start P cp c then 1 else 0)" for c
    using class_point pre by (simp add: ancestor_pre_def)
  have "\<forall>c \<in> entries t. range_pre P ?root ?a (?a + ucast (0 :: u32)) c"
    using pre by (simp add: ancestor_pre_def range_pre_def)
  then obtain ret res where ans: "mdb_sub_find_range P ?root ?a 0 1 t = Ok (ret, res)"
    "range_answer P ?root ?a ?a 1 (entries t) (ret, res)"
    using sub_find_range_answer [OF wfD(1,3) [OF wf], of ?root ?a 0 1] by auto
  have "mdb_find_range P t ?root ?a 0 1 True True = Ok (ret, res)"
    using ans(1) by (simp add: mdb_find_range_def)
  moreover have "case res of
       None \<Rightarrow> ret = 0 \<and> (\<forall>c \<in> entries t. \<not> covers_start P cp c)
     | Some x \<Rightarrow> ret = 1 \<and> x \<in> entries t \<and> covers_start P cp x \<and>
         (\<forall>c \<in> entries t. covers_start P cp c \<longrightarrow> compare_caps P (cap c) (cap x) True \<le> 0)"
  proof (cases "ret > 0")
    case True
    then obtain x where x: "x \<in> entries t" "res = Some x" "range_class P ?root ?a ?a x = ret"
      using ans(2) by (auto simp: range_answer_def split: if_splits)
    then have "covers_start P cp x" "ret = 1" using cls [OF x(1)] True by (auto split: if_splits)
    then show ?thesis using x ans(2) cls by (auto simp: range_answer_def range_better_def)
  next
    case False
    then have "ret = 0" using ans(2) by (simp add: range_answer_def)
    moreover from this have "\<forall>c \<in> entries t. \<not> covers_start P cp c"
      using range_answer_high [OF ans(2)] cls by fastforce
    ultimately show ?thesis using ans(2) by (simp add: range_answer_def)
  qed
  ultimately show ?thesis by blast
qed

lemma covers_start_iff_ancestor:
  assumes wf: "mdb_wf P t" and pre: "ancestor_pre P t cp" and y: "y \<in> entries t"
    and first: "\<not> (\<exists>x. mdb_find_less P t cp False = Some x \<and> cap_root P (cap x) = cap_root P cp \<and>
      cap_end P cp \<le> cap_end P (cap x))"
  shows "covers_start P cp y \<longleftrightarrow> is_ancestor_of P cp y"
proof
  assume "is_ancestor_of P cp y"
  then show "covers_start P cp y"
    using ancestor_first_branch [OF wfD(1) [OF wf] y] first pre
    by (auto simp: is_ancestor_of_def ancestor_pre_def covers_start_def order_le_less
        intro: order_less_le_trans)
next
  assume *: "covers_start P cp y"
  then have "\<not> compare_caps P cp (cap y) False \<le> 0"
    using cmp_le_address [of cp "cap y" False] by (auto simp: covers_start_def)
  then have "compare_caps P (cap y) cp False < 0" using cmp_swap [of cp "cap y" False] by simp
  with * show "is_ancestor_of P cp y" using pre y
    by (auto simp: is_ancestor_of_def ancestor_pre_def covers_start_def order_less_imp_le)
qed

lemma find_ancestor_correct:
  assumes wf: "mdb_wf P t" and pre: "ancestor_pre P t cp"
  shows "\<exists>res. mdb_find_ancestor P t cp = Ok res \<and>
    (case res of
       None \<Rightarrow> \<forall>y \<in> entries t. \<not> is_ancestor_of P cp y
     | Some x \<Rightarrow> x \<in> entries t \<and> is_ancestor_of P cp x \<and>
         (\<forall>y \<in> entries t. is_ancestor_of P cp y \<longrightarrow> compare_caps P (cap y) (cap x) True \<le> 0))"
proof (cases "\<exists>x. mdb_find_less P t cp False = Some x \<and> cap_root P (cap x) = cap_root P cp \<and>
    cap_end P cp \<le> cap_end P (cap x)")
  case True
  then obtain x where x: "mdb_find_less P t cp False = Some x" "cap_root P (cap x) = cap_root P cp"
    "cap_end P cp \<le> cap_end P (cap x)" by blast
  note less = find_less_Some [OF wfD(1) [OF wf] x(1)]
  have "get_address P (cap x) \<le> get_address P cp"
    using cmp_le_address [of "cap x" cp False] less(2) x(2) by simp
  then show ?thesis using x less
    by (auto simp: mdb_find_ancestor_def Let_def is_ancestor_of_def cap_end_def)
next
  case False
  note covers = covers_start_iff_ancestor [OF wf pre _ False]
  obtain ret res where r: "mdb_find_range P t (cap_root P cp) (get_address P cp) 0 1 True True =
      Ok (ret, res)" and res: "case res of
       None \<Rightarrow> ret = 0 \<and> (\<forall>c \<in> entries t. \<not> covers_start P cp c)
     | Some x \<Rightarrow> ret = 1 \<and> x \<in> entries t \<and> covers_start P cp x \<and>
         (\<forall>c \<in> entries t. covers_start P cp c \<longrightarrow> compare_caps P (cap c) (cap x) True \<le> 0)"
    using point_query [OF wf pre] by blast
  have "mdb_find_ancestor P t cp = Ok res"
  proof (cases res)
    case None
    then show ?thesis using res r False
      by (cases "mdb_find_less P t cp False") (auto simp: mdb_find_ancestor_def Let_def cap_end_def)
  next
    case (Some x)
    then have "is_ancestor_of P cp x" using res covers [of x] by simp
    then show ?thesis using res r False Some
      by (cases "mdb_find_less P t cp False")
        (auto simp: mdb_find_ancestor_def Let_def is_ancestor_of_def cap_end_def)
  qed
  then show ?thesis using res covers by (cases res) auto
qed

text \<open>The loops of \<open>mdb_set_relations\<close> reach every copy on their side and stop.\<close>

lemma sorted_caps_distinct: "mdb_sorted P t \<Longrightarrow> distinct (map cap (inorder t))"
  using sorted_distinct_inorder [of t] sorted_distinct [of t] by (auto simp: distinct_map inj_on_def)

lemma update_slot:
  assumes "mdb_wf P t" "inorder t = xs @ y # ys" "\<And>c. cap (f c) = cap c"
  shows "inorder (mdb_update_cte (cap y) f t) = xs @ f y # ys"
proof -
  have "cap y \<notin> cap ` set xs" "cap y \<notin> cap ` set ys"
    using sorted_caps_distinct [OF wfD(1) [OF assms(1)]] assms(2) by auto
  then have "\<forall>x \<in> set xs \<union> set ys. cap x \<noteq> cap y" by (metis Un_iff imageI)
  then show ?thesis by (auto simp: inorder_update_cte assms(2) intro!: map_idI)
qed

lemma loop_successors:
  fixes relations msk :: u8 and cp
  defines "f \<equiv> mdb_set_cte_relations relations msk" and "copy \<equiv> \<lambda>y. is_copy P (cap y) cp"
  assumes "mdb_wf P t" "inorder t = xs @ x # ys" "length ys < n"
  shows "\<exists>t'. mdb_set_copies_relations n P (mdb_successor P) cp relations msk (hd_opt ys) t = Some t' \<and>
    mdb_wf P t' \<and> inorder t' = xs @ x # map f (takeWhile copy ys) @ dropWhile copy ys"
  using assms(3-)
proof (induction ys arbitrary: xs x t n)
  case Nil
  then show ?case by (cases n) auto
next
  case (Cons y ys)
  then obtain m where n: "n = Suc m" "length ys < m" by (cases n) auto
  show ?case
  proof (cases "copy y")
    case True
    let ?t = "mdb_update_cte (cap y) f t"
    have f: "cap (f c) = cap c" for c by (simp add: f_def cap_set_relations)
    have wf: "mdb_wf P ?t" using wf_update_cte [OF Cons.prems(1)] f by blast
    have t: "inorder ?t = (xs @ [x]) @ f y # ys"
      using update_slot [OF Cons.prems(1), of "xs @ [x]" y ys f] Cons.prems(2) f by simp
    from slot_neighbours(2) [OF wfD(1) [OF wf] t] have "mdb_successor P ?t (mdb_node_at ?t (cap y)) = hd_opt ys"
      by (simp add: f)
    then show ?thesis using Cons.IH [OF wf t n(2)] True n(1) by (simp add: f_def copy_def)
  next
    case False
    then show ?thesis using Cons.prems n by (simp add: copy_def)
  qed
qed

lemma loop_predecessors:
  fixes relations msk :: u8 and cp
  defines "f \<equiv> mdb_set_cte_relations relations msk" and "copy \<equiv> \<lambda>y. is_copy P (cap y) cp"
  assumes "mdb_wf P t" "inorder t = rev ys @ x # zs" "length ys < n"
  shows "\<exists>t'. mdb_set_copies_relations n P (mdb_predecessor P) cp relations msk (hd_opt ys) t = Some t' \<and>
    mdb_wf P t' \<and> inorder t' = rev (map f (takeWhile copy ys) @ dropWhile copy ys) @ x # zs"
  using assms(3-)
proof (induction ys arbitrary: zs x t n)
  case Nil
  then show ?case by (cases n) auto
next
  case (Cons y ys)
  then obtain m where n: "n = Suc m" "length ys < m" by (cases n) auto
  show ?case
  proof (cases "copy y")
    case True
    let ?t = "mdb_update_cte (cap y) f t"
    have f: "cap (f c) = cap c" for c by (simp add: f_def cap_set_relations)
    have wf: "mdb_wf P ?t" using wf_update_cte [OF Cons.prems(1)] f by blast
    have t: "inorder ?t = rev ys @ f y # (x # zs)"
      using update_slot [OF Cons.prems(1), of "rev ys" y "x # zs" f] Cons.prems(2) f by simp
    from slot_neighbours(1) [OF wfD(1) [OF wf] t]
    have "mdb_predecessor P ?t (mdb_node_at ?t (cap y)) = hd_opt ys"
      by (cases ys) (simp_all add: f)
    then show ?thesis using Cons.IH [OF wf t n(2)] True n(1) by (simp add: f_def copy_def)
  next
    case False
    then show ?thesis using Cons.prems n by (simp add: copy_def)
  qed
qed

lemma takeWhile_copies:
  assumes "\<And>a b as bs. ys = as @ b # bs \<Longrightarrow> a \<in> set as \<Longrightarrow> copy b \<Longrightarrow> copy a"
  shows "map f (takeWhile copy ys) @ dropWhile copy ys = map (\<lambda>y. if copy y then f y else y) ys"
  using assms
proof (induction ys)
  case (Cons y ys)
  have IH: "map f (takeWhile copy ys) @ dropWhile copy ys = map (\<lambda>y. if copy y then f y else y) ys"
    by (rule Cons.IH) (metis Cons.prems append_Cons list.set_intros(2))
  show ?case
  proof (cases "copy y")
    case False
    have "\<not> copy z" if "z \<in> set ys" for z
      using split_list [OF that] Cons.prems [of "y # _" z _ y] False by (metis append_Cons list.set_intros(1))
    then have "map (\<lambda>y. if copy y then f y else y) ys = ys" by (auto intro: map_idI)
    with False show ?thesis by simp
  qed (simp add: IH)
qed simp

lemma copies_sides:
  assumes wf: "mdb_wf P t" and t: "inorder t = xs @ c # ys"
  shows "rev xs = as @ b # bs \<Longrightarrow> a \<in> set as \<Longrightarrow> is_copy P (cap b) (cap c) \<Longrightarrow> is_copy P (cap a) (cap c)"
    "ys = as @ b # bs \<Longrightarrow> a \<in> set as \<Longrightarrow> is_copy P (cap b) (cap c) \<Longrightarrow> is_copy P (cap a) (cap c)"
proof -
  have sorted: "sorted_wrt (\<lambda>a b. compare_caps P (cap a) (cap b) True < 0) (xs @ c # ys)"
    using wfD(1) [OF wf] t by (simp add: mdb_sorted_def)
  have copy: "d \<in> set (xs @ c # ys) \<Longrightarrow> is_copy P (cap d) cp \<longleftrightarrow> compare_caps P (cap d) cp False = 0" for d cp
    using copy_iff wfD(4) [OF wf] t by (auto simp: mdb_typed_def)
  { assume *: "ys = as @ b # bs" "a \<in> set as" "is_copy P (cap b) (cap c)"
    then have "compare_caps P (cap c) (cap a) True < 0" "compare_caps P (cap a) (cap b) True < 0"
      using sorted by (auto simp: sorted_wrt_append)
    then show "is_copy P (cap a) (cap c)" using * copy copies_between(2) [of c a b] by simp }
  { assume *: "rev xs = as @ b # bs" "a \<in> set as" "is_copy P (cap b) (cap c)"
    then have xs: "xs = rev bs @ b # rev as" by (metis append.assoc append_Cons append_Nil rev.simps(2) rev_append rev_rev_ident)
    then have "compare_caps P (cap b) (cap a) True < 0" "compare_caps P (cap a) (cap c) True < 0"
      using sorted *(2) by (auto simp: sorted_wrt_append)
    then show "is_copy P (cap a) (cap c)" using * xs copy copies_between(1) [of b a c] by simp }
qed

lemma set_relations_correct:
  assumes wf: "mdb_wf P t" and c: "c \<in> entries t"
  shows "\<exists>t'. mdb_set_relations P t (cap c) relations msk = Some t' \<and> mdb_wf P t' \<and>
    inorder t' =
      (if mdb_set_cte_relations relations msk c = c then inorder t
       else map (\<lambda>x. if is_copy P (cap x) (cap c) then mdb_set_cte_relations relations msk x else x)
              (inorder t))"
proof -
  let ?f = "mdb_set_cte_relations relations msk" and ?copy = "\<lambda>x. is_copy P (cap x) (cap c)"
  let ?t = "mdb_update_cte (cap c) ?f t"
  note sorted = wfD(1) [OF wf]
  obtain xs ys where t: "inorder t = xs @ c # ys" using c by (meson split_list)
  have wf1: "mdb_wf P ?t" using wf_update_cte [OF wf] cap_set_relations by blast
  have t1: "inorder ?t = xs @ ?f c # ys" using update_slot [OF wf t, of ?f] cap_set_relations by blast
  have old: "entry (mdb_node_at t (cap c)) = c" using node_at_entry(2) [OF sorted c] .
  have new: "entry (mdb_node_at ?t (cap c)) = ?f c"
    using node_at_entry(2) [OF wfD(1) [OF wf1], of "?f c"] t1 by (simp add: cap_set_relations)
  have same: "remote_copies (?f c) = remote_copies c \<and> remote_ancs (?f c) = remote_ancs c \<and>
      remote_descs (?f c) = remote_descs c \<longleftrightarrow> ?f c = c"
    using cap_set_relations [of relations msk c] by (auto intro: cte.equality)
  show ?thesis
  proof (cases "?f c = c")
    case True
    then show ?thesis using old new wf1 t t1 same by (simp add: mdb_set_relations_def Let_def)
  next
    case False
    let ?g = "\<lambda>x. if ?copy x then ?f x else x"
    have n: "length ys < Suc (length (inorder t))" "length (rev xs) < Suc (length (inorder t))"
      by (simp_all add: t)
    have right: "map ?f (takeWhile ?copy ys) @ dropWhile ?copy ys = map ?g ys"
      by (rule takeWhile_copies) (rule copies_sides(2) [OF wf t])
    have left: "map ?f (takeWhile ?copy (rev xs)) @ dropWhile ?copy (rev xs) = map ?g (rev xs)"
      by (rule takeWhile_copies) (rule copies_sides(1) [OF wf t])
    have succ: "mdb_successor P ?t (mdb_node_at ?t (cap c)) = hd_opt ys"
      using slot_neighbours(2) [OF wfD(1) [OF wf1] t1] by (simp add: cap_set_relations)
    obtain t2 where t2: "mdb_set_copies_relations (Suc (length (inorder t))) P (mdb_successor P) (cap c)
        relations msk (hd_opt ys) ?t = Some t2" "mdb_wf P t2" "inorder t2 = xs @ ?f c # map ?g ys"
      using loop_successors [OF wf1 t1 n(1), of "cap c" relations msk] unfolding right by blast
    have pred: "mdb_predecessor P t2 (mdb_node_at t2 (cap c)) = hd_opt (rev xs)"
      using slot_neighbours(1) [OF wfD(1) [OF t2(2)] t2(3)]
      by (cases xs rule: rev_cases) (simp_all add: cap_set_relations)
    have t2': "inorder t2 = rev (rev xs) @ ?f c # map ?g ys" using t2(3) by simp
    obtain t3 where t3: "mdb_set_copies_relations (Suc (length (inorder t))) P (mdb_predecessor P) (cap c)
        relations msk (hd_opt (rev xs)) t2 = Some t3" "mdb_wf P t3"
      "inorder t3 = rev (map ?g (rev xs)) @ ?f c # map ?g ys"
      using loop_predecessors [OF t2(2) t2' n(2), of "cap c" relations msk] unfolding left by blast
    have "?copy c" using copy_iff wfD(4) [OF wf] c by (simp add: mdb_typed_def)
    then have "inorder t3 = map ?g (inorder t)" using t3(3) by (simp add: t rev_map)
    moreover have "mdb_set_relations P t (cap c) relations msk = Some t3"
      unfolding mdb_set_relations_def Let_def old new same succ
      using False by (simp add: t2(1) pred t3(1) del: mdb_set_copies_relations.simps)
    ultimately show ?thesis using False t3(2) by simp
  qed
qed

text \<open>The query of \<open>mdb_find_cap_for_address\<close> is for a single byte.\<close>

lemma find_cap_correct:
  assumes wf: "mdb_wf P t" and a: "a < a + 1"
    and pre: "\<forall>c \<in> entries t. range_pre P (get_type_root P ram) a (a + 1) c"
  shows "if \<exists>c \<in> entries t. covers_byte P (get_type_root P ram) a c
    then \<exists>x \<in> entries t. mdb_find_cap_for_address P ram t a = Ok (Some x) \<and>
      covers_byte P (get_type_root P ram) a x \<and>
      (\<forall>c \<in> entries t. covers_byte P (get_type_root P ram) a c \<longrightarrow> compare_caps P (cap c) (cap x) True \<le> 0)
    else mdb_find_cap_for_address P ram t a = Err SYS_ERR_CAP_NOT_FOUND"
proof -
  let ?root = "get_type_root P ram"
  let ?cls = "range_class P ?root a (a + 1)"
  have cls: "?cls c = (if covers_byte P ?root a c then 1 else 0)" if "c \<in> entries t" for c
    using class_byte [OF a] pre that by blast
  obtain ret res where r: "mdb_sub_find_range P ?root a 1 1 t = Ok (ret, res)"
    "range_answer P ?root a (a + 1) 1 (entries t) (ret, res)"
    using sub_find_range_answer [OF wfD(1,3) [OF wf], of ?root a 1 1] pre order_less_imp_le [OF a] by auto
  have find: "mdb_find_cap_for_address P ram t a =
      (if ret \<noteq> 1 then Err SYS_ERR_CAP_NOT_FOUND else Ok res)"
    using r(1) by (simp add: mdb_find_cap_for_address_def mdb_find_range_def)
  show ?thesis
  proof (cases "ret > 0")
    case True
    then obtain x where x: "x \<in> entries t" "res = Some x" "?cls x = ret"
      using r(2) by (auto simp: range_answer_def split: if_splits)
    then have "covers_byte P ?root a x" "ret = 1" using cls [OF x(1)] True by (auto split: if_splits)
    then show ?thesis using x r(2) cls find by (auto simp: range_answer_def range_better_def)
  next
    case False
    then have "ret = 0" using r(2) by (simp add: range_answer_def)
    moreover from this have "\<forall>c \<in> entries t. \<not> covers_byte P ?root a c"
      using range_answer_high [OF r(2)] cls by fastforce
    ultimately show ?thesis using find by auto
  qed
qed

end

end
