(* ===== verification/Mdb_Properties.thy ===== *)
theory Mdb_Properties
  imports Mdb
begin

text \<open>
  The properties of the mapping database, stated for any capability predicates that
  satisfy \<open>cap_order\<close>, and applied to a small database with the predicates that Hamlet
  generates.
\<close>

section \<open>An example database\<close>

definition ex_cap :: "nat \<Rightarrow> u64 \<Rightarrow> u64 \<Rightarrow> capability" where
  "ex_cap ty base bytes =
     \<lparr>cap_type = ty, cap_base = base, cap_bytes = bytes, cap_eq_fields = 0\<rparr>"

text \<open>
  Two RAM regions in a larger one, a frame and a copy of it in the first, and a dispatcher
  with an end point in the second; another frame further up.
\<close>

definition ex_memory :: cap_memory where
  "ex_memory p =
     (if p = 0x40 then ex_cap 2 0 0x10000
      else if p = 0x80 then ex_cap 2 0x1000 0x1000
      else if p = 0xC0 then ex_cap 8 0x1000 0x1000
      else if p = 0x100 then ex_cap 8 0x1000 0x1000
      else if p = 0x140 then ex_cap 2 0x4000 0x1000
      else if p = 0x180 then ex_cap 6 0x4000 0x400
      else if p = 0x1C0 then ex_cap 7 0x4000 0
      else if p = 0x200 then ex_cap 8 0x8000 0x1000
      else ex_cap 0 0 0)"

abbreviation ex_preds :: "u32 cap_preds" where
  "ex_preds \<equiv> hamlet_preds ex_memory"

definition ex_cte :: "u32 \<Rightarrow> u32 cte" where
  "ex_cte p = \<lparr>cap = p, remote_copies = False, remote_ancs = False, remote_descs = False\<rparr>"

definition ex_tree :: "u32 list \<Rightarrow> u32 mdb" where
  "ex_tree ps =
     (case set_init_mapping ex_preds Null (map ex_cte ps) of Ok t \<Rightarrow> t | _ \<Rightarrow> Null)"

abbreviation ex_mdb :: "u32 mdb" where
  "ex_mdb \<equiv> ex_tree [0x40, 0x80, 0xC0, 0x100, 0x140, 0x180]"

lemma ex_preds_order: "cap_order ex_preds"
  by (rule hamlet.cap_order_axioms)

lemma cap_ex_cte [simp]: "cap (ex_cte p) = p"
  by (simp add: ex_cte_def)

lemma slots_insert_ex: "slots_insert (ex_cte p) (ex_cte ` S) = ex_cte ` insert p S"
proof (cases "p \<in> S")
  case True
  then show ?thesis by (simp add: slots_insert_def insert_absorb bexI)
next
  case False
  then show ?thesis by (simp add: slots_insert_def)
qed

lemma ex_tree_props:
  assumes "\<forall>p \<in> set ps. cap_type (ex_memory p) \<noteq> 0"
  shows "set_init_mapping ex_preds Null (map ex_cte ps) = Ok (ex_tree ps)"
    "mdb_wf ex_preds (ex_tree ps)" "entries (ex_tree ps) = ex_cte ` set ps"
proof -
  have "fold slots_insert (map ex_cte ps) (ex_cte ` S) = ex_cte ` (S \<union> set ps)" for S
    by (induction ps arbitrary: S) (simp_all add: slots_insert_ex del: image_insert)
  from this [of "{}"] have "fold slots_insert (map ex_cte ps) {} = ex_cte ` set ps" by simp
  moreover obtain t where "set_init_mapping ex_preds Null (map ex_cte ps) = Ok t" "mdb_wf ex_preds t"
    "entries t = fold slots_insert (map ex_cte ps) {}"
    using set_init_mapping_slots [OF ex_preds_order wf_Null, of "map ex_cte ps"] assms
    by (auto simp: hamlet_preds_def)
  ultimately show "set_init_mapping ex_preds Null (map ex_cte ps) = Ok (ex_tree ps)"
    "mdb_wf ex_preds (ex_tree ps)" "entries (ex_tree ps) = ex_cte ` set ps"
    by (simp_all add: ex_tree_def)
qed

lemma ex_mdb_props:
  "mdb_wf ex_preds ex_mdb"
  "entries ex_mdb = ex_cte ` {0x40, 0x80, 0xC0, 0x100, 0x140, 0x180}"
  using ex_tree_props [of "[0x40, 0x80, 0xC0, 0x100, 0x140, 0x180]"]
  by (simp_all add: ex_memory_def ex_cap_def)

lemmas ex_eval = hamlet_preds_def ex_memory_def ex_cap_def hamlet_address_def hamlet_size_def
  hamlet_type_root_def cap_root_def cap_end_def

section \<open>Insertion and removal\<close>

text \<open>
  C1: Inserting a slot fails with \<open>CAPS_ERR_MDB_DUPLICATE_ENTRY\<close> exactly when the slot is in
  the database; otherwise the slot is added at one place of the sequence, every other slot
  stays in order, and the order, balance and recorded ends of the tree are kept. No
  assertion fails.
\<close>

theorem mdb_insert_correct:
  assumes "cap_order P" and "mdb_wf P t" and "objtype P (cap c) \<noteq> 0"
  shows "if \<exists>d \<in> entries t. cap d = cap c
    then mdb_insert P t (new_cte c) = Err CAPS_ERR_MDB_DUPLICATE_ENTRY
    else \<exists>t' xs ys. mdb_insert P t (new_cte c) = Ok t' \<and> mdb_wf P t' \<and>
           inorder t = xs @ ys \<and> inorder t' = xs @ c # ys"
proof (cases "\<exists>d \<in> entries t. cap d = cap c")
  case True
  then show ?thesis
    using cap_order.sub_insert_cases [OF assms(1) wfD(1) [OF assms(2)], of c]
    by (simp add: mdb_insert_def)
next
  case False
  then obtain t' where t': "mdb_sub_insert P (new_cte c) t = Ok t'"
    using cap_order.sub_insert_cases [OF assms(1) wfD(1) [OF assms(2)], of c] by auto
  show ?thesis
    using False t' cap_order.sub_insert_wf [OF assms t'] cap_order.sub_insert_inorder [OF assms(1) t']
    by (auto simp: mdb_insert_def)
qed

theorem mdb_insert_correct_witness:
  "\<exists>t' xs ys. mdb_insert ex_preds ex_mdb (new_cte (ex_cte 0x1C0)) = Ok t' \<and> mdb_wf ex_preds t' \<and>
     inorder ex_mdb = xs @ ys \<and> inorder t' = xs @ ex_cte 0x1C0 # ys"
  using mdb_insert_correct [OF ex_preds_order ex_mdb_props(1), of "ex_cte 0x1C0"]
  by (simp add: ex_mdb_props(2) ex_eval)

text \<open>
  C2: Removing a slot fails with \<open>CAPS_ERR_MDB_ENTRY_NOTFOUND\<close> exactly when the slot is not in
  the database; otherwise exactly this slot disappears from the sequence and the invariant
  is kept. No assertion fails: in particular the leaf that takes the place of the removed
  slot is found where the code expects it.
\<close>

theorem mdb_remove_correct:
  assumes "cap_order P" and "mdb_wf P t"
  shows "if \<exists>d \<in> entries t. cap d = cp
    then \<exists>t' xs c ys. mdb_remove P t cp = Ok t' \<and> mdb_wf P t' \<and> cap c = cp \<and>
           inorder t = xs @ c # ys \<and> inorder t' = xs @ ys
    else mdb_remove P t cp = Err CAPS_ERR_MDB_ENTRY_NOTFOUND"
proof (cases "\<exists>d \<in> entries t. cap d = cp")
  case True
  then obtain t' where t': "mdb_subtree_remove P cp t = Ok t'" "removed P cp t t'"
    using cap_order.subtree_remove_cases [OF assms, of cp] by auto
  then show ?thesis using True removed_wf [OF assms(2) t'(2)]
    by (auto simp: mdb_remove_def removed_def)
next
  case False
  then show ?thesis using cap_order.subtree_remove_cases [OF assms, of cp]
    by (auto simp: mdb_remove_def)
qed

theorem mdb_remove_correct_witness:
  "\<exists>t' xs c ys. mdb_remove ex_preds ex_mdb 0x80 = Ok t' \<and> mdb_wf ex_preds t' \<and> cap c = 0x80 \<and>
     inorder ex_mdb = xs @ c # ys \<and> inorder t' = xs @ ys"
  using mdb_remove_correct [OF ex_preds_order ex_mdb_props(1), of "0x80"]
  by (simp add: ex_mdb_props(2))

text \<open>
  C6: Any sequence of \<open>set_init_mapping\<close> and \<open>remove_mapping\<close> calls, starting from the empty
  database, completes without a failed assertion, keeps the invariant, and implements the
  same sequence of operations on a set of slots.
\<close>

theorem mdb_operations_refine_set:
  assumes "cap_order P" and "\<forall>op \<in> set ops. op_typed P op"
  shows "\<exists>t. fold_outcome (mdb_exec P) ops Null = Ok t \<and> mdb_wf P t \<and>
    entries t = fold slots_exec ops {}"
  using mdb_exec_list_slots [OF assms(1) wf_Null assms(2)] by simp

theorem mdb_operations_refine_set_witness:
  "\<exists>t. fold_outcome (mdb_exec ex_preds)
     [SetInit [ex_cte 0x40, ex_cte 0x80], RemoveMapping 0x40, SetInit [ex_cte 0xC0]] Null = Ok t \<and>
     mdb_wf ex_preds t \<and> entries t = {ex_cte 0x80, ex_cte 0xC0}"
proof -
  have "fold slots_exec [SetInit [ex_cte 0x40, ex_cte 0x80], RemoveMapping 0x40, SetInit [ex_cte 0xC0]] {} =
      {ex_cte 0x80, ex_cte 0xC0}"
    by (auto simp: slots_insert_def)
  then show ?thesis
    using mdb_operations_refine_set [OF ex_preds_order,
        of "[SetInit [ex_cte 0x40, ex_cte 0x80], RemoveMapping 0x40, SetInit [ex_cte 0xC0]]"]
    by (simp add: ex_eval)
qed

text \<open>
  As long as the database holds fewer than \<open>2^32\<close> slots (slots have distinct 32-bit
  addresses), every level is below 32, so that the \<open>uint8_t\<close> level never wraps, and no
  recursion over the tree is deeper than 64.
\<close>

lemma mdb_levels_bounded:
  assumes "cap_order P" and "\<forall>op \<in> set ops. op_typed P op"
    and "fold_outcome (mdb_exec P) ops Null = Ok t" and "length (inorder t) < 2 ^ 32"
  shows "(\<forall>s \<in> subtrees t. level s < 32) \<and> height t \<le> 64"
proof -
  have "mdb_aa t" using mdb_exec_list_slots [OF assms(1) wf_Null assms(2)] assms(3) wfD(2) by auto
  then show ?thesis using aa_level_bound [of t 32] aa_height_bound [of t 32] assms(4) by simp
qed

section \<open>The checker\<close>

text \<open>
  The checker is right in both directions. A database in the invariant passes \<open>mdb_is_sane\<close>. A
  database that passes the checker has no null capability, each node records the largest pair
  of type root and end below it (which is what the range query prunes by), and its depth is
  at most twice its level.
\<close>

lemma mdb_checker_correct:
  assumes "cap_order P"
  shows "(mdb_wf P t \<longrightarrow> mdb_is_sane P t = Ok True) \<and>
    (mdb_check_invariants P t = Ok MDB_INVARIANT_OK \<longrightarrow> mdb_typed P t \<and> height t \<le> 2 * lvl t \<and>
      (t \<noteq> Null \<longrightarrow> (node_end_root t, node_end t) = Max (end_key P ` entries t)))"
  using cap_order.check_complete [OF assms, of t] check_sound [of P t] aug_key [of P t]
  by (simp add: mdb_is_sane_def mdb_check_invariants_def)

section \<open>Queries\<close>

text \<open>
  \<open>mdb_find_less\<close> returns the last capability that is strictly earlier in the order and
  \<open>mdb_find_greater\<close> the first that is strictly later; with \<open>equal_ok\<close> they return a copy
  whenever there is one. The predecessor and successor of a slot are its neighbours in the
  sequence, or null at its ends.
\<close>

lemma mdb_find_neighbours_correct:
  assumes "cap_order P" and "mdb_wf P t"
  shows "mdb_find_less P t cp False =
      last_opt (filter (\<lambda>x. compare_caps P (cap x) cp False < 0) (inorder t)) \<and>
    mdb_find_greater P t cp False =
      hd_opt (filter (\<lambda>x. compare_caps P cp (cap x) False < 0) (inorder t)) \<and>
    (if \<exists>x \<in> entries t. compare_caps P (cap x) cp False = 0
     then (\<exists>x \<in> entries t. mdb_find_less P t cp True = Some x \<and> compare_caps P (cap x) cp False = 0) \<and>
          (\<exists>x \<in> entries t. mdb_find_greater P t cp True = Some x \<and> compare_caps P (cap x) cp False = 0)
     else mdb_find_less P t cp True = mdb_find_less P t cp False \<and>
          mdb_find_greater P t cp True = mdb_find_greater P t cp False) \<and>
    (\<forall>xs c ys. inorder t = xs @ c # ys \<longrightarrow>
      mdb_predecessor P t (mdb_node_at t (cap c)) = last_opt xs \<and> mdb_successor P t (mdb_node_at t (cap c)) = hd_opt ys)"
  using cap_order.find_less_last [OF assms(1) wfD(1) [OF assms(2)], of cp False]
    cap_order.find_greater_hd [OF assms(1) wfD(1) [OF assms(2)], of cp False]
    cap_order.find_less_equal_ok [OF assms(1) wfD(1) [OF assms(2)], of cp False]
    cap_order.find_greater_equal_ok [OF assms(1) wfD(1) [OF assms(2)], of cp False]
    cap_order.slot_neighbours [OF assms(1) wfD(1) [OF assms(2)]]
  by (simp add: mdb_find_less_def mdb_find_greater_def split: if_splits)

lemma take_bit_32_add: "take_bit 32 (take_bit 64 x + take_bit 64 y) = take_bit 32 (x + y)"
  for x y :: int
proof -
  have "take_bit 32 (take_bit 64 x + take_bit 64 y) =
      take_bit 32 (take_bit 32 (take_bit 64 x) + take_bit 32 (take_bit 64 y))"
    by (rule take_bit_add [symmetric])
  also have "\<dots> = take_bit 32 (take_bit 32 x + take_bit 32 y)" by simp
  also have "\<dots> = take_bit 32 (x + y)" by (rule take_bit_add)
  finally show ?thesis .
qed

lemma ucast_add_2_32: "(ucast ((sz :: u64) + 2 ^ 32) :: u32) = ucast sz"
proof -
  have "(ucast (x + y) :: u32) = ucast x + ucast y" for x y :: u64
    by transfer (simp add: take_bit_32_add)
  then show ?thesis by simp
qed

lemma ucast_size_t: "(sz :: u64) < 2 ^ 32 \<Longrightarrow> ucast (ucast sz :: u32) = sz"
  by (simp add: word_unat_eq_iff unsigned_ucast_eq unsigned_take_bit_eq take_bit_nat_eq_self word_less_nat_alt)





section \<open>Relatives\<close>

text \<open>
  \<open>mdb_find_ancestor\<close> returns an ancestor whenever the capability has one, namely the last
  one in the order, which is its closest ancestor; it returns null otherwise. Its
  assertions hold.
\<close>

lemma mdb_find_ancestor_correct:
  assumes "cap_order P" and "mdb_wf P t" and "ancestor_pre P t cp"
  shows "\<exists>res. mdb_find_ancestor P t cp = Ok res \<and>
    (case res of
       None \<Rightarrow> \<forall>y \<in> entries t. \<not> is_ancestor_of P cp y
     | Some x \<Rightarrow> x \<in> entries t \<and> is_ancestor_of P cp x \<and>
         (\<forall>y \<in> entries t. is_ancestor_of P cp y \<longrightarrow> compare_caps P (cap y) (cap x) True \<le> 0))"
  by (rule cap_order.find_ancestor_correct [OF assms])

text \<open>
  \<open>has_copies\<close>, which looks only at the two neighbours of a slot, holds exactly when some
  other slot of the database holds a copy, and \<open>has_descendants\<close> exactly when some later
  capability, not a copy, of the same root starts inside the capability.
\<close>

lemma mdb_relations_decided:
  assumes "cap_order P" and "mdb_wf P t"
  shows "(\<forall>c \<in> entries t. has_copies P t (cap c) \<longleftrightarrow> (\<exists>d \<in> entries t. d \<noteq> c \<and> is_copy P (cap d) (cap c))) \<and>
    (has_descendants P t cp \<longleftrightarrow>
      (\<exists>d \<in> entries t. compare_caps P cp (cap d) False < 0 \<and> cap_root P (cap d) = cap_root P cp \<and>
         get_address P (cap d) < cap_end P cp))"
  using cap_order.has_copies_iff [OF assms] cap_order.has_descendants_iff [OF assms(1) wfD(1) [OF assms(2)]]
  by (simp add: cap_end_def)

text \<open>
  C28: \<open>mdb_set_relations\<close> terminates and gives the new relation flags to the slot and to all its
  copies, and to no other slot; when the flags of the slot do not change it changes
  nothing. The invariant is kept.
\<close>

theorem mdb_set_relations_correct:
  assumes "cap_order P" and "mdb_wf P t" and "c \<in> entries t"
  shows "\<exists>t'. mdb_set_relations P t (cap c) relations msk = Some t' \<and> mdb_wf P t' \<and>
    inorder t' =
      (if mdb_set_cte_relations relations msk c = c then inorder t
       else map (\<lambda>x. if is_copy P (cap x) (cap c) then mdb_set_cte_relations relations msk x else x)
              (inorder t))"
  by (rule cap_order.set_relations_correct [OF assms])

theorem mdb_set_relations_correct_witness:
  "\<exists>t'. mdb_set_relations ex_preds ex_mdb 0xC0 1 1 = Some t' \<and> mdb_wf ex_preds t'"
proof -
  have "ex_cte 0xC0 \<in> entries ex_mdb" by (simp add: ex_mdb_props(2))
  from mdb_set_relations_correct [OF ex_preds_order ex_mdb_props(1) this, of 1 1] show ?thesis by auto
qed

text \<open>
  A traversal calls the callback on every slot in ascending (descending) order until it
  fails.
\<close>

lemma mdb_traverse_correct:
  assumes "t \<noteq> Null"
  shows "mdb_traverse t order cb d =
    fold_outcome cb
      (if order = MDB_TRAVERSAL_ORDER_ASCENDING then inorder t else rev (inorder t)) d"
  unfolding mdb_traverse_def by (rule traverse_subtree_fold [OF assms])

section \<open>Limits of the range query\<close>


text \<open>
  \<open>mdb_find_range\<close> takes a 64-bit size, but hands it on as a 32-bit \<open>size_t\<close>: a query for a
  range of \<open>2^32\<close> bytes more is the same query.
\<close>

lemma mdb_find_range_truncates_size:
  "mdb_find_range P t root a (sz + 2 ^ 32) max_result has_ret_node has_result =
   mdb_find_range P t root a sz max_result has_ret_node has_result"
proof -
  have "(ucast (sz + 2 ^ 32) :: u32) = ucast sz"
    by (rule ucast_add_2_32)
  then show ?thesis by (simp add: mdb_find_range_def)
qed

end
