(* ===== verification/Net_Buffer.thy ===== *)
theory Net_Buffer
  imports Prelude
begin

text \<open>
  The byte queue between the serial interrupt and the SLIP thread,
  \<^verbatim>\<open>usr/networking/message_buffer.c\<close>: a ring of 200 bytes. The two pointers are offsets
  into the array; as in the code, \<open>nb_start\<close> is where the next byte is written and \<open>nb_end\<close>
  where the next byte is read. The lock around each operation makes the operations atomic
  steps here.
\<close>

section \<open>The code\<close>

record net_msg_buf =
  nb_buf :: "u8 list"
  nb_start :: nat
  nb_end :: nat

definition NET_BUF_SIZE :: nat where
  "NET_BUF_SIZE = 200"

definition net_msg_buf_init :: "net_msg_buf \<Rightarrow> net_msg_buf" where
  "net_msg_buf_init b = b\<lparr>nb_start := 0, nb_end := 0\<rparr>"

definition write_byte :: "net_msg_buf \<Rightarrow> u8 \<Rightarrow> net_msg_buf" where
  "write_byte b src =
     (if nb_start b + 1 = nb_end b then b
      else let b = b\<lparr>nb_buf := (nb_buf b)[nb_start b := src]\<rparr>;
               b = b\<lparr>nb_start := nb_start b + 1\<rparr>
           in if NET_BUF_SIZE \<le> nb_start b then b\<lparr>nb_start := 0\<rparr> else b)"

definition net_msg_buf_write :: "net_msg_buf \<Rightarrow> u8 list \<Rightarrow> net_msg_buf" where
  "net_msg_buf_write b src = foldl write_byte b src"

definition net_msg_buf_read_byte :: "net_msg_buf \<Rightarrow> (u8 \<times> net_msg_buf) option" where
  "net_msg_buf_read_byte b =
     (if nb_start b = nb_end b then None
      else let retval = nb_buf b ! nb_end b;
               b = (if nb_end b + 1 = NET_BUF_SIZE then b\<lparr>nb_end := 0\<rparr>
                    else b\<lparr>nb_end := nb_end b + 1\<rparr>)
           in Some (retval, b))"

text \<open>The result is a \<open>size_t\<close>; the difference of the pointers is negative in the second case.\<close>

definition net_msg_buf_length :: "net_msg_buf \<Rightarrow> u32" where
  "net_msg_buf_length b =
     (if nb_start b < nb_end b then word_of_int (int (nb_start b) - int (nb_end b)) + of_nat NET_BUF_SIZE
      else word_of_int (int (nb_end b) - int (nb_start b)))"

section \<open>The queue that the ring holds\<close>

definition nb_inv :: "net_msg_buf \<Rightarrow> bool" where
  "nb_inv b \<longleftrightarrow> length (nb_buf b) = NET_BUF_SIZE \<and> nb_start b < NET_BUF_SIZE \<and> nb_end b < NET_BUF_SIZE"

definition nb_contents :: "net_msg_buf \<Rightarrow> u8 list" where
  "nb_contents b =
     (if nb_end b \<le> nb_start b then drop (nb_end b) (take (nb_start b) (nb_buf b))
      else drop (nb_end b) (nb_buf b) @ take (nb_start b) (nb_buf b))"

lemma nb_init [simp]:
  "length (nb_buf b) = NET_BUF_SIZE \<Longrightarrow> nb_inv (net_msg_buf_init b)"
  "nb_contents (net_msg_buf_init b) = []"
  by (simp_all add: nb_inv_def nb_contents_def net_msg_buf_init_def NET_BUF_SIZE_def)

lemma nb_contents_length:
  "nb_inv b \<Longrightarrow> length (nb_contents b) =
     (if nb_end b \<le> nb_start b then nb_start b - nb_end b else nb_start b + NET_BUF_SIZE - nb_end b)"
  by (auto simp: nb_inv_def nb_contents_def)

lemma take_write: "s < length xs \<Longrightarrow> take (Suc s) (xs[s := x]) = take s xs @ [x]"
  by (simp add: take_Suc_conv_app_nth)

lemma nb_inv_write: "nb_inv b \<Longrightarrow> nb_inv (write_byte b x)"
  by (auto simp: nb_inv_def write_byte_def NET_BUF_SIZE_def Let_def)

lemma nb_inv_write_list: "nb_inv b \<Longrightarrow> nb_inv (net_msg_buf_write b bs)"
  unfolding net_msg_buf_write_def by (induction bs arbitrary: b) (simp_all add: nb_inv_write)

lemma nb_write_room:
  assumes "nb_inv b" "length (nb_contents b) < NET_BUF_SIZE - 1"
  shows "nb_contents (write_byte b x) = nb_contents b @ [x]"
proof (cases "nb_end b \<le> nb_start b")
  case True
  have *: "drop (nb_end b) (take (Suc (nb_start b)) ((nb_buf b)[nb_start b := x])) =
      drop (nb_end b) (take (nb_start b) (nb_buf b)) @ [x]"
    using assms(1) True by (simp add: take_write nb_inv_def)
  show ?thesis
  proof (cases "nb_start b + 1 = NET_BUF_SIZE")
    case end_of_array: True
    then have "take (Suc (nb_start b)) ((nb_buf b)[nb_start b := x]) = (nb_buf b)[nb_start b := x]"
      using assms(1) by (simp add: nb_inv_def)
    then show ?thesis using assms True * end_of_array
      by (auto simp: nb_contents_length nb_contents_def write_byte_def Let_def nb_inv_def NET_BUF_SIZE_def)
  next
    case False
    then show ?thesis using assms True *
      by (auto simp: nb_contents_def write_byte_def Let_def nb_inv_def NET_BUF_SIZE_def)
  qed
next
  case False
  with assms show ?thesis
    by (auto simp: nb_contents_length nb_contents_def write_byte_def Let_def nb_inv_def NET_BUF_SIZE_def
        take_Suc_conv_app_nth drop_update_cancel)
qed

text \<open>A full ring drops the byte, unless the reader is at offset 0: then it forgets its contents.\<close>

lemma nb_write_full:
  assumes "nb_inv b" "length (nb_contents b) = NET_BUF_SIZE - 1"
  shows "nb_contents (write_byte b x) = (if nb_end b = 0 then [] else nb_contents b)"
  using assms by (auto simp: nb_contents_length nb_contents_def write_byte_def Let_def nb_inv_def NET_BUF_SIZE_def)

lemma nb_write_list_room:
  assumes "nb_inv b" "length (nb_contents b) + length bs < NET_BUF_SIZE"
  shows "nb_contents (net_msg_buf_write b bs) = nb_contents b @ bs"
  using assms unfolding net_msg_buf_write_def
  by (induction bs arbitrary: b) (simp_all add: nb_inv_write nb_write_room)

lemma nb_end_write [simp]: "nb_end (net_msg_buf_write b bs) = nb_end b"
proof -
  have "nb_end (write_byte b x) = nb_end b" for b x by (simp add: write_byte_def Let_def)
  then show ?thesis unfolding net_msg_buf_write_def by (induction bs arbitrary: b) simp_all
qed

lemma nb_read_None: "nb_inv b \<Longrightarrow> net_msg_buf_read_byte b = None \<longleftrightarrow> nb_contents b = []"
  using nb_contents_length [of b]
  by (auto simp: net_msg_buf_read_byte_def Let_def nb_inv_def NET_BUF_SIZE_def split: if_splits)

lemma nb_read_Some:
  assumes "nb_inv b" "net_msg_buf_read_byte b = Some (x, b')"
  shows "nb_inv b'" "nb_contents b = x # nb_contents b'"
proof -
  show "nb_inv b'"
    using assms by (auto simp: net_msg_buf_read_byte_def Let_def nb_inv_def NET_BUF_SIZE_def split: if_splits)
  show "nb_contents b = x # nb_contents b'"
    using assms
    by (auto simp: net_msg_buf_read_byte_def Let_def nb_inv_def NET_BUF_SIZE_def nb_contents_def
        Cons_nth_drop_Suc [symmetric] split: if_splits)
qed

end
