(* ===== verification/Net_Bytes.thy ===== *)
theory Net_Bytes
  imports Prelude
begin

text \<open>
  Byte order and the Internet checksum, \<^verbatim>\<open>lib/netutil\<close>. The target is little endian:
  \<open>store16\<close> and \<open>store32\<close> are the bytes of a word in memory, \<open>load16\<close> and \<open>load32\<close> the word
  that a list of bytes holds.
\<close>

section \<open>The code\<close>

definition lwip_htons :: "u16 \<Rightarrow> u16" where
  "lwip_htons n = push_bit 8 (n AND 0xff) OR drop_bit 8 (n AND 0xff00)"

definition lwip_ntohs :: "u16 \<Rightarrow> u16" where
  "lwip_ntohs n = lwip_htons n"

definition lwip_htonl :: "u32 \<Rightarrow> u32" where
  "lwip_htonl n =
     push_bit 24 (n AND 0xff) OR push_bit 8 (n AND 0xff00) OR
     drop_bit 8 (n AND 0xff0000) OR drop_bit 24 (n AND 0xff000000)"

definition lwip_ntohl :: "u32 \<Rightarrow> u32" where
  "lwip_ntohl n = lwip_htonl n"

text \<open>The loop over pairs of octets, and the remaining octet of a block of odd length.\<close>

fun chksum_acc :: "u8 list \<Rightarrow> u32 \<Rightarrow> u32" where
  "chksum_acc (a # b # bs) acc = chksum_acc bs (acc + ucast (push_bit 8 (ucast a) OR ucast b :: u16))"
| "chksum_acc [a] acc = acc + ucast (push_bit 8 (ucast a) :: u16)"
| "chksum_acc [] acc = acc"

definition chksum_fold :: "u32 \<Rightarrow> u32" where
  "chksum_fold acc = drop_bit 16 acc + (acc AND 0xffff)"

definition lwip_standard_chksum :: "u8 list \<Rightarrow> u16 \<Rightarrow> u16" where
  "lwip_standard_chksum dataptr len =
     (let acc = chksum_acc (take (unat len) dataptr) 0;
          acc = chksum_fold acc;
          acc = (if acc AND 0xffff0000 \<noteq> 0 then chksum_fold acc else acc)
      in lwip_htons (ucast acc))"

definition inet_checksum :: "u8 list \<Rightarrow> u16 \<Rightarrow> u16" where
  "inet_checksum dataptr len = NOT (lwip_standard_chksum dataptr len)"

section \<open>Words in memory\<close>

definition store16 :: "u16 \<Rightarrow> u8 list" where
  "store16 w = [ucast w, ucast (drop_bit 8 w)]"

definition store32 :: "u32 \<Rightarrow> u8 list" where
  "store32 w = [ucast w, ucast (drop_bit 8 w), ucast (drop_bit 16 w), ucast (drop_bit 24 w)]"

definition load16 :: "u8 \<Rightarrow> u8 \<Rightarrow> u16" where
  "load16 a b = ucast a OR push_bit 8 (ucast b)"

definition load32 :: "u8 \<Rightarrow> u8 \<Rightarrow> u8 \<Rightarrow> u8 \<Rightarrow> u32" where
  "load32 a b c d =
     ucast a OR push_bit 8 (ucast b) OR push_bit 16 (ucast c) OR push_bit 24 (ucast d)"

text \<open>The bits of the constants, as the simplifier meets them.\<close>

lemma bit_byte_masks:
  "bit (0xff :: int) n \<longleftrightarrow> n < 8" "bit (0xff00 :: int) n \<longleftrightarrow> 8 \<le> n \<and> n < 16"
  "bit (0xff0000 :: int) n \<longleftrightarrow> 16 \<le> n \<and> n < 24" "bit (0xff000000 :: int) n \<longleftrightarrow> 24 \<le> n \<and> n < 32"
proof -
  have *: "(0xff :: int) = mask 8" "(0xff00 :: int) = push_bit 8 (mask 8)"
    "(0xff0000 :: int) = push_bit 16 (mask 8)" "(0xff000000 :: int) = push_bit 24 (mask 8)"
    by (simp_all add: mask_eq_exp_minus_1 push_bit_eq_mult)
  show "bit (0xff :: int) n \<longleftrightarrow> n < 8" "bit (0xff00 :: int) n \<longleftrightarrow> 8 \<le> n \<and> n < 16"
    "bit (0xff0000 :: int) n \<longleftrightarrow> 16 \<le> n \<and> n < 24" "bit (0xff000000 :: int) n \<longleftrightarrow> 24 \<le> n \<and> n < 32"
    unfolding * by (auto simp: bit_push_bit_iff bit_mask_iff)
qed

lemma load_store16 [simp]: "load16 (ucast w) (ucast (drop_bit 8 w)) = w"
  by (rule bit_word_eqI) (auto simp: load16_def bit_simps)

lemma byte_cases:
  assumes "n < (32 :: nat)"
  obtains "n < 8" | m where "n = 8 + m" "m < 8" | m where "n = 16 + m" "m < 8"
    | m where "n = 24 + m" "m < 8"
proof -
  have "n < 8 \<or> (\<exists>m. n = 8 + m \<and> m < 8) \<or> (\<exists>m. n = 16 + m \<and> m < 8) \<or> (\<exists>m. n = 24 + m \<and> m < 8)"
    using assms by presburger
  then show thesis using that by blast
qed

lemma load_store32 [simp]:
  "load32 (ucast w) (ucast (drop_bit 8 w)) (ucast (drop_bit 16 w)) (ucast (drop_bit 24 w)) = w"
proof (rule bit_word_eqI)
  fix n assume "n < LENGTH(32)"
  then have "n < 32" by simp
  then show "bit (load32 (ucast w) (ucast (drop_bit 8 w)) (ucast (drop_bit 16 w)) (ucast (drop_bit 24 w))) n =
      bit w n"
    by (cases rule: byte_cases) (simp_all add: load32_def bit_simps)
qed

lemma store_load32: "store32 (load32 a b c d) = [a, b, c, d]"
  unfolding store32_def load32_def
  by (simp, intro conjI; rule bit_word_eqI; auto simp: bit_simps dest: bit_imp_le_length)

lemma htons_bytes: "store16 (lwip_htons w) = [ucast (drop_bit 8 w), ucast w]"
  unfolding store16_def lwip_htons_def
  by (simp, intro conjI; rule bit_word_eqI; auto simp: bit_simps bit_byte_masks)

lemma htons_involution: "lwip_ntohs (lwip_htons w) = w"
  unfolding lwip_ntohs_def lwip_htons_def
  by (rule bit_word_eqI) (auto simp: bit_simps bit_byte_masks)

lemma bit_htonl:
  "bit (lwip_htonl w) n \<longleftrightarrow>
     (if n < 8 then bit w (24 + n) else if n < 16 then bit w (8 + n)
      else if n < 24 then bit w (n - 8) else if n < 32 then bit w (n - 24) else False)"
proof -
  consider "n < 8" | "8 \<le> n" "n < 16" | "16 \<le> n" "n < 24" | "24 \<le> n" "n < 32" | "32 \<le> n" by linarith
  then show ?thesis
    by cases (simp_all add: lwip_htonl_def bit_simps bit_byte_masks)
qed

lemma htonl_involution: "lwip_ntohl (lwip_htonl w) = w"
proof (rule bit_word_eqI)
  fix n assume "n < LENGTH(32)"
  then have "n < 32" by simp
  then show "bit (lwip_ntohl (lwip_htonl w)) n = bit w n"
    unfolding lwip_ntohl_def by (cases rule: byte_cases) (simp_all add: bit_htonl)
qed

lemma not_bytes: "store16 (NOT w) = map NOT (store16 w)"
  unfolding store16_def by (simp, intro conjI; rule bit_word_eqI; auto simp: bit_simps)

section \<open>The checksum as a one's complement sum\<close>

text \<open>The sum of the big-endian 16-bit words of a block, an odd last octet padded with zero.\<close>

fun sum16 :: "u8 list \<Rightarrow> nat" where
  "sum16 (a # b # bs) = 256 * unat a + unat b + sum16 bs"
| "sum16 [a] = 256 * unat a"
| "sum16 [] = 0"

text \<open>The representative of a sum in one's complement: only the empty sum is zero.\<close>

definition ones_complement :: "nat \<Rightarrow> nat" where
  "ones_complement x = (if x = 0 then 0 else (x - 1) mod 65535 + 1)"

lemma ones_complement_bound: "ones_complement x \<le> 65535"
  using mod_less_divisor [of 65535 "x - 1"] unfolding ones_complement_def by auto

lemma unat_u8_less: "unat (a :: u8) < 256"
  using unat_exp_less [of a] by simp

lemma word_pair_value: "unat (push_bit 8 (ucast (a :: u8)) OR ucast (b :: u8) :: u16) = 256 * unat a + unat b"
proof -
  have "(push_bit 8 (ucast a) OR ucast b :: u16) = push_bit 8 (ucast a) + ucast b"
    by (rule disjunctive_add [symmetric]) (auto simp: bit_simps dest: bit_imp_le_length)
  moreover have "unat (push_bit 8 (ucast a) :: u16) = 256 * unat a"
    using unat_u8_less [of a]
    by (simp only: unsigned_push_bit_eq unsigned_ucast_eq) (simp add: push_bit_eq_mult take_bit_eq_mod)
  moreover have "unat (ucast b :: u16) = unat b"
    using unat_u8_less [of b] by (simp add: unsigned_ucast_eq take_bit_eq_mod)
  ultimately show ?thesis
    using unat_u8_less [of a] unat_u8_less [of b] by (simp add: unat_word_ariths)
qed

lemma word_last_value: "unat (push_bit 8 (ucast (a :: u8)) :: u16) = 256 * unat a"
  using word_pair_value [of a 0] by simp

lemma unat_widen: "unat (ucast (w :: u16) :: u32) = unat w"
  using unat_exp_less [of w] by (simp add: unsigned_ucast_eq take_bit_eq_mod)

lemma sum16_bound: "sum16 bs \<le> 65535 * ((length bs + 1) div 2)"
proof (induction bs rule: sum16.induct)
  case (1 a b bs)
  then show ?case using unat_u8_less [of a] unat_u8_less [of b] by simp
next
  case (2 a)
  then show ?case using unat_u8_less [of a] by simp
qed simp

lemma sum16_append: "even (length xs) \<Longrightarrow> sum16 (xs @ ys) = sum16 xs + sum16 ys"
  by (induction xs rule: sum16.induct) auto

lemma chksum_acc_value:
  "unat acc + sum16 bs < 2 ^ 32 \<Longrightarrow> unat (chksum_acc bs acc) = unat acc + sum16 bs"
proof (induction bs acc rule: chksum_acc.induct)
  case (1 a b bs acc)
  let ?w = "push_bit 8 (ucast a) OR ucast b :: u16"
  have "unat (acc + ucast ?w) = unat acc + (256 * unat a + unat b)"
    using "1.prems" by (simp add: unat_word_ariths unat_widen word_pair_value)
  then show ?case using 1 by simp
next
  case (2 a acc)
  then show ?case by (simp add: unat_word_ariths unat_widen word_last_value)
qed simp

lemma chksum_fold_value: "unat (chksum_fold x) = unat x div 65536 + unat x mod 65536"
proof -
  have "unat (x AND 0xffff) = unat x mod 65536"
  proof -
    have "x AND 0xffff = take_bit 16 x"
      by (simp add: take_bit_eq_mask mask_eq_exp_minus_1)
    then show ?thesis by (simp only: unsigned_take_bit_eq) (simp add: take_bit_eq_mod)
  qed
  moreover have "unat x < 4294967296" using unat_exp_less [of x] by simp
  ultimately show ?thesis
    by (simp add: chksum_fold_def unat_word_ariths unat_drop_bit_eq drop_bit_eq_div)
qed

lemma high_half_zero: "x AND 0xffff0000 = 0 \<longleftrightarrow> unat (x :: u32) < 65536"
proof -
  have "x AND 0xffff0000 = push_bit 16 (drop_bit 16 x)"
  proof (rule bit_word_eqI)
    have *: "(0xffff0000 :: int) = push_bit 16 (mask 16)" by (simp add: mask_eq_exp_minus_1 push_bit_eq_mult)
    fix n assume "n < LENGTH(32)"
    then show "bit (x AND 0xffff0000) n = bit (push_bit 16 (drop_bit 16 x)) n"
      by (cases "n < 16") (simp_all add: bit_simps * less_diff_conv2)
  qed
  moreover have "push_bit 16 (drop_bit 16 x) = 0 \<longleftrightarrow> unat x div 65536 = 0"
  proof
    assume "push_bit 16 (drop_bit 16 x) = 0"
    then have "drop_bit 16 (push_bit 16 (drop_bit 16 x)) = 0" by simp
    moreover have "drop_bit 16 (push_bit 16 (drop_bit 16 x)) = drop_bit 16 x"
      by (rule bit_word_eqI) (auto simp: bit_simps dest: bit_imp_le_length)
    ultimately have "unat (drop_bit 16 x) = 0" by (simp only: unsigned_0)
    then show "unat x div 65536 = 0" by (simp only: unat_drop_bit_eq) (simp add: drop_bit_eq_div)
  next
    assume "unat x div 65536 = 0"
    then have "unat (drop_bit 16 x) = 0" by (simp only: unat_drop_bit_eq) (simp add: drop_bit_eq_div)
    then have "drop_bit 16 x = 0" by (simp only: unsigned_eq_0_iff)
    then show "push_bit 16 (drop_bit 16 x) = 0" by simp
  qed
  ultimately show ?thesis by (auto simp: div_eq_0_iff)
qed

lemma fold_twice:
  fixes x :: nat
  assumes "x < 2147483648" "y = x div 65536 + x mod 65536"
    "z = (if y < 65536 then y else y div 65536 + y mod 65536)"
  shows "z = ones_complement x"
proof -
  have "y \<le> 98302" using assms(1,2) by auto
  then have "y div 65536 = 1 \<and> y mod 65536 = y - 65536" if "\<not> y < 65536" proof -
    from that have "65536 \<le> y" by simp
    then obtain t where "y = 65536 + t" by (rule less_eqE)
    moreover from this have "t < 65536" using \<open>y \<le> 98302\<close> by simp
    ultimately show ?thesis by simp
  qed
  then have z: "z = (if y < 65536 then y else y - 65535)" using assms(3) by auto
  have "x = 65535 * (x div 65536) + y" using assms(2) by simp
  then have "\<exists>k. x = 65535 * k + z" using z
    by (cases "y < 65536") (auto intro: exI [of _ "x div 65536"] exI [of _ "x div 65536 + 1"])
  then obtain k where k: "x = 65535 * k + z" by blast
  have "z = 0 \<longleftrightarrow> x = 0" using z assms(2) by (auto split: if_splits)
  moreover have "z \<le> 65535" using z \<open>y \<le> 98302\<close> by auto
  moreover have "(x - 1) mod 65535 = z - 1" if "z \<noteq> 0"
  proof -
    have "x - 1 = 65535 * k + (z - 1)" using that k by simp
    moreover have "z - 1 < 65535" using \<open>z \<le> 65535\<close> that by simp
    ultimately show ?thesis by simp
  qed
  ultimately show ?thesis unfolding ones_complement_def by auto
qed

lemma standard_chksum_value:
  assumes "length bs < 65536"
  shows "unat (lwip_ntohs (lwip_standard_chksum bs (of_nat (length bs)))) = ones_complement (sum16 bs)"
proof -
  have len: "unat (of_nat (length bs) :: u16) = length bs" using assms by (simp add: unat_of_nat)
  have small: "sum16 bs < 2147483648" using sum16_bound [of bs] assms by linarith
  define acc where "acc = chksum_acc bs 0"
  have acc: "unat acc = sum16 bs"
    unfolding acc_def using chksum_acc_value [of 0 bs] small by simp
  define y where "y = chksum_fold acc"
  define z where "z = (if y AND 0xffff0000 \<noteq> 0 then chksum_fold y else y)"
  have z: "unat z = ones_complement (sum16 bs)"
    by (rule fold_twice [OF small, of "unat y"])
      (simp_all add: y_def z_def chksum_fold_value acc high_half_zero)
  have "unat (ucast z :: u16) = unat z"
    using ones_complement_bound [of "sum16 bs"] by (simp add: unsigned_ucast_eq take_bit_eq_mod z)
  moreover have "lwip_standard_chksum bs (of_nat (length bs)) = lwip_htons (ucast z)"
    unfolding lwip_standard_chksum_def Let_def by (simp add: len acc_def y_def z_def)
  ultimately show ?thesis by (simp add: htons_involution z)
qed

lemma ones_complement_full: "ones_complement x = 65535 \<longleftrightarrow> 0 < x \<and> x mod 65535 = 0"
proof (cases x)
  case (Suc y)
  have "y mod 65535 = 65534 \<longleftrightarrow> Suc y mod 65535 = 0" by (simp add: mod_Suc)
  then show ?thesis using Suc by (simp add: ones_complement_def)
qed (simp add: ones_complement_def)

text \<open>What a receiver accepts: a block whose sum is a positive multiple of 65535.\<close>

lemma inet_checksum_zero_iff:
  assumes "length bs < 65536"
  shows "inet_checksum bs (of_nat (length bs)) = 0 \<longleftrightarrow> 0 < sum16 bs \<and> sum16 bs mod 65535 = 0"
proof -
  let ?c = "lwip_standard_chksum bs (of_nat (length bs))"
  have "inet_checksum bs (of_nat (length bs)) = 0 \<longleftrightarrow> ?c = 0xffff"
  proof -
    have "NOT (0 :: u16) = 0xffff" by simp
    then show ?thesis unfolding inet_checksum_def by (metis bit.double_compl)
  qed
  also have "\<dots> \<longleftrightarrow> lwip_ntohs ?c = 0xffff"
  proof -
    have "lwip_ntohs 0xffff = 0xffff" by (simp add: lwip_ntohs_def lwip_htons_def)
    then show ?thesis by (metis htons_involution lwip_ntohs_def)
  qed
  also have "\<dots> \<longleftrightarrow> unat (lwip_ntohs ?c) = 65535" by (simp add: word_unat_eq_iff)
  finally show ?thesis unfolding standard_chksum_value [OF assms] ones_complement_full .
qed

lemma sum16_htons: "sum16 (store16 (lwip_htons w)) = unat w"
proof -
  have "unat w < 65536" using unat_exp_less [of w] by simp
  then show ?thesis unfolding htons_bytes
    by (simp only: sum16.simps unsigned_ucast_eq unat_drop_bit_eq) (simp add: drop_bit_eq_div take_bit_eq_mod)
qed

lemma sum16_not: "sum16 (store16 (NOT w)) = 65535 - sum16 (store16 w)"
proof -
  have "unat (NOT b) = 255 - unat b" for b :: u8
  proof -
    have "take_bit 8 (uint b) = uint b"
      by (rule take_bit_int_eq_self) (use unsigned_less [of b, where 'a = int] in simp_all)
    then have "uint (NOT b) = 255 - uint b"
      by (simp add: unsigned_not_eq take_bit_not_eq_mask_diff mask_eq_exp_minus_1)
    then have "int (unat (NOT b)) = 255 - int (unat b)" by simp
    then show ?thesis by linarith
  qed
  then have "unat (NOT b) = 255 - unat b" "unat b \<le> 255" for b :: u8
    using unat_u8_less [of b] by auto
  then have "256 * unat (NOT a) + unat (NOT b) = 65535 - (256 * unat a + unat b)" for a b :: u8
    by (simp add: diff_mult_distrib2)
  then show ?thesis unfolding not_bytes by (simp only: store16_def list.map sum16.simps add_0_right)
qed

lemma ones_complement_fill:
  "0 < s + (65535 - ones_complement s) \<and> (s + (65535 - ones_complement s)) mod 65535 = 0"
proof (cases s)
  case (Suc t)
  obtain q r where t: "t = 65535 * q + r" "r < 65535"
    using mult_div_mod_eq [of 65535 t, symmetric] mod_less_divisor [of 65535 t] by (metis zero_less_numeral)
  have "s + (65535 - ones_complement s) = 65535 * (q + 1)"
    using Suc t unfolding ones_complement_def by simp
  then show ?thesis by (simp only: mod_mult_self1_is_0) simp
qed (simp add: ones_complement_def)

text \<open>Storing the checksum of a block in a zeroed field makes the block acceptable.\<close>

lemma inet_checksum_fill:
  assumes "even (length xs)" "length (xs @ [0, 0] @ ys) = n" "n < 65536"
  shows "inet_checksum (xs @ store16 (inet_checksum (xs @ [0, 0] @ ys) (of_nat n)) @ ys) (of_nat n) = 0"
proof -
  let ?bs = "xs @ [0, 0] @ ys"
  let ?c = "lwip_standard_chksum ?bs (of_nat n)"
  let ?f = "xs @ store16 (inet_checksum ?bs (of_nat n)) @ ys"
  have f: "length ?f = n" "length ?f < 65536" using assms by (simp_all add: store16_def)
  have c: "unat (lwip_ntohs ?c) = ones_complement (sum16 ?bs)"
    using standard_chksum_value [of ?bs] assms(3) unfolding assms(2) by blast
  have "lwip_htons (lwip_ntohs ?c) = ?c" using htons_involution [of ?c] by (simp add: lwip_ntohs_def)
  then have "sum16 (store16 ?c) = ones_complement (sum16 ?bs)"
    using sum16_htons [of "lwip_ntohs ?c"] c by simp
  then have "sum16 ?f = sum16 ?bs + (65535 - ones_complement (sum16 ?bs))"
    using assms(1) sum16_not [of ?c] by (simp add: sum16_append inet_checksum_def store16_def)
  then have "0 < sum16 ?f \<and> sum16 ?f mod 65535 = 0" using ones_complement_fill by simp
  then show ?thesis using inet_checksum_zero_iff [OF f(2)] unfolding f(1) by simp
qed
end
