(* ===== verification/Net_Slip.thy ===== *)
theory Net_Slip
  imports Net_Buffer Net_Bytes
begin

text \<open>
  The serial line framing, \<^verbatim>\<open>usr/networking/slip.c\<close>. The receiving thread's variables are the
  packet under construction (\<open>ipp\<close> with its fill pointer: the bytes stored so far) and the
  escape flag; each byte is one step, which may hand a finished packet to the IP layer. The
  sending thread turns a packet into the bytes it writes to the serial line. The two
  endless loops run over the ring buffer and over the one-element mailbox
  \<open>packet_to_send\<close>; \<open>malloc\<close> is taken to succeed.
\<close>

section \<open>The receiver\<close>

definition SLIP_END :: u8 where "SLIP_END = 0xc0"
definition SLIP_ESC :: u8 where "SLIP_ESC = 0xdb"
definition SLIP_ESC_END :: u8 where "SLIP_ESC_END = 0xdc"
definition SLIP_ESC_ESC :: u8 where "SLIP_ESC_ESC = 0xdd"
definition SLIP_ESC_NUL :: u8 where "SLIP_ESC_NUL = 0xde"

lemmas slip_codes = SLIP_END_def SLIP_ESC_def SLIP_ESC_END_def SLIP_ESC_ESC_def SLIP_ESC_NUL_def

definition IP_MAX_SIZE :: nat where
  "IP_MAX_SIZE = 65535"

record slip_state =
  ipp :: "u8 list option"
  escape_next :: bool

definition ip_add_byte :: "slip_state \<Rightarrow> u8 \<Rightarrow> slip_state" where
  "ip_add_byte s b =
     (let filled = (case ipp s of None \<Rightarrow> [] | Some bs \<Rightarrow> bs)
      in if IP_MAX_SIZE \<le> length filled then s\<lparr>ipp := None\<rparr>
         else s\<lparr>ipp := Some (filled @ [b])\<rparr>)"

text \<open>The packets handed to \<open>ip_handle_packet\<close> are the second result.\<close>

definition finish_ip_packet :: "slip_state \<Rightarrow> slip_state \<times> u8 list list" where
  "finish_ip_packet s =
     (case ipp s of None \<Rightarrow> (s\<lparr>ipp := None\<rparr>, []) | Some bs \<Rightarrow> (s\<lparr>ipp := None\<rparr>, [bs]))"

definition slip_receive_byte :: "slip_state \<Rightarrow> u8 \<Rightarrow> slip_state \<times> u8 list list" where
  "slip_receive_byte s b =
     (if escape_next s then
        let s = s\<lparr>escape_next := False\<rparr> in
        if b = SLIP_ESC_END then (ip_add_byte s SLIP_END, [])
        else if b = SLIP_ESC_ESC then (ip_add_byte s SLIP_ESC, [])
        else if b = SLIP_ESC_NUL then (ip_add_byte s 0, [])
        else (ip_add_byte s b, [])
      else
        if b = SLIP_END then finish_ip_packet s
        else if b = SLIP_ESC then (s\<lparr>escape_next := True\<rparr>, [])
        else (ip_add_byte s b, []))"

fun slip_run :: "slip_state \<Rightarrow> u8 list \<Rightarrow> slip_state \<times> u8 list list" where
  "slip_run s [] = (s, [])"
| "slip_run s (b # bs) =
     (let (s, ps) = slip_receive_byte s b; (s, qs) = slip_run s bs in (s, ps @ qs))"

text \<open>
  The loop of the receiving thread: \<open>n\<close> rounds, in each of which the thread reads a byte and
  handles it, or yields because the buffer is empty.
\<close>

fun slip_receive :: "nat \<Rightarrow> net_msg_buf \<Rightarrow> slip_state \<Rightarrow> net_msg_buf \<times> slip_state \<times> u8 list list" where
  "slip_receive 0 buf s = (buf, s, [])"
| "slip_receive (Suc n) buf s =
     (case net_msg_buf_read_byte buf of
        None \<Rightarrow> slip_receive n buf s
      | Some (b, buf) \<Rightarrow>
          let (s, ps) = slip_receive_byte s b; (buf, s, qs) = slip_receive n buf s in (buf, s, ps @ qs))"

section \<open>The sender\<close>

definition slip_send_byte :: "u8 \<Rightarrow> u8 list" where
  "slip_send_byte b =
     (if b = SLIP_END then [SLIP_ESC, SLIP_ESC_END]
      else if b = SLIP_ESC then [SLIP_ESC, SLIP_ESC_ESC]
      else if b = 0 then [SLIP_ESC, SLIP_ESC_NUL]
      else [b])"

text \<open>
  One round of the sending thread: the length is the header's \<open>length\<close> field, bytes 2 and 3 of
  the packet.
\<close>

definition packet_length :: "(nat \<Rightarrow> u8) \<Rightarrow> u16" where
  "packet_length p = lwip_ntohs (load16 (p 2) (p 3))"

definition slip_send :: "(nat \<Rightarrow> u8) \<Rightarrow> u8 list" where
  "slip_send p = concat (map (\<lambda>i. slip_send_byte (p i)) [0..<unat (packet_length p)]) @ [SLIP_END]"

section \<open>The round trip\<close>

lemma slip_run_append:
  "slip_run s (xs @ ys) =
     (let (s, ps) = slip_run s xs; (s, qs) = slip_run s ys in (s, ps @ qs))"
  by (induction xs arbitrary: s) (simp_all split: prod.splits)

text \<open>The encoding of a byte is received as that byte, whatever the byte.\<close>

lemma slip_run_byte:
  "\<not> escape_next s \<Longrightarrow> slip_run s (slip_send_byte b) = (ip_add_byte s b, [])"
  by (simp add: slip_send_byte_def slip_receive_byte_def slip_codes ip_add_byte_def Let_def split: option.splits)

lemma escape_next_add [simp]: "escape_next (ip_add_byte s b) = escape_next s"
  by (simp add: ip_add_byte_def Let_def split: option.splits)

definition slip_filled :: "slip_state \<Rightarrow> u8 list" where
  "slip_filled s = (case ipp s of None \<Rightarrow> [] | Some bs \<Rightarrow> bs)"

lemma ip_add_byte_room:
  "length (slip_filled s) < IP_MAX_SIZE \<Longrightarrow> ip_add_byte s b = s\<lparr>ipp := Some (slip_filled s @ [b])\<rparr>"
  by (simp add: ip_add_byte_def slip_filled_def Let_def)

lemma slip_run_bytes:
  assumes "\<not> escape_next s" "length (slip_filled s) + length bs \<le> IP_MAX_SIZE" "bs \<noteq> []"
  shows "slip_run s (concat (map slip_send_byte bs)) = (s\<lparr>ipp := Some (slip_filled s @ bs)\<rparr>, [])"
  using assms
proof (induction bs arbitrary: s)
  case (Cons b bs)
  let ?s = "s\<lparr>ipp := Some (slip_filled s @ [b])\<rparr>"
  have "slip_run s (slip_send_byte b) = (?s, [])"
    using Cons.prems by (simp add: slip_run_byte ip_add_byte_room)
  moreover have "slip_run ?s (concat (map slip_send_byte bs)) = (s\<lparr>ipp := Some (slip_filled s @ b # bs)\<rparr>, [])"
    using Cons.IH [of ?s] Cons.prems by (cases "bs = []") (simp_all add: slip_filled_def)
  ultimately show ?case by (simp add: slip_run_append)
qed simp

definition slip_frame :: "u8 list \<Rightarrow> u8 list" where
  "slip_frame bs = concat (map slip_send_byte bs) @ [SLIP_END]"

lemma slip_run_frame:
  assumes "\<not> escape_next s" "ipp s = None" "0 < length bs" "length bs \<le> IP_MAX_SIZE"
  shows "slip_run s (slip_frame bs) = (s, [bs])"
proof -
  have "slip_run s (concat (map slip_send_byte bs)) = (s\<lparr>ipp := Some bs\<rparr>, [])"
    using slip_run_bytes [of s bs] assms by (simp add: slip_filled_def)
  then show ?thesis
    using assms by (simp add: slip_frame_def slip_run_append slip_receive_byte_def finish_ip_packet_def)
qed

lemma slip_run_frames:
  assumes "\<not> escape_next s" "ipp s = None" "\<And>p. p \<in> set ps \<Longrightarrow> 0 < length p \<and> length p \<le> IP_MAX_SIZE"
  shows "slip_run s (concat (map slip_frame ps)) = (s, ps)"
  using assms by (induction ps) (simp_all add: slip_run_append slip_run_frame)

lemma slip_send_frame: "slip_send p = slip_frame (map p [0..<unat (packet_length p)])"
  by (simp add: slip_send_def slip_frame_def comp_def)

section \<open>The receiver over a byte queue\<close>

text \<open>What the receiver needs of the buffer: reading takes the first byte of the queue it holds.\<close>

locale byte_queue =
  fixes inv :: "'b \<Rightarrow> bool" and contents :: "'b \<Rightarrow> u8 list" and read :: "'b \<Rightarrow> (u8 \<times> 'b) option"
  assumes read_None: "inv b \<Longrightarrow> read b = None \<longleftrightarrow> contents b = []"
    and read_inv: "inv b \<Longrightarrow> read b = Some (x, b') \<Longrightarrow> inv b'"
    and read_contents: "inv b \<Longrightarrow> read b = Some (x, b') \<Longrightarrow> contents b = x # contents b'"
begin

fun drain :: "nat \<Rightarrow> 'b \<Rightarrow> ('s \<Rightarrow> u8 \<Rightarrow> 's \<times> 'p list) \<Rightarrow> 's \<Rightarrow> 'b \<times> 's \<times> 'p list" where
  "drain 0 b f s = (b, s, [])"
| "drain (Suc n) b f s =
     (case read b of
        None \<Rightarrow> drain n b f s
      | Some (x, b) \<Rightarrow> let (s, ps) = f s x; (b, s, qs) = drain n b f s in (b, s, ps @ qs))"

fun handle :: "('s \<Rightarrow> u8 \<Rightarrow> 's \<times> 'p list) \<Rightarrow> 's \<Rightarrow> u8 list \<Rightarrow> 's \<times> 'p list" where
  "handle f s [] = (s, [])"
| "handle f s (x # xs) = (let (s, ps) = f s x; (s, qs) = handle f s xs in (s, ps @ qs))"

text \<open>As many rounds as bytes, or more, handle every byte in order and leave the queue empty.\<close>

lemma drain_complete:
  assumes "inv b" "length (contents b) \<le> n"
  shows "\<exists>b'. inv b' \<and> contents b' = [] \<and> drain n b f s = (b', handle f s (contents b))"
  using assms
proof (induction n arbitrary: b s)
  case (Suc n)
  show ?case
  proof (cases "read b")
    case None
    then have "contents b = []" using Suc.prems read_None by simp
    then show ?thesis using Suc.IH [of b s] Suc.prems None by simp
  next
    case (Some r)
    obtain x b1 where r: "r = (x, b1)" by (cases r)
    obtain s1 ps where f: "f s x = (s1, ps)" by (cases "f s x")
    have c: "inv b1" "contents b = x # contents b1"
      using Some r Suc.prems read_inv read_contents by auto
    then obtain b' where "inv b'" "contents b' = []" "drain n b1 f s1 = (b', handle f s1 (contents b1))"
      using Suc.IH [of b1 s1] Suc.prems by auto
    then show ?thesis using Some r f c by (auto split: prod.splits)
  qed
qed simp

end

interpretation nb: byte_queue nb_inv nb_contents net_msg_buf_read_byte
  by unfold_locales (simp_all add: nb_read_None nb_read_Some)

lemma slip_receive_drain: "slip_receive n buf s = nb.drain n buf slip_receive_byte s"
proof (induction n arbitrary: buf s)
  case (Suc n)
  show ?case unfolding slip_receive.simps nb.drain.simps Suc.IH by (rule refl)
qed simp

lemma slip_run_handle: "slip_run s bs = nb.handle slip_receive_byte s bs"
  by (induction bs arbitrary: s) (simp_all only: slip_run.simps nb.handle.simps)

lemma slip_receive_complete:
  assumes "nb_inv buf" "length (nb_contents buf) \<le> n"
  shows "\<exists>buf'. nb_inv buf' \<and> nb_contents buf' = [] \<and>
    slip_receive n buf s = (buf', slip_run s (nb_contents buf))"
  unfolding slip_receive_drain slip_run_handle by (rule nb.drain_complete [OF assms])

end
