(* ===== verification/Net_Udp.thy ===== *)
theory Net_Udp
  imports Prelude
begin

text \<open>
  The table of open UDP ports, \<^verbatim>\<open>usr/networking/udp.c\<close>: a singly linked list, here the list of
  its elements. The loops keep the elements they have passed as the argument \<open>pre\<close>, so that
  the result is the whole list as it is after the operation. The lock makes each operation
  one step.
\<close>

section \<open>The code\<close>

record udp_port =
  portnum :: u16
  port_pid :: u32
  port_core :: u8

fun insert_walk :: "udp_port \<Rightarrow> udp_port list \<Rightarrow> udp_port list \<Rightarrow> udp_port list outcome" where
  "insert_walk port pre (c # n # rest) =
     (if portnum n < portnum port then insert_walk port (pre @ [c]) (n # rest)
      else if portnum n = portnum port \<or> portnum c = portnum port then Err AOS_NET_ERR_UDP_PORT_EXISTS
      else if portnum port < portnum c then (if pre = [] then Ok (port # c # n # rest) else Abort)
      else Ok (pre @ c # port # n # rest))"
| "insert_walk port pre [c] =
     (if portnum c = portnum port then Err AOS_NET_ERR_UDP_PORT_EXISTS
      else if portnum port < portnum c then (if pre = [] then Ok [port, c] else Abort)
      else Ok (pre @ [c, port]))"
| "insert_walk port pre [] = Abort"

definition udp_port_insert_ordered :: "udp_port list \<Rightarrow> udp_port \<Rightarrow> udp_port list outcome" where
  "udp_port_insert_ordered port_list port =
     (if port_list = [] then Ok [port] else insert_walk port [] port_list)"

fun remove_walk :: "u16 \<Rightarrow> udp_port list \<Rightarrow> udp_port list \<Rightarrow> udp_port list outcome" where
  "remove_walk num pre (c # n # rest) =
     (if num < portnum n then remove_walk num (pre @ [c]) (n # rest)
      else if portnum n = num then Ok (pre @ c # rest)
      else Err AOS_NET_ERR_UDP_NO_SUCH_PORT)"
| "remove_walk num pre [c] =
     (if portnum c = num then Ok [] else Err AOS_NET_ERR_UDP_NO_SUCH_PORT)"
| "remove_walk num pre [] = Abort"

definition udp_port_remove :: "udp_port list \<Rightarrow> u16 \<Rightarrow> udp_port list outcome" where
  "udp_port_remove port_list num =
     (if port_list = [] then Err AOS_NET_ERR_UDP_NO_SUCH_PORT else remove_walk num [] port_list)"

fun search_walk :: "u16 \<Rightarrow> udp_port list \<Rightarrow> udp_port outcome" where
  "search_walk num (c # n # rest) =
     (if portnum c < num then search_walk num (n # rest)
      else if portnum c = num then Ok c else Err AOS_NET_ERR_UDP_NO_SUCH_PORT)"
| "search_walk num [c] = (if portnum c = num then Ok c else Err AOS_NET_ERR_UDP_NO_SUCH_PORT)"
| "search_walk num [] = Abort"

definition search_udp_port :: "udp_port list \<Rightarrow> u16 \<Rightarrow> udp_port outcome" where
  "search_udp_port port_list num =
     (if port_list = [] then Err AOS_NET_ERR_UDP_NO_SUCH_PORT else search_walk num port_list)"

section \<open>The list stays sorted, and is a finite map from ports\<close>

definition ports_sorted :: "udp_port list \<Rightarrow> bool" where
  "ports_sorted ps \<longleftrightarrow> sorted_wrt (\<lambda>p q. portnum p < portnum q) ps"

lemma insert_walk_sorted:
  assumes "ports_sorted (pre @ ps)" "ps \<noteq> []" "pre = [] \<or> portnum (hd ps) < portnum port"
    "\<And>p. p \<in> set pre \<Longrightarrow> portnum p < portnum port"
  shows "insert_walk port pre ps =
     (if portnum port \<in> portnum ` set ps then Err AOS_NET_ERR_UDP_PORT_EXISTS
      else Ok (pre @ filter (\<lambda>p. portnum p < portnum port) ps @ port # filter (\<lambda>p. portnum port < portnum p) ps))"
  using assms
proof (induction port pre ps rule: insert_walk.induct)
  case (1 port pre c n rest)
  have above: "portnum n < portnum x" if "x \<in> set rest" for x
    using "1.prems"(1) that by (auto simp: ports_sorted_def sorted_wrt_append)
  have order: "portnum c < portnum n" using "1.prems"(1) by (simp add: ports_sorted_def sorted_wrt_append)
  show ?case
  proof (cases "portnum n < portnum port")
    case True
    then have "insert_walk port (pre @ [c]) (n # rest) =
      (if portnum port \<in> portnum ` set (n # rest) then Err AOS_NET_ERR_UDP_PORT_EXISTS
       else Ok ((pre @ [c]) @ filter (\<lambda>p. portnum p < portnum port) (n # rest) @
         port # filter (\<lambda>p. portnum port < portnum p) (n # rest)))"
      using "1.prems" order by (intro "1.IH") (auto simp: ports_sorted_def)
    then show ?thesis using True order by auto
  next
    case False
    have big: "portnum port < portnum x" if "x \<in> set rest" for x
      using above [OF that] False by simp
    then have "filter (\<lambda>p. portnum p < portnum port) rest = []"
        "filter (\<lambda>p. portnum port < portnum p) rest = rest"
      by (auto simp: filter_empty_conv filter_id_conv dest: less_asym)
    moreover have "portnum port \<notin> portnum ` set rest" using big by fastforce
    ultimately show ?thesis using False order "1.prems"(3) by auto
  qed
next
  case (2 port pre c)
  then show ?case by auto
qed simp

lemma search_walk_sorted:
  assumes "ports_sorted ps" "ps \<noteq> []"
  shows "search_walk num ps = (case find (\<lambda>p. portnum p = num) ps of
     Some p \<Rightarrow> Ok p | None \<Rightarrow> Err AOS_NET_ERR_UDP_NO_SUCH_PORT)"
  using assms
proof (induction num ps rule: search_walk.induct)
  case (1 num c n rest)
  show ?case
  proof (cases "portnum c < num")
    case True
    then show ?thesis using 1 by (auto simp: ports_sorted_def)
  next
    case False
    then have "portnum x \<noteq> num" if "x \<in> set (n # rest)" for x
      using "1.prems"(1) that by (auto simp: ports_sorted_def)
    then have "find (\<lambda>p. portnum p = num) (n # rest) = None" by (simp add: find_None_iff)
    then show ?thesis using False by auto
  qed
qed auto

lemma insert_ordered_sorted:
  assumes "ports_sorted ps"
  shows "udp_port_insert_ordered ps port =
     (if portnum port \<in> portnum ` set ps then Err AOS_NET_ERR_UDP_PORT_EXISTS
      else Ok (filter (\<lambda>p. portnum p < portnum port) ps @ port # filter (\<lambda>p. portnum port < portnum p) ps))"
  using insert_walk_sorted [of "[]" ps port] assms by (simp add: udp_port_insert_ordered_def)

lemma ports_sorted_insert:
  assumes "ports_sorted ps"
  shows "ports_sorted (filter (\<lambda>p. portnum p < portnum port) ps @ port # filter (\<lambda>p. portnum port < portnum p) ps)"
  using assms unfolding ports_sorted_def
  by (auto simp: sorted_wrt_append sorted_wrt_filter)

lemma search_sorted:
  assumes "ports_sorted ps"
  shows "search_udp_port ps num = (case find (\<lambda>p. portnum p = num) ps of
     Some p \<Rightarrow> Ok p | None \<Rightarrow> Err AOS_NET_ERR_UDP_NO_SUCH_PORT)"
  using search_walk_sorted [OF assms] by (simp add: search_udp_port_def)

lemma search_sorted_member:
  assumes "ports_sorted ps" "p \<in> set ps"
  shows "search_udp_port ps (portnum p) = Ok p"
proof -
  have "find (\<lambda>q. portnum q = portnum p) ps = Some p" using assms
    by (induction ps) (auto simp: ports_sorted_def)
  then show ?thesis using assms by (simp add: search_sorted)
qed

lemma search_sorted_iff:
  assumes "ports_sorted ps"
  shows "search_udp_port ps num = Err AOS_NET_ERR_UDP_NO_SUCH_PORT \<longleftrightarrow> num \<notin> portnum ` set ps"
    and "search_udp_port ps num = Ok r \<longleftrightarrow> r \<in> set ps \<and> portnum r = num"
proof -
  have "find (\<lambda>p. portnum p = num) ps = None \<longleftrightarrow> num \<notin> portnum ` set ps"
    by (auto simp: find_None_iff)
  then show "search_udp_port ps num = Err AOS_NET_ERR_UDP_NO_SUCH_PORT \<longleftrightarrow> num \<notin> portnum ` set ps"
    using search_sorted [OF assms, of num] by (simp split: option.splits)
  have "portnum r = num \<and> r \<in> set ps" if "find (\<lambda>p. portnum p = num) ps = Some r"
    using that by (auto simp: find_Some_iff)
  then show "search_udp_port ps num = Ok r \<longleftrightarrow> r \<in> set ps \<and> portnum r = num"
    using search_sorted_member [OF assms, of r] search_sorted [OF assms, of num] by (auto split: option.splits)
qed

text \<open>
  Removal walks on while the next port is greater, so in a sorted list it sees only the
  second element, or the first when it is alone.
\<close>

lemma remove_walk_above:
  assumes "ports_sorted (c # rest)" "num < portnum c"
  shows "remove_walk num pre (c # rest) = Err AOS_NET_ERR_UDP_NO_SUCH_PORT"
  using assms
proof (induction rest arbitrary: c pre)
  case (Cons n rest)
  then have "num < portnum n" "ports_sorted (n # rest)" by (auto simp: ports_sorted_def)
  then show ?case using Cons.IH by simp
qed auto

lemma remove_sorted:
  assumes "ports_sorted ps"
  shows "udp_port_remove ps num =
     (case ps of
        [c] \<Rightarrow> if portnum c = num then Ok [] else Err AOS_NET_ERR_UDP_NO_SUCH_PORT
      | c # n # rest \<Rightarrow> if portnum n = num then Ok (c # rest) else Err AOS_NET_ERR_UDP_NO_SUCH_PORT
      | [] \<Rightarrow> Err AOS_NET_ERR_UDP_NO_SUCH_PORT)"
proof -
  have "remove_walk num [c] (n # rest) = Err AOS_NET_ERR_UDP_NO_SUCH_PORT"
    if "ps = c # n # rest" "num < portnum n" for c n rest
    using that assms by (intro remove_walk_above) (auto simp: ports_sorted_def)
  then show ?thesis by (auto simp: udp_port_remove_def split: list.split)
qed

end
