(* ===== verification/Net_Ip.thy ===== *)
theory Net_Ip
  imports Net_Slip Net_Udp
begin

text \<open>
  The protocol handlers of the network domain: \<^verbatim>\<open>ip.c\<close>, \<^verbatim>\<open>icmp.c\<close>, the sending and
  receiving half of \<^verbatim>\<open>udp.c\<close> and the message handler of \<^verbatim>\<open>main.c\<close> (all in
  \<^verbatim>\<open>usr/networking\<close>), with the client library \<^verbatim>\<open>lib/aos/domain_network_interface.c\<close>. A
  buffer that the code reads through a pointer is a function from offsets to bytes, because
  the code reads past the bytes it was given; \<open>packet_mem\<close> is a buffer of which only a
  prefix has been filled. A copy that overruns its destination is \<open>Abort\<close>. What leaves the
  domain is a list of actions: packets for the SLIP thread and messages to processes.
\<close>

section \<open>Packets\<close>

definition packet_mem :: "u8 list \<Rightarrow> (nat \<Rightarrow> u8) \<Rightarrow> nat \<Rightarrow> u8" where
  "packet_mem bs junk i = (if i < length bs then bs ! i else junk i)"

definition read_bytes :: "(nat \<Rightarrow> u8) \<Rightarrow> nat \<Rightarrow> u8 list" where
  "read_bytes p n = map p [0..<n]"

definition PROTOCOL_ICMP :: u8 where "PROTOCOL_ICMP = 1"
definition PROTOCOL_UDP :: u8 where "PROTOCOL_UDP = 17"
definition IP_HEADER_MIN_SIZE :: nat where "IP_HEADER_MIN_SIZE = 5"
definition ICMP_HEADER_SIZE :: nat where "ICMP_HEADER_SIZE = 8"
definition UDP_HEADER_SIZE :: nat where "UDP_HEADER_SIZE = 8"
definition UDP_MAX_PAYLOAD_SIZE :: nat where "UDP_MAX_PAYLOAD_SIZE = 1024"
definition MAX_PACKET_PAYLOAD :: nat where "MAX_PACKET_PAYLOAD = 6300"
definition ECHO_REPLY :: u8 where "ECHO_REPLY = 0"
definition ECHO_REQUEST :: u8 where "ECHO_REQUEST = 8"

lemmas net_sizes = IP_HEADER_MIN_SIZE_def ICMP_HEADER_SIZE_def UDP_HEADER_SIZE_def
  UDP_MAX_PAYLOAD_SIZE_def MAX_PACKET_PAYLOAD_def IP_MAX_SIZE_def

record ip_header =
  version_ihl :: u8
  tos :: u8
  ip_length :: u16
  ip_id :: u16
  flags_fragmentoffset :: u16
  ttl :: u8
  protocol :: u8
  header_checksum :: u16
  source :: u32
  destination :: u32

text \<open>The packed layout of the header, without options.\<close>

definition ip_header_bytes :: "ip_header \<Rightarrow> u8 list" where
  "ip_header_bytes h =
     [version_ihl h, tos h] @ store16 (ip_length h) @ store16 (ip_id h) @
     store16 (flags_fragmentoffset h) @ [ttl h, protocol h] @ store16 (header_checksum h) @
     store32 (source h) @ store32 (destination h)"

definition ip_header_at :: "(nat \<Rightarrow> u8) \<Rightarrow> ip_header" where
  "ip_header_at p =
     \<lparr>version_ihl = p 0, tos = p 1, ip_length = load16 (p 2) (p 3), ip_id = load16 (p 4) (p 5),
      flags_fragmentoffset = load16 (p 6) (p 7), ttl = p 8, protocol = p 9,
      header_checksum = load16 (p 10) (p 11), source = load32 (p 12) (p 13) (p 14) (p 15),
      destination = load32 (p 16) (p 17) (p 18) (p 19)\<rparr>"

text \<open>
  Messages between the network domain and its clients. \<open>tm_payload\<close> holds the bytes that
  arrived; the size field is whatever the sender wrote.
\<close>

record network_message_transfer_message =
  tm_protocol :: u16
  port_from :: u16
  port_to :: u16
  ip_from :: u32
  ip_to :: u32
  payload_size :: u32
  tm_payload :: "u8 list"

datatype network_message =
    NETWORK_REGISTER_PORT u16 u32 u8 u16
  | NETWORK_DEREGISTER_PORT u16 u32 u8 u16
  | NETWORK_TRANSFER_MESSAGE network_message_transfer_message
  | NETWORK_PRINT_MESSAGE

datatype net_action =
    Slip_packet "u8 list"
  | Send_message network_message u32 u8

record network =
  MY_IP :: u32
  port_list_head :: "udp_port list"

section \<open>The client library\<close>

text \<open>\<open>my_pid\<close> and \<open>my_core\<close> are the domain and core identifiers of the caller.\<close>

definition network_register_port :: "u32 \<Rightarrow> u8 \<Rightarrow> u16 \<Rightarrow> u16 \<Rightarrow> u32 \<Rightarrow> u8 \<Rightarrow> net_action" where
  "network_register_port my_pid my_core port prot network_pid network_core =
     Send_message (NETWORK_REGISTER_PORT prot my_pid my_core port) network_pid network_core"

definition network_deregister_port :: "u32 \<Rightarrow> u8 \<Rightarrow> u16 \<Rightarrow> u16 \<Rightarrow> u32 \<Rightarrow> u8 \<Rightarrow> net_action" where
  "network_deregister_port my_pid my_core port prot network_pid network_core =
     Send_message (NETWORK_DEREGISTER_PORT prot my_pid my_core port) network_pid network_core"

definition network_message_transfer ::
    "u16 \<Rightarrow> u16 \<Rightarrow> u32 \<Rightarrow> u32 \<Rightarrow> u16 \<Rightarrow> (nat \<Rightarrow> u8) \<Rightarrow> u32 \<Rightarrow> u32 \<Rightarrow> u8 \<Rightarrow> net_action outcome" where
  "network_message_transfer from_port to_port from to prot payload sz pid core =
     (if MAX_PACKET_PAYLOAD < unat sz then Abort
      else Ok (Send_message (NETWORK_TRANSFER_MESSAGE
        \<lparr>tm_protocol = prot, port_from = from_port, port_to = to_port, ip_from = from, ip_to = to,
         payload_size = sz, tm_payload = read_bytes payload (unat sz)\<rparr>) pid core))"

section \<open>Sending\<close>

definition ip_packet_send :: "network \<Rightarrow> u8 list \<Rightarrow> u32 \<Rightarrow> u8 \<Rightarrow> net_action outcome" where
  "ip_packet_send net payload dst prot =
     (let h = \<lparr>version_ihl = 4 * 16 + of_nat IP_HEADER_MIN_SIZE, tos = 0,
               ip_length = lwip_htons (of_nat (IP_HEADER_MIN_SIZE * 4 + length payload)), ip_id = 0,
               flags_fragmentoffset = 0x0040, ttl = 64, protocol = prot, header_checksum = 0,
               source = lwip_htonl (MY_IP net), destination = lwip_htonl dst\<rparr>;
          h = h\<lparr>header_checksum := inet_checksum (ip_header_bytes h) (of_nat (IP_HEADER_MIN_SIZE * 4))\<rparr>
      in if IP_MAX_SIZE < IP_HEADER_MIN_SIZE * 4 + length payload then Abort
         else Ok (Slip_packet (ip_header_bytes h @ payload)))"

definition icmp_header_bytes :: "u8 \<Rightarrow> u8 \<Rightarrow> u16 \<Rightarrow> u32 \<Rightarrow> u8 list" where
  "icmp_header_bytes typ code checksum rest_of_header =
     [typ, code] @ store16 checksum @ store32 rest_of_header"

text \<open>
  The allocated size wraps around; the copy then overruns it. The reply of a request keeps
  \<open>payload\<close> non-null.
\<close>

definition icmp_send :: "network \<Rightarrow> u8 \<Rightarrow> u8 \<Rightarrow> (nat \<Rightarrow> u8) \<Rightarrow> u32 \<Rightarrow> u32 \<Rightarrow> u32 \<Rightarrow> net_action outcome" where
  "icmp_send net typ code payload sz dst rest_of_header =
     (if 2 ^ 32 \<le> unat sz + ICMP_HEADER_SIZE then Abort
      else let body = read_bytes payload (unat sz);
               total = sz + of_nat ICMP_HEADER_SIZE;
               checksum = inet_checksum (icmp_header_bytes typ code 0 rest_of_header @ body) (ucast total)
           in ip_packet_send net (icmp_header_bytes typ code checksum rest_of_header @ body) dst PROTOCOL_ICMP)"

definition udp_header_bytes :: "u16 \<Rightarrow> u16 \<Rightarrow> u16 \<Rightarrow> u8 list" where
  "udp_header_bytes source_port dest_port len =
     store16 (lwip_htons source_port) @ store16 (lwip_htons dest_port) @ store16 (lwip_htons len) @ store16 0"

definition udp_send :: "network \<Rightarrow> u16 \<Rightarrow> u16 \<Rightarrow> (nat \<Rightarrow> u8) \<Rightarrow> u32 \<Rightarrow> u32 \<Rightarrow> net_action outcome" where
  "udp_send net source_port dest_port payload sz dst =
     (if UDP_MAX_PAYLOAD_SIZE < unat sz then Abort
      else ip_packet_send net
        (udp_header_bytes source_port dest_port (ucast (sz + of_nat UDP_HEADER_SIZE)) @ read_bytes payload (unat sz))
        dst PROTOCOL_UDP)"

section \<open>Receiving\<close>

definition icmp_receive :: "network \<Rightarrow> (nat \<Rightarrow> u8) \<Rightarrow> u32 \<Rightarrow> u32 \<Rightarrow> net_action list outcome" where
  "icmp_receive net payload sz src =
     (if payload 0 = ECHO_REQUEST then
        bind_outcome
          (icmp_send net ECHO_REPLY 0 (\<lambda>i. payload (ICMP_HEADER_SIZE + i)) (sz - of_nat ICMP_HEADER_SIZE) src
             (load32 (payload 4) (payload 5) (payload 6) (payload 7)))
          (\<lambda>a. Ok [a])
      else Ok [])"

definition udp_receive :: "network \<Rightarrow> (nat \<Rightarrow> u8) \<Rightarrow> u32 \<Rightarrow> u32 \<Rightarrow> u32 \<Rightarrow> net_action list outcome" where
  "udp_receive net payload sz src dst =
     (let source_port = lwip_ntohs (load16 (payload 0) (payload 1));
          dest_port = lwip_ntohs (load16 (payload 2) (payload 3))
      in case search_udp_port (port_list_head net) dest_port of
           Err _ \<Rightarrow> Ok []
         | Abort \<Rightarrow> Abort
         | Ok port \<Rightarrow>
             bind_outcome
               (network_message_transfer source_port dest_port src dst (ucast PROTOCOL_UDP)
                  (\<lambda>i. payload (UDP_HEADER_SIZE + i)) (sz - of_nat UDP_HEADER_SIZE) (port_pid port) (port_core port))
               (\<lambda>a. Ok [a]))"

definition ip_protocol :: "network \<Rightarrow> u8 \<Rightarrow> (nat \<Rightarrow> u8) \<Rightarrow> u32 \<Rightarrow> u32 \<Rightarrow> net_action list outcome" where
  "ip_protocol net prot payload sz src =
     (if prot = PROTOCOL_ICMP then icmp_receive net payload sz src
      else if prot = PROTOCOL_UDP then udp_receive net payload sz src (MY_IP net)
      else Ok [])"

definition ip_handle_packet :: "network \<Rightarrow> (nat \<Rightarrow> u8) \<Rightarrow> net_action list outcome" where
  "ip_handle_packet net packet =
     (let h = ip_header_at packet;
          payload_header_length = ucast (version_ihl h AND 0x0f) * 4 :: u32;
          sz = ucast (lwip_ntohs (ip_length h)) - payload_header_length;
          payload = (\<lambda>i. packet (unat payload_header_length + i));
          src = lwip_ntohl (source h)
      in if inet_checksum (read_bytes packet (unat payload_header_length)) (ucast payload_header_length) \<noteq> 0 then Ok []
         else if version_ihl h AND 0xf0 \<noteq> 0x40 then Ok []
         else if ucast (lwip_ntohs (ip_length h)) < payload_header_length then Ok []
         else if payload_header_length < of_nat (IP_HEADER_MIN_SIZE * 4) then Ok []
         else if flags_fragmentoffset h AND 0xbf \<noteq> 0 then Ok []
         else if destination h \<noteq> lwip_ntohl (MY_IP net) then Ok []
         else ip_protocol net (protocol h) payload sz src)"

section \<open>Requests of clients\<close>

definition ip_set_ip :: "network \<Rightarrow> u32 \<Rightarrow> network" where
  "ip_set_ip net ip = net\<lparr>MY_IP := ip\<rparr>"

definition udp_register_port :: "network \<Rightarrow> u16 \<Rightarrow> u32 \<Rightarrow> u8 \<Rightarrow> network outcome" where
  "udp_register_port net num pid core =
     (case udp_port_insert_ordered (port_list_head net) \<lparr>portnum = num, port_pid = pid, port_core = core\<rparr> of
        Ok ps \<Rightarrow> Ok (net\<lparr>port_list_head := ps\<rparr>)
      | Err _ \<Rightarrow> Ok net
      | Abort \<Rightarrow> Abort)"

definition udp_deregister_port :: "network \<Rightarrow> u16 \<Rightarrow> network outcome" where
  "udp_deregister_port net num =
     (case udp_port_remove (port_list_head net) num of
        Ok ps \<Rightarrow> Ok (net\<lparr>port_list_head := ps\<rparr>)
      | Err _ \<Rightarrow> Ok net
      | Abort \<Rightarrow> Abort)"

definition message_handler :: "network \<Rightarrow> network_message \<Rightarrow> (network \<times> net_action list) outcome" where
  "message_handler net m =
     (case m of
        NETWORK_REGISTER_PORT prot pid core port \<Rightarrow>
          if prot = ucast PROTOCOL_UDP
          then bind_outcome (udp_register_port net port pid core) (\<lambda>net. Ok (net, []))
          else Ok (net, [])
      | NETWORK_DEREGISTER_PORT prot pid core port \<Rightarrow>
          if prot = ucast PROTOCOL_UDP
          then bind_outcome (udp_deregister_port net port) (\<lambda>net. Ok (net, []))
          else Ok (net, [])
      | NETWORK_TRANSFER_MESSAGE t \<Rightarrow>
          if tm_protocol t = ucast PROTOCOL_UDP
          then if length (tm_payload t) < unat (payload_size t) then Abort
          else bind_outcome
            (udp_send net (port_from t) (port_to t) (\<lambda>i. tm_payload t ! i) (payload_size t) (ip_to t))
            (\<lambda>a. Ok (net, [a]))
          else Ok (net, [])
      | NETWORK_PRINT_MESSAGE \<Rightarrow> Ok (net, []))"

section \<open>Sent packets are received\<close>

lemma packet_mem_prefix: "read_bytes (packet_mem (bs @ cs) junk) (length bs) = bs"
  by (rule nth_equalityI) (simp_all add: read_bytes_def packet_mem_def nth_append)

lemma packet_mem_all: "read_bytes (packet_mem bs junk) (length bs) = bs"
  using packet_mem_prefix [of bs "[]"] by simp

lemma packet_mem_drop:
  "packet_mem (bs @ cs) junk (length bs + i) = packet_mem cs (\<lambda>i. junk (length bs + i)) i"
  by (simp add: packet_mem_def)

lemma ip_header_bytes_length [simp]: "length (ip_header_bytes h) = 20"
  by (simp add: ip_header_bytes_def store16_def store32_def)

lemma ip_header_round_trip: "ip_header_at (packet_mem (ip_header_bytes h @ payload) junk) = h"
  by (simp add: ip_header_at_def packet_mem_def ip_header_bytes_def store16_def store32_def)

text \<open>A header whose checksum field is computed over the header with a zero field verifies.\<close>

lemma ip_header_checksum:
  assumes "header_checksum h = 0"
  shows "inet_checksum (ip_header_bytes (h\<lparr>header_checksum := inet_checksum (ip_header_bytes h) 20\<rparr>)) 20 = 0"
proof -
  let ?xs = "[version_ihl h, tos h] @ store16 (ip_length h) @ store16 (ip_id h) @
     store16 (flags_fragmentoffset h) @ [ttl h, protocol h]"
  let ?ys = "store32 (source h) @ store32 (destination h)"
  have z: "ip_header_bytes h = ?xs @ [0, 0] @ ?ys"
    using assms by (simp add: ip_header_bytes_def store16_def)
  have f: "ip_header_bytes (h\<lparr>header_checksum := c\<rparr>) = ?xs @ store16 c @ ?ys" for c
    by (simp add: ip_header_bytes_def)
  show ?thesis unfolding f unfolding z
    using inet_checksum_fill [of ?xs ?ys 20] by (simp add: store16_def store32_def)
qed

definition ip_sent_header :: "u32 \<Rightarrow> nat \<Rightarrow> u32 \<Rightarrow> u8 \<Rightarrow> ip_header" where
  "ip_sent_header src len dst prot =
     (let h = \<lparr>version_ihl = 0x45, tos = 0, ip_length = lwip_htons (of_nat (20 + len)), ip_id = 0,
               flags_fragmentoffset = 0x0040, ttl = 64, protocol = prot, header_checksum = 0,
               source = lwip_htonl src, destination = lwip_htonl dst\<rparr>
      in h\<lparr>header_checksum := inet_checksum (ip_header_bytes h) 20\<rparr>)"

lemma ip_packet_send_eq:
  assumes "20 + length payload \<le> IP_MAX_SIZE"
  shows "ip_packet_send net payload dst prot =
     Ok (Slip_packet (ip_header_bytes (ip_sent_header (MY_IP net) (length payload) dst prot) @ payload))"
  using assms by (simp add: ip_packet_send_def ip_sent_header_def Let_def IP_HEADER_MIN_SIZE_def)

lemma ip_sent_header_simps [simp]:
  "version_ihl (ip_sent_header src len dst prot) = 0x45"
  "ip_length (ip_sent_header src len dst prot) = lwip_htons (of_nat (20 + len))"
  "flags_fragmentoffset (ip_sent_header src len dst prot) = 0x0040"
  "protocol (ip_sent_header src len dst prot) = prot"
  "source (ip_sent_header src len dst prot) = lwip_htonl src"
  "destination (ip_sent_header src len dst prot) = lwip_htonl dst"
  by (simp_all add: ip_sent_header_def Let_def)

lemma ip_handle_sent:
  assumes "20 + length payload \<le> IP_MAX_SIZE" "MY_IP net = dst"
  shows "ip_handle_packet net (packet_mem (ip_header_bytes (ip_sent_header src (length payload) dst prot) @ payload) junk) =
     ip_protocol net prot (packet_mem payload (\<lambda>i. junk (20 + i))) (of_nat (length payload)) src"
proof -
  let ?h = "ip_sent_header src (length payload) dst prot"
  let ?p = "packet_mem (ip_header_bytes ?h @ payload) junk"
  have h: "ip_header_at ?p = ?h" by (rule ip_header_round_trip)
  have hl: "ucast (version_ihl ?h AND 0x0f) * 4 = (20 :: u32)" by simp
  have sum: "inet_checksum (read_bytes ?p 20) 20 = 0"
    using packet_mem_prefix [of "ip_header_bytes ?h" payload junk]
      ip_header_checksum [of "?h\<lparr>header_checksum := 0\<rparr>"]
    by (simp add: ip_sent_header_def Let_def)
  have len: "unat (of_nat (20 + length payload) :: u16) = 20 + length payload"
    using assms(1) by (intro unat_of_nat_less) (simp add: IP_MAX_SIZE_def)
  have sz: "ucast (lwip_ntohs (ip_length ?h)) = (of_nat (20 + length payload) :: u32)"
    unfolding ip_sent_header_simps htons_involution using len by (metis of_nat_unat)
  have small: "\<not> (of_nat (20 + length payload) :: u32) < 20"
    using assms(1) unat_of_nat_less [of "20 + length payload", where 'a = 32]
    unfolding word_less_nat_alt IP_MAX_SIZE_def by (simp del: of_nat_add)
  have p: "(\<lambda>i. ?p (20 + i)) = packet_mem payload (\<lambda>i. junk (20 + i))"
    using packet_mem_drop [of "ip_header_bytes ?h" payload junk] by auto
  have src: "lwip_ntohl (source ?h) = src" by (simp add: htonl_involution)
  have me: "destination ?h = lwip_ntohl (MY_IP net)" using assms(2) by (simp add: lwip_ntohl_def)
  have eq: "(of_nat (20 + length payload) :: u32) - 20 = of_nat (length payload)" by simp
  show ?thesis
    unfolding ip_handle_packet_def Let_def h hl sz src me eq
    using sum small by (simp add: p IP_HEADER_MIN_SIZE_def del: of_nat_add)
qed

end
