(* ===== verification/Net_Mailbox.thy ===== *)
theory Net_Mailbox
  imports Net_Slip
begin

text \<open>
  The mailbox between the threads that send packets and the SLIP sender,
  \<open>packet_to_send\<close> of \<^verbatim>\<open>usr/networking/slip.c\<close>. \<open>slip_packet_send\<close> stores the packet and yields
  until the variable is null again; one round of \<open>slip_send\<close> writes the packet to the line
  and clears the variable. The state holds, per thread, the packets it has still to send and
  whether it is inside \<open>slip_packet_send\<close>; threads interleave at the calls of
  \<open>thread_yield\<close>.
\<close>

type_synonym packet = "nat \<Rightarrow> u8"

record slip_threads =
  packet_to_send :: "packet option"
  waiting :: "nat \<Rightarrow> bool"
  todo :: "nat \<Rightarrow> packet list"
  serial_line :: "u8 list"
  written :: "packet list"

definition slip_packet_send_post :: "nat \<Rightarrow> packet \<Rightarrow> slip_threads \<Rightarrow> slip_threads" where
  "slip_packet_send_post t p s =
     s\<lparr>packet_to_send := Some p, waiting := (waiting s)(t := True), todo := (todo s)(t := tl (todo s t))\<rparr>"

definition slip_packet_send_return :: "nat \<Rightarrow> slip_threads \<Rightarrow> slip_threads" where
  "slip_packet_send_return t s = s\<lparr>waiting := (waiting s)(t := False)\<rparr>"

definition slip_send_round :: "slip_threads \<Rightarrow> slip_threads" where
  "slip_send_round s =
     (case packet_to_send s of
        None \<Rightarrow> s
      | Some p \<Rightarrow> s\<lparr>packet_to_send := None, serial_line := serial_line s @ slip_send p, written := written s @ [p]\<rparr>)"

inductive slip_step :: "slip_threads \<Rightarrow> slip_threads \<Rightarrow> bool" where
  post: "\<not> waiting s t \<Longrightarrow> todo s t = p # ps \<Longrightarrow> slip_step s (slip_packet_send_post t p s)"
| return: "waiting s t \<Longrightarrow> packet_to_send s = None \<Longrightarrow> slip_step s (slip_packet_send_return t s)"
| send: "packet_to_send s \<noteq> None \<Longrightarrow> slip_step s (slip_send_round s)"

inductive slip_steps :: "slip_threads \<Rightarrow> slip_threads \<Rightarrow> bool" where
  none: "slip_steps s s"
| more: "slip_steps s s' \<Longrightarrow> slip_step s' s'' \<Longrightarrow> slip_steps s s''"

definition slip_start :: "(nat \<Rightarrow> packet list) \<Rightarrow> slip_threads" where
  "slip_start ps = \<lparr>packet_to_send = None, waiting = (\<lambda>_. False), todo = ps, serial_line = [], written = []\<rparr>"

section \<open>One sending thread\<close>

text \<open>
  With one sending thread the packets written, the packet in the mailbox and the packets not
  yet sent are together always the packets the thread had to send, in order.
\<close>

definition one_sender :: "nat \<Rightarrow> packet list \<Rightarrow> slip_threads \<Rightarrow> bool" where
  "one_sender t ps s \<longleftrightarrow>
     written s @ (case packet_to_send s of None \<Rightarrow> [] | Some p \<Rightarrow> [p]) @ todo s t = ps \<and>
     (packet_to_send s \<noteq> None \<longrightarrow> waiting s t) \<and> (\<forall>u. u \<noteq> t \<longrightarrow> todo s u = []) \<and>
     serial_line s = concat (map slip_send (written s))"

lemma one_sender_step:
  assumes "slip_step s s'" "one_sender t ps s"
  shows "one_sender t ps s'"
  using assms(1)
proof cases
  case (post u p qs)
  then have "u = t" using assms(2) by (auto simp: one_sender_def)
  then show ?thesis using post assms(2) by (auto simp: one_sender_def slip_packet_send_post_def)
next
  case (return u)
  then show ?thesis using assms(2) by (auto simp: one_sender_def slip_packet_send_return_def)
next
  case send
  then show ?thesis using assms(2) by (auto simp: one_sender_def slip_send_round_def)
qed

lemma one_sender_steps:
  "slip_steps s s' \<Longrightarrow> one_sender t ps s \<Longrightarrow> one_sender t ps s'"
  by (induction rule: slip_steps.induct) (auto intro: one_sender_step)

lemma one_sender_start: "one_sender t (ps t) (slip_start (\<lambda>u. if u = t then ps t else []))"
  by (simp add: one_sender_def slip_start_def)

text \<open>With two sending threads the second store overwrites the first packet.\<close>

lemma one_sender_prefix:
  assumes "slip_steps (slip_start (\<lambda>u. if u = t then ps else [])) s"
  shows "\<exists>rest. ps = written s @ rest" "serial_line s = concat (map slip_send (written s))"
  using one_sender_steps [OF assms, of t ps] one_sender_start [of t "\<lambda>_. ps"]
  by (auto simp: one_sender_def)

lemma two_senders_lose_packet:
  "\<exists>s. slip_steps (slip_start (\<lambda>t. if t = 0 then [p] else if t = 1 then [q] else [])) s \<and>
     todo s = (\<lambda>_. []) \<and> packet_to_send s = None \<and> waiting s = (\<lambda>_. False) \<and> written s = [q]"
proof -
  let ?s0 = "slip_start (\<lambda>t. if t = 0 then [p] else if t = 1 then [q] else [])"
  let ?s1 = "slip_packet_send_post 0 p ?s0"
  let ?s2 = "slip_packet_send_post 1 q ?s1"
  let ?s3 = "slip_send_round ?s2"
  let ?s4 = "slip_packet_send_return 0 ?s3"
  let ?s5 = "slip_packet_send_return 1 ?s4"
  note defs = slip_start_def slip_packet_send_post_def slip_send_round_def slip_packet_send_return_def
  have "slip_step ?s0 ?s1" by (rule slip_step.post [of _ _ _ "[]"]) (simp_all add: defs)
  moreover have "slip_step ?s1 ?s2" by (rule slip_step.post [of _ _ _ "[]"]) (simp_all add: defs)
  moreover have "slip_step ?s2 ?s3" by (rule slip_step.send) (simp add: defs)
  moreover have "slip_step ?s3 ?s4" by (rule slip_step.return) (simp_all add: defs)
  moreover have "slip_step ?s4 ?s5" by (rule slip_step.return) (simp_all add: defs)
  ultimately have "slip_steps ?s0 ?s5" by (meson slip_steps.intros)
  moreover have "todo ?s5 = (\<lambda>_. [])" "packet_to_send ?s5 = None" "waiting ?s5 = (\<lambda>_. False)" "written ?s5 = [q]"
    by (auto simp: defs fun_eq_iff)
  ultimately show ?thesis by blast
qed

end
