(* ===== verification/Net_Properties.thy ===== *)
theory Net_Properties
  imports Net_Ip Net_Mailbox
begin

text \<open>
  The properties of the network domain: what one host sends another host receives, what a
  handler accepts, the tables and buffers on the way, and the inputs the code does not
  survive.
\<close>

section \<open>Lemmas on the protocol layers\<close>

lemma read_bytes_length [simp]: "length (read_bytes p n) = n"
  by (simp add: read_bytes_def)

lemma ucast_of_nat_16: "ucast (of_nat n :: u32) = (of_nat n :: u16)"
  by (rule bit_word_eqI) (simp add: bit_simps unsigned_of_nat)

lemma header_length_value:
  "unat (ucast (v AND 0x0f :: u8) * 4 :: u32) = 4 * unat (v AND 0x0f)" "4 * unat (v AND 0x0f :: u8) \<le> 60"
proof -
  have "v AND 0x0f = take_bit 4 v" by (simp add: take_bit_eq_mask mask_eq_exp_minus_1)
  then have "unat (v AND 0x0f) < 16"
    by (simp only: unsigned_take_bit_eq) (simp add: take_bit_eq_mod)
  then show "4 * unat (v AND 0x0f) \<le> 60" "unat (ucast (v AND 0x0f) * 4 :: u32) = 4 * unat (v AND 0x0f)"
    by (simp_all add: unat_word_ariths unsigned_ucast_eq take_bit_eq_mod)
qed

lemma flags_byte:
  assumes "load16 a b AND 0xbf = 0"
  shows "a AND 0xbf = 0"
proof (rule bit_word_eqI)
  fix n assume "n < LENGTH(8)"
  moreover have "\<not> bit (load16 a b AND 0xbf) n" using assms by simp
  ultimately show "bit (a AND 0xbf) n = bit (0 :: u8) n"
    by (auto simp: load16_def bit_simps)
qed

lemma packet_length_sent:
  assumes "20 + length payload \<le> IP_MAX_SIZE"
  shows "unat (packet_length (packet_mem (ip_header_bytes (ip_sent_header src (length payload) dst prot) @ payload) junk))
    = 20 + length payload"
proof -
  let ?h = "ip_sent_header src (length payload) dst prot"
  let ?p = "packet_mem (ip_header_bytes ?h @ payload) junk"
  have "packet_length ?p = lwip_ntohs (ip_length (ip_header_at ?p))"
    by (simp add: packet_length_def ip_header_at_def)
  also have "\<dots> = of_nat (20 + length payload)"
    unfolding ip_header_round_trip ip_sent_header_simps htons_involution ..
  finally show ?thesis
    using assms unat_of_nat_less [of "20 + length payload", where 'a = 16] by (simp add: IP_MAX_SIZE_def del: of_nat_add)
qed

lemma slip_sent:
  assumes "20 + length payload \<le> IP_MAX_SIZE" "\<not> escape_next s" "ipp s = None"
    "pkt = ip_header_bytes (ip_sent_header src (length payload) dst prot) @ payload"
  shows "slip_run s (slip_send (packet_mem pkt junk)) = (s, [pkt])"
proof -
  have "unat (packet_length (packet_mem pkt junk)) = length pkt"
    using packet_length_sent [OF assms(1)] assms(4) by simp
  then have "slip_send (packet_mem pkt junk) = slip_frame pkt"
    using packet_mem_all [of pkt junk] by (simp add: slip_send_frame read_bytes_def)
  then show ?thesis using slip_run_frame [of s pkt] assms by simp
qed

lemma udp_header_bytes_length [simp]: "length (udp_header_bytes sp dp len) = 8"
  by (simp add: udp_header_bytes_def store16_def)

lemma udp_receive_sent:
  assumes "ports_sorted (port_list_head net)" "port \<in> set (port_list_head net)" "length body = unat sz"
    "unat sz \<le> MAX_PACKET_PAYLOAD"
  shows "udp_receive net (packet_mem (udp_header_bytes sp (portnum port) len @ body) junk) (sz + 8) src dst =
    Ok [Send_message (NETWORK_TRANSFER_MESSAGE
      \<lparr>tm_protocol = 17, port_from = sp, port_to = portnum port, ip_from = src, ip_to = dst,
       payload_size = sz, tm_payload = body\<rparr>) (port_pid port) (port_core port)]"
proof -
  let ?p = "packet_mem (udp_header_bytes sp (portnum port) len @ body) junk"
  have ports: "lwip_ntohs (load16 (?p 0) (?p 1)) = sp" "lwip_ntohs (load16 (?p 2) (?p 3)) = portnum port"
    by (simp_all add: packet_mem_def udp_header_bytes_def store16_def htons_involution)
  have "(\<lambda>i. ?p (8 + i)) = packet_mem body (\<lambda>i. junk (8 + i))"
    using packet_mem_drop [of "udp_header_bytes sp (portnum port) len" body junk] by auto
  then have "read_bytes (\<lambda>i. ?p (8 + i)) (unat sz) = body"
    using packet_mem_all [of body] assms(3) by simp
  then show ?thesis
    unfolding udp_receive_def Let_def ports using assms
    by (simp add: search_sorted_member network_message_transfer_def UDP_HEADER_SIZE_def PROTOCOL_UDP_def)
qed

lemma slip_run_sent:
  assumes "list_all (\<lambda>p. packet_length p \<noteq> 0) ps"
  shows "slip_run \<lparr>ipp = None, escape_next = False\<rparr> (concat (map slip_send ps)) =
    (\<lparr>ipp = None, escape_next = False\<rparr>, map (\<lambda>p. read_bytes p (unat (packet_length p))) ps)"
proof -
  let ?qs = "map (\<lambda>p. read_bytes p (unat (packet_length p))) ps"
  have frames: "map slip_send ps = map slip_frame ?qs" by (simp add: slip_send_frame read_bytes_def)
  have "0 < length q \<and> length q \<le> IP_MAX_SIZE" if "q \<in> set ?qs" for q
  proof -
    from that obtain p where p: "p \<in> set ps" "length q = unat (packet_length p)" by auto
    then show ?thesis
      using assms unat_exp_less [of "packet_length p"]
      by (auto simp: list_all_iff IP_MAX_SIZE_def unat_gt_0)
  qed
  then show ?thesis unfolding frames by (intro slip_run_frames) simp_all
qed

section \<open>The properties\<close>

text \<open>
  C10: A UDP datagram of at most 1024 bytes that one host sends reaches the process that
  opened the port on the other host: the packet that udp_send builds crosses the serial line
  unchanged, passes every check of ip_handle_packet, and the receiving domain sends exactly
  one message, with the ports, the addresses and the bytes of the datagram, to the process
  registered for the port. The bytes of the two packet buffers past the packet do not matter.
\<close>

theorem udp_end_to_end:
  assumes "unat sz \<le> UDP_MAX_PAYLOAD_SIZE" "MY_IP B = dst" "ports_sorted (port_list_head B)"
    "port \<in> set (port_list_head B)" "\<not> escape_next s" "ipp s = None"
  shows "\<exists>pkt. udp_send A sport (portnum port) payload sz dst = Ok (Slip_packet pkt) \<and>
    slip_run s (slip_send (packet_mem pkt junk)) = (s, [pkt]) \<and>
    ip_handle_packet B (packet_mem pkt junk') =
      Ok [Send_message (NETWORK_TRANSFER_MESSAGE
        \<lparr>tm_protocol = 17, port_from = sport, port_to = portnum port, ip_from = MY_IP A, ip_to = dst,
         payload_size = sz, tm_payload = read_bytes payload (unat sz)\<rparr>) (port_pid port) (port_core port)]"
proof -
  let ?len = "ucast (sz + of_nat UDP_HEADER_SIZE)"
  let ?d = "udp_header_bytes sport (portnum port) ?len @ read_bytes payload (unat sz)"
  let ?pkt = "ip_header_bytes (ip_sent_header (MY_IP A) (length ?d) dst PROTOCOL_UDP) @ ?d"
  have room: "20 + length ?d \<le> IP_MAX_SIZE" using assms(1) by (simp add: net_sizes)
  have "udp_send A sport (portnum port) payload sz dst = Ok (Slip_packet ?pkt)"
    using assms(1) room by (simp add: udp_send_def ip_packet_send_eq)
  moreover have "slip_run s (slip_send (packet_mem ?pkt junk)) = (s, [?pkt])"
    using slip_sent [OF room assms(5,6)] by simp
  moreover have "ip_handle_packet B (packet_mem ?pkt junk') =
      Ok [Send_message (NETWORK_TRANSFER_MESSAGE
        \<lparr>tm_protocol = 17, port_from = sport, port_to = portnum port, ip_from = MY_IP A, ip_to = dst,
         payload_size = sz, tm_payload = read_bytes payload (unat sz)\<rparr>) (port_pid port) (port_core port)]"
  proof -
    have "(of_nat (length ?d) :: u32) = sz + 8" by simp
    then show ?thesis
      unfolding ip_handle_sent [OF room assms(2)] using assms(1,2)
      by (simp add: ip_protocol_def PROTOCOL_UDP_def PROTOCOL_ICMP_def
          udp_receive_sent [OF assms(3,4)] net_sizes del: length_append)
  qed
  ultimately show ?thesis by blast
qed

theorem udp_end_to_end_witness:
  "\<exists>pkt. udp_send \<lparr>MY_IP = 0x0a000301, port_list_head = []\<rparr> 7 55 (\<lambda>i. of_nat i) 3 0x0a000302 = Ok (Slip_packet pkt) \<and>
    slip_run \<lparr>ipp = None, escape_next = False\<rparr> (slip_send (packet_mem pkt (\<lambda>_. 0))) =
      (\<lparr>ipp = None, escape_next = False\<rparr>, [pkt]) \<and>
    ip_handle_packet \<lparr>MY_IP = 0x0a000302, port_list_head = [\<lparr>portnum = 55, port_pid = 4, port_core = 1\<rparr>]\<rparr>
      (packet_mem pkt (\<lambda>_. 0xff)) =
      Ok [Send_message (NETWORK_TRANSFER_MESSAGE
        \<lparr>tm_protocol = 17, port_from = 7, port_to = 55, ip_from = 0x0a000301, ip_to = 0x0a000302,
         payload_size = 3, tm_payload = [0, 1, 2]\<rparr>) 4 1]"
  using udp_end_to_end [where sz = 3 and dst = "0x0a000302" and port = "\<lparr>portnum = 55, port_pid = 4, port_core = 1\<rparr>"
      and B = "\<lparr>MY_IP = 0x0a000302, port_list_head = [\<lparr>portnum = 55, port_pid = 4, port_core = 1\<rparr>]\<rparr>"
      and s = "\<lparr>ipp = None, escape_next = False\<rparr>" and A = "\<lparr>MY_IP = 0x0a000301, port_list_head = []\<rparr>"
      and sport = 7 and payload = "\<lambda>i. of_nat i" and junk = "\<lambda>_. 0" and junk' = "\<lambda>_. 0xff"]
  by (simp add: net_sizes ports_sorted_def read_bytes_def upt_rec)

text \<open>
  An echo request of at least eight bytes, up to the largest packet, is answered with one
  packet to the sender of the request: an echo reply whose checksum verifies and which
  carries the identifier, sequence number and data of the request.
\<close>

lemma icmp_echo:
  assumes "length data + 28 \<le> IP_MAX_SIZE" "length rest = 4"
  shows "\<exists>c. icmp_receive net (packet_mem ([8, code, c1, c2] @ rest @ data) junk) (of_nat (length data + 8)) src =
      Ok [Slip_packet (ip_header_bytes (ip_sent_header (MY_IP net) (length data + 8) src 1) @
        [0, 0] @ store16 c @ rest @ data)] \<and>
    inet_checksum ([0, 0] @ store16 c @ rest @ data) (of_nat (length data + 8)) = 0"
proof -
  obtain a b d e where rest: "rest = [a, b, d, e]"
    using assms(2) by (auto simp: length_Suc_conv eval_nat_numeral)
  have r: "store32 (load32 a b d e) = rest" unfolding rest by (rule store_load32)
  let ?p = "packet_mem ([8, code, c1, c2] @ rest @ data) junk"
  have u: "unat (of_nat (length data) :: u32) = length data"
    using assms(1) by (intro unat_of_nat_less) (simp add: IP_MAX_SIZE_def)
  have body: "read_bytes (\<lambda>i. ?p (8 + i)) (length data) = data"
  proof -
    have "length ([8, code, c1, c2] @ rest) = 8" using assms(2) by simp
    then have "?p (8 + i) = packet_mem data (\<lambda>i. junk (8 + i)) i" for i
      using packet_mem_drop [of "[8, code, c1, c2] @ rest" data junk i] by (simp only: append.assoc)
    then show ?thesis using packet_mem_all [of data] by simp
  qed
  let ?c = "inet_checksum ([0, 0, 0, 0] @ rest @ data) (of_nat (length data + 8))"
  have "icmp_receive net ?p (of_nat (length data + 8)) src =
      bind_outcome (ip_packet_send net ([0, 0] @ store16 ?c @ rest @ data) src 1) (\<lambda>a. Ok [a])"
  proof -
    have sz: "of_nat (length data + 8) - of_nat ICMP_HEADER_SIZE = (of_nat (length data) :: u32)"
      by (simp add: ICMP_HEADER_SIZE_def)
    have f: "?p 0 = ECHO_REQUEST" "?p 4 = a" "?p 5 = b" "?p 6 = d" "?p 7 = e"
      by (simp_all add: packet_mem_def rest ECHO_REQUEST_def nth_append)
    have "\<not> 2 ^ 32 \<le> length data + ICMP_HEADER_SIZE"
      using assms(1) by (simp add: net_sizes)
    moreover have "ucast (of_nat (length data) + of_nat ICMP_HEADER_SIZE :: u32) = (of_nat (length data + 8) :: u16)"
      unfolding ICMP_HEADER_SIZE_def of_nat_add [symmetric] by (rule ucast_of_nat_16)
    ultimately show ?thesis
      unfolding icmp_receive_def icmp_send_def sz u f if_P [OF refl] Let_def
      using body by (simp add: icmp_header_bytes_def r ECHO_REPLY_def PROTOCOL_ICMP_def ICMP_HEADER_SIZE_def store16_def)
  qed
  moreover have "inet_checksum ([0, 0] @ store16 ?c @ rest @ data) (of_nat (length data + 8)) = 0"
    using inet_checksum_fill [of "[0, 0]" "rest @ data" "length data + 8"] assms rest
    by (simp add: IP_MAX_SIZE_def)
  ultimately show ?thesis
    using assms ip_packet_send_eq [of "[0, 0] @ store16 ?c @ rest @ data" net src 1]
    by (auto simp: store16_def add.commute)
qed



text \<open>
  Framing round trip. A receiver between two packets that reads the frames of a sequence
  of packets, whatever their bytes, hands exactly those packets, each with its header's
  length, to the IP layer, and is between two packets again.
\<close>

lemma slip_round_trip:
  assumes "list_all (\<lambda>p. packet_length p \<noteq> 0) ps"
  shows "slip_run \<lparr>ipp = None, escape_next = False\<rparr> (concat (map slip_send ps)) =
    (\<lparr>ipp = None, escape_next = False\<rparr>, map (\<lambda>p. read_bytes p (unat (packet_length p))) ps)"
  using assms by (rule slip_run_sent)

text \<open>
  C32: No byte waits forever. Bytes that the serial driver writes into an empty ring, fewer
  than 200 of them, are all handled, in order, after at least as many rounds of the receiving
  thread, which leaves the ring empty.
\<close>

theorem slip_receive_live:
  assumes "nb_inv buf" "nb_contents buf = []" "length bs < NET_BUF_SIZE" "length bs \<le> n"
  shows "\<exists>buf'. nb_inv buf' \<and> nb_contents buf' = [] \<and>
    slip_receive n (net_msg_buf_write buf bs) s = (buf', slip_run s bs)"
  using slip_receive_complete [OF nb_inv_write_list [OF assms(1)], of bs n s] assms
  by (simp add: nb_write_list_room)

theorem slip_receive_live_witness:
  "\<exists>buf'. nb_inv buf' \<and> nb_contents buf' = [] \<and>
    slip_receive 3 (net_msg_buf_write (net_msg_buf_init \<lparr>nb_buf = replicate 200 0, nb_start = 7, nb_end = 9\<rparr>) [1, 2, 0xc0])
      \<lparr>ipp = None, escape_next = False\<rparr> = (buf', \<lparr>ipp = None, escape_next = False\<rparr>, [[1, 2]])"
  using slip_receive_live [of "net_msg_buf_init \<lparr>nb_buf = replicate 200 0, nb_start = 7, nb_end = 9\<rparr>" "[1, 2, 0xc0]" 3
      "\<lparr>ipp = None, escape_next = False\<rparr>"]
  by (simp add: NET_BUF_SIZE_def slip_receive_byte_def slip_codes ip_add_byte_def finish_ip_packet_def IP_MAX_SIZE_def)


text \<open>
  The port table is a map from ports to processes. Opening a port in a sorted table keeps
  it sorted and adds that port; opening it again is refused and changes nothing; searching
  finds exactly the open ports. The assertion of the insertion never fails.
\<close>

lemma udp_port_table_correct:
  assumes "ports_sorted ps"
  shows "(if portnum q \<in> portnum ` set ps then udp_port_insert_ordered ps q = Err AOS_NET_ERR_UDP_PORT_EXISTS
     else (\<exists>ps'. udp_port_insert_ordered ps q = Ok ps' \<and> ports_sorted ps' \<and> set ps' = insert q (set ps) \<and>
       search_udp_port ps' (portnum q) = Ok q)) \<and>
    (search_udp_port ps num = Err AOS_NET_ERR_UDP_NO_SUCH_PORT \<longleftrightarrow> num \<notin> portnum ` set ps) \<and>
    (search_udp_port ps num = Ok r \<longleftrightarrow> r \<in> set ps \<and> portnum r = num)"
proof -
  let ?ps = "filter (\<lambda>p. portnum p < portnum q) ps @ q # filter (\<lambda>p. portnum q < portnum p) ps"
  have "ports_sorted ?ps" using assms by (rule ports_sorted_insert)
  moreover have "set ?ps = insert q (set ps)" if "portnum q \<notin> portnum ` set ps"
    using that by (force simp: neq_iff)
  ultimately show ?thesis
    using insert_ordered_sorted [OF assms, of q] search_sorted_member [of ?ps q] search_sorted_iff [OF assms]
    by auto
qed

text \<open>
  C37: Closing a port only works in special positions. In a sorted table of at least two
  ports the removal succeeds exactly for the second one; every other open port is reported
  as unknown and stays open. A table with one port is emptied when that port is closed.
\<close>

theorem udp_port_remove_only_second:
  assumes "ports_sorted ps"
  shows "udp_port_remove ps num =
     (if length ps = 1 \<and> portnum (hd ps) = num then Ok []
      else if 2 \<le> length ps \<and> portnum (ps ! 1) = num then Ok (hd ps # drop 2 ps)
      else Err AOS_NET_ERR_UDP_NO_SUCH_PORT)"
  using remove_sorted [OF assms, of num] by (auto split: list.splits simp: Suc_le_eq)

theorem udp_port_remove_only_second_witness:
  "udp_port_remove [\<lparr>portnum = 3, port_pid = 1, port_core = 0\<rparr>, \<lparr>portnum = 5, port_pid = 2, port_core = 1\<rparr>] 3 =
     Err AOS_NET_ERR_UDP_NO_SUCH_PORT"
  using udp_port_remove_only_second [of "[\<lparr>portnum = 3, port_pid = 1, port_core = 0\<rparr>, \<lparr>portnum = 5, port_pid = 2, port_core = 1\<rparr>]" 3]
  by (simp add: ports_sorted_def)

text \<open>
  C38: Short packets crash the domain. An echo request, or a datagram to an open port, whose IP
  payload is shorter than its own header makes the size of the data wrap around, and the copy
  that follows overruns its buffer; so does a datagram with more than 6300 bytes of data, and
  a client's request to send more than 1024 bytes.
\<close>

theorem net_size_overruns:
  assumes "ports_sorted (port_list_head net)" "port \<in> set (port_list_head net)"
    "lwip_ntohs (load16 (q 2) (q 3)) = portnum port" "p 0 = ECHO_REQUEST"
  shows "(unat sz < ICMP_HEADER_SIZE \<longrightarrow> icmp_receive net p sz src = Abort) \<and>
    (udp_receive net q sz src dst = Abort \<longleftrightarrow>
       unat sz < UDP_HEADER_SIZE \<or> UDP_HEADER_SIZE + MAX_PACKET_PAYLOAD < unat sz) \<and>
    (udp_send net sport dport payload sz dst = Abort \<longleftrightarrow> UDP_MAX_PAYLOAD_SIZE < unat sz)"
proof (intro conjI impI)
  have wrap: "unat (sz - 8) = (if unat sz < 8 then unat sz + (2 ^ 32 - 8) else unat sz - 8)"
    by (simp add: unat_sub_if')
  show "icmp_receive net p sz src = Abort" if "unat sz < ICMP_HEADER_SIZE"
    using that assms(4) wrap by (simp add: icmp_receive_def icmp_send_def net_sizes)
  show "udp_receive net q sz src dst = Abort \<longleftrightarrow>
      unat sz < UDP_HEADER_SIZE \<or> UDP_HEADER_SIZE + MAX_PACKET_PAYLOAD < unat sz"
    using wrap search_sorted_member [OF assms(1,2)] assms(3)
    by (auto simp: udp_receive_def Let_def network_message_transfer_def net_sizes)
  show "udp_send net sport dport payload sz dst = Abort \<longleftrightarrow> UDP_MAX_PAYLOAD_SIZE < unat sz"
    using ip_packet_send_eq [of "udp_header_bytes sport dport (ucast (sz + of_nat UDP_HEADER_SIZE)) @ read_bytes payload (unat sz)"]
    by (auto simp: udp_send_def net_sizes)
qed

theorem net_size_overruns_witness:
  "icmp_receive \<lparr>MY_IP = 1, port_list_head = [\<lparr>portnum = 5, port_pid = 2, port_core = 1\<rparr>]\<rparr> (\<lambda>_. 8) 4 2 = Abort \<and>
   udp_receive \<lparr>MY_IP = 1, port_list_head = [\<lparr>portnum = 5, port_pid = 2, port_core = 1\<rparr>]\<rparr>
     (packet_mem [0, 7, 0, 5] (\<lambda>_. 0)) 4 2 1 = Abort"
  using net_size_overruns [of "\<lparr>MY_IP = 1, port_list_head = [\<lparr>portnum = 5, port_pid = 2, port_core = 1\<rparr>]\<rparr>"
      "\<lparr>portnum = 5, port_pid = 2, port_core = 1\<rparr>" "packet_mem [0, 7, 0, 5] (\<lambda>_. 0)" "\<lambda>_. 8" 4 2 1]
  by (simp add: ports_sorted_def packet_mem_def load16_def lwip_ntohs_def lwip_htons_def ECHO_REQUEST_def net_sizes)

text \<open>
  C36: The ring keeps the order of the bytes and drops what does not fit, except when the
  reader is at the start of the array: then the byte that does not fit empties the ring. The
  length function is right only while the written part wraps around; otherwise it returns
  the negated length as an unsigned number.
\<close>

theorem net_msg_buf_correct:
  assumes "nb_inv b"
  shows "nb_inv (write_byte b x) \<and>
    nb_contents (write_byte b x) =
      (if length (nb_contents b) < 199 then nb_contents b @ [x]
       else if nb_end b = 0 then [] else nb_contents b) \<and>
    (case net_msg_buf_read_byte b of None \<Rightarrow> nb_contents b = []
     | Some (y, b') \<Rightarrow> nb_inv b' \<and> nb_contents b = y # nb_contents b') \<and>
    net_msg_buf_length b =
      (if nb_start b < nb_end b then of_nat (length (nb_contents b)) else - of_nat (length (nb_contents b)))"
proof -
  have len: "length (nb_contents b) \<le> 199"
    using assms by (auto simp: nb_contents_length) (auto simp: nb_inv_def NET_BUF_SIZE_def)
  have "nb_contents (write_byte b x) =
      (if length (nb_contents b) < 199 then nb_contents b @ [x] else if nb_end b = 0 then [] else nb_contents b)"
    using nb_write_room [OF assms, of x] nb_write_full [OF assms, of x] len by (auto simp: NET_BUF_SIZE_def)
  moreover have "case net_msg_buf_read_byte b of None \<Rightarrow> nb_contents b = []
     | Some (y, b') \<Rightarrow> nb_inv b' \<and> nb_contents b = y # nb_contents b'"
    using nb_read_None [OF assms] nb_read_Some [OF assms] by (auto split: option.split)
  moreover have "net_msg_buf_length b =
      (if nb_start b < nb_end b then of_nat (length (nb_contents b)) else - of_nat (length (nb_contents b)))"
    using assms nb_contents_length [OF assms]
    by (auto simp: net_msg_buf_length_def nb_inv_def NET_BUF_SIZE_def of_nat_diff not_less word_of_int_minus)
  ultimately show ?thesis using nb_inv_write [OF assms] by blast
qed

theorem net_msg_buf_correct_witness:
  "nb_contents (write_byte (net_msg_buf_write \<lparr>nb_buf = replicate 200 0, nb_start = 0, nb_end = 0\<rparr> (replicate 199 7)) 8) = [] \<and>
   net_msg_buf_length (net_msg_buf_write \<lparr>nb_buf = replicate 200 0, nb_start = 0, nb_end = 0\<rparr> (replicate 199 7)) = -199"
proof -
  let ?e = "\<lparr>nb_buf = replicate 200 0, nb_start = 0, nb_end = 0\<rparr> :: net_msg_buf"
  let ?b = "net_msg_buf_write ?e (replicate 199 7)"
  have e: "nb_inv ?e" "nb_contents ?e = []" by (simp_all add: nb_inv_def nb_contents_def NET_BUF_SIZE_def)
  have "nb_inv ?b" "nb_contents ?b = replicate 199 7" "nb_end ?b = 0"
    using nb_inv_write_list [OF e(1)] nb_write_list_room [OF e(1), of "replicate 199 7"] e(2)
    by (simp_all add: NET_BUF_SIZE_def nb_end_write)
  then show ?thesis using net_msg_buf_correct [of ?b 8] by simp
qed

text \<open>
  C35: Requests of clients keep the port table sorted, and only a request to send can crash
  the domain: when it claims more bytes than it carries or than a datagram holds.
\<close>

theorem message_handler_invariant:
  assumes "ports_sorted (port_list_head net)"
  shows "case message_handler net m of
      Ok (net', as) \<Rightarrow> ports_sorted (port_list_head net') \<and> MY_IP net' = MY_IP net
    | Err e \<Rightarrow> False
    | Abort \<Rightarrow> (\<exists>t. m = NETWORK_TRANSFER_MESSAGE t \<and>
        (length (tm_payload t) < unat (payload_size t) \<or> UDP_MAX_PAYLOAD_SIZE < unat (payload_size t)))"
proof (cases m)
  case (NETWORK_REGISTER_PORT prot pid core port)
  then show ?thesis
    using assms insert_ordered_sorted [OF assms]
      ports_sorted_insert [OF assms, of "\<lparr>portnum = port, port_pid = pid, port_core = core\<rparr>"]
    by (simp add: message_handler_def udp_register_port_def)
next
  case (NETWORK_DEREGISTER_PORT prot pid core port)
  have "udp_port_remove (port_list_head net) port \<noteq> Abort \<and>
      (\<forall>ps. udp_port_remove (port_list_head net) port = Ok ps \<longrightarrow> ports_sorted ps)"
    using assms remove_sorted [OF assms, of port] by (auto simp: ports_sorted_def split: list.splits if_splits)
  then show ?thesis
    using NETWORK_DEREGISTER_PORT assms
    by (cases "udp_port_remove (port_list_head net) port") (simp_all add: message_handler_def udp_deregister_port_def)
next
  case (NETWORK_TRANSFER_MESSAGE t)
  let ?r = "udp_send net (port_from t) (port_to t) (\<lambda>i. tm_payload t ! i) (payload_size t) (ip_to t)"
  have "(\<exists>x. ?r = Ok x) \<or> ?r = Abort \<and> UDP_MAX_PAYLOAD_SIZE < unat (payload_size t)"
    using ip_packet_send_eq [of "udp_header_bytes (port_from t) (port_to t) (ucast (payload_size t + of_nat UDP_HEADER_SIZE)) @
        read_bytes (\<lambda>i. tm_payload t ! i) (unat (payload_size t))" net "ip_to t"]
    by (simp add: udp_send_def net_sizes)
  then consider x where "?r = Ok x" | "?r = Abort" "UDP_MAX_PAYLOAD_SIZE < unat (payload_size t)" by blast
  then show ?thesis
    using NETWORK_TRANSFER_MESSAGE assms by cases (simp_all add: message_handler_def)
qed (simp add: message_handler_def assms)

theorem message_handler_invariant_witness:
  "\<exists>net' as. message_handler \<lparr>MY_IP = 1, port_list_head = [\<lparr>portnum = 5, port_pid = 2, port_core = 1\<rparr>]\<rparr>
      (NETWORK_REGISTER_PORT 17 3 0 4) = Ok (net', as) \<and> ports_sorted (port_list_head net') \<and> MY_IP net' = 1"
  using message_handler_invariant [of "\<lparr>MY_IP = 1, port_list_head = [\<lparr>portnum = 5, port_pid = 2, port_core = 1\<rparr>]\<rparr>"
      "NETWORK_REGISTER_PORT 17 3 0 4"]
  by (auto simp: ports_sorted_def split: outcome.splits)



end
