(* ===== verification/Pool.thy ===== *)
theory Pool
  imports Prelude
begin

text \<open>
  The contract of an allocator, which the slab allocator and the slot allocators fulfil and
  on which their users rely: as long as something is available, an allocation returns an item
  that is not in use, and an item in use can be returned.
\<close>

locale resource_pool =
  fixes inv :: "'p \<Rightarrow> bool" and used :: "'p \<Rightarrow> 'b set" and available :: "'p \<Rightarrow> nat"
    and alloc :: "'p \<Rightarrow> ('b \<times> 'p) outcome" and release :: "'p \<Rightarrow> 'b \<Rightarrow> 'p outcome"
  assumes alloc_ok: "inv p \<Longrightarrow> 0 < available p \<Longrightarrow>
      \<exists>b p'. alloc p = Ok (b, p') \<and> b \<notin> used p \<and> inv p' \<and> used p' = insert b (used p) \<and>
        Suc (available p') = available p"
    and release_ok: "inv p \<Longrightarrow> b \<in> used p \<Longrightarrow>
      \<exists>p'. release p b = Ok p' \<and> inv p' \<and> used p' = used p - {b} \<and> available p' = Suc (available p)"
begin

fun alloc_list :: "nat \<Rightarrow> 'p \<Rightarrow> ('b list \<times> 'p) outcome" where
  "alloc_list 0 p = Ok ([], p)"
| "alloc_list (Suc n) p =
     bind_outcome (alloc p) (\<lambda>(b, p). bind_outcome (alloc_list n p) (\<lambda>(bs, p). Ok (b # bs, p)))"

fun release_list :: "'b list \<Rightarrow> 'p \<Rightarrow> 'p outcome" where
  "release_list [] p = Ok p"
| "release_list (b # bs) p = bind_outcome (release p b) (release_list bs)"

lemma alloc_list_ok:
  "inv p \<Longrightarrow> n \<le> available p \<Longrightarrow>
     \<exists>bs p'. alloc_list n p = Ok (bs, p') \<and> length bs = n \<and> distinct bs \<and> set bs \<inter> used p = {} \<and> inv p' \<and>
       used p' = used p \<union> set bs \<and> available p' + n = available p"
proof (induction n arbitrary: p)
  case (Suc n)
  then obtain b p1 where a: "alloc p = Ok (b, p1)" "b \<notin> used p" "inv p1" "used p1 = insert b (used p)"
    "Suc (available p1) = available p"
    using alloc_ok [of p] by auto
  then obtain bs p' where "alloc_list n p1 = Ok (bs, p')" "length bs = n" "distinct bs" "set bs \<inter> used p1 = {}"
    "inv p'" "used p' = used p1 \<union> set bs" "available p' + n = available p1"
    using Suc.IH [of p1] Suc.prems by auto
  then show ?case using a by (auto intro!: exI [of _ "b # bs"] exI [of _ p'])
qed simp

lemma release_list_ok:
  "inv p \<Longrightarrow> distinct bs \<Longrightarrow> set bs \<subseteq> used p \<Longrightarrow>
     \<exists>p'. release_list bs p = Ok p' \<and> inv p' \<and> used p' = used p - set bs \<and> available p' = available p + length bs"
proof (induction bs arbitrary: p)
  case (Cons b bs)
  then obtain p1 where r: "release p b = Ok p1" "inv p1" "used p1 = used p - {b}" "available p1 = Suc (available p)"
    using release_ok [of p b] by auto
  moreover obtain p' where "release_list bs p1 = Ok p'" "inv p'" "used p' = used p1 - set bs"
      "available p' = available p1 + length bs"
    using Cons.IH [of p1] Cons.prems r by auto
  ultimately show ?case by (auto intro!: exI [of _ p'])
qed simp

text \<open>
  What a session of \<open>n\<close> allocations hands out is distinct and was free, and returning it in
  any order gives everything back.
\<close>

lemma session:
  assumes "inv p" "n \<le> available p"
  shows "\<exists>bs p'. alloc_list n p = Ok (bs, p') \<and> length bs = n \<and> distinct bs \<and> set bs \<inter> used p = {} \<and>
    inv p' \<and> used p' = used p \<union> set bs \<and>
    (\<forall>cs. distinct cs \<and> set cs = set bs \<longrightarrow>
      (\<exists>p''. release_list cs p' = Ok p'' \<and> inv p'' \<and> used p'' = used p \<and> available p'' = available p))"
proof -
  obtain bs p' where bs: "alloc_list n p = Ok (bs, p')" "length bs = n" "distinct bs" "set bs \<inter> used p = {}"
    "inv p'" "used p' = used p \<union> set bs" "available p' + n = available p"
    using alloc_list_ok [OF assms] by auto
  have "\<exists>p''. release_list cs p' = Ok p'' \<and> inv p'' \<and> used p'' = used p \<and> available p'' = available p"
    if "distinct cs" "set cs = set bs" for cs
  proof -
    have "length cs = n" using that bs(2,3) distinct_card by metis
    then show ?thesis using release_list_ok [OF bs(5), of cs] that bs by auto
  qed
  then show ?thesis using bs by blast
qed

end

end
