(* ===== verification/Slab.thy ===== *)
theory Slab
  imports Pool
begin

text \<open>
  The slab allocator, \<^verbatim>\<open>lib/aos/slab.c\<close>. An address is a natural number, 0 is the null
  pointer; a buffer never wraps around the end of the address space. A slab is its header:
  where it lies, how many blocks it has and its free list. The free list, which the code
  threads through the first word of every free block, is the list of the addresses of its
  blocks. The refill function of an allocator is an argument of the operations that call it.
\<close>

section \<open>The code\<close>

text \<open>Sizes on the 32-bit target.\<close>

definition SLAB_HEAD_SIZE :: nat where "SLAB_HEAD_SIZE = 16"
definition SLAB_BLOCK_HDRSIZE :: nat where "SLAB_BLOCK_HDRSIZE = 4"

record slab_head =
  sh_addr :: nat
  sh_total :: nat
  sh_free :: nat
  sh_blocks :: "nat list"

record slab_allocator =
  slabs :: "slab_head list"
  blocksize :: nat

definition SLAB_REAL_BLOCKSIZE :: "nat \<Rightarrow> nat" where
  "SLAB_REAL_BLOCKSIZE n = (if SLAB_BLOCK_HDRSIZE < n then n else SLAB_BLOCK_HDRSIZE)"

definition slab_init :: "nat \<Rightarrow> slab_allocator" where
  "slab_init n = \<lparr>slabs = [], blocksize = SLAB_REAL_BLOCKSIZE n\<rparr>"

text \<open>The loop that links the blocks: \<open>i\<close> blocks from \<open>buf\<close> on.\<close>

fun slab_chain :: "nat \<Rightarrow> nat \<Rightarrow> nat \<Rightarrow> nat list" where
  "slab_chain bs buf 0 = []"
| "slab_chain bs buf (Suc i) = buf # slab_chain bs (buf + bs) i"

definition slab_grow :: "slab_allocator \<Rightarrow> nat \<Rightarrow> nat \<Rightarrow> slab_allocator outcome" where
  "slab_grow sl buf buflen =
     (if buflen \<le> SLAB_HEAD_SIZE then Abort
      else let head = buf;
               buflen = buflen - SLAB_HEAD_SIZE;
               buf = buf + SLAB_HEAD_SIZE;
               total = buflen div blocksize sl
           in if total = 0 \<or> 2 ^ 32 \<le> total then Abort
              else Ok (sl\<lparr>slabs := \<lparr>sh_addr = head, sh_total = total, sh_free = total,
                     sh_blocks = slab_chain (blocksize sl) buf total\<rparr> # slabs sl\<rparr>))"

text \<open>The search for a slab with a free block, and taking its first block.\<close>

fun slab_take :: "slab_head list \<Rightarrow> (nat \<times> slab_head list) option outcome" where
  "slab_take [] = Ok None"
| "slab_take (sh # shs) =
     (if sh_free sh = 0 then
        bind_outcome (slab_take shs)
          (\<lambda>r. Ok (case r of None \<Rightarrow> None | Some (b, shs') \<Rightarrow> Some (b, sh # shs')))
      else case sh_blocks sh of
             [] \<Rightarrow> Abort
           | b # bs \<Rightarrow> Ok (Some (b, sh\<lparr>sh_blocks := bs, sh_free := sh_free sh - 1\<rparr> # shs)))"

definition slab_take_block :: "slab_allocator \<Rightarrow> (nat option \<times> slab_allocator) outcome" where
  "slab_take_block sl =
     bind_outcome (slab_take (slabs sl))
       (\<lambda>r. Ok (case r of None \<Rightarrow> (None, sl) | Some (b, shs) \<Rightarrow> (Some b, sl\<lparr>slabs := shs\<rparr>)))"

definition slab_has_free :: "slab_allocator \<Rightarrow> bool" where
  "slab_has_free sl \<longleftrightarrow> list_ex (\<lambda>sh. sh_free sh \<noteq> 0) (slabs sl)"

definition slab_alloc ::
    "(slab_allocator \<Rightarrow> slab_allocator outcome) option \<Rightarrow> slab_allocator \<Rightarrow> (nat option \<times> slab_allocator) outcome" where
  "slab_alloc refill_func sl =
     (if slab_has_free sl then slab_take_block sl
      else case refill_func of
             None \<Rightarrow> Ok (None, sl)
           | Some f \<Rightarrow>
               (case f sl of
                  Err _ \<Rightarrow> Ok (None, sl)
                | Abort \<Rightarrow> Abort
                | Ok sl \<Rightarrow> slab_take_block sl))"

text \<open>An allocation by a caller that uses the block without a test for the null pointer.\<close>

definition slab_get ::
    "(slab_allocator \<Rightarrow> slab_allocator outcome) option \<Rightarrow> slab_allocator \<Rightarrow> (nat \<times> slab_allocator) outcome" where
  "slab_get refill_func sl =
     bind_outcome (slab_alloc refill_func sl) (\<lambda>(b, sl). case b of None \<Rightarrow> Abort | Some b \<Rightarrow> Ok (b, sl))"

fun slab_put :: "nat \<Rightarrow> nat \<Rightarrow> slab_head list \<Rightarrow> slab_head list outcome" where
  "slab_put bs bh [] = Abort"
| "slab_put bs bh (sh # shs) =
     (if sh_addr sh < bh \<and> bh < sh_addr sh + SLAB_HEAD_SIZE + bs * sh_total sh then
        let sh = sh\<lparr>sh_blocks := bh # sh_blocks sh, sh_free := sh_free sh + 1\<rparr>
        in if sh_free sh \<le> sh_total sh then Ok (sh # shs) else Abort
      else bind_outcome (slab_put bs bh shs) (\<lambda>shs. Ok (sh # shs)))"

definition slab_free :: "slab_allocator \<Rightarrow> nat \<Rightarrow> slab_allocator outcome" where
  "slab_free sl block =
     (if block = 0 then Ok sl
      else bind_outcome (slab_put (blocksize sl) block (slabs sl)) (\<lambda>shs. Ok (sl\<lparr>slabs := shs\<rparr>)))"

definition slab_freecount :: "slab_allocator \<Rightarrow> nat" where
  "slab_freecount sl = foldl (\<lambda>ret sh. ret + sh_free sh) 0 (slabs sl)"

text \<open>
  Refilling with a page: \<open>get_pages\<close> stands for allocating a frame and mapping it, and
  returns the address and the size of the frame.
\<close>

definition slab_refill_pages ::
    "(nat \<Rightarrow> (nat \<times> nat) outcome) \<Rightarrow> slab_allocator \<Rightarrow> nat \<Rightarrow> slab_allocator outcome" where
  "slab_refill_pages get_pages sl bytes =
     (case get_pages bytes of
        Ok (buf, frame_size) \<Rightarrow> if bytes = frame_size then slab_grow sl buf bytes else Abort
      | _ \<Rightarrow> Abort)"

definition BASE_PAGE_SIZE :: nat where "BASE_PAGE_SIZE = 4096"

definition slab_default_refill :: "(nat \<Rightarrow> (nat \<times> nat) outcome) \<Rightarrow> slab_allocator \<Rightarrow> slab_allocator outcome" where
  "slab_default_refill get_pages sl = slab_refill_pages get_pages sl BASE_PAGE_SIZE"

section \<open>The invariant\<close>

text \<open>All blocks of a slab, free or in use, and the memory of the slab.\<close>

definition slab_block_list :: "nat \<Rightarrow> slab_head \<Rightarrow> nat list" where
  "slab_block_list bs sh = map (\<lambda>i. sh_addr sh + SLAB_HEAD_SIZE + i * bs) [0..<sh_total sh]"

definition slab_range :: "nat \<Rightarrow> slab_head \<Rightarrow> nat set" where
  "slab_range bs sh = {sh_addr sh ..< sh_addr sh + SLAB_HEAD_SIZE + sh_total sh * bs}"

definition slab_ok :: "nat \<Rightarrow> slab_head \<Rightarrow> bool" where
  "slab_ok bs sh \<longleftrightarrow> sh_addr sh \<noteq> 0 \<and> sh_free sh = length (sh_blocks sh) \<and> distinct (sh_blocks sh) \<and>
     set (sh_blocks sh) \<subseteq> set (slab_block_list bs sh)"

definition slabs_ok :: "nat \<Rightarrow> slab_head list \<Rightarrow> bool" where
  "slabs_ok bs shs \<longleftrightarrow> list_all (slab_ok bs) shs \<and>
     sorted_wrt (\<lambda>sh sh'. slab_range bs sh \<inter> slab_range bs sh' = {}) shs"

definition slab_inv :: "slab_allocator \<Rightarrow> bool" where
  "slab_inv sl \<longleftrightarrow> 0 < blocksize sl \<and> slabs_ok (blocksize sl) (slabs sl)"

text \<open>The free blocks and the blocks in use.\<close>

definition free_set :: "slab_head list \<Rightarrow> nat set" where
  "free_set shs = (\<Union>sh \<in> set shs. set (sh_blocks sh))"

definition block_set :: "nat \<Rightarrow> slab_head list \<Rightarrow> nat set" where
  "block_set bs shs = (\<Union>sh \<in> set shs. set (slab_block_list bs sh))"

definition slab_used :: "slab_allocator \<Rightarrow> nat set" where
  "slab_used sl = block_set (blocksize sl) (slabs sl) - free_set (slabs sl)"

lemma free_set_simps [simp]:
  "free_set [] = {}" "free_set (sh # shs) = set (sh_blocks sh) \<union> free_set shs"
  by (simp_all add: free_set_def)

lemma block_set_simps [simp]:
  "block_set bs [] = {}" "block_set bs (sh # shs) = set (slab_block_list bs sh) \<union> block_set bs shs"
  by (simp_all add: block_set_def)

lemma slabs_ok_simps [simp]:
  "slabs_ok bs []"
  "slabs_ok bs (sh # shs) \<longleftrightarrow> slab_ok bs sh \<and> (\<forall>sh' \<in> set shs. slab_range bs sh \<inter> slab_range bs sh' = {}) \<and> slabs_ok bs shs"
  by (auto simp: slabs_ok_def)

lemma slab_chain_map: "slab_chain bs buf n = map (\<lambda>i. buf + i * bs) [0..<n]"
proof (induction n arbitrary: buf)
  case (Suc n)
  have "[0..<Suc n] = 0 # map Suc [0..<n]" by (simp add: upt_conv_Cons map_Suc_upt del: upt_Suc)
  then show ?case using Suc by (simp add: add.assoc del: upt_Suc)
qed simp

lemma freecount_sum: "slab_freecount sl = sum_list (map sh_free (slabs sl))"
proof -
  have "foldl (\<lambda>ret sh. ret + sh_free sh) n shs = n + sum_list (map sh_free shs)" for n and shs :: "slab_head list"
    by (induction shs arbitrary: n) auto
  then show ?thesis by (simp add: slab_freecount_def)
qed

lemma slab_has_free_count: "slab_has_free sl \<longleftrightarrow> 0 < slab_freecount sl"
  by (auto simp: slab_has_free_def freecount_sum list_ex_iff sum_list_eq_0_iff neq0_conv [symmetric] simp del: neq0_conv)

text \<open>The blocks of a slab lie in its range, behind the header, without overlap.\<close>

lemma block_list_range:
  assumes "b \<in> set (slab_block_list bs sh)" "0 < bs"
  shows "b \<in> slab_range bs sh" "sh_addr sh < b" "b < sh_addr sh + SLAB_HEAD_SIZE + bs * sh_total sh"
proof -
  obtain i where i: "b = sh_addr sh + SLAB_HEAD_SIZE + i * bs" "i < sh_total sh"
    using assms by (auto simp: slab_block_list_def)
  then have "i * bs < sh_total sh * bs" using assms(2) by simp
  then show "b \<in> slab_range bs sh" "sh_addr sh < b" "b < sh_addr sh + SLAB_HEAD_SIZE + bs * sh_total sh"
    using i by (simp_all add: slab_range_def SLAB_HEAD_SIZE_def mult.commute)
qed

lemma distinct_block_list: "0 < bs \<Longrightarrow> distinct (slab_block_list bs sh)"
  by (simp add: slab_block_list_def distinct_map inj_on_def)

lemma block_set_range:
  "b \<in> block_set bs shs \<Longrightarrow> 0 < bs \<Longrightarrow> \<exists>sh \<in> set shs. b \<in> slab_range bs sh"
  using block_list_range(1) by (force simp: block_set_def)

lemma free_sub_block: "slabs_ok bs shs \<Longrightarrow> free_set shs \<subseteq> block_set bs shs"
  by (auto simp: slabs_ok_def slab_ok_def list_all_iff free_set_def block_set_def)

section \<open>Taking and returning a block\<close>

lemma slab_ok_upd [simp]:
  "slab_range bs (sh\<lparr>sh_blocks := xs, sh_free := n\<rparr>) = slab_range bs sh"
  "slab_block_list bs (sh\<lparr>sh_blocks := xs, sh_free := n\<rparr>) = slab_block_list bs sh"
  by (simp_all add: slab_range_def slab_block_list_def)

definition same_slabs :: "nat \<Rightarrow> slab_head list \<Rightarrow> slab_head list \<Rightarrow> bool" where
  "same_slabs bs shs shs' \<longleftrightarrow> map (slab_range bs) shs' = map (slab_range bs) shs \<and>
     map (slab_block_list bs) shs' = map (slab_block_list bs) shs"

lemma same_slabs_sets:
  assumes "same_slabs bs shs shs'"
  shows "slab_range bs ` set shs' = slab_range bs ` set shs" "block_set bs shs' = block_set bs shs"
proof -
  have "set (map (slab_range bs) shs') = set (map (slab_range bs) shs)"
      "set (map (slab_block_list bs) shs') = set (map (slab_block_list bs) shs)"
    using assms by (simp_all add: same_slabs_def del: set_map)
  then show "slab_range bs ` set shs' = slab_range bs ` set shs" "block_set bs shs' = block_set bs shs"
    by (simp_all add: block_set_def) (metis image_image)
qed

lemma same_slabs_disjoint:
  assumes "same_slabs bs shs shs'" "\<forall>sh' \<in> set shs. R \<inter> slab_range bs sh' = {}"
  shows "\<forall>sh' \<in> set shs'. R \<inter> slab_range bs sh' = {}"
  using same_slabs_sets(1) [OF assms(1)] assms(2) by (metis image_iff)

lemma slab_take_ok:
  assumes "slabs_ok bs shs" "0 < bs"
  shows "slab_take shs = Ok None \<and> (\<forall>sh \<in> set shs. sh_free sh = 0) \<or>
    (\<exists>b shs'. slab_take shs = Ok (Some (b, shs')) \<and> b \<in> free_set shs \<and> slabs_ok bs shs' \<and> same_slabs bs shs shs' \<and>
       free_set shs' = free_set shs - {b} \<and> Suc (sum_list (map sh_free shs')) = sum_list (map sh_free shs))"
  using assms(1)
proof (induction shs)
  case (Cons sh shs)
  show ?case
  proof (cases "sh_free sh = 0")
    case True
    then have e: "sh_blocks sh = []" using Cons.prems by (simp add: slab_ok_def)
    show ?thesis
    proof (cases "slab_take shs = Ok None \<and> (\<forall>sh \<in> set shs. sh_free sh = 0)")
      case False
      then obtain b shs' where r: "slab_take shs = Ok (Some (b, shs'))" "b \<in> free_set shs" "slabs_ok bs shs'"
        "same_slabs bs shs shs'" "free_set shs' = free_set shs - {b}"
        "Suc (sum_list (map sh_free shs')) = sum_list (map sh_free shs)"
        using Cons by auto
      have "slabs_ok bs (sh # shs')" using Cons.prems r(3) same_slabs_disjoint [OF r(4)] by simp
      then show ?thesis using True e r by (auto simp: same_slabs_def)
    qed (use True in simp)
  next
    case False
    then obtain b xs where b: "sh_blocks sh = b # xs"
      using Cons.prems by (cases "sh_blocks sh") (auto simp: slab_ok_def)
    have "b \<notin> free_set shs"
    proof
      assume "b \<in> free_set shs"
      then obtain sh' where "sh' \<in> set shs" "b \<in> slab_range bs sh'"
        using free_sub_block Cons.prems block_set_range [OF _ assms(2)] by (meson slabs_ok_simps(2) subsetD)
      moreover have "b \<in> slab_range bs sh"
        using b Cons.prems block_list_range(1) [OF _ assms(2)] by (auto simp: slab_ok_def)
      ultimately show False using Cons.prems by auto
    qed
    moreover have "slab_ok bs (sh\<lparr>sh_blocks := xs, sh_free := sh_free sh - 1\<rparr>)" "b \<notin> set xs"
      using Cons.prems b by (auto simp: slab_ok_def)
    ultimately show ?thesis using False b Cons.prems by (auto simp: same_slabs_def)
  qed
qed simp

lemma slab_put_ok:
  assumes "slabs_ok bs shs" "0 < bs" "b \<in> block_set bs shs" "b \<notin> free_set shs"
  shows "\<exists>shs'. slab_put bs b shs = Ok shs' \<and> slabs_ok bs shs' \<and> same_slabs bs shs shs' \<and>
    free_set shs' = insert b (free_set shs) \<and> sum_list (map sh_free shs') = Suc (sum_list (map sh_free shs))"
  using assms(1,3,4)
proof (induction shs)
  case (Cons sh shs)
  show ?case
  proof (cases "b \<in> set (slab_block_list bs sh)")
    case True
    let ?sh = "sh\<lparr>sh_blocks := b # sh_blocks sh, sh_free := sh_free sh + 1\<rparr>"
    have d: "distinct (b # sh_blocks sh)" "set (b # sh_blocks sh) \<subseteq> set (slab_block_list bs sh)"
      using Cons.prems True by (auto simp: slab_ok_def)
    have "length (b # sh_blocks sh) \<le> length (slab_block_list bs sh)"
      using d distinct_card [OF d(1)] card_mono [OF _ d(2)] card_length [of "slab_block_list bs sh"]
      by (metis List.finite_set order_trans)
    then have "sh_free sh + 1 \<le> sh_total sh"
      using Cons.prems by (simp add: slab_ok_def slab_block_list_def)
    moreover have "slab_ok bs ?sh" using Cons.prems d by (simp add: slab_ok_def)
    ultimately show ?thesis
      using Cons.prems block_list_range(2,3) [OF True assms(2)] by (simp add: same_slabs_def)
  next
    case False
    then have b: "b \<in> block_set bs shs" using Cons.prems by simp
    then obtain sh' where "sh' \<in> set shs" "b \<in> slab_range bs sh'" using block_set_range [OF _ assms(2)] by blast
    then have "b \<notin> slab_range bs sh" using Cons.prems by auto
    then have "\<not> (sh_addr sh < b \<and> b < sh_addr sh + SLAB_HEAD_SIZE + bs * sh_total sh)"
      by (auto simp: slab_range_def mult.commute)
    moreover obtain shs' where r: "slab_put bs b shs = Ok shs'" "slabs_ok bs shs'" "same_slabs bs shs shs'"
      "free_set shs' = insert b (free_set shs)" "sum_list (map sh_free shs') = Suc (sum_list (map sh_free shs))"
      using Cons b by auto
    moreover have "slabs_ok bs (sh # shs')" using Cons.prems r(2) same_slabs_disjoint [OF r(3)] by simp
    ultimately show ?thesis by (auto simp: same_slabs_def)
  qed
qed simp

section \<open>The contract\<close>

lemma slab_alloc_ok:
  assumes "slab_inv sl" "0 < slab_freecount sl"
  shows "\<exists>b sl'. slab_alloc r sl = Ok (Some b, sl') \<and> b \<noteq> 0 \<and> b \<notin> slab_used sl \<and> slab_inv sl' \<and>
    slab_used sl' = insert b (slab_used sl) \<and> Suc (slab_freecount sl') = slab_freecount sl \<and>
    blocksize sl' = blocksize sl"
proof -
  let ?bs = "blocksize sl"
  have ok: "slabs_ok ?bs (slabs sl)" "0 < ?bs" using assms(1) by (simp_all add: slab_inv_def)
  have "\<not> (\<forall>sh \<in> set (slabs sl). sh_free sh = 0)"
    using assms(2) slab_has_free_count [of sl] by (simp add: slab_has_free_def list_ex_iff)
  then obtain b shs where r: "slab_take (slabs sl) = Ok (Some (b, shs))" "b \<in> free_set (slabs sl)" "slabs_ok ?bs shs"
    "same_slabs ?bs (slabs sl) shs" "free_set shs = free_set (slabs sl) - {b}"
    "Suc (sum_list (map sh_free shs)) = sum_list (map sh_free (slabs sl))"
    using slab_take_ok [OF ok] by auto
  have b: "b \<in> block_set ?bs (slabs sl)" using r(2) free_sub_block [OF ok(1)] by blast
  then have "b \<noteq> 0" using block_list_range(2) [OF _ ok(2)] by (fastforce simp: block_set_def)
  moreover have "slab_used (sl\<lparr>slabs := shs\<rparr>) = insert b (slab_used sl)" "b \<notin> slab_used sl"
    using r(2,5) b same_slabs_sets(2) [OF r(4)] by (auto simp: slab_used_def)
  moreover have "slab_alloc r sl = Ok (Some b, sl\<lparr>slabs := shs\<rparr>)"
    using assms(2) r(1) by (simp add: slab_alloc_def slab_has_free_count slab_take_block_def)
  ultimately show ?thesis
    using r(3,6) ok(2) by (auto simp: slab_inv_def freecount_sum)
qed

lemma slab_free_ok:
  assumes "slab_inv sl" "b \<in> slab_used sl"
  shows "\<exists>sl'. slab_free sl b = Ok sl' \<and> slab_inv sl' \<and> slab_used sl' = slab_used sl - {b} \<and>
    slab_freecount sl' = Suc (slab_freecount sl) \<and> blocksize sl' = blocksize sl"
proof -
  let ?bs = "blocksize sl"
  have ok: "slabs_ok ?bs (slabs sl)" "0 < ?bs" using assms(1) by (simp_all add: slab_inv_def)
  have b: "b \<in> block_set ?bs (slabs sl)" "b \<notin> free_set (slabs sl)" using assms(2) by (simp_all add: slab_used_def)
  then obtain shs where r: "slab_put ?bs b (slabs sl) = Ok shs" "slabs_ok ?bs shs" "same_slabs ?bs (slabs sl) shs"
    "free_set shs = insert b (free_set (slabs sl))" "sum_list (map sh_free shs) = Suc (sum_list (map sh_free (slabs sl)))"
    using slab_put_ok [OF ok] by blast
  have "b \<noteq> 0" using b(1) block_list_range(2) [OF _ ok(2)] by (fastforce simp: block_set_def)
  moreover have "slab_used (sl\<lparr>slabs := shs\<rparr>) = slab_used sl - {b}"
    using r(4) same_slabs_sets(2) [OF r(3)] by (auto simp: slab_used_def)
  ultimately show ?thesis
    using r ok(2) by (auto simp: slab_free_def slab_inv_def freecount_sum)
qed

interpretation slab_pool: resource_pool slab_inv slab_used slab_freecount "slab_get r" slab_free for r
proof
  fix p
  assume "slab_inv p" "0 < slab_freecount p"
  then show "\<exists>b p'. slab_get r p = Ok (b, p') \<and> b \<notin> slab_used p \<and> slab_inv p' \<and>
      slab_used p' = insert b (slab_used p) \<and> Suc (slab_freecount p') = slab_freecount p"
    using slab_alloc_ok [of p r] by (auto simp: slab_get_def)
next
  fix p b
  assume "slab_inv p" "b \<in> slab_used p"
  then show "\<exists>p'. slab_free p b = Ok p' \<and> slab_inv p' \<and> slab_used p' = slab_used p - {b} \<and>
      slab_freecount p' = Suc (slab_freecount p)"
    using slab_free_ok [of p b] by blast
qed

section \<open>Adding a slab\<close>

lemma slab_grow_ok:
  assumes "slab_inv sl" "buf \<noteq> 0" "SLAB_HEAD_SIZE + blocksize sl \<le> buflen"
    "(buflen - SLAB_HEAD_SIZE) div blocksize sl < 2 ^ 32"
    "\<And>sh. sh \<in> set (slabs sl) \<Longrightarrow> slab_range (blocksize sl) sh \<inter> {buf..<buf + buflen} = {}"
  shows "\<exists>sl'. slab_grow sl buf buflen = Ok sl' \<and> slab_inv sl' \<and> slab_used sl' = slab_used sl \<and>
    slab_freecount sl' = slab_freecount sl + (buflen - SLAB_HEAD_SIZE) div blocksize sl \<and> blocksize sl' = blocksize sl"
proof -
  let ?bs = "blocksize sl"
  let ?n = "(buflen - SLAB_HEAD_SIZE) div ?bs"
  let ?sh = "\<lparr>sh_addr = buf, sh_total = ?n, sh_free = ?n, sh_blocks = slab_chain ?bs (buf + SLAB_HEAD_SIZE) ?n\<rparr>"
  have bs: "0 < ?bs" "slabs_ok ?bs (slabs sl)" using assms(1) by (simp_all add: slab_inv_def)
  have n: "0 < ?n" "?n < 2 ^ 32" "?n * ?bs \<le> buflen - SLAB_HEAD_SIZE"
    using assms(3,4) bs(1) by (auto simp: div_greater_zero_iff div_times_less_eq_dividend)
  have blocks: "sh_blocks ?sh = slab_block_list ?bs ?sh"
    by (simp add: slab_chain_map slab_block_list_def)
  then have "slab_ok ?bs ?sh" using assms(2) distinct_block_list [OF bs(1), of ?sh]
    by (simp add: slab_ok_def) (simp add: slab_block_list_def)
  moreover have "SLAB_HEAD_SIZE + ?n * ?bs \<le> buflen" using n(3) assms(3) by linarith
  then have "slab_range ?bs ?sh \<subseteq> {buf..<buf + buflen}"
    by (intro subsetI) (simp add: slab_range_def)
  then have "\<forall>sh' \<in> set (slabs sl). slab_range ?bs ?sh \<inter> slab_range ?bs sh' = {}" using assms(5) by blast
  moreover have "free_set (slabs sl) \<inter> set (slab_block_list ?bs ?sh) = {}"
  proof -
    have "b \<in> slab_range ?bs ?sh \<Longrightarrow> b \<notin> free_set (slabs sl)" for b
      using calculation(2) free_sub_block [OF bs(2)] block_set_range [OF _ bs(1), of b "slabs sl"] by blast
    then show ?thesis using block_list_range(1) [OF _ bs(1), of _ ?sh] by blast
  qed
  moreover have "block_set ?bs (slabs sl) \<inter> set (slab_block_list ?bs ?sh) = {}"
  proof -
    have "b \<in> slab_range ?bs ?sh \<Longrightarrow> b \<notin> block_set ?bs (slabs sl)" for b
      using calculation(2) block_set_range [OF _ bs(1), of b "slabs sl"] by blast
    then show ?thesis using block_list_range(1) [OF _ bs(1), of _ ?sh] by blast
  qed
  moreover have "slab_grow sl buf buflen = Ok (sl\<lparr>slabs := ?sh # slabs sl\<rparr>)"
    using n(1,2) assms(3) bs(1) by (simp add: slab_grow_def Let_def)
  ultimately show ?thesis
    using bs blocks by (auto simp: slab_inv_def slab_used_def freecount_sum)
qed

lemma sorted_wrt_symmetric:
  assumes "sorted_wrt P xs" "x \<in> set xs" "y \<in> set xs" "x \<noteq> y" "\<And>x y. P x y \<Longrightarrow> P y x"
  shows "P x y"
  using assms(1-4)
proof (induction xs)
  case (Cons z xs)
  then show ?case using assms(5) by (cases "x = z"; cases "y = z") auto
qed simp

text \<open>Two different blocks never overlap.\<close>

lemma blocks_apart:
  assumes "slab_inv sl" "b \<in> block_set (blocksize sl) (slabs sl)" "b' \<in> block_set (blocksize sl) (slabs sl)" "b \<noteq> b'"
  shows "{b..<b + blocksize sl} \<inter> {b'..<b' + blocksize sl} = {}"
proof -
  let ?bs = "blocksize sl"
  obtain sh i sh' j where b: "sh \<in> set (slabs sl)" "i < sh_total sh" "b = sh_addr sh + SLAB_HEAD_SIZE + i * ?bs"
    and b': "sh' \<in> set (slabs sl)" "j < sh_total sh'" "b' = sh_addr sh' + SLAB_HEAD_SIZE + j * ?bs"
    using assms(2,3) by (auto simp: block_set_def slab_block_list_def)
  have step: "i * k + k \<le> j * k" if "i < j" for i j k :: nat
    using mult_le_mono1 [of "Suc i" j k] that by simp
  have inside: "{sh_addr sh + SLAB_HEAD_SIZE + i * ?bs..<sh_addr sh + SLAB_HEAD_SIZE + i * ?bs + ?bs} \<subseteq> slab_range ?bs sh"
    if "i < sh_total sh" for sh i
    using step [OF that, of ?bs] by (auto simp: slab_range_def)
  show ?thesis
  proof (cases "sh = sh'")
    case True
    then have "i < j \<or> j < i" using b(3) b'(3) assms(4) by (cases i j rule: linorder_cases) auto
    then show ?thesis using step [of i j ?bs] step [of j i ?bs] True b(3) b'(3) by (auto simp: disjoint_iff)
  next
    case False
    have "sorted_wrt (\<lambda>sh sh'. slab_range ?bs sh \<inter> slab_range ?bs sh' = {}) (slabs sl)"
      using assms(1) by (simp add: slab_inv_def slabs_ok_def)
    from sorted_wrt_symmetric [OF this b(1) b'(1) False] have "slab_range ?bs sh \<inter> slab_range ?bs sh' = {}"
      by (simp add: Int_commute)
    then show ?thesis unfolding b(3) b'(3) using inside [OF b(2)] inside [OF b'(2)] by blast
  qed
qed

end
