(* ===== verification/Slot_Meta.thy ===== *)
theory Slot_Meta
  imports Slab
begin

text \<open>
  Capability addresses and lists of free slot ranges, shared by the slot allocators of
  \<^verbatim>\<open>lib/aos/slot_alloc\<close>. A range (\<open>struct cnode_meta\<close>) is a block of the slab allocator that
  backs the list, so it carries its address. Slot numbers are natural numbers: every sum of a
  slot number and a count that the code forms stays below \<open>2 ^ 32\<close> for cnodes of up to
  \<open>2 ^ 31\<close> slots.
\<close>

section \<open>Capability references\<close>

record cnoderef =
  cn_croot :: u32
  cn_cnode :: u32
  cn_level :: nat

record capref =
  cap_cnode :: cnoderef
  cap_slot :: nat

definition cnodecmp :: "cnoderef \<Rightarrow> cnoderef \<Rightarrow> bool" where
  "cnodecmp c1 c2 \<longleftrightarrow> cn_cnode c1 = cn_cnode c2 \<and> cn_croot c1 = cn_croot c2 \<and> cn_level c1 = cn_level c2"

lemma cnodecmp_eq: "cnodecmp c1 c2 \<longleftrightarrow> c1 = c2"
  by (auto simp: cnodecmp_def)

section \<open>Ranges of free slots\<close>

record cnode_meta =
  cm_addr :: nat
  cm_slot :: nat
  cm_space :: nat

definition CNODE_META_SIZE :: nat where "CNODE_META_SIZE = 12"

text \<open>A new range from the slab allocator, which has no refill function.\<close>

definition new_meta :: "slab_allocator \<Rightarrow> nat \<Rightarrow> nat \<Rightarrow> (cnode_meta option \<times> slab_allocator) outcome" where
  "new_meta sl slot space =
     bind_outcome (slab_alloc None sl)
       (\<lambda>(b, sl). Ok (case b of None \<Rightarrow> None | Some a \<Rightarrow> Some \<lparr>cm_addr = a, cm_slot = slot, cm_space = space\<rparr>, sl))"

definition meta_range :: "cnode_meta \<Rightarrow> nat set" where
  "meta_range m = {cm_slot m ..< cm_slot m + cm_space m}"

definition meta_set :: "cnode_meta list \<Rightarrow> nat set" where
  "meta_set ms = (\<Union>m \<in> set ms. meta_range m)"

text \<open>Sorted, non-empty, and with a gap before each range: no two ranges could be joined.\<close>

fun meta_ok :: "nat \<Rightarrow> cnode_meta list \<Rightarrow> bool" where
  "meta_ok lo [] \<longleftrightarrow> True"
| "meta_ok lo (m # ms) \<longleftrightarrow> lo \<le> cm_slot m \<and> 0 < cm_space m \<and> meta_ok (Suc (cm_slot m + cm_space m)) ms"

definition meta_below :: "nat \<Rightarrow> cnode_meta list \<Rightarrow> bool" where
  "meta_below n ms \<longleftrightarrow> list_all (\<lambda>m. cm_slot m + cm_space m \<le> n) ms"

lemma meta_set_simps [simp]:
  "meta_set [] = {}" "meta_set (m # ms) = meta_range m \<union> meta_set ms" "meta_set (ms @ ns) = meta_set ms \<union> meta_set ns"
  by (auto simp: meta_set_def)

lemma meta_below_simps [simp]:
  "meta_below n []" "meta_below n (m # ms) \<longleftrightarrow> cm_slot m + cm_space m \<le> n \<and> meta_below n ms"
  by (auto simp: meta_below_def)

lemma ivl_disj_cases:
  assumes "{a..<a + c} \<inter> {b..<b + d} = {}" "0 < c" "0 < d"
  shows "a + c \<le> b \<or> b + d \<le> (a :: nat)"
proof (rule ccontr)
  assume "\<not> ?thesis"
  then have "max a b \<in> {a..<a + c} \<inter> {b..<b + d}" using assms(2,3) by auto
  then show False using assms(1) by blast
qed

lemma meta_ok_mono: "meta_ok lo ms \<Longrightarrow> lo' \<le> lo \<Longrightarrow> meta_ok lo' ms"
  by (cases ms) auto

lemma meta_ok_above: "meta_ok lo ms \<Longrightarrow> x \<in> meta_set ms \<Longrightarrow> lo \<le> x"
proof (induction ms arbitrary: lo)
  case (Cons m ms)
  then show ?case using Cons.IH [of "Suc (cm_slot m + cm_space m)"] by (force simp: meta_range_def)
qed simp

lemma meta_ok_slot: "meta_ok lo ms \<Longrightarrow> m \<in> set ms \<Longrightarrow> lo \<le> cm_slot m"
proof (induction ms arbitrary: lo)
  case (Cons a ms)
  then show ?case using Cons.IH [of "Suc (cm_slot a + cm_space a)"] by force
qed simp

lemma meta_below_set: "meta_below n ms \<Longrightarrow> x \<in> meta_set ms \<Longrightarrow> x < n"
  by (auto simp: meta_below_def list_all_iff meta_set_def meta_range_def)

lemma finite_meta_set [simp]: "finite (meta_set ms)"
  by (auto simp: meta_set_def meta_range_def)

lemma meta_below_iff: "meta_ok lo ms \<Longrightarrow> meta_below n ms \<longleftrightarrow> (\<forall>x \<in> meta_set ms. x < n)"
proof (induction ms arbitrary: lo)
  case (Cons m ms)
  have "cm_slot m + cm_space m \<le> n \<longleftrightarrow> (\<forall>x \<in> meta_range m. x < n)"
    using Cons.prems by (auto simp: meta_range_def dest!: bspec [of _ _ "cm_slot m + cm_space m - 1"])
  then show ?case using Cons by auto
qed simp

text \<open>\<open>k\<close> separated ranges need \<open>2 * k - 1\<close> slots.\<close>

lemma meta_ok_length: "meta_ok lo ms \<Longrightarrow> meta_below n ms \<Longrightarrow> ms \<noteq> [] \<Longrightarrow> lo + 2 * length ms \<le> n + 1"
proof (induction ms arbitrary: lo)
  case (Cons m ms)
  then show ?case using Cons.IH [of "Suc (cm_slot m + cm_space m)"] by (cases "ms = []") auto
qed simp

lemma meta_set_card: "meta_ok lo ms \<Longrightarrow> card (meta_set ms) = sum_list (map cm_space ms)"
proof (induction ms arbitrary: lo)
  case (Cons m ms)
  have "finite (meta_set ms)" by (auto simp: meta_set_def meta_range_def)
  moreover have "meta_range m \<inter> meta_set ms = {}"
    using Cons.prems meta_ok_above [of "Suc (cm_slot m + cm_space m)" ms] by (force simp: meta_range_def)
  moreover have "finite (meta_range m)" "card (meta_range m) = cm_space m" by (simp_all add: meta_range_def)
  ultimately show ?case
    using Cons.prems Cons.IH [of "Suc (cm_slot m + cm_space m)"] by (simp add: card_Un_disjoint)
qed simp

definition meta_adjacent :: "nat \<Rightarrow> nat \<Rightarrow> cnode_meta list \<Rightarrow> bool" where
  "meta_adjacent slot count ms \<longleftrightarrow> list_ex (\<lambda>m. slot = cm_slot m + cm_space m \<or> slot + count = cm_slot m) ms"

text \<open>A range that touches none of the others takes a place of its own in the list.\<close>

lemma meta_ok_insert:
  assumes "meta_ok lo ms" "lo \<le> slot" "0 < count" "\<not> meta_adjacent slot count ms"
    "{slot..<slot + count} \<inter> meta_set ms = {}"
  shows "\<exists>ms'. meta_ok lo ms' \<and> length ms' = Suc (length ms) \<and> meta_set ms' = {slot..<slot + count} \<union> meta_set ms"
  using assms
proof (induction ms arbitrary: lo)
  case Nil
  then show ?case by (intro exI [of _ "[\<lparr>cm_addr = 0, cm_slot = slot, cm_space = count\<rparr>]"]) (simp add: meta_range_def)
next
  case (Cons m ms)
  have gap: "slot \<noteq> cm_slot m + cm_space m" "slot + count \<noteq> cm_slot m" "\<not> meta_adjacent slot count ms"
    using Cons.prems(4) by (simp_all add: meta_adjacent_def)
  have disj: "{slot..<slot + count} \<inter> meta_range m = {}" "0 < cm_space m" using Cons.prems by auto
  then have "slot + count \<le> cm_slot m \<or> cm_slot m + cm_space m \<le> slot"
    using Cons.prems(3) ivl_disj_cases [of slot count "cm_slot m" "cm_space m"] by (simp add: meta_range_def)
  then consider "slot + count < cm_slot m" | "cm_slot m + cm_space m < slot" using gap by linarith
  then show ?case
  proof cases
    case 1
    then show ?thesis using Cons.prems
      by (intro exI [of _ "\<lparr>cm_addr = 0, cm_slot = slot, cm_space = count\<rparr> # m # ms"]) (simp add: meta_range_def)
  next
    case 2
    then obtain ms' where "meta_ok (Suc (cm_slot m + cm_space m)) ms'" "length ms' = Suc (length ms)"
      "meta_set ms' = {slot..<slot + count} \<union> meta_set ms"
      using Cons.IH [of "Suc (cm_slot m + cm_space m)"] Cons.prems gap by auto
    then show ?thesis using Cons.prems by (intro exI [of _ "m # ms'"]) auto
  qed
qed

text \<open>Hence the capacity that the list has by its number of slots is enough.\<close>

lemma meta_room:
  assumes "meta_ok 0 ms" "meta_below n ms" "0 < count" "slot + count \<le> n" "\<not> meta_adjacent slot count ms"
    "{slot..<slot + count} \<inter> meta_set ms = {}" "(n + 1) div 2 \<le> free + length ms"
  shows "0 < free"
proof -
  obtain ms' where ms': "meta_ok 0 ms'" "length ms' = Suc (length ms)" "meta_set ms' = {slot..<slot + count} \<union> meta_set ms"
    using meta_ok_insert [OF assms(1) le0 assms(3,5,6)] by blast
  then have "meta_below n ms'" using assms(2,4) meta_below_iff [OF ms'(1)] meta_below_set by auto
  then have "2 * Suc (length ms) \<le> n + 1" using meta_ok_length [OF ms'(1)] ms'(2) by (metis add_0 length_0_conv nat.distinct(1))
  then have "Suc (length ms) \<le> (n + 1) div 2" by simp
  then show ?thesis using assms(7) by linarith
qed

section \<open>The nodes of a list and their slab\<close>

text \<open>The nodes of the list are blocks of the slab, here for a part of the list.\<close>

definition nodes_ok :: "slab_allocator \<Rightarrow> cnode_meta list \<Rightarrow> bool" where
  "nodes_ok sl ms \<longleftrightarrow> slab_inv sl \<and> distinct (map cm_addr ms) \<and> cm_addr ` set ms \<subseteq> slab_used sl"

text \<open>A change of a part of the list: what the rest of the list needs to know of it.\<close>

definition nodes_step :: "slab_allocator \<Rightarrow> cnode_meta list \<Rightarrow> slab_allocator \<Rightarrow> cnode_meta list \<Rightarrow> bool" where
  "nodes_step sl ms sl' ms' \<longleftrightarrow> nodes_ok sl' ms' \<and> slab_used sl - cm_addr ` set ms \<subseteq> slab_used sl' \<and>
     cm_addr ` set ms' \<inter> slab_used sl \<subseteq> cm_addr ` set ms \<and>
     slab_freecount sl' + length ms' = slab_freecount sl + length ms"

lemma nodes_step_Cons:
  assumes "nodes_step sl ms sl' ms'" "nodes_ok sl (m # ms)"
  shows "nodes_step sl (m # ms) sl' (m # ms')"
  using assms by (auto simp: nodes_step_def nodes_ok_def)

lemma nodes_step_same: "nodes_ok sl ms \<Longrightarrow> map cm_addr ms' = map cm_addr ms \<Longrightarrow> nodes_step sl ms sl ms'"
proof -
  assume a: "nodes_ok sl ms" "map cm_addr ms' = map cm_addr ms"
  then have "cm_addr ` set ms' = cm_addr ` set ms" "length ms' = length ms"
    by (metis image_set) (metis a(2) length_map)
  then show ?thesis using a by (simp add: nodes_step_def nodes_ok_def)
qed

lemma nodes_step_drop:
  assumes "nodes_ok sl (m # ms)"
  shows "\<exists>sl'. slab_free sl (cm_addr m) = Ok sl' \<and> nodes_step sl (m # ms) sl' ms"
proof -
  obtain sl' where "slab_free sl (cm_addr m) = Ok sl'" "slab_inv sl'" "slab_used sl' = slab_used sl - {cm_addr m}"
    "slab_freecount sl' = Suc (slab_freecount sl)"
    using slab_pool.release_ok [of sl "cm_addr m"] assms by (auto simp: nodes_ok_def)
  then show ?thesis using assms by (auto simp: nodes_step_def nodes_ok_def) (metis image_eqI)
qed

lemma nodes_step_addr:
  assumes "nodes_step sl ms sl' ms'" "map cm_addr ms'' = map cm_addr ms'"
  shows "nodes_step sl ms sl' ms''"
proof -
  have "cm_addr ` set ms'' = cm_addr ` set ms'" "length ms'' = length ms'"
    using assms(2) by (metis image_set) (metis assms(2) length_map)
  then show ?thesis using assms by (simp add: nodes_step_def nodes_ok_def)
qed

lemma new_meta_ok:
  assumes "nodes_ok sl ms" "0 < slab_freecount sl"
  shows "\<exists>m sl'. new_meta sl slot space = Ok (Some m, sl') \<and> cm_slot m = slot \<and> cm_space m = space \<and>
    nodes_step sl ms sl' (m # ms)"
proof -
  obtain a sl' where "slab_alloc None sl = Ok (Some a, sl')" "a \<notin> slab_used sl" "slab_inv sl'"
    "slab_used sl' = insert a (slab_used sl)" "Suc (slab_freecount sl') = slab_freecount sl"
    using slab_alloc_ok [of sl None] assms by (auto simp: nodes_ok_def)
  then show ?thesis using assms by (auto simp: new_meta_def nodes_step_def nodes_ok_def)
qed

end
