(* ===== verification/Slot_Single.thy ===== *)
theory Slot_Single
  imports Slot_Meta
begin

text \<open>
  The slot allocator for one cnode, \<^verbatim>\<open>lib/aos/slot_alloc/single_slot_alloc.c\<close>: a sorted list of
  ranges of free slots, backed by a slab allocator. Its mutex makes each operation one step.
\<close>

section \<open>The code\<close>

record single_slot_allocator =
  sca_space :: nat
  sca_nslots :: nat
  sca_cap :: capref
  sca_cnode :: cnoderef
  sca_head :: "cnode_meta list"
  sca_slab :: slab_allocator

definition salloc :: "single_slot_allocator \<Rightarrow> (capref \<times> single_slot_allocator) outcome" where
  "salloc sca =
     (if sca_space sca = 0 then Err LIB_ERR_SLOT_ALLOC_NO_SPACE
      else case sca_head sca of
             [] \<Rightarrow> Abort
           | m # ms \<Rightarrow>
               let ret = \<lparr>cap_cnode = sca_cnode sca, cap_slot = cm_slot m\<rparr>;
                   m = m\<lparr>cm_space := cm_space m - 1, cm_slot := cm_slot m + 1\<rparr>;
                   sca = sca\<lparr>sca_space := sca_space sca - 1\<rparr>
               in if cm_space m = 0
                  then bind_outcome (slab_free (sca_slab sca) (cm_addr m))
                    (\<lambda>slab. Ok (ret, sca\<lparr>sca_head := ms, sca_slab := slab\<rparr>))
                  else Ok (ret, sca\<lparr>sca_head := m # ms\<rparr>))"

text \<open>A new range that the code fills in without a test for the null pointer.\<close>

definition meta_get :: "slab_allocator \<Rightarrow> nat \<Rightarrow> nat \<Rightarrow> (cnode_meta \<times> slab_allocator) outcome" where
  "meta_get sl slot space =
     bind_outcome (slab_get None sl) (\<lambda>(a, sl). Ok (\<lparr>cm_addr = a, cm_slot = slot, cm_space = space\<rparr>, sl))"

fun free_walk :: "slab_allocator \<Rightarrow> nat \<Rightarrow> nat \<Rightarrow> cnode_meta list \<Rightarrow> (cnode_meta list \<times> slab_allocator) outcome" where
  "free_walk sl slot count [] = Abort"
| "free_walk sl slot count (walk # rest) =
     (if slot = cm_slot walk + cm_space walk then
        let walk = walk\<lparr>cm_space := cm_space walk + count\<rparr>
        in case rest of
             nxt # rest' \<Rightarrow>
               if cm_slot nxt = cm_slot walk + cm_space walk
               then bind_outcome (slab_free sl (cm_addr nxt))
                 (\<lambda>sl. Ok (walk\<lparr>cm_space := cm_space walk + cm_space nxt\<rparr> # rest', sl))
               else Ok (walk # rest, sl)
           | [] \<Rightarrow> Ok ([walk], sl)
      else if slot < cm_slot walk + cm_space walk then Err LIB_ERR_SLOT_UNALLOCATED
      else case rest of
             nxt # rest' \<Rightarrow>
               if slot + count = cm_slot nxt
               then Ok (walk # nxt\<lparr>cm_slot := slot, cm_space := cm_space nxt + count\<rparr> # rest', sl)
               else if slot < cm_slot nxt
               then bind_outcome (meta_get sl slot count) (\<lambda>(m, sl). Ok (walk # m # rest, sl))
               else bind_outcome (free_walk sl slot count rest) (\<lambda>(ms, sl). Ok (walk # ms, sl))
           | [] \<Rightarrow> bind_outcome (meta_get sl slot count) (\<lambda>(m, sl). Ok ([walk, m], sl)))"

definition free_slots :: "single_slot_allocator \<Rightarrow> nat \<Rightarrow> nat \<Rightarrow> single_slot_allocator outcome" where
  "free_slots sca slot count =
     bind_outcome
       (case sca_head sca of
          [] \<Rightarrow> bind_outcome (meta_get (sca_slab sca) slot count) (\<lambda>(m, sl). Ok ([m], sl))
        | h # rest \<Rightarrow>
            if slot + count = cm_slot h
            then Ok (h\<lparr>cm_slot := slot, cm_space := cm_space h + count\<rparr> # rest, sca_slab sca)
            else if slot < cm_slot h
            then bind_outcome (meta_get (sca_slab sca) slot count) (\<lambda>(m, sl). Ok (m # h # rest, sl))
            else free_walk (sca_slab sca) slot count (h # rest))
       (\<lambda>(ms, sl). Ok (sca\<lparr>sca_head := ms, sca_slab := sl, sca_space := sca_space sca + count\<rparr>))"

definition sfree :: "single_slot_allocator \<Rightarrow> capref \<Rightarrow> single_slot_allocator outcome" where
  "sfree sca cap =
     (if \<not> cnodecmp (cap_cnode cap) (sca_cnode sca) then Err LIB_ERR_SLOT_ALLOC_WRONG_CNODE
      else free_slots sca (cap_slot cap) 1)"

definition single_slot_alloc_freecount :: "single_slot_allocator \<Rightarrow> nat" where
  "single_slot_alloc_freecount sca = foldl (\<lambda>freecount m. freecount + cm_space m) 0 (sca_head sca)"

definition SINGLE_SLOT_ALLOC_BUFLEN :: "nat \<Rightarrow> nat" where
  "SINGLE_SLOT_ALLOC_BUFLEN nslots = nslots div 2 * SLAB_REAL_BLOCKSIZE CNODE_META_SIZE + SLAB_HEAD_SIZE"

text \<open>
  \<open>get_buffer n\<close> stands for allocating a frame of \<open>n\<close> bytes and mapping it; a failure
  makes the code panic.
\<close>

definition single_slot_alloc_resize ::
    "(nat \<Rightarrow> nat outcome) \<Rightarrow> single_slot_allocator \<Rightarrow> nat \<Rightarrow> single_slot_allocator outcome" where
  "single_slot_alloc_resize get_buffer sca newslotcount =
     (let grow = newslotcount - sca_nslots sca;
          bufgrow = SINGLE_SLOT_ALLOC_BUFLEN grow
      in bind_outcome
           (if slab_freecount (sca_slab sca) < bufgrow
            then case get_buffer bufgrow of
                   Ok buf \<Rightarrow> bind_outcome (slab_grow (sca_slab sca) buf bufgrow) (\<lambda>sl. Ok (sca\<lparr>sca_slab := sl\<rparr>))
                 | _ \<Rightarrow> Abort
            else Ok sca)
           (\<lambda>sca. bind_outcome (free_slots sca (sca_nslots sca) grow)
             (\<lambda>sca. Ok (sca\<lparr>sca_nslots := newslotcount\<rparr>))))"

definition single_slot_alloc_init_raw ::
    "capref \<Rightarrow> cnoderef \<Rightarrow> nat \<Rightarrow> nat \<Rightarrow> nat \<Rightarrow> single_slot_allocator outcome" where
  "single_slot_alloc_init_raw cap cnode nslots buf buflen =
     (let slab = slab_init CNODE_META_SIZE
      in bind_outcome (if 0 < buflen then slab_grow slab buf buflen else Ok slab)
           (\<lambda>slab. bind_outcome (meta_get slab 0 nslots)
             (\<lambda>(m, slab). Ok \<lparr>sca_space = nslots, sca_nslots = nslots, sca_cap = cap, sca_cnode = cnode,
                sca_head = [m], sca_slab = slab\<rparr>)))"

text \<open>\<open>cnode_create\<close> returns the new cnode and the number of its slots; \<open>malloc\<close> returns 0 on failure.\<close>

definition single_slot_alloc_init ::
    "(nat \<Rightarrow> (capref \<times> cnoderef \<times> nat) outcome) \<Rightarrow> (nat \<Rightarrow> nat) \<Rightarrow> nat \<Rightarrow> (single_slot_allocator \<times> nat) outcome" where
  "single_slot_alloc_init cnode_create malloc nslots =
     (case cnode_create nslots of
        Ok (cap, cnode, nslots) \<Rightarrow>
          let buflen = SINGLE_SLOT_ALLOC_BUFLEN nslots;
              buf = malloc buflen
          in if buf = 0 then Err LIB_ERR_MALLOC_FAIL
             else (case single_slot_alloc_init_raw cap cnode nslots buf buflen of
                     Ok ret \<Rightarrow> Ok (ret, nslots)
                   | Err _ \<Rightarrow> Err LIB_ERR_SINGLE_SLOT_ALLOC_INIT_RAW
                   | Abort \<Rightarrow> Abort)
      | Err _ \<Rightarrow> Err LIB_ERR_CNODE_CREATE
      | Abort \<Rightarrow> Abort)"

section \<open>The invariant\<close>

definition single_inv :: "single_slot_allocator \<Rightarrow> bool" where
  "single_inv sca \<longleftrightarrow> meta_ok 0 (sca_head sca) \<and> meta_below (sca_nslots sca) (sca_head sca) \<and>
     nodes_ok (sca_slab sca) (sca_head sca) \<and>
     (sca_nslots sca + 1) div 2 \<le> slab_freecount (sca_slab sca) + length (sca_head sca) \<and>
     sca_space sca = card (meta_set (sca_head sca))"

lemma meta_get_ok:
  assumes "nodes_ok sl ms" "0 < slab_freecount sl"
  shows "\<exists>m sl'. meta_get sl slot count = Ok (m, sl') \<and> cm_slot m = slot \<and> cm_space m = count \<and>
    nodes_step sl ms sl' (m # ms)"
proof -
  obtain a sl' where "slab_get None sl = Ok (a, sl')" "a \<notin> slab_used sl" "slab_inv sl'"
    "slab_used sl' = insert a (slab_used sl)" "Suc (slab_freecount sl') = slab_freecount sl"
    using slab_pool.alloc_ok [of sl None] assms by (auto simp: nodes_ok_def)
  then show ?thesis using assms by (auto simp: meta_get_def nodes_step_def nodes_ok_def)
qed

section \<open>Returning slots\<close>

text \<open>
  The walk joins or inserts the range, given that it is not free and that there is a node
  for it or that it touches a free range. First the four ways in which the walk can end
  before a further range, then the walk.
\<close>

definition walk_ok :: "slab_allocator \<Rightarrow> nat \<Rightarrow> nat \<Rightarrow> nat \<Rightarrow> cnode_meta list \<Rightarrow> bool" where
  "walk_ok sl lo slot count ms \<longleftrightarrow>
     (\<exists>ms' sl'. free_walk sl slot count ms = Ok (ms', sl') \<and> nodes_step sl ms sl' ms' \<and> meta_ok lo ms' \<and>
        meta_set ms' = {slot..<slot + count} \<union> meta_set ms)"

lemma walk_okI:
  "free_walk sl slot count ms = Ok (ms', sl') \<Longrightarrow> nodes_step sl ms sl' ms' \<Longrightarrow> meta_ok lo ms' \<Longrightarrow>
     meta_set ms' = {slot..<slot + count} \<union> meta_set ms \<Longrightarrow> walk_ok sl lo slot count ms"
  unfolding walk_ok_def by blast

lemma walk_edge_join:
  assumes "nodes_ok sl (w # n # rest)" "meta_ok lo (w # n # rest)" "slot = cm_slot w + cm_space w" "cm_slot n = slot + count"
  shows "walk_ok sl lo slot count (w # n # rest)"
proof -
  let ?w = "w\<lparr>cm_space := cm_space w + count + cm_space n\<rparr>"
  have "nodes_ok sl (n # rest)" using assms(1) by (simp add: nodes_ok_def)
  then obtain sl' where sl': "slab_free sl (cm_addr n) = Ok sl'" "nodes_step sl (n # rest) sl' rest"
    using nodes_step_drop by blast
  show ?thesis
  proof (rule walk_okI)
    show "free_walk sl slot count (w # n # rest) = Ok (?w # rest, sl')"
      using sl'(1) assms(3,4) by (simp add: add.assoc)
    show "nodes_step sl (w # n # rest) sl' (?w # rest)"
      using nodes_step_addr [OF nodes_step_Cons [OF sl'(2) assms(1)], of "?w # rest"] by simp
    show "meta_ok lo (?w # rest)" using assms(2-4) by (simp add: add.assoc)
    show "meta_set (?w # rest) = {slot..<slot + count} \<union> meta_set (w # n # rest)"
      using assms(3,4) by (auto simp: meta_range_def)
  qed
qed

lemma walk_edge:
  assumes "nodes_ok sl (w # rest)" "meta_ok lo (w # rest)" "slot = cm_slot w + cm_space w"
    "rest = [] \<or> slot + count < cm_slot (hd rest)"
  shows "walk_ok sl lo slot count (w # rest)"
proof (rule walk_okI)
  let ?w = "w\<lparr>cm_space := cm_space w + count\<rparr>"
  show "free_walk sl slot count (w # rest) = Ok (?w # rest, sl)"
    using assms(3,4) by (cases rest) (auto simp: add.assoc)
  show "nodes_step sl (w # rest) sl (?w # rest)" using nodes_step_same [OF assms(1)] by simp
  show "meta_ok lo (?w # rest)" using assms(2-4) by (cases rest) (auto simp: add.assoc)
  show "meta_set (?w # rest) = {slot..<slot + count} \<union> meta_set (w # rest)"
    using assms(3) by (auto simp: meta_range_def)
qed

lemma walk_join:
  assumes "nodes_ok sl (w # n # rest)" "meta_ok lo (w # n # rest)" "cm_slot w + cm_space w < slot" "cm_slot n = slot + count"
  shows "walk_ok sl lo slot count (w # n # rest)"
proof (rule walk_okI)
  let ?n = "n\<lparr>cm_slot := slot, cm_space := cm_space n + count\<rparr>"
  show "free_walk sl slot count (w # n # rest) = Ok (w # ?n # rest, sl)" using assms(3,4) by simp
  show "nodes_step sl (w # n # rest) sl (w # ?n # rest)" using nodes_step_same [OF assms(1)] by simp
  have e: "Suc (slot + (cm_space n + count)) = Suc (cm_slot n + cm_space n)" using assms(4) by simp
  have "meta_ok (Suc (slot + (cm_space n + count))) rest" unfolding e using assms(2) by simp
  then show "meta_ok lo (w # ?n # rest)" using assms(2,3) by simp
  show "meta_set (w # ?n # rest) = {slot..<slot + count} \<union> meta_set (w # n # rest)"
    using assms(4) by (auto simp: meta_range_def)
qed

lemma walk_new:
  assumes "nodes_ok sl (w # rest)" "meta_ok lo (w # rest)" "cm_slot w + cm_space w < slot" "0 < count"
    "rest = [] \<or> slot + count < cm_slot (hd rest)" "0 < slab_freecount sl"
  shows "walk_ok sl lo slot count (w # rest)"
proof -
  have "nodes_ok sl rest" using assms(1) by (simp add: nodes_ok_def)
  then obtain m sl' where m: "meta_get sl slot count = Ok (m, sl')" "cm_slot m = slot" "cm_space m = count"
    "nodes_step sl rest sl' (m # rest)"
    using meta_get_ok [of sl rest slot count] assms(6) by auto
  show ?thesis
  proof (rule walk_okI)
    show "free_walk sl slot count (w # rest) = Ok (w # m # rest, sl')"
      using m(1) assms(3,5) by (cases rest) auto
    show "nodes_step sl (w # rest) sl' (w # m # rest)" using m(4) assms(1) by (rule nodes_step_Cons)
    show "meta_ok lo (w # m # rest)" using m(2,3) assms(2-5) by (cases rest) auto
    show "meta_set (w # m # rest) = {slot..<slot + count} \<union> meta_set (w # rest)"
      using m(2,3) by (auto simp: meta_range_def)
  qed
qed

lemma walk_on:
  assumes "nodes_ok sl (w # rest)" "meta_ok lo (w # rest)" "cm_slot w + cm_space w < slot" "rest = n # rest'"
    "cm_slot n \<le> slot" "0 < count" "walk_ok sl (Suc (cm_slot w + cm_space w)) slot count rest"
  shows "walk_ok sl lo slot count (w # rest)"
proof -
  obtain ms' sl' where r: "free_walk sl slot count rest = Ok (ms', sl')" "nodes_step sl rest sl' ms'"
    "meta_ok (Suc (cm_slot w + cm_space w)) ms'" "meta_set ms' = {slot..<slot + count} \<union> meta_set rest"
    using assms(7) unfolding walk_ok_def by blast
  have "free_walk sl slot count (w # rest) = Ok (w # ms', sl')" using r(1) assms(3-6) by simp
  moreover have "meta_ok lo (w # ms')" using r(3) assms(2) by simp
  moreover have "meta_set (w # ms') = {slot..<slot + count} \<union> meta_set (w # rest)" using r(4) by auto
  ultimately show ?thesis using nodes_step_Cons [OF r(2) assms(1)] by (intro walk_okI)
qed

lemma not_adjacent_between:
  assumes "meta_ok lo (w # rest)" "cm_slot w + cm_space w < slot" "rest = [] \<or> slot + count < cm_slot (hd rest)" "0 < count"
  shows "\<not> meta_adjacent slot count (w # rest)"
proof -
  have "slot + count < cm_slot m" if "m \<in> set rest" for m
  proof (cases rest)
    case (Cons n rest')
    have "cm_slot n \<le> cm_slot m"
      using that assms(1) Cons meta_ok_slot [of "Suc (cm_slot n + cm_space n)" rest' m] by auto
    then show ?thesis using assms(3) Cons by simp
  qed (use that in simp)
  then have "\<not> (slot = cm_slot m + cm_space m \<or> slot + count = cm_slot m)" if "m \<in> set (w # rest)" for m
    using that assms(2) by fastforce
  then show ?thesis unfolding meta_adjacent_def list_ex_iff by blast
qed

lemma free_walk_ok:
  assumes "nodes_ok sl ms" "meta_ok lo ms" "ms \<noteq> []" "cm_slot (hd ms) \<le> slot" "0 < count"
    "{slot..<slot + count} \<inter> meta_set ms = {}" "meta_adjacent slot count ms \<or> 0 < slab_freecount sl"
  shows "walk_ok sl lo slot count ms"
  using assms
proof (induction ms arbitrary: lo)
  case (Cons w rest)
  let ?stop = "cm_slot w + cm_space w"
  have disj: "slot + count \<le> cm_slot m \<or> cm_slot m + cm_space m \<le> slot" if "m \<in> set (w # rest)" "0 < cm_space m" for m
  proof -
    have "{slot..<slot + count} \<inter> meta_range m = {}" using that(1) Cons.prems(6) by (auto simp: meta_set_def)
    then show ?thesis
      using that(2) Cons.prems(5) ivl_disj_cases [of slot count "cm_slot m" "cm_space m"] by (simp add: meta_range_def)
  qed
  have w: "?stop \<le> slot" using disj [of w] Cons.prems by auto
  consider (edge) "slot = ?stop" "rest = [] \<or> slot + count < cm_slot (hd rest)"
    | (edge_join) n rest' where "slot = ?stop" "rest = n # rest'" "cm_slot n = slot + count"
    | (join) n rest' where "?stop < slot" "rest = n # rest'" "cm_slot n = slot + count"
    | (new) "?stop < slot" "rest = [] \<or> slot + count < cm_slot (hd rest)"
    | (on) n rest' where "?stop < slot" "rest = n # rest'" "cm_slot n + cm_space n \<le> slot"
  proof (cases rest)
    case (Cons n rest')
    then have "slot + count < cm_slot n \<or> cm_slot n = slot + count \<or> cm_slot n + cm_space n \<le> slot" "?stop < cm_slot n"
      using disj [of n] Cons.prems(2) by auto
    moreover have "slot = ?stop \<or> ?stop < slot" using w by linarith
    moreover have "hd rest = n" using Cons by simp
    ultimately show thesis using that(1) that(2) [OF _ Cons] that(3) [OF _ Cons] that(4) that(5) [OF _ Cons]
      by (metis add_leD1 linorder_not_less)
  qed (use w that le_neq_implies_less in blast)
  then show ?case
  proof cases
    case new
    then have "0 < slab_freecount sl"
      using Cons.prems(5,7) not_adjacent_between [OF Cons.prems(2)] by blast
    then show ?thesis using new Cons.prems by (intro walk_new)
  next
    case on
    have "meta_adjacent slot count rest \<or> 0 < slab_freecount sl"
      using Cons.prems(4,5,7) on(1) by (auto simp: meta_adjacent_def)
    moreover have "nodes_ok sl rest" using Cons.prems(1) by (simp add: nodes_ok_def)
    ultimately have "walk_ok sl (Suc ?stop) slot count rest"
      using Cons.IH [of "Suc ?stop"] Cons.prems on by auto
    then show ?thesis using on Cons.prems by (intro walk_on) auto
  qed (use Cons.prems walk_edge walk_edge_join walk_join in auto)
qed simp

text \<open>A free slot is not freed again.\<close>

lemma free_walk_unallocated:
  "meta_ok lo ms \<Longrightarrow> slot \<in> meta_set ms \<Longrightarrow> 0 < count \<Longrightarrow> free_walk sl slot count ms = Err LIB_ERR_SLOT_UNALLOCATED"
proof (induction ms arbitrary: lo)
  case (Cons w rest)
  show ?case
  proof (cases "slot \<in> meta_range w")
    case True
    then show ?thesis by (simp add: meta_range_def)
  next
    case False
    then have r: "slot \<in> meta_set rest" "meta_ok (Suc (cm_slot w + cm_space w)) rest" using Cons.prems by auto
    then have "cm_slot w + cm_space w < slot" using meta_ok_above by fastforce
    moreover obtain n rest' where n: "rest = n # rest'" using r(1) by (cases rest) auto
    moreover have "cm_slot n \<le> slot"
      using r n meta_ok_above [of "cm_slot n" rest slot] by auto
    moreover have "free_walk sl slot count rest = Err LIB_ERR_SLOT_UNALLOCATED"
      using Cons.IH [OF r(2,1)] Cons.prems(3) by simp
    ultimately show ?thesis using Cons.prems(3) by simp
  qed
qed simp

definition slots_ok :: "nat \<Rightarrow> cnode_meta list \<Rightarrow> slab_allocator \<Rightarrow> bool" where
  "slots_ok n ms sl \<longleftrightarrow> meta_ok 0 ms \<and> meta_below n ms \<and> nodes_ok sl ms \<and> (n + 1) div 2 \<le> slab_freecount sl + length ms"

lemma single_inv_slots:
  "single_inv sca \<longleftrightarrow> slots_ok (sca_nslots sca) (sca_head sca) (sca_slab sca) \<and> sca_space sca = card (meta_set (sca_head sca))"
  by (auto simp: single_inv_def slots_ok_def)

lemma slots_ok_step:
  assumes "slots_ok n ms sl" "nodes_step sl ms sl' ms'" "meta_ok 0 ms'" "meta_set ms' = {slot..<slot + count} \<union> meta_set ms"
    "slot + count \<le> n"
  shows "slots_ok n ms' sl'"
proof -
  have "meta_below n ms'"
    using assms meta_below_iff [OF assms(3)] meta_below_set [of n ms] by (auto simp: slots_ok_def)
  then show ?thesis using assms by (auto simp: slots_ok_def nodes_step_def)
qed

lemma not_adjacent_before:
  assumes "meta_ok lo (h # rest)" "slot + count < cm_slot h"
  shows "\<not> meta_adjacent slot count (h # rest)"
proof -
  have "slot + count < cm_slot m" if "m \<in> set (h # rest)" for m
    using that assms meta_ok_slot [of "Suc (cm_slot h + cm_space h)" rest m] by auto
  then have "\<not> (slot = cm_slot m + cm_space m \<or> slot + count = cm_slot m)" if "m \<in> set (h # rest)" for m
    using that by fastforce
  then show ?thesis unfolding meta_adjacent_def list_ex_iff by blast
qed

text \<open>Joining with the first range.\<close>

lemma free_slots_head_join:
  assumes "sca_head sca = h # rest" "slot + count = cm_slot h" "nodes_ok (sca_slab sca) (h # rest)" "meta_ok 0 (h # rest)"
  defines "h' \<equiv> h\<lparr>cm_slot := slot, cm_space := cm_space h + count\<rparr>"
  shows "free_slots sca slot count =
      Ok (sca\<lparr>sca_head := h' # rest, sca_slab := sca_slab sca, sca_space := sca_space sca + count\<rparr>)"
    and "nodes_step (sca_slab sca) (h # rest) (sca_slab sca) (h' # rest)"
    and "meta_ok 0 (h' # rest)" and "meta_set (h' # rest) = {slot..<slot + count} \<union> meta_set (h # rest)"
proof -
  show "free_slots sca slot count =
      Ok (sca\<lparr>sca_head := h' # rest, sca_slab := sca_slab sca, sca_space := sca_space sca + count\<rparr>)"
    using assms(1,2) by (simp add: free_slots_def h'_def)
  show "nodes_step (sca_slab sca) (h # rest) (sca_slab sca) (h' # rest)"
    using nodes_step_same [OF assms(3)] by (simp add: h'_def)
  have e: "Suc (slot + (cm_space h + count)) = Suc (cm_slot h + cm_space h)" using assms(2) by simp
  have "meta_ok (Suc (slot + (cm_space h + count))) rest" unfolding e using assms(4) by simp
  then show "meta_ok 0 (h' # rest)" using assms(4) by (simp add: h'_def)
  show "meta_set (h' # rest) = {slot..<slot + count} \<union> meta_set (h # rest)"
    using assms(2) by (auto simp: meta_range_def h'_def)
qed

lemma free_slots_ok:
  assumes "slots_ok n (sca_head sca) (sca_slab sca)" "0 < count" "slot + count \<le> n"
    "{slot..<slot + count} \<inter> meta_set (sca_head sca) = {}"
  shows "\<exists>ms sl. free_slots sca slot count =
      Ok (sca\<lparr>sca_head := ms, sca_slab := sl, sca_space := sca_space sca + count\<rparr>) \<and>
    slots_ok n ms sl \<and> meta_set ms = {slot..<slot + count} \<union> meta_set (sca_head sca)"
proof -
  let ?sl = "sca_slab sca"
  have ok: "meta_ok 0 (sca_head sca)" "nodes_ok ?sl (sca_head sca)" using assms(1) by (simp_all add: slots_ok_def)
  have room: "meta_adjacent slot count (sca_head sca) \<or> 0 < slab_freecount ?sl"
    using assms meta_room [of "sca_head sca" n count slot "slab_freecount ?sl"] by (auto simp: slots_ok_def)
  have fin: ?thesis
    if "free_slots sca slot count = Ok (sca\<lparr>sca_head := ms, sca_slab := sl, sca_space := sca_space sca + count\<rparr>)"
      "nodes_step ?sl (sca_head sca) sl ms" "meta_ok 0 ms" "meta_set ms = {slot..<slot + count} \<union> meta_set (sca_head sca)"
    for ms sl using that slots_ok_step [OF assms(1) that(2,3,4) assms(3)] by blast
  have first: ?thesis
    if before: "sca_head sca = [] \<or> slot + count < cm_slot (hd (sca_head sca))"
      and apart: "\<not> meta_adjacent slot count (sca_head sca)"
  proof -
    obtain m sl where m: "meta_get ?sl slot count = Ok (m, sl)" "cm_slot m = slot" "cm_space m = count"
      "nodes_step ?sl (sca_head sca) sl (m # sca_head sca)"
      using meta_get_ok [OF ok(2)] room apart by blast
    show ?thesis
    proof (rule fin [OF _ m(4)])
      show "free_slots sca slot count =
          Ok (sca\<lparr>sca_head := m # sca_head sca, sca_slab := sl, sca_space := sca_space sca + count\<rparr>)"
        using m(1) before by (cases "sca_head sca") (auto simp: free_slots_def)
      show "meta_ok 0 (m # sca_head sca)" using m ok(1) before assms(2) by (cases "sca_head sca") auto
    qed (use m in \<open>simp add: meta_range_def\<close>)
  qed
  show ?thesis
  proof (cases "sca_head sca")
    case Nil
    then show ?thesis using first by (simp add: meta_adjacent_def)
  next
    case (Cons h rest)
    have "{slot..<slot + count} \<inter> meta_range h = {}" "0 < cm_space h" using assms(4) ok(1) Cons by auto
    then have "slot + count \<le> cm_slot h \<or> cm_slot h + cm_space h \<le> slot"
      using assms(2) ivl_disj_cases [of slot count "cm_slot h" "cm_space h"] by (simp add: meta_range_def)
    then consider "slot + count = cm_slot h" | "slot + count < cm_slot h" | "cm_slot h \<le> slot" by linarith
    then show ?thesis
    proof cases
      case 1
      note j = free_slots_head_join [OF Cons 1 ok(2,1) [unfolded Cons]]
      show ?thesis by (rule fin [OF j(1)]) (simp_all only: j Cons)
    next
      case 2
      then show ?thesis using first Cons ok(1) not_adjacent_before [of 0 h rest slot count] by simp
    next
      case 3
      then obtain ms sl where "free_walk ?sl slot count (h # rest) = Ok (ms, sl)" "nodes_step ?sl (h # rest) sl ms"
        "meta_ok 0 ms" "meta_set ms = {slot..<slot + count} \<union> meta_set (h # rest)"
        using free_walk_ok [of ?sl "h # rest" 0 slot count] Cons ok assms(2,4) room by (auto simp: walk_ok_def)
      then show ?thesis using fin Cons 3 assms(2) by (simp add: free_slots_def)
    qed
  qed
qed

section \<open>The operations\<close>

definition free_caps :: "single_slot_allocator \<Rightarrow> capref set" where
  "free_caps sca = (\<lambda>slot. \<lparr>cap_cnode = sca_cnode sca, cap_slot = slot\<rparr>) ` meta_set (sca_head sca)"

definition all_caps :: "single_slot_allocator \<Rightarrow> capref set" where
  "all_caps sca = (\<lambda>slot. \<lparr>cap_cnode = sca_cnode sca, cap_slot = slot\<rparr>) ` {0..<sca_nslots sca}"

lemma free_caps_iff: "c \<in> free_caps sca \<longleftrightarrow> cap_cnode c = sca_cnode sca \<and> cap_slot c \<in> meta_set (sca_head sca)"
  by (cases c) (auto simp: free_caps_def)

lemma all_caps_iff: "c \<in> all_caps sca \<longleftrightarrow> cap_cnode c = sca_cnode sca \<and> cap_slot c < sca_nslots sca"
  by (cases c) (auto simp: all_caps_def)

lemma free_caps_sub: "single_inv sca \<Longrightarrow> free_caps sca \<subseteq> all_caps sca"
  using meta_below_set by (auto simp: single_inv_def free_caps_iff all_caps_iff)

text \<open>Taking the first slot of a range.\<close>

lemma meta_take_first:
  assumes "meta_ok 0 (m # ms)" "m' = m\<lparr>cm_space := cm_space m - 1, cm_slot := cm_slot m + 1\<rparr>"
  shows "meta_set (if cm_space m' = 0 then ms else m' # ms) = meta_set (m # ms) - {cm_slot m}"
    and "meta_ok 0 (if cm_space m' = 0 then ms else m' # ms)"
    and "cm_slot m \<in> meta_set (m # ms)" and "\<forall>x \<in> meta_set (m # ms). cm_slot m \<le> x"
proof -
  have above: "cm_slot m + cm_space m < x" if "x \<in> meta_set ms" for x
    using that assms(1) meta_ok_above [of "Suc (cm_slot m + cm_space m)" ms x] by simp
  have pos: "0 < cm_space m" using assms(1) by simp
  show "meta_set (if cm_space m' = 0 then ms else m' # ms) = meta_set (m # ms) - {cm_slot m}"
    using pos assms(2) by (auto simp: meta_range_def dest: above)
  show "meta_ok 0 (if cm_space m' = 0 then ms else m' # ms)"
    using assms meta_ok_mono by auto
  show "cm_slot m \<in> meta_set (m # ms)" "\<forall>x \<in> meta_set (m # ms). cm_slot m \<le> x"
    using pos by (auto simp: meta_range_def dest: above)
qed

lemma slots_ok_take:
  assumes "slots_ok n (m # ms) sl" "m' = m\<lparr>cm_space := cm_space m - 1, cm_slot := cm_slot m + 1\<rparr>"
    "ms' = (if cm_space m' = 0 then ms else m' # ms)"
  shows "\<exists>sl'. (if cm_space m' = 0 then slab_free sl (cm_addr m) = Ok sl' else sl' = sl) \<and> slots_ok n ms' sl'"
proof -
  have ok: "nodes_ok sl (m # ms)" "meta_ok 0 (m # ms)" "meta_below n (m # ms)" using assms(1) by (simp_all add: slots_ok_def)
  have m': "meta_ok 0 ms'" "meta_below n ms'"
    using meta_take_first(1,2) [OF ok(2) assms(2)] meta_below_iff [of 0 ms' n] meta_below_set [OF ok(3)] assms(3) by auto
  show ?thesis
  proof (cases "cm_space m' = 0")
    case True
    obtain sl' where "slab_free sl (cm_addr m) = Ok sl'" "nodes_step sl (m # ms) sl' ms"
      using nodes_step_drop [OF ok(1)] by blast
    then show ?thesis using True m' assms(1,3) by (auto simp: slots_ok_def nodes_step_def)
  next
    case False
    have "nodes_step sl (m # ms) sl (m' # ms)" using nodes_step_same [OF ok(1)] assms(2) by simp
    then show ?thesis using False m' assms(1,3) by (auto simp: slots_ok_def nodes_step_def)
  qed
qed

text \<open>An allocation returns the lowest free slot, or reports that none is left.\<close>

lemma salloc_ok:
  assumes "single_inv sca"
  shows "if free_caps sca = {} then salloc sca = Err LIB_ERR_SLOT_ALLOC_NO_SPACE
    else (\<exists>c sca'. salloc sca = Ok (c, sca') \<and> c \<in> free_caps sca \<and> (\<forall>d \<in> free_caps sca. cap_slot c \<le> cap_slot d) \<and>
      single_inv sca' \<and> free_caps sca' = free_caps sca - {c} \<and> all_caps sca' = all_caps sca \<and>
      Suc (sca_space sca') = sca_space sca)"
proof (cases "sca_head sca")
  case Nil
  then show ?thesis using assms by (simp add: free_caps_def salloc_def single_inv_def)
next
  case (Cons m ms)
  let ?m = "m\<lparr>cm_space := cm_space m - 1, cm_slot := cm_slot m + 1\<rparr>"
  let ?ms = "if cm_space ?m = 0 then ms else ?m # ms"
  have ok: "slots_ok (sca_nslots sca) (m # ms) (sca_slab sca)" "meta_ok 0 (m # ms)"
      "sca_space sca = card (meta_set (m # ms))"
    using assms Cons by (auto simp: single_inv_slots slots_ok_def)
  note first = meta_take_first [OF ok(2) refl]
  obtain sl' where sl': "if cm_space ?m = 0 then slab_free (sca_slab sca) (cm_addr m) = Ok sl' else sl' = sca_slab sca"
      "slots_ok (sca_nslots sca) ?ms sl'"
    using slots_ok_take [OF ok(1) refl refl] by blast
  let ?sca = "sca\<lparr>sca_space := sca_space sca - 1, sca_head := ?ms, sca_slab := sl'\<rparr>"
  let ?c = "\<lparr>cap_cnode = sca_cnode sca, cap_slot = cm_slot m\<rparr>"
  have space: "sca_space sca = Suc (card (meta_set ?ms))"
    unfolding ok(3) first(1) by (rule card_Suc_Diff1 [OF finite_meta_set first(3), symmetric])
  have "salloc sca = Ok (?c, ?sca)"
    using sl'(1) space Cons by (auto simp: salloc_def Let_def split: if_splits)
  moreover have "single_inv ?sca" using sl'(2) space by (simp add: single_inv_slots)
  moreover have "free_caps ?sca = free_caps sca - {?c}" "?c \<in> free_caps sca" "\<forall>d \<in> free_caps sca. cap_slot ?c \<le> cap_slot d"
    using first(1,3,4) Cons by (auto simp: free_caps_def)
  moreover have "all_caps ?sca = all_caps sca" by (simp add: all_caps_def)
  ultimately show ?thesis using space by auto
qed

text \<open>Returning a capability: an error, or its slot is free again.\<close>

lemma sfree_ok:
  assumes "single_inv sca" "c \<in> all_caps sca"
  shows "if c \<in> free_caps sca then sfree sca c = Err LIB_ERR_SLOT_UNALLOCATED
    else (\<exists>sca'. sfree sca c = Ok sca' \<and> single_inv sca' \<and> free_caps sca' = insert c (free_caps sca) \<and>
      all_caps sca' = all_caps sca \<and> sca_space sca' = Suc (sca_space sca))"
proof -
  have inv: "slots_ok (sca_nslots sca) (sca_head sca) (sca_slab sca)" "meta_ok 0 (sca_head sca)"
      "sca_space sca = card (meta_set (sca_head sca))"
    using assms(1) by (simp_all add: single_inv_slots slots_ok_def)
  have c: "cap_cnode c = sca_cnode sca" "cap_slot c < sca_nslots sca" using assms(2) by (simp_all add: all_caps_iff)
  then have sf: "sfree sca c = free_slots sca (cap_slot c) 1" by (simp add: sfree_def cnodecmp_eq)
  show ?thesis
  proof (cases "c \<in> free_caps sca")
    case True
    then have slot: "cap_slot c \<in> meta_set (sca_head sca)" by (simp add: free_caps_iff)
    then obtain h rest where h: "sca_head sca = h # rest" by (cases "sca_head sca") auto
    have "cm_slot h \<le> cap_slot c" using slot inv(2) h meta_ok_above [of "cm_slot h" "h # rest"] by auto
    then have "free_slots sca (cap_slot c) 1 = Err LIB_ERR_SLOT_UNALLOCATED"
      using free_walk_unallocated [OF inv(2) slot, of 1 "sca_slab sca"] h by (simp add: free_slots_def)
    then show ?thesis using True sf by simp
  next
    case False
    then have "{cap_slot c..<cap_slot c + 1} \<inter> meta_set (sca_head sca) = {}" using c by (simp add: free_caps_iff)
    then obtain ms sl where r: "free_slots sca (cap_slot c) 1 =
        Ok (sca\<lparr>sca_head := ms, sca_slab := sl, sca_space := sca_space sca + 1\<rparr>)" (is "_ = Ok ?sca")
      "slots_ok (sca_nslots sca) ms sl" "meta_set ms = insert (cap_slot c) (meta_set (sca_head sca))"
      using free_slots_ok [OF inv(1), of 1 "cap_slot c"] c(2) by auto
    have "cap_slot c \<notin> meta_set (sca_head sca)" using False c by (simp add: free_caps_iff)
    then have "single_inv ?sca" using r(2,3) inv(3) by (simp add: single_inv_slots)
    moreover have "free_caps ?sca = insert c (free_caps sca)"
      using r(3) c(1) by (cases c) (simp add: free_caps_def)
    ultimately show ?thesis using False sf r(1) by (simp add: all_caps_def)
  qed
qed

interpretation slot_pool: resource_pool "\<lambda>s. single_inv s \<and> all_caps s = U" "\<lambda>s. U - free_caps s" sca_space salloc sfree for U
proof
  fix s assume s: "single_inv s \<and> all_caps s = U" "0 < sca_space s"
  then have "free_caps s \<noteq> {}" by (auto simp: single_inv_def free_caps_def)
  then show "\<exists>b s'. salloc s = Ok (b, s') \<and> b \<notin> U - free_caps s \<and> (single_inv s' \<and> all_caps s' = U) \<and>
      U - free_caps s' = insert b (U - free_caps s) \<and> Suc (sca_space s') = sca_space s"
    using salloc_ok [of s] free_caps_sub [of s] s(1) by auto
next
  fix s c assume s: "single_inv s \<and> all_caps s = U" "c \<in> U - free_caps s"
  then show "\<exists>s'. sfree s c = Ok s' \<and> (single_inv s' \<and> all_caps s' = U) \<and> U - free_caps s' = U - free_caps s - {c} \<and>
      sca_space s' = Suc (sca_space s)"
    using sfree_ok [of s c] by auto
qed

section \<open>Creating and growing an allocator\<close>

lemma freecount_space:
  assumes "single_inv sca"
  shows "single_slot_alloc_freecount sca = sca_space sca"
proof -
  have "foldl (\<lambda>freecount m. freecount + cm_space m) n ms = n + sum_list (map cm_space ms)"
    for n and ms :: "cnode_meta list" by (induction ms arbitrary: n) auto
  then show ?thesis
    using assms meta_set_card [of 0 "sca_head sca"] by (simp add: single_slot_alloc_freecount_def single_inv_def)
qed

lemma slab_init_inv [simp]: "slab_inv (slab_init n)" "slab_used (slab_init n) = {}" "slab_freecount (slab_init n) = 0"
  "slabs (slab_init n) = []" "blocksize (slab_init n) = SLAB_REAL_BLOCKSIZE n"
  by (simp_all add: slab_init_def slab_inv_def slab_used_def freecount_sum SLAB_REAL_BLOCKSIZE_def SLAB_BLOCK_HDRSIZE_def)

lemma meta_blocksize: "SLAB_REAL_BLOCKSIZE CNODE_META_SIZE = 12"
  by (simp add: SLAB_REAL_BLOCKSIZE_def SLAB_BLOCK_HDRSIZE_def CNODE_META_SIZE_def)

text \<open>A slab grown by the prescribed buffer has a node for every second slot.\<close>

lemma grow_for_slots:
  assumes "slab_inv sl" "blocksize sl = 12" "buf \<noteq> 0" "2 \<le> n" "SINGLE_SLOT_ALLOC_BUFLEN n < 2 ^ 32"
    "\<And>sh. sh \<in> set (slabs sl) \<Longrightarrow> slab_range 12 sh \<inter> {buf..<buf + SINGLE_SLOT_ALLOC_BUFLEN n} = {}"
  shows "\<exists>sl'. slab_grow sl buf (SINGLE_SLOT_ALLOC_BUFLEN n) = Ok sl' \<and> slab_inv sl' \<and> slab_used sl' = slab_used sl \<and>
    slab_freecount sl' = slab_freecount sl + n div 2 \<and> blocksize sl' = 12"
proof -
  have "SLAB_HEAD_SIZE + 12 \<le> SINGLE_SLOT_ALLOC_BUFLEN n"
    using assms(4) by (simp add: SINGLE_SLOT_ALLOC_BUFLEN_def meta_blocksize)
  moreover have small: "n < 2 ^ 32"
    using assms(5) by (simp add: SINGLE_SLOT_ALLOC_BUFLEN_def meta_blocksize)
  moreover have "(SINGLE_SLOT_ALLOC_BUFLEN n - SLAB_HEAD_SIZE) div 12 = n div 2"
    by (simp add: SINGLE_SLOT_ALLOC_BUFLEN_def meta_blocksize)
  ultimately show ?thesis
    using slab_grow_ok [OF assms(1,3), of "SINGLE_SLOT_ALLOC_BUFLEN n"] assms(2,6)
      le_less_trans [OF div_le_dividend [of n 2] small] by auto
qed

lemma init_raw_ok:
  assumes "2 \<le> nslots" "even nslots" "buf \<noteq> 0" "SINGLE_SLOT_ALLOC_BUFLEN nslots < 2 ^ 32"
  shows "\<exists>sca. single_slot_alloc_init_raw cap cnode nslots buf (SINGLE_SLOT_ALLOC_BUFLEN nslots) = Ok sca \<and>
    single_inv sca \<and> sca_cnode sca = cnode \<and> sca_nslots sca = nslots \<and> free_caps sca = all_caps sca"
proof -
  obtain sl where sl: "slab_grow (slab_init CNODE_META_SIZE) buf (SINGLE_SLOT_ALLOC_BUFLEN nslots) = Ok sl" "slab_inv sl"
    "slab_used sl = {}" "slab_freecount sl = nslots div 2"
    using grow_for_slots [of "slab_init CNODE_META_SIZE" buf nslots] assms meta_blocksize
    by auto
  have "0 < slab_freecount sl" "nodes_ok sl []" using sl assms(1) by (simp_all add: nodes_ok_def div_greater_zero_iff)
  then obtain m sl' where m: "meta_get sl 0 nslots = Ok (m, sl')" "cm_slot m = 0" "cm_space m = nslots"
    "nodes_step sl [] sl' [m]"
    using meta_get_ok [of sl "[]" 0 nslots] by auto
  let ?sca = "\<lparr>sca_space = nslots, sca_nslots = nslots, sca_cap = cap, sca_cnode = cnode, sca_head = [m], sca_slab = sl'\<rparr>"
  have "single_slot_alloc_init_raw cap cnode nslots buf (SINGLE_SLOT_ALLOC_BUFLEN nslots) = Ok ?sca"
    using sl(1) m(1) by (simp add: single_slot_alloc_init_raw_def Let_def SINGLE_SLOT_ALLOC_BUFLEN_def SLAB_HEAD_SIZE_def)
  moreover have "meta_set [m] = {0..<nslots}" using m by (simp add: meta_range_def)
  moreover have "single_inv ?sca"
    using m sl assms(1,2) \<open>meta_set [m] = {0..<nslots}\<close> by (auto simp: single_inv_def nodes_step_def elim!: evenE)
  ultimately show ?thesis by (auto simp: free_caps_def all_caps_def)
qed

text \<open>
  Growing: with a new buffer for the additional slots they become free and the worst-case
  number of nodes is there again.
\<close>

lemma resize_ok:
  assumes "single_inv sca" "blocksize (sca_slab sca) = 12" "even (sca_nslots sca)" "even newslots"
    "sca_nslots sca < newslots" and len: "len = SINGLE_SLOT_ALLOC_BUFLEN (newslots - sca_nslots sca)" "len < 2 ^ 32"
    and buf: "slab_freecount (sca_slab sca) < len" "get_buffer len = Ok buf" "buf \<noteq> 0"
    "\<And>sh. sh \<in> set (slabs (sca_slab sca)) \<Longrightarrow> slab_range 12 sh \<inter> {buf..<buf + len} = {}"
  shows "\<exists>sca'. single_slot_alloc_resize get_buffer sca newslots = Ok sca' \<and> single_inv sca' \<and>
    sca_nslots sca' = newslots \<and> free_caps sca' = free_caps sca \<union> (all_caps sca' - all_caps sca)"
proof -
  let ?grow = "newslots - sca_nslots sca"
  have g: "2 \<le> ?grow" "newslots div 2 = sca_nslots sca div 2 + ?grow div 2"
    using assms(3-5) by (auto elim!: evenE simp flip: right_diff_distrib')
  obtain sl where sl: "slab_grow (sca_slab sca) buf len = Ok sl" "slab_inv sl" "slab_used sl = slab_used (sca_slab sca)"
    "slab_freecount sl = slab_freecount (sca_slab sca) + ?grow div 2"
    using grow_for_slots [OF _ assms(2), of buf ?grow] assms(1) g(1) len buf by (auto simp: single_inv_def nodes_ok_def)
  let ?s1 = "sca\<lparr>sca_slab := sl\<rparr>"
  have below: "x < sca_nslots sca" if "x \<in> meta_set (sca_head sca)" for x
    using meta_below_set assms(1) that by (auto simp: single_inv_def)
  have "slots_ok newslots (sca_head ?s1) (sca_slab ?s1)"
    using assms(1,3-5) sl g(2) below meta_below_iff [of 0 "sca_head sca" newslots]
    by (fastforce simp: single_inv_def slots_ok_def nodes_ok_def)
  moreover have "{sca_nslots sca..<sca_nslots sca + ?grow} \<inter> meta_set (sca_head ?s1) = {}"
    using below by fastforce
  ultimately obtain ms sl' where r: "free_slots ?s1 (sca_nslots sca) ?grow =
      Ok (?s1\<lparr>sca_head := ms, sca_slab := sl', sca_space := sca_space sca + ?grow\<rparr>)" "slots_ok newslots ms sl'"
    "meta_set ms = {sca_nslots sca..<newslots} \<union> meta_set (sca_head sca)"
    using free_slots_ok [of newslots ?s1 ?grow "sca_nslots sca"] g(1) assms(5) by auto
  let ?s2 = "sca\<lparr>sca_head := ms, sca_slab := sl', sca_space := sca_space sca + ?grow, sca_nslots := newslots\<rparr>"
  have "card (meta_set ms) = sca_space sca + ?grow"
    using r(3) assms(1) below by (subst r(3), subst card_Un_disjoint) (fastforce simp: single_inv_def)+
  then have "single_inv ?s2" using r(2) by (simp add: single_inv_slots)
  moreover have "free_caps ?s2 = free_caps sca \<union> (all_caps ?s2 - all_caps sca)"
    using r(3) by (auto simp: free_caps_iff all_caps_iff)
  moreover have "single_slot_alloc_resize get_buffer sca newslots = Ok ?s2"
    using sl(1) r(1) buf(1,2) len(1) by (simp add: single_slot_alloc_resize_def Let_def)
  ultimately show ?thesis by auto
qed

end
