(* ===== verification/Slot_Range.thy ===== *)
theory Slot_Range
  imports Slot_Meta
begin

text \<open>
  The allocator of consecutive slots, \<^verbatim>\<open>lib/aos/slot_alloc/range_slot_alloc.c\<close>: a chain of cnodes,
  each with its list of ranges of free slots. The chain is the list of its elements, and an
  operation gets the chain from the element it is called on. The loops over the ranges keep
  the ranges they have passed, so that \<open>prev\<close> is the last of them.
\<close>

section \<open>The code\<close>

record range_slot_allocator =
  ra_cnode_cap :: capref
  ra_cnode :: cnoderef
  ra_meta :: "cnode_meta list"
  ra_slab :: slab_allocator
  ra_is_head :: bool

definition L2_CNODE_SLOTS :: nat where "L2_CNODE_SLOTS = 256"

text \<open>The first range that is large enough: its slot and the list after the allocation.\<close>

fun range_take :: "slab_allocator \<Rightarrow> nat \<Rightarrow> cnode_meta list \<Rightarrow> (nat \<times> cnode_meta list \<times> slab_allocator) option outcome" where
  "range_take sl nslots [] = Ok None"
| "range_take sl nslots (walk # rest) =
     (if nslots \<le> cm_space walk \<and> cm_slot walk + nslots \<le> L2_CNODE_SLOTS then
        let ret = cm_slot walk;
            walk = walk\<lparr>cm_slot := cm_slot walk + nslots, cm_space := cm_space walk - nslots\<rparr>
        in if cm_space walk = 0
           then bind_outcome (slab_free sl (cm_addr walk)) (\<lambda>sl. Ok (Some (ret, rest, sl)))
           else Ok (Some (ret, walk # rest, sl))
      else bind_outcome (range_take sl nslots rest)
        (\<lambda>r. Ok (map_option (\<lambda>(ret, rest, sl). (ret, walk # rest, sl)) r)))"

fun range_chain_alloc :: "nat \<Rightarrow> range_slot_allocator list \<Rightarrow> (capref \<times> range_slot_allocator list) outcome" where
  "range_chain_alloc nslots [] = Err LIB_ERR_SLOT_ALLOC_NO_SPACE"
| "range_chain_alloc nslots (a # as) =
     bind_outcome (range_take (ra_slab a) nslots (ra_meta a))
       (\<lambda>r. case r of
              Some (slot, ms, sl) \<Rightarrow>
                Ok (\<lparr>cap_cnode = ra_cnode a, cap_slot = slot\<rparr>, a\<lparr>ra_meta := ms, ra_slab := sl\<rparr> # as)
            | None \<Rightarrow> bind_outcome (range_chain_alloc nslots as) (\<lambda>(c, as). Ok (c, a # as)))"

definition range_slot_alloc :: "range_slot_allocator list \<Rightarrow> nat \<Rightarrow> (capref \<times> range_slot_allocator list) outcome" where
  "range_slot_alloc chain nslots =
     (case chain of
        [] \<Rightarrow> Abort
      | head # _ \<Rightarrow>
          if \<not> ra_is_head head then Err LIB_ERR_RANGE_ALLOC_NOT_HEAD
          else range_chain_alloc nslots chain)"

definition insert_after ::
    "slab_allocator \<Rightarrow> nat \<Rightarrow> nat \<Rightarrow> cnode_meta list \<Rightarrow> cnode_meta \<Rightarrow> (cnode_meta list \<times> slab_allocator) outcome" where
  "insert_after sl nslots slot pre walk =
     (if slot = cm_slot walk + cm_space walk then Ok (pre @ [walk\<lparr>cm_space := cm_space walk + nslots\<rparr>], sl)
      else bind_outcome (new_meta sl slot nslots)
        (\<lambda>(m, sl). case m of None \<Rightarrow> Err LIB_ERR_SLAB_ALLOC_FAIL | Some m \<Rightarrow> Ok (pre @ [walk, m], sl)))"

definition insert_before ::
    "slab_allocator \<Rightarrow> nat \<Rightarrow> nat \<Rightarrow> cnode_meta list \<Rightarrow> cnode_meta \<Rightarrow> cnode_meta list \<Rightarrow>
      (cnode_meta list \<times> slab_allocator) outcome" where
  "insert_before sl nslots slot pre walk rest =
     (let prev = last pre in
      if pre \<noteq> [] \<and> slot = cm_slot prev + cm_space prev \<and> slot + nslots = cm_slot walk then
        bind_outcome (slab_free sl (cm_addr walk))
          (\<lambda>sl. Ok (butlast pre @ prev\<lparr>cm_space := cm_space prev + nslots + cm_space walk\<rparr> # rest, sl))
      else if slot + nslots = cm_slot walk then
        Ok (pre @ walk\<lparr>cm_slot := slot, cm_space := cm_space walk + nslots\<rparr> # rest, sl)
      else if pre \<noteq> [] \<and> slot = cm_slot prev + cm_space prev then
        Ok (butlast pre @ prev\<lparr>cm_space := cm_space prev + nslots\<rparr> # walk # rest, sl)
      else bind_outcome (new_meta sl slot nslots)
        (\<lambda>(m, sl). case m of None \<Rightarrow> Err LIB_ERR_SLAB_ALLOC_FAIL | Some m \<Rightarrow> Ok (pre @ m # walk # rest, sl)))"

fun range_put :: "slab_allocator \<Rightarrow> nat \<Rightarrow> nat \<Rightarrow> cnode_meta list \<Rightarrow> cnode_meta list \<Rightarrow> (cnode_meta list \<times> slab_allocator) outcome" where
  "range_put sl slot nslots pre [] =
     (if pre \<noteq> [] then Abort
      else bind_outcome (new_meta sl slot nslots)
        (\<lambda>(m, sl). case m of None \<Rightarrow> Err LIB_ERR_SLAB_ALLOC_FAIL | Some m \<Rightarrow> Ok ([m], sl)))"
| "range_put sl slot nslots pre (walk # rest) =
     (if cm_slot walk < slot \<and> rest = [] then insert_after sl nslots slot pre walk
      else if slot < cm_slot walk then insert_before sl nslots slot pre walk rest
      else range_put sl slot nslots (pre @ [walk]) rest)"

text \<open>The search for the cnode runs off the end of the chain when the cnode is not in it.\<close>

fun range_chain_free :: "capref \<Rightarrow> nat \<Rightarrow> range_slot_allocator list \<Rightarrow> range_slot_allocator list outcome" where
  "range_chain_free cap nslots [] = Abort"
| "range_chain_free cap nslots (a # as) =
     (if \<not> cnodecmp (cap_cnode cap) (ra_cnode a)
      then bind_outcome (range_chain_free cap nslots as) (\<lambda>as. Ok (a # as))
      else bind_outcome (range_put (ra_slab a) (cap_slot cap) nslots [] (ra_meta a))
        (\<lambda>(ms, sl). Ok (a\<lparr>ra_meta := ms, ra_slab := sl\<rparr> # as)))"

definition range_slot_free :: "range_slot_allocator list \<Rightarrow> capref \<Rightarrow> nat \<Rightarrow> range_slot_allocator list outcome" where
  "range_slot_free chain cap nslots =
     (case chain of
        [] \<Rightarrow> Abort
      | head # _ \<Rightarrow>
          if \<not> ra_is_head head then Err LIB_ERR_RANGE_ALLOC_NOT_HEAD
          else range_chain_free cap nslots chain)"

text \<open>\<open>cnode_create_l2\<close> returns the new cnode, \<open>malloc\<close> an address or 0.\<close>

definition range_slot_alloc_init ::
    "(capref \<times> cnoderef) outcome \<Rightarrow> (nat \<Rightarrow> nat) \<Rightarrow> nat \<Rightarrow> (range_slot_allocator \<times> nat) outcome" where
  "range_slot_alloc_init cnode_create_l2 malloc nslots =
     (let nslots = (if nslots \<noteq> L2_CNODE_SLOTS then L2_CNODE_SLOTS else nslots)
      in bind_outcome cnode_create_l2
           (\<lambda>(cap, cnode).
              let buflen = CNODE_META_SIZE * nslots div 2;
                  buf = malloc buflen
              in if buf = 0 then Err LIB_ERR_MALLOC_FAIL
                 else bind_outcome (slab_grow (slab_init CNODE_META_SIZE) buf buflen)
                   (\<lambda>sl. bind_outcome (new_meta sl 0 nslots)
                     (\<lambda>(m, sl). case m of
                        None \<Rightarrow> Err LIB_ERR_SLAB_ALLOC_FAIL
                      | Some m \<Rightarrow> Ok (\<lparr>ra_cnode_cap = cap, ra_cnode = cnode, ra_meta = [m], ra_slab = sl,
                          ra_is_head = True\<rparr>, L2_CNODE_SLOTS)))))"

text \<open>
  The count of an allocator that is not the head of a chain is an error code; the loop over
  the chain adds up the ranges of the first element in every round.
\<close>

definition range_slot_alloc_freecount :: "nat \<Rightarrow> range_slot_allocator list \<Rightarrow> nat" where
  "range_slot_alloc_freecount not_head_code chain =
     (case chain of
        [] \<Rightarrow> 0
      | alloc # _ \<Rightarrow>
          if \<not> ra_is_head alloc then not_head_code
          else foldl (\<lambda>count alloc_w. foldl (\<lambda>count walk. count + cm_space walk) count (ra_meta alloc)) 0 chain)"

definition range_slot_alloc_refill ::
    "(capref \<times> cnoderef) outcome \<Rightarrow> (nat \<Rightarrow> nat) \<Rightarrow> range_slot_allocator list \<Rightarrow> nat \<Rightarrow> range_slot_allocator list outcome" where
  "range_slot_alloc_refill cnode_create_l2 malloc chain slots =
     (case chain of
        [] \<Rightarrow> Abort
      | head # _ \<Rightarrow>
          if \<not> ra_is_head head then Err LIB_ERR_RANGE_ALLOC_NOT_HEAD
          else (case range_slot_alloc_init cnode_create_l2 malloc slots of
                  Ok (n, retslots) \<Rightarrow>
                    if slots \<le> retslots then Ok (chain @ [n\<lparr>ra_is_head := False\<rparr>]) else Abort
                | _ \<Rightarrow> Abort))"

section \<open>Ranges in the middle of a list\<close>

text \<open>The order of the ranges as a relation between any two of them.\<close>

definition apart :: "cnode_meta \<Rightarrow> cnode_meta \<Rightarrow> bool" where
  "apart m n \<longleftrightarrow> cm_slot m + cm_space m < cm_slot n"

lemma meta_ok_iff:
  "meta_ok lo ms \<longleftrightarrow> list_all (\<lambda>m. lo \<le> cm_slot m \<and> 0 < cm_space m) ms \<and> sorted_wrt apart ms"
proof (induction ms arbitrary: lo)
  case (Cons m ms)
  then show ?case by (auto simp: list_all_iff apart_def Suc_le_eq)
qed simp

lemma nodes_step_append:
  "nodes_step sl ms sl' ms' \<Longrightarrow> nodes_ok sl (pre @ ms) \<Longrightarrow> nodes_step sl (pre @ ms) sl' (pre @ ms')"
proof (induction pre)
  case (Cons p pre)
  then show ?case using nodes_step_Cons [of sl "pre @ ms" sl' "pre @ ms'" p] by (simp add: nodes_ok_def)
qed simp

lemma nodes_ok_suffix: "nodes_ok sl (pre @ ms) \<Longrightarrow> nodes_ok sl ms"
  by (auto simp: nodes_ok_def)

section \<open>Taking consecutive slots\<close>

lemma range_take_ok:
  assumes "nodes_ok sl ms" "meta_ok lo ms" "meta_below L2_CNODE_SLOTS ms" "0 < n"
  shows "range_take sl n ms = Ok None \<and> (\<forall>m \<in> set ms. cm_space m < n) \<or>
    (\<exists>slot ms' sl'. range_take sl n ms = Ok (Some (slot, ms', sl')) \<and> nodes_step sl ms sl' ms' \<and> meta_ok lo ms' \<and>
       {slot..<slot + n} \<subseteq> meta_set ms \<and> meta_set ms' = meta_set ms - {slot..<slot + n})"
  using assms(1-3)
proof (induction ms arbitrary: lo)
  case (Cons w rest)
  have ok: "nodes_ok sl rest" "meta_ok (Suc (cm_slot w + cm_space w)) rest" "meta_below L2_CNODE_SLOTS rest"
    using Cons.prems by (auto simp: nodes_ok_def)
  have above: "x \<notin> meta_set rest" if "x \<le> cm_slot w + cm_space w" for x
    using meta_ok_above [OF ok(2)] that by fastforce
  show ?case
  proof (cases "n \<le> cm_space w")
    case True
    let ?w = "w\<lparr>cm_slot := cm_slot w + n, cm_space := cm_space w - n\<rparr>"
    let ?ms = "if cm_space ?w = 0 then rest else ?w # rest"
    have "{cm_slot w..<cm_slot w + n} \<subseteq> meta_set (w # rest)" using True by (auto simp: meta_range_def)
    moreover have "meta_set ?ms = meta_set (w # rest) - {cm_slot w..<cm_slot w + n}"
      using True above by (auto simp: meta_range_def)
    moreover have "meta_ok lo ?ms" using True Cons.prems(2) meta_ok_mono [OF ok(2), of lo] by auto
    moreover have "cm_slot w + n \<le> L2_CNODE_SLOTS" using True Cons.prems(3) by simp
    then have "\<exists>sl'. range_take sl n (w # rest) = Ok (Some (cm_slot w, ?ms, sl')) \<and> nodes_step sl (w # rest) sl' ?ms"
      using True nodes_step_drop [OF Cons.prems(1)] nodes_step_same [OF Cons.prems(1), of "?w # rest"]
      by (auto simp: Let_def)
    ultimately show ?thesis by blast
  next
    case False
    consider "range_take sl n rest = Ok None" "\<forall>m \<in> set rest. cm_space m < n"
      | slot ms' sl' where "range_take sl n rest = Ok (Some (slot, ms', sl'))" "nodes_step sl rest sl' ms'"
          "meta_ok (Suc (cm_slot w + cm_space w)) ms'" "{slot..<slot + n} \<subseteq> meta_set rest"
          "meta_set ms' = meta_set rest - {slot..<slot + n}"
      using Cons.IH [OF ok] by blast
    then show ?thesis
    proof cases
      case 2
      have "meta_range w \<inter> {slot..<slot + n} = {}" using 2(4) above by (fastforce simp: meta_range_def)
      then have "meta_set (w # ms') = meta_set (w # rest) - {slot..<slot + n}" using 2(5) by auto
      moreover have "meta_ok lo (w # ms')" using 2(3) Cons.prems(2) by simp
      ultimately show ?thesis
        using nodes_step_Cons [OF 2(2) Cons.prems(1)] 2(1,4) False by (intro disjI2 exI [of _ slot]) auto
    qed (use False in auto)
  qed
qed simp

section \<open>Returning consecutive slots\<close>

definition put_ok :: "slab_allocator \<Rightarrow> cnode_meta list \<Rightarrow> nat \<Rightarrow> nat \<Rightarrow> (cnode_meta list \<times> slab_allocator) outcome \<Rightarrow> bool" where
  "put_ok sl ms slot n r \<longleftrightarrow>
     (\<exists>ms' sl'. r = Ok (ms', sl') \<and> nodes_step sl ms sl' ms' \<and> meta_ok 0 ms' \<and>
        meta_set ms' = {slot..<slot + n} \<union> meta_set ms)"

lemma put_okI:
  "r = Ok (ms', sl') \<Longrightarrow> nodes_step sl ms sl' ms' \<Longrightarrow> meta_ok 0 ms' \<Longrightarrow>
     meta_set ms' = {slot..<slot + n} \<union> meta_set ms \<Longrightarrow> put_ok sl ms slot n r"
  unfolding put_ok_def by blast

text \<open>A new range between the ranges \<open>pre\<close> and \<open>post\<close>.\<close>

lemma put_new:
  assumes "nodes_ok sl (pre @ post)" "meta_ok 0 (pre @ post)" "0 < n" "0 < slab_freecount sl"
    "\<And>m. m \<in> set pre \<Longrightarrow> cm_slot m + cm_space m < slot" "\<And>m. m \<in> set post \<Longrightarrow> slot + n < cm_slot m"
  shows "put_ok sl (pre @ post) slot n
    (bind_outcome (new_meta sl slot n)
       (\<lambda>(m, sl). case m of None \<Rightarrow> Err LIB_ERR_SLAB_ALLOC_FAIL | Some m \<Rightarrow> Ok (pre @ m # post, sl)))"
proof -
  obtain m sl' where m: "new_meta sl slot n = Ok (Some m, sl')" "cm_slot m = slot" "cm_space m = n"
    "nodes_step sl post sl' (m # post)"
    using new_meta_ok [OF nodes_ok_suffix [OF assms(1)] assms(4)] by blast
  show ?thesis
  proof (rule put_okI)
    show "nodes_step sl (pre @ post) sl' (pre @ m # post)" using nodes_step_append [OF m(4) assms(1)] .
    show "meta_ok 0 (pre @ m # post)"
      using assms(2,3,5,6) m(2,3) by (auto simp: meta_ok_iff sorted_wrt_append apart_def)
  qed (use m in \<open>auto simp: meta_range_def\<close>)
qed

text \<open>The last range of \<open>pre\<close> grows.\<close>

lemma put_grow:
  assumes "nodes_ok sl (pre @ w # post)" "meta_ok 0 (pre @ w # post)" "slot = cm_slot w + cm_space w"
    "\<And>m. m \<in> set post \<Longrightarrow> slot + n < cm_slot m" "r = Ok (pre @ w\<lparr>cm_space := cm_space w + n\<rparr> # post, sl)"
  shows "put_ok sl (pre @ w # post) slot n r"
proof (rule put_okI [OF assms(5)])
  show "nodes_step sl (pre @ w # post) sl (pre @ w\<lparr>cm_space := cm_space w + n\<rparr> # post)"
    using nodes_step_same [OF assms(1)] by simp
  show "meta_ok 0 (pre @ w\<lparr>cm_space := cm_space w + n\<rparr> # post)"
    using assms(2-4) by (auto simp: meta_ok_iff sorted_wrt_append apart_def simp flip: add.assoc)
  show "meta_set (pre @ w\<lparr>cm_space := cm_space w + n\<rparr> # post) = {slot..<slot + n} \<union> meta_set (pre @ w # post)"
    using assms(3) by (auto simp: meta_range_def)
qed

lemma put_after:
  assumes "nodes_ok sl (pre @ [w])" "meta_ok 0 (pre @ [w])" "0 < n" "cm_slot w + cm_space w \<le> slot"
    "meta_adjacent slot n (pre @ [w]) \<or> 0 < slab_freecount sl"
  shows "put_ok sl (pre @ [w]) slot n (insert_after sl n slot pre w)"
proof (cases "slot = cm_slot w + cm_space w")
  case True
  then show ?thesis using put_grow [of sl pre w "[]" slot n] assms(1,2) by (simp add: insert_after_def)
next
  case False
  have before: "cm_slot m + cm_space m < slot" if "m \<in> set (pre @ [w])" for m
    using that False assms(2,4) by (fastforce simp: meta_ok_iff sorted_wrt_append apart_def)
  then have "\<not> meta_adjacent slot n (pre @ [w])" by (fastforce simp: meta_adjacent_def list_ex_iff)
  then show ?thesis
    using put_new [of sl "pre @ [w]" "[]" n slot, unfolded append_assoc append_Cons append_Nil] assms before False
    by (simp add: insert_after_def)
qed

text \<open>The range before \<open>w\<close> grows downwards, and perhaps joins its predecessor.\<close>

lemma put_down:
  assumes "nodes_ok sl (pre @ w # post)" "meta_ok 0 (pre @ w # post)" "slot + n = cm_slot w"
    "\<And>m. m \<in> set pre \<Longrightarrow> cm_slot m + cm_space m < slot"
    "r = Ok (pre @ w\<lparr>cm_slot := slot, cm_space := cm_space w + n\<rparr> # post, sl)"
  shows "put_ok sl (pre @ w # post) slot n r"
proof (rule put_okI [OF assms(5)])
  let ?w = "w\<lparr>cm_slot := slot, cm_space := cm_space w + n\<rparr>"
  have e: "slot + (cm_space w + n) = cm_slot w + cm_space w" using assms(3) by simp
  show "nodes_step sl (pre @ w # post) sl (pre @ ?w # post)" using nodes_step_same [OF assms(1)] by simp
  show "meta_ok 0 (pre @ ?w # post)"
    using assms(2,4) by (auto simp: meta_ok_iff sorted_wrt_append apart_def e)
  show "meta_set (pre @ ?w # post) = {slot..<slot + n} \<union> meta_set (pre @ w # post)"
    using assms(3) by (auto simp: meta_range_def)
qed

lemma put_join:
  assumes "nodes_ok sl (pre @ p # w # post)" "meta_ok 0 (pre @ p # w # post)" "slot + n = cm_slot w"
    "slot = cm_slot p + cm_space p"
    "r = bind_outcome (slab_free sl (cm_addr w))
       (\<lambda>sl. Ok (pre @ p\<lparr>cm_space := cm_space p + n + cm_space w\<rparr> # post, sl))"
  shows "put_ok sl (pre @ p # w # post) slot n r"
proof -
  let ?p = "p\<lparr>cm_space := cm_space p + n + cm_space w\<rparr>"
  have "nodes_ok sl (w # post)" using nodes_ok_suffix [of sl "pre @ [p]" "w # post"] assms(1) by simp
  then obtain sl' where sl': "slab_free sl (cm_addr w) = Ok sl'" "nodes_step sl (w # post) sl' post"
    using nodes_step_drop by blast
  show ?thesis
  proof (rule put_okI)
    show "r = Ok (pre @ ?p # post, sl')" using assms(5) sl'(1) by simp
    have "nodes_step sl (pre @ p # w # post) sl' (pre @ p # post)"
      using nodes_step_append [OF sl'(2), of "pre @ [p]"] assms(1) by simp
    then show "nodes_step sl (pre @ p # w # post) sl' (pre @ ?p # post)" by (rule nodes_step_addr) simp
    have e: "cm_slot p + (cm_space p + n + cm_space w) = cm_slot w + cm_space w" using assms(3,4) by simp
    show "meta_ok 0 (pre @ ?p # post)"
      using assms(2) by (auto simp: meta_ok_iff sorted_wrt_append apart_def e)
    show "meta_set (pre @ ?p # post) = {slot..<slot + n} \<union> meta_set (pre @ p # w # post)"
      using assms(3,4) by (auto simp: meta_range_def)
  qed
qed

lemma apart_last:
  assumes "m \<noteq> last pre" "m \<in> set pre" "meta_ok lo (pre @ post)"
  shows "apart m (last pre)"
proof -
  have "pre = butlast pre @ [last pre]" using assms(2) by (metis append_butlast_last_id empty_iff empty_set)
  moreover from this have "m \<in> set (butlast pre)" using assms(1,2) by (metis Un_iff empty_iff empty_set set_ConsD set_append)
  moreover have "sorted_wrt apart pre" using assms(3) by (simp add: meta_ok_iff sorted_wrt_append)
  ultimately show ?thesis by (metis list.set_intros(1) sorted_wrt_append)
qed

lemma put_before:
  assumes "nodes_ok sl (pre @ w # rest)" "meta_ok 0 (pre @ w # rest)" "0 < n" "slot + n \<le> cm_slot w"
    "\<And>m. m \<in> set pre \<Longrightarrow> cm_slot m + cm_space m \<le> slot"
    "meta_adjacent slot n (pre @ w # rest) \<or> 0 < slab_freecount sl"
  shows "put_ok sl (pre @ w # rest) slot n (insert_before sl n slot pre w rest)"
proof (cases "pre \<noteq> [] \<and> slot = cm_slot (last pre) + cm_space (last pre)")
  case True
  define p where "p = last pre"
  then obtain pre' where pre: "pre = pre' @ [p]" using True by (metis append_butlast_last_id)
  show ?thesis
  proof (cases "slot + n = cm_slot w")
    case eq: True
    then show ?thesis
      using put_join [of sl pre' p w rest slot n] assms(1,2) True pre by (simp add: insert_before_def)
  next
    case False
    have "slot + n < cm_slot m" if "m \<in> set (w # rest)" for m
      using that False assms(2,4) by (fastforce simp: meta_ok_iff sorted_wrt_append apart_def)
    then show ?thesis
      using put_grow [of sl pre' p "w # rest" slot n] assms(1,2) True pre False by (simp add: insert_before_def)
  qed
next
  case False
  have before: "cm_slot m + cm_space m < slot" if "m \<in> set pre" for m
  proof (rule ccontr)
    assume "\<not> ?thesis"
    then have eq: "cm_slot m + cm_space m = slot" using assms(5) [OF that] by simp
    then have "m \<noteq> last pre" using False that by auto
    then have "apart m (last pre)" using that assms(2) by (rule apart_last)
    moreover have "last pre \<in> set pre" using that by (metis empty_iff empty_set last_in_set)
    ultimately show False using eq assms(5) [of "last pre"] by (simp add: apart_def)
  qed
  show ?thesis
  proof (cases "slot + n = cm_slot w")
    case True
    then show ?thesis
      using put_down [OF assms(1,2) True before] False by (auto simp: insert_before_def Let_def)
  next
    case neq: False
    have after: "slot + n < cm_slot m" if "m \<in> set (w # rest)" for m
      using that neq assms(2,4) by (fastforce simp: meta_ok_iff sorted_wrt_append apart_def)
    then have "\<not> meta_adjacent slot n (pre @ w # rest)"
      using before by (fastforce simp: meta_adjacent_def list_ex_iff)
    then show ?thesis
      using put_new [of sl pre "w # rest" n slot] assms before after neq False
      by (auto simp: insert_before_def Let_def)
  qed
qed

lemma range_put_ok:
  assumes "nodes_ok sl (pre @ ms)" "meta_ok 0 (pre @ ms)" "0 < n" "{slot..<slot + n} \<inter> meta_set (pre @ ms) = {}"
    "\<And>m. m \<in> set pre \<Longrightarrow> cm_slot m + cm_space m \<le> slot" "ms = [] \<Longrightarrow> pre = []"
    "meta_adjacent slot n (pre @ ms) \<or> 0 < slab_freecount sl"
  shows "put_ok sl (pre @ ms) slot n (range_put sl slot n pre ms)"
  using assms
proof (induction ms arbitrary: pre)
  case Nil
  then show ?case using put_new [of sl "[]" "[]" n slot, unfolded append_Nil] by (simp add: meta_adjacent_def)
next
  case (Cons w rest)
  have "{slot..<slot + n} \<inter> meta_range w = {}" "0 < cm_space w" using Cons.prems(2,4) by (auto simp: meta_ok_iff)
  then have w: "slot + n \<le> cm_slot w \<or> cm_slot w + cm_space w \<le> slot"
    using Cons.prems(3) ivl_disj_cases [of slot n "cm_slot w" "cm_space w"] by (simp add: meta_range_def)
  show ?case
  proof (cases "slot + n \<le> cm_slot w")
    case True
    then show ?thesis using put_before [OF Cons.prems(1-3) True Cons.prems(5,7)] Cons.prems(3) by simp
  next
    case False
    then have after: "cm_slot w + cm_space w \<le> slot" "cm_slot w < slot" using w \<open>0 < cm_space w\<close> by simp_all
    show ?thesis
    proof (cases "rest = []")
      case True
      then show ?thesis using put_after [of sl pre w n slot] Cons.prems after by simp
    next
      case more: False
      have "put_ok sl ((pre @ [w]) @ rest) slot n (range_put sl slot n (pre @ [w]) rest)"
        using Cons.prems after more by (intro Cons.IH) auto
      then show ?thesis using after more by simp
    qed
  qed
qed

section \<open>The chain\<close>

definition ra_ok :: "range_slot_allocator \<Rightarrow> bool" where
  "ra_ok a \<longleftrightarrow> meta_ok 0 (ra_meta a) \<and> meta_below L2_CNODE_SLOTS (ra_meta a) \<and> nodes_ok (ra_slab a) (ra_meta a)"

definition chain_ok :: "range_slot_allocator list \<Rightarrow> bool" where
  "chain_ok chain \<longleftrightarrow> chain \<noteq> [] \<and> ra_is_head (hd chain) \<and> list_all ra_ok chain \<and> distinct (map ra_cnode chain)"

text \<open>The free capability slots of a chain, as pairs of a cnode and a slot.\<close>

definition chain_free :: "range_slot_allocator list \<Rightarrow> (cnoderef \<times> nat) set" where
  "chain_free chain = (\<Union>a \<in> set chain. {ra_cnode a} \<times> meta_set (ra_meta a))"

definition slot_range :: "capref \<Rightarrow> nat \<Rightarrow> (cnoderef \<times> nat) set" where
  "slot_range cap n = {cap_cnode cap} \<times> {cap_slot cap..<cap_slot cap + n}"

lemma chain_free_simps [simp]:
  "chain_free [] = {}" "chain_free (a # as) = {ra_cnode a} \<times> meta_set (ra_meta a) \<union> chain_free as"
  by (auto simp: chain_free_def)

lemma chain_free_cnode: "ra_cnode a \<notin> ra_cnode ` set as \<Longrightarrow> (ra_cnode a, s) \<notin> chain_free as"
  by (auto simp: chain_free_def)

lemma range_chain_alloc_ok:
  assumes "list_all ra_ok chain" "distinct (map ra_cnode chain)" "0 < n"
  shows "range_chain_alloc n chain = Err LIB_ERR_SLOT_ALLOC_NO_SPACE \<and> (\<forall>a \<in> set chain. \<forall>m \<in> set (ra_meta a). cm_space m < n) \<or>
    (\<exists>c chain'. range_chain_alloc n chain = Ok (c, chain') \<and> list_all ra_ok chain' \<and>
       map ra_cnode chain' = map ra_cnode chain \<and> map ra_is_head chain' = map ra_is_head chain \<and>
       slot_range c n \<subseteq> chain_free chain \<and> chain_free chain' = chain_free chain - slot_range c n)"
  using assms(1,2)
proof (induction chain)
  case (Cons a as)
  have a: "nodes_ok (ra_slab a) (ra_meta a)" "meta_ok 0 (ra_meta a)" "meta_below L2_CNODE_SLOTS (ra_meta a)"
    using Cons.prems by (simp_all add: ra_ok_def)
  have other: "(ra_cnode a, s) \<notin> chain_free as" for s
    using chain_free_cnode [of a as s] Cons.prems(2) by simp
  consider (here) slot ms sl where "range_take (ra_slab a) n (ra_meta a) = Ok (Some (slot, ms, sl))"
      "nodes_step (ra_slab a) (ra_meta a) sl ms" "meta_ok 0 ms" "{slot..<slot + n} \<subseteq> meta_set (ra_meta a)"
      "meta_set ms = meta_set (ra_meta a) - {slot..<slot + n}"
    | (later) "range_take (ra_slab a) n (ra_meta a) = Ok None" "\<forall>m \<in> set (ra_meta a). cm_space m < n"
    using range_take_ok [OF a assms(3)] by blast
  then show ?case
  proof cases
    case here
    have "meta_below L2_CNODE_SLOTS ms"
      using here(5) meta_below_iff [OF here(3)] meta_below_set [OF a(3)] by auto
    then have "ra_ok (a\<lparr>ra_meta := ms, ra_slab := sl\<rparr>)" using here(2,3) by (simp add: ra_ok_def nodes_step_def)
    then show ?thesis using here Cons.prems other by (auto simp: slot_range_def)
  next
    case later
    consider "range_chain_alloc n as = Err LIB_ERR_SLOT_ALLOC_NO_SPACE" "\<forall>a \<in> set as. \<forall>m \<in> set (ra_meta a). cm_space m < n"
      | c as' where "range_chain_alloc n as = Ok (c, as')" "list_all ra_ok as'" "map ra_cnode as' = map ra_cnode as"
        "map ra_is_head as' = map ra_is_head as" "slot_range c n \<subseteq> chain_free as" "chain_free as' = chain_free as - slot_range c n"
      using Cons by auto
    then show ?thesis
    proof cases
      case 2
      have "({ra_cnode a} \<times> meta_set (ra_meta a)) \<inter> slot_range c n = {}" using 2(5) other by auto
      then have "chain_free (a # as') = chain_free (a # as) - slot_range c n" using 2(6) by auto
      then show ?thesis using later 2 Cons.prems by auto
    qed (use later in auto)
  qed
qed simp

text \<open>A chain element has a node for the range, or the range joins one of its ranges.\<close>

definition chain_room :: "range_slot_allocator list \<Rightarrow> capref \<Rightarrow> nat \<Rightarrow> bool" where
  "chain_room chain cap n \<longleftrightarrow>
     list_all (\<lambda>a. ra_cnode a = cap_cnode cap \<longrightarrow>
       meta_adjacent (cap_slot cap) n (ra_meta a) \<or> 0 < slab_freecount (ra_slab a)) chain"

lemma range_chain_free_ok:
  assumes "list_all ra_ok chain" "distinct (map ra_cnode chain)" "0 < n" "cap_cnode cap \<in> ra_cnode ` set chain"
    "cap_slot cap + n \<le> L2_CNODE_SLOTS" "slot_range cap n \<inter> chain_free chain = {}" "chain_room chain cap n"
  shows "\<exists>chain'. range_chain_free cap n chain = Ok chain' \<and> list_all ra_ok chain' \<and>
    map ra_cnode chain' = map ra_cnode chain \<and> map ra_is_head chain' = map ra_is_head chain \<and>
    chain_free chain' = chain_free chain \<union> slot_range cap n"
  using assms(1,2,4,6,7)
proof (induction chain)
  case (Cons a as)
  show ?case
  proof (cases "cap_cnode cap = ra_cnode a")
    case True
    have "{cap_slot cap..<cap_slot cap + n} \<inter> meta_set (ra_meta a) = {}"
      using Cons.prems(4) True by (auto simp: slot_range_def)
    moreover have "meta_adjacent (cap_slot cap) n (ra_meta a) \<or> 0 < slab_freecount (ra_slab a)"
      using Cons.prems(5) True by (simp add: chain_room_def)
    ultimately obtain ms sl where r: "range_put (ra_slab a) (cap_slot cap) n [] (ra_meta a) = Ok (ms, sl)"
      "nodes_step (ra_slab a) (ra_meta a) sl ms" "meta_ok 0 ms"
      "meta_set ms = {cap_slot cap..<cap_slot cap + n} \<union> meta_set (ra_meta a)"
      using range_put_ok [of "ra_slab a" "[]" "ra_meta a" n "cap_slot cap"] Cons.prems(1) assms(3)
      by (auto simp: put_ok_def ra_ok_def)
    have "meta_below L2_CNODE_SLOTS ms"
      using r(4) meta_below_iff [OF r(3)] meta_below_set [of L2_CNODE_SLOTS "ra_meta a"] Cons.prems(1) assms(5)
      by (auto simp: ra_ok_def)
    then have "ra_ok (a\<lparr>ra_meta := ms, ra_slab := sl\<rparr>)" using r(2,3) by (simp add: ra_ok_def nodes_step_def)
    then show ?thesis using r(1,4) True Cons.prems(1) by (auto simp: cnodecmp_eq slot_range_def)
  next
    case False
    then obtain as' where "range_chain_free cap n as = Ok as'" "list_all ra_ok as'" "map ra_cnode as' = map ra_cnode as"
      "map ra_is_head as' = map ra_is_head as" "chain_free as' = chain_free as \<union> slot_range cap n"
      using Cons by (auto simp: chain_room_def)
    then show ?thesis using False Cons.prems(1) by (auto simp: cnodecmp_eq)
  qed
qed simp

section \<open>A new allocator\<close>

lemma range_init_ok:
  assumes "malloc 1536 \<noteq> 0"
  shows "\<exists>a. range_slot_alloc_init (Ok (cap, cn)) malloc nslots = Ok (a, L2_CNODE_SLOTS) \<and> chain_ok [a] \<and>
    chain_free [a] = {cn} \<times> {0..<L2_CNODE_SLOTS} \<and> map cm_space (ra_meta a) = [L2_CNODE_SLOTS] \<and>
    slab_freecount (ra_slab a) = 125"
proof -
  let ?sl = "slab_init CNODE_META_SIZE"
  have init: "slab_inv ?sl" "slab_freecount ?sl = 0" "blocksize ?sl = 12" "slabs ?sl = []"
    by (simp_all add: slab_init_def slab_inv_def slabs_ok_def slab_freecount_def SLAB_REAL_BLOCKSIZE_def
        SLAB_BLOCK_HDRSIZE_def CNODE_META_SIZE_def)
  obtain sl where sl: "slab_grow ?sl (malloc 1536) 1536 = Ok sl" "slab_inv sl" "slab_freecount sl = 126"
    using slab_grow_ok [of ?sl "malloc 1536" 1536] init assms by (auto simp: SLAB_HEAD_SIZE_def)
  then have "nodes_ok sl []" by (simp add: nodes_ok_def)
  then obtain m sl' where m: "new_meta sl 0 L2_CNODE_SLOTS = Ok (Some m, sl')" "cm_slot m = 0" "cm_space m = L2_CNODE_SLOTS"
    "nodes_step sl [] sl' [m]"
    using new_meta_ok [of sl "[]" 0 L2_CNODE_SLOTS] sl(3) by auto
  let ?a = "\<lparr>ra_cnode_cap = cap, ra_cnode = cn, ra_meta = [m], ra_slab = sl', ra_is_head = True\<rparr>"
  have "range_slot_alloc_init (Ok (cap, cn)) malloc nslots = Ok (?a, L2_CNODE_SLOTS)"
    using sl(1) m(1) assms by (simp add: range_slot_alloc_init_def CNODE_META_SIZE_def Let_def L2_CNODE_SLOTS_def)
  moreover have "ra_ok ?a" using m(2-4) by (simp add: ra_ok_def nodes_step_def L2_CNODE_SLOTS_def)
  ultimately show ?thesis using m(2-4) sl(3)
    by (intro exI [of _ ?a]) (simp add: chain_ok_def meta_range_def nodes_step_def)
qed

lemma chain_slots_bound:
  assumes "list_all ra_ok chain" "slot_range c n \<subseteq> chain_free chain" "0 < n"
  shows "cap_slot c + n \<le> L2_CNODE_SLOTS" "cap_cnode c \<in> ra_cnode ` set chain"
proof -
  have "(cap_cnode c, cap_slot c + n - 1) \<in> slot_range c n" using assms(3) by (auto simp: slot_range_def)
  then have "(cap_cnode c, cap_slot c + n - 1) \<in> chain_free chain" using assms(2) by blast
  then obtain a m where a: "a \<in> set chain" "ra_cnode a = cap_cnode c" "m \<in> set (ra_meta a)" "cap_slot c + n - 1 \<in> meta_range m"
    by (auto simp: chain_free_def meta_set_def)
  moreover have "cm_slot m + cm_space m \<le> L2_CNODE_SLOTS"
    using a(1,3) assms(1) by (auto simp: list_all_iff ra_ok_def meta_below_def)
  ultimately show "cap_slot c + n \<le> L2_CNODE_SLOTS" "cap_cnode c \<in> ra_cnode ` set chain"
    by (auto simp: meta_range_def image_iff intro!: bexI [of _ a])
qed

text \<open>The free count visits the nodes of the first allocator once for every allocator of the chain.\<close>

lemma range_freecount_value:
  assumes "ra_is_head a"
  shows "range_slot_alloc_freecount code (a # as) = Suc (length as) * sum_list (map cm_space (ra_meta a))"
proof -
  have walk: "foldl (\<lambda>count walk. count + cm_space walk) k ms = k + sum_list (map cm_space ms)" for k and ms :: "cnode_meta list"
    by (induction ms arbitrary: k) auto
  have "foldl (\<lambda>count alloc_w. foldl (\<lambda>count walk. count + cm_space walk) count (ra_meta a)) k xs =
      k + length xs * sum_list (map cm_space (ra_meta a))" for k and xs :: "range_slot_allocator list"
    by (induction xs arbitrary: k) (auto simp: walk)
  from this [of 0 "a # as"] show ?thesis using assms by (simp add: range_slot_alloc_freecount_def)
qed

end
