(* ===== verification/Slot_Prealloc.thy ===== *)
theory Slot_Prealloc
  imports Slot_Range
begin

text \<open>
  The slot allocators that the memory manager uses, \<^verbatim>\<open>lib/mm/slot_alloc.c\<close>: the preallocating
  allocator with two cnodes, one in use and one in reserve, and the allocator for the base
  cnode. Counts are natural numbers: they never exceed the 256 slots of a cnode. Allocating
  memory, allocating a slot in the root cnode and creating a cnode are arguments. The flag
  \<open>spa_static_refilling\<close> is the static variable of the refill function, which calls the memory
  manager and is in the theory \<open>Mm_Refill\<close>.
\<close>

section \<open>The code\<close>

record prealloc_meta =
  pm_cap :: capref
  pm_free :: nat

record slot_prealloc =
  spa_meta0 :: prealloc_meta
  spa_meta1 :: prealloc_meta
  spa_current :: bool
  spa_is_refilling :: bool
  spa_static_refilling :: bool

text \<open>\<open>current\<close> is 0 or 1; \<open>True\<close> stands for 1.\<close>

definition spa_meta :: "slot_prealloc \<Rightarrow> bool \<Rightarrow> prealloc_meta" where
  "spa_meta sa i = (if i then spa_meta1 sa else spa_meta0 sa)"

definition spa_set_meta :: "bool \<Rightarrow> prealloc_meta \<Rightarrow> slot_prealloc \<Rightarrow> slot_prealloc" where
  "spa_set_meta i m sa = (if i then sa\<lparr>spa_meta1 := m\<rparr> else sa\<lparr>spa_meta0 := m\<rparr>)"

definition slot_prealloc_init :: "capref \<Rightarrow> nat \<Rightarrow> prealloc_meta \<Rightarrow> slot_prealloc outcome" where
  "slot_prealloc_init initial_cnode initial_space uninit =
     (if initial_space \<noteq> L2_CNODE_SLOTS then Abort
      else Ok \<lparr>spa_meta0 = \<lparr>pm_cap = initial_cnode, pm_free = initial_space\<rparr>,
               spa_meta1 = uninit\<lparr>pm_free := 0\<rparr>, spa_current = False, spa_is_refilling = False,
               spa_static_refilling = False\<rparr>)"

definition slot_alloc_prealloc :: "slot_prealloc \<Rightarrow> nat \<Rightarrow> capref outcome \<times> slot_prealloc" where
  "slot_alloc_prealloc sa nslots =
     (if L2_CNODE_SLOTS \<le> nslots then (Abort, sa)
      else let sa = (if pm_free (spa_meta sa (spa_current sa)) < nslots
                     then sa\<lparr>spa_current := \<not> spa_current sa\<rparr> else sa);
               m = spa_meta sa (spa_current sa)
           in if pm_free m < nslots then (Err MM_ERR_SLOT_NOSLOTS, sa)
              else (Ok (pm_cap m),
                spa_set_meta (spa_current sa)
                  \<lparr>pm_cap = (pm_cap m)\<lparr>cap_slot := cap_slot (pm_cap m) + nslots\<rparr>, pm_free = pm_free m - nslots\<rparr> sa))"

record slot_alloc_basecn =
  bcn_cap :: capref
  bcn_free :: nat

definition slot_alloc_basecn_init :: "cnoderef \<Rightarrow> slot_alloc_basecn" where
  "slot_alloc_basecn_init slot_alloc0 =
     \<lparr>bcn_cap = \<lparr>cap_cnode = slot_alloc0, cap_slot = 0\<rparr>, bcn_free = L2_CNODE_SLOTS\<rparr>"

definition slot_alloc_basecn ::
    "capref outcome \<Rightarrow> capref outcome \<Rightarrow> (capref \<Rightarrow> capref \<Rightarrow> cnoderef outcome) \<Rightarrow> slot_alloc_basecn \<Rightarrow> nat \<Rightarrow>
      (capref \<times> slot_alloc_basecn) outcome" where
  "slot_alloc_basecn ram_alloc slot_alloc_root cnode_create this nslots =
     bind_outcome
       (if bcn_free this < nslots then
          (case ram_alloc of
             Ok ram \<Rightarrow>
               (case slot_alloc_root of
                  Ok cnode_cap \<Rightarrow>
                    (case cnode_create cnode_cap ram of
                       Ok cnode \<Rightarrow> Ok \<lparr>bcn_cap = \<lparr>cap_cnode = cnode, cap_slot = 0\<rparr>, bcn_free = L2_CNODE_SLOTS\<rparr>
                     | Err _ \<Rightarrow> Err LIB_ERR_CNODE_CREATE
                     | Abort \<Rightarrow> Abort)
                | Err _ \<Rightarrow> Err LIB_ERR_SLOT_ALLOC
                | Abort \<Rightarrow> Abort)
           | Err _ \<Rightarrow> Err LIB_ERR_RAM_ALLOC
           | Abort \<Rightarrow> Abort)
        else Ok this)
       (\<lambda>this. if bcn_free this < nslots then Abort
          else Ok (bcn_cap this,
            this\<lparr>bcn_cap := (bcn_cap this)\<lparr>cap_slot := cap_slot (bcn_cap this) + nslots\<rparr>,
                 bcn_free := bcn_free this - nslots\<rparr>))"

text \<open>The instances for a chain of cnodes.\<close>

definition slot_alloc_dynamic :: "range_slot_allocator list \<Rightarrow> nat \<Rightarrow> (capref \<times> range_slot_allocator list) outcome" where
  "slot_alloc_dynamic alloc nslots = range_slot_alloc alloc nslots"

definition slot_refill_dynamic ::
    "(capref \<times> cnoderef) outcome \<Rightarrow> (nat \<Rightarrow> nat) \<Rightarrow> range_slot_allocator list \<Rightarrow> range_slot_allocator list outcome" where
  "slot_refill_dynamic cnode_create_l2 malloc alloc =
     range_slot_alloc_refill cnode_create_l2 malloc alloc L2_CNODE_SLOTS"

section \<open>The slots still to be handed out\<close>

definition pm_caps :: "prealloc_meta \<Rightarrow> capref set" where
  "pm_caps m = (\<lambda>s. \<lparr>cap_cnode = cap_cnode (pm_cap m), cap_slot = s\<rparr>) ` {cap_slot (pm_cap m)..<cap_slot (pm_cap m) + pm_free m}"

definition spa_inv :: "slot_prealloc \<Rightarrow> bool" where
  "spa_inv sa \<longleftrightarrow> cap_slot (pm_cap (spa_meta0 sa)) + pm_free (spa_meta0 sa) = L2_CNODE_SLOTS \<and>
     (pm_free (spa_meta1 sa) = 0 \<or>
      cap_slot (pm_cap (spa_meta1 sa)) + pm_free (spa_meta1 sa) = L2_CNODE_SLOTS \<and>
      cap_cnode (pm_cap (spa_meta0 sa)) \<noteq> cap_cnode (pm_cap (spa_meta1 sa)))"

definition spa_caps :: "slot_prealloc \<Rightarrow> capref set" where
  "spa_caps sa = pm_caps (spa_meta0 sa) \<union> pm_caps (spa_meta1 sa)"

definition spa_total :: "slot_prealloc \<Rightarrow> nat" where
  "spa_total sa = pm_free (spa_meta0 sa) + pm_free (spa_meta1 sa)"

text \<open>The block of \<open>n\<close> slots that starts at \<open>c\<close>.\<close>

definition cap_block :: "capref \<Rightarrow> nat \<Rightarrow> capref set" where
  "cap_block c n = (\<lambda>s. \<lparr>cap_cnode = cap_cnode c, cap_slot = s\<rparr>) ` {cap_slot c..<cap_slot c + n}"

lemma pm_caps_take:
  assumes "n \<le> pm_free m"
  shows "cap_block (pm_cap m) n \<subseteq> pm_caps m"
    and "pm_caps \<lparr>pm_cap = (pm_cap m)\<lparr>cap_slot := cap_slot (pm_cap m) + n\<rparr>, pm_free = pm_free m - n\<rparr> =
      pm_caps m - cap_block (pm_cap m) n"
  using assms by (auto simp: pm_caps_def cap_block_def image_iff)

lemma pm_caps_card: "card (pm_caps m) = pm_free m"
  unfolding pm_caps_def by (subst card_image) (auto simp: inj_on_def)

lemma spa_caps_meta: "spa_caps sa = pm_caps (spa_meta sa i) \<union> pm_caps (spa_meta sa (\<not> i))"
  by (auto simp: spa_caps_def spa_meta_def)

lemma spa_metas_disjoint:
  assumes "spa_inv sa" "0 < pm_free (spa_meta sa i)"
  shows "pm_caps (spa_meta sa i) \<inter> pm_caps (spa_meta sa (\<not> i)) = {}"
  using assms by (auto simp: spa_inv_def spa_meta_def pm_caps_def split: if_splits)

lemma spa_set_meta_simps [simp]:
  "spa_meta (spa_set_meta i m sa) i = m" "spa_meta (spa_set_meta i m sa) (\<not> i) = spa_meta sa (\<not> i)"
  "spa_current (spa_set_meta i m sa) = spa_current sa"
  by (simp_all add: spa_meta_def spa_set_meta_def)

lemma spa_meta_current [simp]: "spa_meta (sa\<lparr>spa_current := b\<rparr>) i = spa_meta sa i"
  by (simp add: spa_meta_def)

text \<open>
  An allocation takes the next slots of the cnode in use, or of the reserve; it fails only
  when neither has enough.
\<close>

lemma slot_alloc_prealloc_take:
  assumes "spa_inv sa" "n < L2_CNODE_SLOTS" "0 < n" "n \<le> pm_free (spa_meta sa i)"
    "sa1 = (if pm_free (spa_meta sa (spa_current sa)) < n then sa\<lparr>spa_current := \<not> spa_current sa\<rparr> else sa)"
    "spa_current sa1 = i"
  shows "\<exists>sa'. slot_alloc_prealloc sa n = (Ok (pm_cap (spa_meta sa i)), sa') \<and>
    cap_block (pm_cap (spa_meta sa i)) n \<subseteq> spa_caps sa \<and> spa_caps sa' = spa_caps sa - cap_block (pm_cap (spa_meta sa i)) n \<and>
    spa_inv sa' \<and> spa_total sa' + n = spa_total sa"
proof -
  let ?m = "spa_meta sa i"
  let ?m' = "\<lparr>pm_cap = (pm_cap ?m)\<lparr>cap_slot := cap_slot (pm_cap ?m) + n\<rparr>, pm_free = pm_free ?m - n\<rparr>"
  let ?sa = "spa_set_meta i ?m' sa1"
  have meta1: "spa_meta sa1 j = spa_meta sa j" for j using assms(5) by simp
  have "slot_alloc_prealloc sa n = (Ok (pm_cap ?m), ?sa)"
    using assms(2,4-6) by (auto simp: slot_alloc_prealloc_def Let_def)
  moreover have "cap_block (pm_cap ?m) n \<subseteq> spa_caps sa"
    using pm_caps_take(1) [OF assms(4)] spa_caps_meta [of sa i] by blast
  moreover have "spa_caps ?sa = spa_caps sa - cap_block (pm_cap ?m) n"
  proof -
    have "pm_caps (spa_meta sa (\<not> i)) \<inter> cap_block (pm_cap ?m) n = {}"
      using spa_metas_disjoint [OF assms(1), of i] assms(3,4) pm_caps_take(1) [OF assms(4)] by auto
    then show ?thesis
      using pm_caps_take(2) [OF assms(4)] spa_caps_meta [of ?sa i] spa_caps_meta [of sa i] meta1 by auto
  qed
  moreover have "spa_inv ?sa" "spa_total ?sa + n = spa_total sa"
    using assms(1,4) meta1 [of True] meta1 [of False]
    by (auto simp: spa_inv_def spa_total_def spa_set_meta_def spa_meta_def)
  ultimately show ?thesis by blast
qed

lemma slot_alloc_prealloc_ok:
  assumes "spa_inv sa" "n < L2_CNODE_SLOTS" "0 < n"
  shows "if n \<le> pm_free (spa_meta0 sa) \<or> n \<le> pm_free (spa_meta1 sa)
    then (\<exists>c sa'. slot_alloc_prealloc sa n = (Ok c, sa') \<and> cap_block c n \<subseteq> spa_caps sa \<and>
      spa_caps sa' = spa_caps sa - cap_block c n \<and> spa_inv sa' \<and> spa_total sa' + n = spa_total sa)
    else fst (slot_alloc_prealloc sa n) = Err MM_ERR_SLOT_NOSLOTS"
proof (cases "n \<le> pm_free (spa_meta sa (spa_current sa))")
  case True
  then show ?thesis
    using slot_alloc_prealloc_take [OF assms, of "spa_current sa" sa] by (auto simp: spa_meta_def split: if_splits)
next
  case False
  show ?thesis
  proof (cases "n \<le> pm_free (spa_meta sa (\<not> spa_current sa))")
    case True
    then show ?thesis
      using slot_alloc_prealloc_take [OF assms, of "\<not> spa_current sa" "sa\<lparr>spa_current := \<not> spa_current sa\<rparr>"] False
      by (auto simp: spa_meta_def split: if_splits)
  next
    case neither: False
    then show ?thesis using False assms(2)
      by (auto simp: slot_alloc_prealloc_def Let_def spa_meta_def split: if_splits)
  qed
qed

end
