(* ===== verification/Mm.thy ===== *)
theory Mm
  imports Slot_Prealloc
begin

text \<open>
  The physical memory manager, \<^verbatim>\<open>lib/mm/mm.c\<close>. The doubly linked list of regions is the list of
  its nodes in order; a node carries the address of its slab block, by which the code's
  pointers refer to it. Physical addresses and region sizes are 64-bit words, the requested
  size and alignment 32-bit words (\<open>size_t\<close>), with the conversions of the C code. A failed
  \<open>CHECK\<close> aborts. Arguments stand for what the manager calls: the refill functions of the slab
  and slot allocator, which may call the manager again and therefore map one state of the
  manager to another, the kernel's answer to a retype (\<open>None\<close> for success), and the address and
  size the kernel reports for the capability of a node. The base and size copied into the node's capability record are only
  written and are left out; \<open>None\<close> is a capability that has not been stored.
\<close>

section \<open>State\<close>

datatype nodetype = NodeType_Free | NodeType_Allocated | NodeType_Wasted

record mmnode =
  mn_addr :: nat
  mn_type :: nodetype
  mn_cap :: "capref option"
  mn_base :: u64
  mn_size :: u64

record mm =
  mm_slabs :: slab_allocator
  mm_slot_inst :: slot_prealloc
  mm_head :: "mmnode list"
  refilling_slabs :: bool
  initial_base :: u64
  ram_cap :: "capref option"

text \<open>The function pointers of a manager and the kernel.\<close>

record mm_env =
  slab_refill :: "mm \<Rightarrow> mm outcome"
  slot_refill :: "mm \<Rightarrow> mm outcome"
  cap_retype :: "mm \<Rightarrow> u64 \<Rightarrow> u64 \<Rightarrow> errval option"
  frame_identify :: "mmnode \<Rightarrow> u64 \<times> u64"

definition mm_check :: "'a outcome \<Rightarrow> 'a outcome" where
  "mm_check r = (case r of Ok x \<Rightarrow> Ok x | _ \<Rightarrow> Abort)"

section \<open>The list of regions\<close>

text \<open>
  The node is allocated by \<open>slab_alloc\<close>, which refills the slabs when none is free; without a
  block it returns \<open>NULL\<close>, which the code dereferences.
\<close>

definition mm_create_node :: "mm_env \<Rightarrow> mm \<Rightarrow> nodetype \<Rightarrow> u64 \<Rightarrow> u64 \<Rightarrow> (mmnode \<times> mm) outcome" where
  "mm_create_node env mm typ base sz =
     bind_outcome (if slab_has_free (mm_slabs mm) then Ok mm else mm_check (slab_refill env mm))
       (\<lambda>mm. bind_outcome (slab_get None (mm_slabs mm))
         (\<lambda>(a, slabs). Ok (\<lparr>mn_addr = a, mn_type = typ, mn_cap = None, mn_base = base, mn_size = sz\<rparr>,
            mm\<lparr>mm_slabs := slabs\<rparr>)))"

text \<open>The search for the place of a region: the nodes before it and from it on.\<close>

fun mmnode_place :: "u64 \<Rightarrow> u64 \<Rightarrow> mmnode list \<Rightarrow> mmnode list \<Rightarrow> (mmnode list \<times> mmnode list) outcome" where
  "mmnode_place base sz pre [] = Ok (pre, [])"
| "mmnode_place base sz pre (cur # rest) =
     (if base < mn_base cur then
        if mn_base cur < base + sz then Err MM_ERR_ALREADY_ALLOCATED else Ok (pre, cur # rest)
      else if base < mn_base cur + mn_size cur then Err MM_ERR_ALREADY_ALLOCATED
      else mmnode_place base sz (pre @ [cur]) rest)"

definition mm_mmnode_add :: "mm_env \<Rightarrow> mm \<Rightarrow> u64 \<Rightarrow> u64 \<Rightarrow> (mmnode \<times> mm) outcome" where
  "mm_mmnode_add env mm base sz =
     bind_outcome (mmnode_place base sz [] (mm_head mm))
       (\<lambda>(pre, post). bind_outcome (mm_create_node env mm NodeType_Free base sz)
          (\<lambda>(new, mm). Ok (new, mm\<lparr>mm_head := pre @ new # post\<rparr>)))"

text \<open>The nodes before, at and after the node of a pointer.\<close>

fun node_split :: "nat \<Rightarrow> mmnode list \<Rightarrow> mmnode list \<Rightarrow> (mmnode list \<times> mmnode \<times> mmnode list) option" where
  "node_split a pre [] = None"
| "node_split a pre (n # ns) = (if mn_addr n = a then Some (pre, n, ns) else node_split a (pre @ [n]) ns)"

definition mm_mmnode_remove :: "mm \<Rightarrow> nat \<Rightarrow> mm outcome" where
  "mm_mmnode_remove mm a =
     (case node_split a [] (mm_head mm) of
        None \<Rightarrow> Abort
      | Some (pre, n, post) \<Rightarrow>
          bind_outcome (slab_free (mm_slabs mm) a)
            (\<lambda>slabs. Ok (mm\<lparr>mm_head := pre @ post, mm_slabs := slabs\<rparr>)))"

definition upd_node :: "nat \<Rightarrow> (mmnode \<Rightarrow> mmnode) \<Rightarrow> mm \<Rightarrow> mm" where
  "upd_node a f mm = mm\<lparr>mm_head := map (\<lambda>n. if mn_addr n = a then f n else n) (mm_head mm)\<rparr>"

definition mm_mmnode_merge :: "mm \<Rightarrow> mmnode \<Rightarrow> mmnode \<Rightarrow> mm outcome" where
  "mm_mmnode_merge mm fst_node snd_node =
     (let mm = upd_node (mn_addr fst_node) (\<lambda>n. n\<lparr>mn_size := mn_size n + mn_size snd_node\<rparr>) mm
      in mm_check (mm_mmnode_remove mm (mn_addr snd_node)))"

text \<open>The distance from an address to the next multiple of the alignment.\<close>

definition align_dif :: "u64 \<Rightarrow> u32 \<Rightarrow> u32" where
  "align_dif base alignment =
     (let dif = ucast (base mod ucast alignment) in if 0 < dif then alignment - dif else dif)"

fun mmnode_find :: "u32 \<Rightarrow> u32 \<Rightarrow> mmnode list \<Rightarrow> mmnode outcome" where
  "mmnode_find sz alignment [] = Err MM_ERR_NOT_FOUND"
| "mmnode_find sz alignment (n # ns) =
     (if alignment = 0 then Abort
      else if mn_type n = NodeType_Free \<and> ucast (sz + align_dif (mn_base n) alignment) \<le> mn_size n then Ok n
      else mmnode_find sz alignment ns)"

definition mm_mmnode_find :: "mm \<Rightarrow> u32 \<Rightarrow> u32 \<Rightarrow> mmnode outcome" where
  "mm_mmnode_find mm sz alignment = mmnode_find sz alignment (mm_head mm)"

section \<open>Slots\<close>

definition mm_slot_alloc :: "mm_env \<Rightarrow> mm \<Rightarrow> nat \<Rightarrow> (capref \<times> mm) outcome" where
  "mm_slot_alloc env mm slots =
     (let sa = mm_slot_inst mm in
      bind_outcome
        (if pm_free (spa_meta0 sa) < 4 \<and> pm_free (spa_meta1 sa) < 4 \<and> \<not> spa_is_refilling sa
         then bind_outcome (mm_check (slot_refill env (mm\<lparr>mm_slot_inst := sa\<lparr>spa_is_refilling := True\<rparr>\<rparr>)))
           (\<lambda>mm. Ok (mm\<lparr>mm_slot_inst := (mm_slot_inst mm)\<lparr>spa_is_refilling := False\<rparr>\<rparr>))
         else Ok mm)
        (\<lambda>mm. case slot_alloc_prealloc (mm_slot_inst mm) slots of
                (Ok c, sa) \<Rightarrow> Ok (c, mm\<lparr>mm_slot_inst := sa\<rparr>)
              | _ \<Rightarrow> Abort))"

section \<open>The operations\<close>

text \<open>\<open>node_size\<close> is the size of a node; two fields are not initialised.\<close>

definition mm_init :: "nat \<Rightarrow> slot_prealloc \<Rightarrow> u64 \<Rightarrow> capref option \<Rightarrow> mm" where
  "mm_init node_size slot_alloc_inst uninit_base uninit_cap =
     \<lparr>mm_slabs = slab_init node_size, mm_slot_inst = slot_alloc_inst, mm_head = [], refilling_slabs = False,
      initial_base = uninit_base, ram_cap = uninit_cap\<rparr>"

fun mm_destroy_nodes :: "mmnode list \<Rightarrow> mm \<Rightarrow> mm outcome" where
  "mm_destroy_nodes [] mm = Ok mm"
| "mm_destroy_nodes (n # ns) mm = bind_outcome (mm_mmnode_remove mm (mn_addr n)) (mm_destroy_nodes ns)"

definition mm_destroy :: "mm \<Rightarrow> mm outcome" where
  "mm_destroy mm = mm_destroy_nodes (mm_head mm) mm"

definition mm_add :: "mm_env \<Rightarrow> mm \<Rightarrow> capref \<Rightarrow> u64 \<Rightarrow> u64 \<Rightarrow> mm outcome" where
  "mm_add env mm cap base sz =
     bind_outcome (mm_check (mm_mmnode_add env mm base sz))
       (\<lambda>(node, mm). bind_outcome (mm_check (mm_slot_alloc env (mm\<lparr>initial_base := base\<rparr>) 1))
          (\<lambda>(c, mm).
             let mm = (upd_node (mn_addr node) (\<lambda>n. n\<lparr>mn_cap := Some c\<rparr>) mm)\<lparr>ram_cap := Some cap\<rparr>
             in case cap_retype env mm 0 sz of None \<Rightarrow> Ok mm | Some _ \<Rightarrow> Abort))"

definition PAGE :: u32 where "PAGE = 4096"

definition round_up_page :: "u32 \<Rightarrow> u32" where
  "round_up_page n = (if n mod PAGE \<noteq> 0 then n + (PAGE - n mod PAGE) else n)"

definition mm_slab_refill :: "mm_env \<Rightarrow> mm \<Rightarrow> mm outcome" where
  "mm_slab_refill env mm =
     (if slab_freecount (mm_slabs mm) < 4 \<and> \<not> refilling_slabs mm
      then bind_outcome (mm_check (slab_refill env (mm\<lparr>refilling_slabs := True\<rparr>)))
        (\<lambda>mm. Ok (mm\<lparr>refilling_slabs := False\<rparr>))
      else Ok mm)"

text \<open>Cutting the requested region out of the node that was found: the node of the region.\<close>

definition mm_split :: "mm_env \<Rightarrow> mm \<Rightarrow> mmnode \<Rightarrow> u32 \<Rightarrow> u32 \<Rightarrow> (mmnode \<times> mm) outcome" where
  "mm_split env mm node sz alignment =
     (let dif = align_dif (mn_base node) alignment in
      if mn_size node < ucast (sz + dif) then Abort
      else bind_outcome
        (if dif \<noteq> 0 then
           let node = node\<lparr>mn_size := mn_size node - ucast dif, mn_base := mn_base node + ucast dif\<rparr>;
               mm = upd_node (mn_addr node) (\<lambda>_. node) mm
           in bind_outcome (mm_check (mm_mmnode_add env mm (mn_base node - ucast dif) (ucast dif)))
             (\<lambda>(_, mm). Ok (node, mm))
         else Ok (node, mm))
        (\<lambda>(node, mm).
           if ucast sz < mn_size node then
             let orig_node_base = mn_base node;
                 node = node\<lparr>mn_size := mn_size node - ucast sz, mn_base := mn_base node + ucast sz\<rparr>;
                 mm = upd_node (mn_addr node) (\<lambda>_. node) mm
             in mm_check (mm_mmnode_add env mm orig_node_base (ucast sz))
           else Ok (node, mm)))"

text \<open>
  One attempt up to the retype: the node of the region and the slot for its capability. The
  node is read again after the slot allocation, which may have called the manager.
\<close>

definition mm_attempt :: "mm_env \<Rightarrow> mm \<Rightarrow> u32 \<Rightarrow> u32 \<Rightarrow> (mmnode \<times> capref \<times> mm) outcome" where
  "mm_attempt env mm sz alignment =
     bind_outcome (mm_slab_refill env mm)
       (\<lambda>mm. bind_outcome (mm_check (mm_mmnode_find mm sz alignment))
         (\<lambda>node. if mn_type node \<noteq> NodeType_Free then Abort
            else bind_outcome (mm_split env mm node sz alignment)
              (\<lambda>(new_node, mm). bind_outcome (mm_check (mm_slot_alloc env mm 1))
                (\<lambda>(c, mm). case node_split (mn_addr new_node) [] (mm_head mm) of
                     None \<Rightarrow> Abort
                   | Some (_, new_node, _) \<Rightarrow>
                       Ok (new_node, c, upd_node (mn_addr new_node) (\<lambda>n. n\<lparr>mn_cap := Some c\<rparr>) mm)))))"

text \<open>
  The allocation, which starts again when the kernel refuses to retype the region because it
  still has descendants. \<open>fuel\<close> bounds the number of attempts; \<open>None\<close> means that it ran out.
\<close>

fun mm_alloc_aligned :: "nat \<Rightarrow> mm_env \<Rightarrow> mm \<Rightarrow> u32 \<Rightarrow> u32 \<Rightarrow> (capref \<times> mm) outcome option" where
  "mm_alloc_aligned 0 env mm orig_size orig_alignment = None"
| "mm_alloc_aligned (Suc fuel) env mm orig_size orig_alignment =
     (let alignment = round_up_page (if orig_alignment = 0 then PAGE else orig_alignment);
          sz = round_up_page orig_size
      in case mm_attempt env mm sz alignment of
           Ok (new_node, c, mm) \<Rightarrow>
             if cap_retype env mm (mn_base new_node - initial_base mm) (ucast sz) = Some SYS_ERR_REVOKE_FIRST
             then mm_alloc_aligned fuel env (upd_node (mn_addr new_node) (\<lambda>n. n\<lparr>mn_type := NodeType_Wasted\<rparr>) mm)
               orig_size orig_alignment
             else Some (Ok (c, upd_node (mn_addr new_node) (\<lambda>n. n\<lparr>mn_type := NodeType_Allocated\<rparr>) mm))
         | Err e \<Rightarrow> Some (Err e)
         | Abort \<Rightarrow> Some Abort)"

definition mm_alloc :: "nat \<Rightarrow> mm_env \<Rightarrow> mm \<Rightarrow> u32 \<Rightarrow> (capref \<times> mm) outcome option" where
  "mm_alloc fuel env mm sz = mm_alloc_aligned fuel env mm sz PAGE"

text \<open>
  Releasing a node and joining it with its free neighbours. Revoking and destroying the
  capabilities happens in the kernel, and the code ignores the results.
\<close>

definition mm_release :: "mm \<Rightarrow> mmnode list \<Rightarrow> mmnode \<Rightarrow> mmnode list \<Rightarrow> mm outcome" where
  "mm_release mm pre node post =
     (let mm = upd_node (mn_addr node) (\<lambda>n. n\<lparr>mn_type := NodeType_Free\<rparr>) mm
      in bind_outcome
           (case post of
              nxt # _ \<Rightarrow> if mn_type nxt = NodeType_Free then mm_mmnode_merge mm node nxt else Ok mm
            | [] \<Rightarrow> Ok mm)
           (\<lambda>mm. if pre \<noteq> [] \<and> mn_type (last pre) = NodeType_Free
              then case node_split (mn_addr node) [] (mm_head mm) of
                     Some (_, node, _) \<Rightarrow> mm_mmnode_merge mm (last pre) node
                   | None \<Rightarrow> Abort
              else Ok mm))"

definition PAGE64 :: u64 where "PAGE64 = 4096"

fun mm_free_search :: "(mmnode \<Rightarrow> u64 \<times> u64) \<Rightarrow> mm \<Rightarrow> u64 \<Rightarrow> u64 \<Rightarrow> mmnode list \<Rightarrow> mmnode list \<Rightarrow> mm outcome" where
  "mm_free_search region mm base sz pre [] = Err MM_ERR_NOT_FOUND"
| "mm_free_search region mm base sz pre (node # post) =
     (if fst (region node) = base \<and> snd (region node) - sz \<le> PAGE64 then mm_release mm pre node post
      else mm_free_search region mm base sz (pre @ [node]) post)"

definition re_search_free :: "mm_env \<Rightarrow> mm \<Rightarrow> u64 \<Rightarrow> u64 \<Rightarrow> mm outcome" where
  "re_search_free env mm base sz = mm_free_search (frame_identify env) mm base sz [] (mm_head mm)"

definition mm_free :: "mm_env \<Rightarrow> mm \<Rightarrow> u64 \<Rightarrow> u64 \<Rightarrow> mm outcome" where
  "mm_free env mm base sz =
     (case mm_free_search (\<lambda>n. (mn_base n, mn_size n)) mm base sz [] (mm_head mm) of
        Err _ \<Rightarrow> (case re_search_free env mm base sz of Ok mm \<Rightarrow> Ok mm | Err _ \<Rightarrow> Err MM_ERR_MM_FREE | Abort \<Rightarrow> Abort)
      | r \<Rightarrow> r)"

end
