(* ===== verification/Mm_Lemmas.thy ===== *)
theory Mm_Lemmas
  imports Mm
begin

text \<open>
  The invariant of the memory manager: the nodes tile the region it was given, and each node
  is a block of its slab allocator. The lemmas give the effect of the list operations, of
  cutting a region out of a free node and of releasing a node, as changes of the tiling.
\<close>

section \<open>Tilings\<close>

definition nd_lo :: "mmnode \<Rightarrow> nat" where "nd_lo n = unat (mn_base n)"
definition nd_hi :: "mmnode \<Rightarrow> nat" where "nd_hi n = unat (mn_base n) + unat (mn_size n)"
definition nd_range :: "mmnode \<Rightarrow> nat set" where "nd_range n = {nd_lo n..<nd_hi n}"

fun tiles :: "nat \<Rightarrow> mmnode list \<Rightarrow> nat \<Rightarrow> bool" where
  "tiles lo [] hi \<longleftrightarrow> lo = hi"
| "tiles lo (n # ns) hi \<longleftrightarrow> nd_lo n = lo \<and> lo < nd_hi n \<and> tiles (nd_hi n) ns hi"

lemma tiles_append: "tiles lo (xs @ ys) hi \<longleftrightarrow> (\<exists>mid. tiles lo xs mid \<and> tiles mid ys hi)"
  by (induction xs arbitrary: lo) auto

lemma tiles_le: "tiles lo ns hi \<Longrightarrow> lo \<le> hi"
  by (induction ns arbitrary: lo) fastforce+

lemma tiles_bounds: "tiles lo ns hi \<Longrightarrow> n \<in> set ns \<Longrightarrow> lo \<le> nd_lo n \<and> nd_lo n < nd_hi n \<and> nd_hi n \<le> hi"
proof (induction ns arbitrary: lo)
  case (Cons a ns)
  then show ?case using Cons.IH [of "nd_hi a"] tiles_le [of "nd_hi a" ns hi] by force
qed simp

lemma tiles_cover: "tiles lo ns hi \<Longrightarrow> (\<Union>n \<in> set ns. nd_range n) = {lo..<hi}"
proof (induction ns arbitrary: lo)
  case (Cons a ns)
  then have "(\<Union>n \<in> set ns. nd_range n) = {nd_hi a..<hi}" "nd_hi a \<le> hi" using tiles_le by auto
  then show ?case using Cons.prems by (auto simp: nd_range_def)
qed simp

lemma tiles_disjoint:
  "tiles lo ns hi \<Longrightarrow> sorted_wrt (\<lambda>m n. nd_range m \<inter> nd_range n = {}) ns"
proof (induction ns arbitrary: lo)
  case (Cons a ns)
  have "nd_range a \<inter> nd_range n = {}" if "n \<in> set ns" for n
    using tiles_bounds [of "nd_hi a" ns hi n] Cons.prems that by (auto simp: nd_range_def)
  then show ?case using Cons.prems Cons.IH [of "nd_hi a"] by simp
qed simp

text \<open>The memory of the nodes of one type.\<close>

definition mem_of :: "nodetype \<Rightarrow> mmnode list \<Rightarrow> nat set" where
  "mem_of t ns = (\<Union>n \<in> {n \<in> set ns. mn_type n = t}. nd_range n)"

lemma mem_of_simps [simp]:
  "mem_of t [] = {}" "mem_of t (n # ns) = (if mn_type n = t then nd_range n else {}) \<union> mem_of t ns"
  "mem_of t (ms @ ns) = mem_of t ms \<union> mem_of t ns"
  by (auto simp: mem_of_def)

lemma mem_of_bounds: "tiles lo ns hi \<Longrightarrow> mem_of t ns \<subseteq> {lo..<hi}"
  using tiles_cover [of lo ns hi] by (auto simp: mem_of_def)

section \<open>The invariant\<close>

text \<open>The slab allocator of the nodes; a page holds the header of a slab and at least four nodes.\<close>

definition node_slab :: "slab_allocator \<Rightarrow> bool" where
  "node_slab sl \<longleftrightarrow> slab_inv sl \<and> SLAB_HEAD_SIZE + 4 * blocksize sl \<le> BASE_PAGE_SIZE"

interpretation node_pool: resource_pool node_slab slab_used slab_freecount "slab_get r" slab_free for r
proof
  fix p
  assume "node_slab p" "0 < slab_freecount p"
  then show "\<exists>b p'. slab_get r p = Ok (b, p') \<and> b \<notin> slab_used p \<and> node_slab p' \<and>
      slab_used p' = insert b (slab_used p) \<and> Suc (slab_freecount p') = slab_freecount p"
    using slab_alloc_ok [of p r] by (auto simp: slab_get_def node_slab_def)
next
  fix p b
  assume "node_slab p" "b \<in> slab_used p"
  then show "\<exists>p'. slab_free p b = Ok p' \<and> node_slab p' \<and> slab_used p' = slab_used p - {b} \<and>
      slab_freecount p' = Suc (slab_freecount p)"
    using slab_free_ok [of p b] unfolding node_slab_def by metis
qed

definition blocks_ok :: "slab_allocator \<Rightarrow> mmnode list \<Rightarrow> bool" where
  "blocks_ok sl ns \<longleftrightarrow> node_slab sl \<and> distinct (map mn_addr ns) \<and> mn_addr ` set ns \<subseteq> slab_used sl"

definition mm_inv :: "nat \<Rightarrow> nat \<Rightarrow> mm \<Rightarrow> bool" where
  "mm_inv lo hi mm \<longleftrightarrow> tiles lo (mm_head mm) hi \<and> hi < 2 ^ 64 \<and> blocks_ok (mm_slabs mm) (mm_head mm) \<and>
     spa_inv (mm_slot_inst mm)"

lemma upd_node_at:
  assumes "mm_head mm = pre @ n # post" "distinct (map mn_addr (mm_head mm))"
  shows "upd_node (mn_addr n) f mm = mm\<lparr>mm_head := pre @ f n # post\<rparr>"
proof -
  have "map (\<lambda>m. if mn_addr m = mn_addr n then f m else m) xs = xs" if "mn_addr n \<notin> mn_addr ` set xs" for xs
    using that by (intro map_idI) (metis image_eqI)
  then show ?thesis using assms by (simp add: upd_node_def)
qed

lemma node_split_at:
  "mn_addr n \<notin> mn_addr ` set pre \<Longrightarrow> node_split (mn_addr n) ps (pre @ n # post) = Some (ps @ pre, n, post)"
  by (induction pre arbitrary: ps) auto

lemma blocks_ok_upd:
  "blocks_ok sl (pre @ n # post) \<Longrightarrow> mn_addr n' = mn_addr n \<Longrightarrow> blocks_ok sl (pre @ n' # post)"
  by (auto simp: blocks_ok_def)

section \<open>Adding and removing a node\<close>

lemma mmnode_place_at:
  assumes "\<And>n. n \<in> set pre \<Longrightarrow> nd_hi n \<le> unat base \<and> nd_hi n < 2 ^ 64"
    "post = [] \<or> unat base + unat sz = nd_lo (hd post) \<and> 0 < unat sz"
  shows "mmnode_place base sz ps (pre @ post) = Ok (ps @ pre, post)"
  using assms(1)
proof (induction pre arbitrary: ps)
  case Nil
  show ?case
  proof (cases post)
    case (Cons p post')
    have "unat base + unat sz = unat (mn_base p)" "0 < unat sz" using assms(2) Cons by (auto simp: nd_lo_def)
    moreover from this have "unat (base + sz) = unat (mn_base p)" using unat_exp_less [of "mn_base p"] by (simp add: unat_word_ariths)
    ultimately show ?thesis using Cons by (simp add: word_less_nat_alt)
  qed simp
next
  case (Cons n pre)
  have "unat (mn_base n) + unat (mn_size n) \<le> unat base" "unat (mn_base n) + unat (mn_size n) < 2 ^ 64"
    using Cons.prems [of n] by (simp_all add: nd_hi_def)
  then have "\<not> base < mn_base n" "\<not> base < mn_base n + mn_size n"
    using unat_plus_less [of "mn_base n" "mn_size n"] by (simp_all add: word_less_nat_alt)
  then show ?case using Cons by simp
qed

lemma mm_mmnode_add_ok:
  assumes "mm_head mm = pre @ post" "blocks_ok (mm_slabs mm) (pre @ post)" "0 < slab_freecount (mm_slabs mm)"
    "\<And>n. n \<in> set pre \<Longrightarrow> nd_hi n \<le> unat base \<and> nd_hi n < 2 ^ 64"
    "post = [] \<or> unat base + unat sz = nd_lo (hd post) \<and> 0 < unat sz"
  shows "\<exists>new sl. mm_mmnode_add env mm base sz = Ok (new, mm\<lparr>mm_slabs := sl, mm_head := pre @ new # post\<rparr>) \<and>
    mn_base new = base \<and> mn_size new = sz \<and> mn_type new = NodeType_Free \<and> mn_cap new = None \<and>
    blocks_ok sl (pre @ new # post) \<and> Suc (slab_freecount sl) = slab_freecount (mm_slabs mm)"
proof -
  obtain a sl where a: "slab_get None (mm_slabs mm) = Ok (a, sl)" "a \<notin> slab_used (mm_slabs mm)"
    "node_slab sl" "slab_used sl = insert a (slab_used (mm_slabs mm))" "Suc (slab_freecount sl) = slab_freecount (mm_slabs mm)"
    using node_pool.alloc_ok [of "mm_slabs mm" None] assms(2,3) by (auto simp: blocks_ok_def)
  let ?new = "\<lparr>mn_addr = a, mn_type = NodeType_Free, mn_cap = None, mn_base = base, mn_size = sz\<rparr>"
  have "mmnode_place base sz [] (mm_head mm) = Ok (pre, post)"
    using mmnode_place_at [OF assms(4,5), where ps = "[]"] assms(1) by simp
  then have "mm_mmnode_add env mm base sz = Ok (?new, mm\<lparr>mm_slabs := sl, mm_head := pre @ ?new # post\<rparr>)"
    using a(1) assms(3) by (simp add: mm_mmnode_add_def mm_create_node_def slab_has_free_count)
  moreover have "a \<notin> mn_addr ` set (pre @ post)" using a(2) assms(2) unfolding blocks_ok_def by blast
  then have "blocks_ok sl (pre @ ?new # post)"
    using a(3) assms(2) unfolding blocks_ok_def a(4) by auto
  ultimately show ?thesis using a(5) by (intro exI [of _ ?new] exI [of _ sl]) simp
qed

lemma mm_mmnode_remove_ok:
  assumes "mm_head mm = pre @ n # post" "blocks_ok (mm_slabs mm) (pre @ n # post)"
  shows "\<exists>sl. mm_mmnode_remove mm (mn_addr n) = Ok (mm\<lparr>mm_head := pre @ post, mm_slabs := sl\<rparr>) \<and>
    blocks_ok sl (pre @ post) \<and> slab_freecount sl = Suc (slab_freecount (mm_slabs mm))"
proof -
  obtain sl where sl: "slab_free (mm_slabs mm) (mn_addr n) = Ok sl" "node_slab sl"
    "slab_used sl = slab_used (mm_slabs mm) - {mn_addr n}" "slab_freecount sl = Suc (slab_freecount (mm_slabs mm))"
    using node_pool.release_ok [of "mm_slabs mm" "mn_addr n"] assms(2) by (auto simp: blocks_ok_def)
  have "node_split (mn_addr n) [] (mm_head mm) = Some (pre, n, post)"
    using node_split_at [of n pre "[]" post] assms by (auto simp: blocks_ok_def)
  moreover have "mn_addr n \<notin> mn_addr ` set (pre @ post)" "distinct (map mn_addr (pre @ post))"
      "mn_addr ` set (pre @ post) \<subseteq> slab_used (mm_slabs mm)"
    using assms(2) unfolding blocks_ok_def by (simp_all add: image_Un)
  then have "blocks_ok sl (pre @ post)" unfolding blocks_ok_def sl(3) using sl(2)
    by (simp add: subset_Diff_insert)
  ultimately show ?thesis using sl(1,4) by (intro exI [of _ sl]) (simp add: mm_mmnode_remove_def)
qed

lemma mm_mmnode_merge_ok:
  assumes "mm_head mm = pre @ n # m # post" "blocks_ok (mm_slabs mm) (pre @ n # m # post)"
  shows "\<exists>sl. mm_mmnode_merge mm n m =
      Ok (mm\<lparr>mm_head := pre @ n\<lparr>mn_size := mn_size n + mn_size m\<rparr> # post, mm_slabs := sl\<rparr>) \<and>
    blocks_ok sl (pre @ n\<lparr>mn_size := mn_size n + mn_size m\<rparr> # post)"
proof -
  let ?n = "n\<lparr>mn_size := mn_size n + mn_size m\<rparr>"
  let ?mm = "mm\<lparr>mm_head := pre @ ?n # m # post\<rparr>"
  have "upd_node (mn_addr n) (\<lambda>n. n\<lparr>mn_size := mn_size n + mn_size m\<rparr>) mm = ?mm"
    using upd_node_at [of mm pre n "m # post"] assms by (simp add: blocks_ok_def)
  moreover have "blocks_ok (mm_slabs ?mm) ((pre @ [?n]) @ m # post)" using assms(2) by (auto simp: blocks_ok_def)
  then obtain sl where "mm_mmnode_remove ?mm (mn_addr m) = Ok (?mm\<lparr>mm_head := (pre @ [?n]) @ post, mm_slabs := sl\<rparr>)"
    "blocks_ok sl ((pre @ [?n]) @ post)"
    using mm_mmnode_remove_ok [of ?mm "pre @ [?n]" m post] by auto
  ultimately show ?thesis by (intro exI [of _ sl]) (simp add: mm_mmnode_merge_def mm_check_def)
qed

section \<open>Cutting a node\<close>

text \<open>A node gives its first \<open>k\<close> bytes to a new node before it.\<close>

definition cut_node :: "mmnode \<Rightarrow> u64 \<Rightarrow> mmnode" where
  "cut_node node k = node\<lparr>mn_size := mn_size node - k, mn_base := mn_base node + k\<rparr>"

lemma cut_node_range:
  assumes "nd_hi node < 2 ^ 64" "k < mn_size node"
  shows "nd_lo (cut_node node k) = nd_lo node + unat k" "nd_hi (cut_node node k) = nd_hi node"
    "mn_addr (cut_node node k) = mn_addr node" "mn_type (cut_node node k) = mn_type node"
proof -
  have k: "unat k < unat (mn_size node)" using assms(2) by (simp add: word_less_nat_alt)
  have "unat (mn_base node + k) = unat (mn_base node) + unat k"
    using k assms(1) by (intro unat_plus_less) (simp add: nd_hi_def)
  moreover have "unat (mn_size node - k) = unat (mn_size node) - unat k"
    using assms(2) by (intro unat_minus_le) simp
  ultimately show "nd_lo (cut_node node k) = nd_lo node + unat k" "nd_hi (cut_node node k) = nd_hi node"
    using k by (simp_all add: cut_node_def nd_lo_def nd_hi_def)
qed (simp_all add: cut_node_def)

lemma cut_front_ok:
  assumes "mm_head mm = pre @ node # post" "tiles lo (pre @ node # post) hi" "hi < 2 ^ 64"
    "blocks_ok (mm_slabs mm) (pre @ node # post)" "0 < slab_freecount (mm_slabs mm)" "0 < k" "k < mn_size node"
  defines "node' \<equiv> cut_node node k"
  shows "\<exists>new sl. mm_mmnode_add env (upd_node (mn_addr node) (\<lambda>_. node') mm) (mn_base node) k =
      Ok (new, mm\<lparr>mm_slabs := sl, mm_head := pre @ new # node' # post\<rparr>) \<and>
    mn_type new = NodeType_Free \<and> nd_lo new = nd_lo node \<and> nd_hi new = nd_lo node + unat k \<and>
    blocks_ok sl (pre @ new # node' # post) \<and> Suc (slab_freecount sl) = slab_freecount (mm_slabs mm)"
proof -
  let ?mm = "mm\<lparr>mm_head := pre @ node' # post\<rparr>"
  obtain mid where mid: "tiles lo pre mid" "nd_lo node = mid" "nd_hi node \<le> hi"
    using assms(2) tiles_bounds [OF assms(2), of node] by (auto simp: tiles_append)
  have hi: "nd_hi node < 2 ^ 64" using mid(3) assms(3) by simp
  note cut = cut_node_range [OF hi assms(7), folded node'_def]
  have upd: "upd_node (mn_addr node) (\<lambda>_. node') mm = ?mm"
    using upd_node_at [OF assms(1)] assms(1,4) by (simp add: blocks_ok_def)
  have pre: "nd_hi n \<le> unat (mn_base node) \<and> nd_hi n < 2 ^ 64" if "n \<in> set pre" for n
    using tiles_bounds [OF mid(1) that] mid(2,3) hi assms(7) by (auto simp: nd_lo_def nd_hi_def)
  have "blocks_ok (mm_slabs ?mm) (pre @ node' # post)" using blocks_ok_upd [OF assms(4)] cut(3) by simp
  moreover have "node' # post = [] \<or> unat (mn_base node) + unat k = nd_lo (hd (node' # post)) \<and> 0 < unat k"
    using cut(1) assms(6) by (simp add: nd_lo_def unat_gt_0)
  ultimately obtain new sl where new: "mm_mmnode_add env ?mm (mn_base node) k =
      Ok (new, ?mm\<lparr>mm_slabs := sl, mm_head := pre @ new # node' # post\<rparr>)"
    "mn_base new = mn_base node" "mn_size new = k" "mn_type new = NodeType_Free" "blocks_ok sl (pre @ new # node' # post)"
    "Suc (slab_freecount sl) = slab_freecount (mm_slabs mm)"
    using mm_mmnode_add_ok [of ?mm pre "node' # post" "mn_base node" k env] pre assms(5) by auto
  then show ?thesis unfolding upd by (intro exI [of _ new] exI [of _ sl]) (simp add: nd_lo_def nd_hi_def)
qed

text \<open>The region that \<open>mm_split\<close> returns, between free remainders \<open>A\<close> and \<open>B\<close> of the node.\<close>

definition split_of :: "mmnode \<Rightarrow> nat \<Rightarrow> nat \<Rightarrow> mmnode list \<Rightarrow> mmnode \<Rightarrow> mmnode list \<Rightarrow> bool" where
  "split_of node dif sz A new B \<longleftrightarrow> mn_type new = NodeType_Free \<and> nd_lo new = nd_lo node + dif \<and> nd_hi new = nd_lo new + sz \<and>
     list_all (\<lambda>n. mn_type n = NodeType_Free) (A @ B) \<and> length A \<le> 1 \<and> length B \<le> 1 \<and>
     tiles (nd_lo node) (A @ new # B) (nd_hi node)"

lemma split_size_ok:
  assumes "mm_head mm = pre @ node # post" "tiles lo (pre @ node # post) hi" "hi < 2 ^ 64"
    "blocks_ok (mm_slabs mm) (pre @ node # post)" "0 < slab_freecount (mm_slabs mm)" "mn_type node = NodeType_Free"
    "0 < unat sz" "unat sz \<le> unat (mn_size node)"
  shows "\<exists>new B sl. (if ucast sz < mn_size node
      then mm_check (mm_mmnode_add env (upd_node (mn_addr node) (\<lambda>_. cut_node node (ucast sz)) mm) (mn_base node) (ucast (sz :: u32)))
      else Ok (node, mm)) = Ok (new, mm\<lparr>mm_slabs := sl, mm_head := pre @ new # B @ post\<rparr>) \<and>
    split_of node 0 (unat sz) [] new B \<and> blocks_ok sl (pre @ new # B @ post) \<and>
    slab_freecount (mm_slabs mm) \<le> Suc (slab_freecount sl)"
proof (cases "ucast sz < mn_size node")
  case True
  have hi: "nd_hi node < 2 ^ 64" using tiles_bounds [OF assms(2), of node] assms(3) by simp
  note cut = cut_node_range [OF hi True]
  obtain new sl where new: "mm_mmnode_add env (upd_node (mn_addr node) (\<lambda>_. cut_node node (ucast sz)) mm) (mn_base node) (ucast sz) =
      Ok (new, mm\<lparr>mm_slabs := sl, mm_head := pre @ new # cut_node node (ucast sz) # post\<rparr>)"
    "mn_type new = NodeType_Free" "nd_lo new = nd_lo node" "nd_hi new = nd_lo node + unat sz"
    "blocks_ok sl (pre @ new # cut_node node (ucast sz) # post)" "Suc (slab_freecount sl) = slab_freecount (mm_slabs mm)"
    using cut_front_ok [OF assms(1-5) _ True, where env = env] assms(7)
    by (auto simp: unat_ucast_64 word_less_nat_alt)
  have "unat sz < unat (mn_size node)" using True by (simp add: word_less_nat_alt unat_ucast_64)
  then have "split_of node 0 (unat sz) [] new [cut_node node (ucast sz)]"
    using new(2-4) cut assms(6,7) by (simp add: split_of_def unat_ucast_64) (simp add: nd_hi_def nd_lo_def)
  then show ?thesis
    using new(1,5,6) True
    by (intro exI [of _ new] exI [of _ "[cut_node node (ucast sz)]"] exI [of _ sl]) (simp add: mm_check_def)
next
  case False
  then have "unat (mn_size node) = unat sz" using assms(8) by (simp add: word_less_nat_alt unat_ucast_64)
  then have "split_of node 0 (unat sz) [] node []"
    using assms(6,7) by (simp add: split_of_def) (simp add: nd_hi_def nd_lo_def)
  then show ?thesis
    using False assms(1,4)
    by (intro exI [of _ node] exI [of _ "[]"] exI [of _ "mm_slabs mm"]) simp
qed

text \<open>The cut at the front that moves the node to an aligned address.\<close>

lemma split_align_ok:
  assumes "mm_head mm = pre @ node # post" "tiles lo (pre @ node # post) hi" "hi < 2 ^ 64"
    "blocks_ok (mm_slabs mm) (pre @ node # post)" "0 < slab_freecount (mm_slabs mm)" "(dif :: u32) \<noteq> 0"
    "unat dif < unat (mn_size node)"
  defines "node1 \<equiv> cut_node node (ucast dif)"
  shows "\<exists>al sl1. mm_mmnode_add env (upd_node (mn_addr node) (\<lambda>_. node1) mm) (mn_base node) (ucast dif) =
      Ok (al, mm\<lparr>mm_slabs := sl1, mm_head := (pre @ [al]) @ node1 # post\<rparr>) \<and>
    mn_type al = NodeType_Free \<and> nd_lo al = nd_lo node \<and> nd_hi al = nd_lo node1 \<and>
    nd_lo node1 = nd_lo node + unat dif \<and> nd_hi node1 = nd_hi node \<and> mn_addr node1 = mn_addr node \<and>
    mn_type node1 = mn_type node \<and> unat (mn_size node1) = unat (mn_size node) - unat dif \<and>
    tiles lo ((pre @ [al]) @ node1 # post) hi \<and> blocks_ok sl1 ((pre @ [al]) @ node1 # post) \<and>
    Suc (slab_freecount sl1) = slab_freecount (mm_slabs mm)"
proof -
  have hi: "nd_hi node < 2 ^ 64" using tiles_bounds [OF assms(2), of node] assms(3) by simp
  have pos: "0 < unat dif" using assms(6) by (simp add: unat_gt_0)
  then have k: "0 < (ucast dif :: u64)" "ucast dif < mn_size node"
    unfolding word_less_nat_alt unat_ucast_64 using assms(7) by (simp_all only: unsigned_0)
  note cut = cut_node_range [OF hi k(2), folded node1_def, unfolded unat_ucast_64]
  obtain al sl1 where al: "mm_mmnode_add env (upd_node (mn_addr node) (\<lambda>_. node1) mm) (mn_base node) (ucast dif) =
      Ok (al, mm\<lparr>mm_slabs := sl1, mm_head := pre @ al # node1 # post\<rparr>)"
    "mn_type al = NodeType_Free" "nd_lo al = nd_lo node" "nd_hi al = nd_lo node1"
    "blocks_ok sl1 (pre @ al # node1 # post)" "Suc (slab_freecount sl1) = slab_freecount (mm_slabs mm)"
    using cut_front_ok [OF assms(1-5) k, where env = env] cut by (auto simp: unat_ucast_64 node1_def)
  have "nd_lo node < nd_lo node1" "nd_lo node1 < nd_hi node"
    using cut(1) pos assms(7) unfolding nd_lo_def nd_hi_def by linarith+
  then have "tiles lo ((pre @ [al]) @ node1 # post) hi" using assms(2) al(3,4) cut(2) by (auto simp: tiles_append)
  moreover have "unat (mn_size node1) = unat (mn_size node) - unat dif"
    using k(2) by (simp add: node1_def cut_node_def unat_minus_le unat_ucast_64)
  ultimately show ?thesis using al cut by (intro exI [of _ al] exI [of _ sl1]) simp
qed

lemma mm_split_ok:
  assumes "mm_head mm = pre @ node # post" "tiles lo (pre @ node # post) hi" "hi < 2 ^ 64"
    "blocks_ok (mm_slabs mm) (pre @ node # post)" "2 \<le> slab_freecount (mm_slabs mm)" "mn_type node = NodeType_Free"
    "0 < unat sz" and dif: "dif = align_dif (mn_base node) alignment" "unat sz + unat dif \<le> unat (mn_size node)"
    "unat sz + unat dif < 2 ^ 32"
  shows "\<exists>A new B sl. mm_split env mm node sz alignment = Ok (new, mm\<lparr>mm_slabs := sl, mm_head := pre @ A @ new # B @ post\<rparr>) \<and>
    split_of node (unat dif) (unat sz) A new B \<and> blocks_ok sl (pre @ A @ new # B @ post) \<and>
    slab_freecount (mm_slabs mm) \<le> slab_freecount sl + 2"
proof -
  have fits: "\<not> mn_size node < ucast (sz + dif)"
    using dif(2,3) unat_plus_less [of sz dif] by (simp add: word_less_nat_alt unat_ucast_64)
  show ?thesis
  proof (cases "dif = 0")
    case True
    obtain new B sl where r: "(if ucast sz < mn_size node
        then mm_check (mm_mmnode_add env (upd_node (mn_addr node) (\<lambda>_. cut_node node (ucast sz)) mm) (mn_base node) (ucast sz))
        else Ok (node, mm)) = Ok (new, mm\<lparr>mm_slabs := sl, mm_head := pre @ new # B @ post\<rparr>)"
      "split_of node 0 (unat sz) [] new B" "blocks_ok sl (pre @ new # B @ post)" "slab_freecount (mm_slabs mm) \<le> Suc (slab_freecount sl)"
      using split_size_ok [OF assms(1-4) _ assms(6,7), where env = env] assms(5) dif(2) True by auto
    have "mm_split env mm node sz alignment = Ok (new, mm\<lparr>mm_slabs := sl, mm_head := pre @ new # B @ post\<rparr>)"
      using r(1) fits True unfolding mm_split_def Let_def cut_node_def dif(1) [symmetric]
      by (cases "ucast sz < mn_size node") simp_all
    then show ?thesis using r(2-4) True
      by (intro exI [of _ "[]"] exI [of _ new] exI [of _ B] exI [of _ sl]) simp
  next
    case False
    define node1 where "node1 = cut_node node (ucast dif)"
    have "0 < slab_freecount (mm_slabs mm)" "unat dif < unat (mn_size node)" using assms(5,7) dif(2) by linarith+
    then obtain al sl1 where al: "mm_mmnode_add env (upd_node (mn_addr node) (\<lambda>_. node1) mm) (mn_base node) (ucast dif) =
        Ok (al, mm\<lparr>mm_slabs := sl1, mm_head := (pre @ [al]) @ node1 # post\<rparr>)" (is "_ = Ok (al, ?mm1)")
      "mn_type al = NodeType_Free" "nd_lo al = nd_lo node" "nd_hi al = nd_lo node1"
      "nd_lo node1 = nd_lo node + unat dif" "nd_hi node1 = nd_hi node" "mn_addr node1 = mn_addr node" "mn_type node1 = mn_type node"
      "unat (mn_size node1) = unat (mn_size node) - unat dif" "tiles lo ((pre @ [al]) @ node1 # post) hi"
      "blocks_ok sl1 ((pre @ [al]) @ node1 # post)" "Suc (slab_freecount sl1) = slab_freecount (mm_slabs mm)"
      using split_align_ok [OF assms(1-4) _ False, where env = env] unfolding node1_def by blast
    have size1: "unat sz \<le> unat (mn_size node1)" using al(9) dif(2) by linarith
    obtain new B sl where r: "(if ucast sz < mn_size node1
        then mm_check (mm_mmnode_add env (upd_node (mn_addr node1) (\<lambda>_. cut_node node1 (ucast sz)) ?mm1) (mn_base node1) (ucast sz))
        else Ok (node1, ?mm1)) = Ok (new, ?mm1\<lparr>mm_slabs := sl, mm_head := (pre @ [al]) @ new # B @ post\<rparr>)"
      "split_of node1 0 (unat sz) [] new B" "blocks_ok sl ((pre @ [al]) @ new # B @ post)" "slab_freecount sl1 \<le> Suc (slab_freecount sl)"
      using split_size_ok [of ?mm1 "pre @ [al]" node1 post lo hi sz env] al(8,10-12) assms(3,5-7) size1 by auto
    have n1: "node\<lparr>mn_size := mn_size node - ucast dif, mn_base := mn_base node + ucast dif\<rparr> = node1"
      "mn_base node1 - ucast dif = mn_base node" by (simp_all add: node1_def cut_node_def)
    have "mm_split env mm node sz alignment = (if ucast sz < mn_size node1
        then mm_check (mm_mmnode_add env (upd_node (mn_addr node1) (\<lambda>_. cut_node node1 (ucast sz)) ?mm1) (mn_base node1) (ucast sz))
        else Ok (node1, ?mm1))"
      unfolding mm_split_def Let_def dif(1) [symmetric] n1 if_not_P [OF fits] if_P [OF False] al(7) al(1) cut_node_def [of node1]
      by (simp add: mm_check_def al(7) cong: if_cong)
    then have "mm_split env mm node sz alignment = Ok (new, mm\<lparr>mm_slabs := sl, mm_head := pre @ [al] @ new # B @ post\<rparr>)"
      unfolding r(1) by simp
    moreover have "split_of node (unat dif) (unat sz) [al] new B"
      using r(2) al(2-6) False assms(7) by (auto simp: split_of_def unat_gt_0)
    ultimately show ?thesis using r(3,4) al(12)
      by (intro exI [of _ "[al]"] exI [of _ new] exI [of _ B] exI [of _ sl]) simp
  qed
qed

section \<open>Finding a node\<close>

definition fits :: "u32 \<Rightarrow> u32 \<Rightarrow> mmnode \<Rightarrow> bool" where
  "fits sz alignment n \<longleftrightarrow> mn_type n = NodeType_Free \<and>
     unat sz + unat (align_dif (mn_base n) alignment) \<le> unat (mn_size n)"

text \<open>The alignment gap is smaller than the alignment, and closes it.\<close>

lemma align_dif_ok:
  assumes "alignment \<noteq> 0"
  shows "unat (align_dif base alignment) < unat alignment"
    and "unat alignment dvd unat base + unat (align_dif base alignment)"
proof -
  let ?r = "unat base mod unat alignment"
  have r: "?r < unat alignment" using assms by (simp add: unat_gt_0)
  then have small: "?r < 2 ^ 32" using unat_exp_less [of alignment] by simp
  have "unat (base mod ucast alignment) = ?r" by (simp only: unat_mod_distrib unat_ucast_64)
  moreover have "unat (ucast w :: u32) = unat w mod 2 ^ 32" for w :: u64
    by (simp add: unsigned_ucast_eq take_bit_eq_mod)
  ultimately have x: "unat (ucast (base mod ucast alignment) :: u32) = ?r" (is "unat ?x = _") using small by simp
  have "?x = 0 \<longleftrightarrow> ?r = 0" using x by (metis unsigned_eq_0_iff)
  moreover have "unat (alignment - ?x) = unat alignment - ?r"
    using x r unat_minus_le [of ?x alignment] by (simp add: word_le_nat_alt)
  moreover have "align_dif base alignment = (if ?x = 0 then 0 else alignment - ?x)"
    by (simp add: align_dif_def Let_def word_neq_0_conv [symmetric] del: word_neq_0_conv)
  ultimately have dif: "unat (align_dif base alignment) = (if ?r = 0 then 0 else unat alignment - ?r)"
    by simp
  show "unat (align_dif base alignment) < unat alignment" using dif r by auto
  show "unat alignment dvd unat base + unat (align_dif base alignment)"
  proof (cases "?r = 0")
    case False
    have "unat base + (unat alignment - ?r) = (unat base - ?r) + unat alignment"
      using r mod_less_eq_dividend [of "unat base" "unat alignment"] by linarith
    moreover have "unat alignment dvd (unat base - ?r) + unat alignment" by (intro dvd_add dvd_minus_mod dvd_refl)
    moreover have "unat (align_dif base alignment) = unat alignment - ?r" using dif False by simp
    ultimately show ?thesis by metis
  qed (use dif in auto)
qed

lemma fits_word:
  assumes "alignment \<noteq> 0" "unat sz + unat alignment \<le> 2 ^ 32"
  shows "fits sz alignment n \<longleftrightarrow> mn_type n = NodeType_Free \<and> ucast (sz + align_dif (mn_base n) alignment) \<le> mn_size n"
    and "unat sz + unat (align_dif (mn_base n) alignment) < 2 ^ 32"
proof -
  show small: "unat sz + unat (align_dif (mn_base n) alignment) < 2 ^ 32"
    using align_dif_ok(1) [OF assms(1), of "mn_base n"] assms(2) by linarith
  show "fits sz alignment n \<longleftrightarrow> mn_type n = NodeType_Free \<and> ucast (sz + align_dif (mn_base n) alignment) \<le> mn_size n"
    using unat_plus_less [of sz "align_dif (mn_base n) alignment"] small
    by (simp add: fits_def word_le_nat_alt unat_ucast_64)
qed

lemma mmnode_find_ok:
  assumes "alignment \<noteq> 0" "unat sz + unat alignment \<le> 2 ^ 32"
  shows "mmnode_find sz alignment ns = Err MM_ERR_NOT_FOUND \<and> (\<forall>n \<in> set ns. \<not> fits sz alignment n) \<or>
    (\<exists>pre n post. mmnode_find sz alignment ns = Ok n \<and> ns = pre @ n # post \<and> fits sz alignment n)"
proof (induction ns)
  case (Cons n ns)
  show ?case
  proof (cases "fits sz alignment n")
    case True
    then show ?thesis using assms(1) fits_word(1) [OF assms, of n]
      by (intro disjI2 exI [of _ "[]"] exI [of _ n] exI [of _ ns]) simp
  next
    case False
    then have "mmnode_find sz alignment (n # ns) = mmnode_find sz alignment ns"
      using assms(1) fits_word(1) [OF assms, of n] by auto
    then show ?thesis using Cons False by (metis append_Cons set_ConsD)
  qed
qed simp

end
