(* ===== verification/Mm_Alloc.thy ===== *)
theory Mm_Alloc
  imports Mm_Lemmas
begin

text \<open>
  Allocation by the memory manager: what one attempt does, and that the retries of
  \<open>mm_alloc_aligned\<close> end. The refill functions are only required to do what a refill is for:
  keep what is in use and provide the few nodes and slots that an attempt needs.
\<close>

section \<open>Refilling\<close>

definition slab_refill_ok :: "(mm \<Rightarrow> mm outcome) \<Rightarrow> bool" where
  "slab_refill_ok f \<longleftrightarrow> (\<forall>mm. node_slab (mm_slabs mm) \<longrightarrow>
     (\<exists>sl. f mm = Ok (mm\<lparr>mm_slabs := sl\<rparr>) \<and> node_slab sl \<and> slab_used sl = slab_used (mm_slabs mm) \<and> 4 \<le> slab_freecount sl))"

definition slot_refill_ok :: "(mm \<Rightarrow> mm outcome) \<Rightarrow> bool" where
  "slot_refill_ok f \<longleftrightarrow> (\<forall>mm. spa_inv (mm_slot_inst mm) \<and> \<not> spa_static_refilling (mm_slot_inst mm) \<longrightarrow>
     (\<exists>sa. f mm = Ok (mm\<lparr>mm_slot_inst := sa\<rparr>) \<and> spa_inv sa \<and> \<not> spa_static_refilling sa \<and>
        spa_is_refilling sa = spa_is_refilling (mm_slot_inst mm) \<and>
        (4 \<le> pm_free (spa_meta0 sa) \<or> 4 \<le> pm_free (spa_meta1 sa))))"

definition mm_ready :: "mm \<Rightarrow> bool" where
  "mm_ready mm \<longleftrightarrow> \<not> refilling_slabs mm \<and> \<not> spa_is_refilling (mm_slot_inst mm) \<and> \<not> spa_static_refilling (mm_slot_inst mm)"

lemma mm_slab_refill_ok:
  assumes "blocks_ok (mm_slabs mm) (mm_head mm)" "mm_ready mm" "slab_refill_ok (slab_refill env)"
  shows "\<exists>sl. mm_slab_refill env mm = Ok (mm\<lparr>mm_slabs := sl\<rparr>) \<and> blocks_ok sl (mm_head mm) \<and> 4 \<le> slab_freecount sl"
proof (cases "slab_freecount (mm_slabs mm) < 4")
  case True
  obtain sl where "slab_refill env (mm\<lparr>refilling_slabs := True\<rparr>) = Ok (mm\<lparr>refilling_slabs := True, mm_slabs := sl\<rparr>)" "node_slab sl"
    "slab_used sl = slab_used (mm_slabs mm)" "4 \<le> slab_freecount sl"
    using assms(3) [unfolded slab_refill_ok_def, rule_format, of "mm\<lparr>refilling_slabs := True\<rparr>"] assms(1)
    by (auto simp: blocks_ok_def)
  then show ?thesis using True assms(1,2)
    by (intro exI [of _ sl]) (cases mm, simp add: mm_slab_refill_def mm_ready_def mm_check_def blocks_ok_def)
next
  case False
  then show ?thesis using assms(1) by (intro exI [of _ "mm_slabs mm"]) (simp add: mm_slab_refill_def)
qed

lemma spa_inv_flag [simp]: "spa_inv (sa\<lparr>spa_is_refilling := b\<rparr>) = spa_inv sa"
  by (simp add: spa_inv_def)

lemma slot_alloc_prealloc_flag:
  "slot_alloc_prealloc sa n = (r, sa') \<Longrightarrow>
     spa_is_refilling sa' = spa_is_refilling sa \<and> spa_static_refilling sa' = spa_static_refilling sa"
  by (auto simp: slot_alloc_prealloc_def Let_def spa_set_meta_def split: if_splits)

lemma mm_slot_alloc_ok:
  assumes "spa_inv (mm_slot_inst mm)" "mm_ready mm" "slot_refill_ok (slot_refill env)"
  shows "\<exists>c sa. mm_slot_alloc env mm 1 = Ok (c, mm\<lparr>mm_slot_inst := sa\<rparr>) \<and> spa_inv sa \<and> \<not> spa_is_refilling sa \<and>
    \<not> spa_static_refilling sa"
proof -
  let ?sa = "mm_slot_inst mm"
  let ?r = "if pm_free (spa_meta0 ?sa) < 4 \<and> pm_free (spa_meta1 ?sa) < 4 \<and> \<not> spa_is_refilling ?sa
     then bind_outcome (mm_check (slot_refill env (mm\<lparr>mm_slot_inst := ?sa\<lparr>spa_is_refilling := True\<rparr>\<rparr>)))
       (\<lambda>mm. Ok (mm\<lparr>mm_slot_inst := (mm_slot_inst mm)\<lparr>spa_is_refilling := False\<rparr>\<rparr>))
     else Ok mm"
  have "\<exists>sa. ?r = Ok (mm\<lparr>mm_slot_inst := sa\<rparr>) \<and> spa_inv sa \<and> \<not> spa_is_refilling sa \<and> \<not> spa_static_refilling sa \<and>
      (4 \<le> pm_free (spa_meta0 sa) \<or> 4 \<le> pm_free (spa_meta1 sa))"
  proof (cases "pm_free (spa_meta0 ?sa) < 4 \<and> pm_free (spa_meta1 ?sa) < 4")
    case True
    obtain sa where "slot_refill env (mm\<lparr>mm_slot_inst := ?sa\<lparr>spa_is_refilling := True\<rparr>\<rparr>) = Ok (mm\<lparr>mm_slot_inst := sa\<rparr>)" "spa_inv sa"
      "\<not> spa_static_refilling sa" "4 \<le> pm_free (spa_meta0 sa) \<or> 4 \<le> pm_free (spa_meta1 sa)"
      using assms(3) [unfolded slot_refill_ok_def, rule_format, of "mm\<lparr>mm_slot_inst := ?sa\<lparr>spa_is_refilling := True\<rparr>\<rparr>"] assms(1,2)
      by (auto simp: mm_ready_def)
    then show ?thesis using True assms(2)
      by (intro exI [of _ "sa\<lparr>spa_is_refilling := False\<rparr>"]) (simp add: mm_check_def mm_ready_def)
  next
    case False
    then show ?thesis using assms(1,2) by (intro exI [of _ ?sa]) (auto simp: mm_ready_def)
  qed
  then obtain sa where sa: "?r = Ok (mm\<lparr>mm_slot_inst := sa\<rparr>)" "spa_inv sa" "\<not> spa_is_refilling sa" "\<not> spa_static_refilling sa"
      "4 \<le> pm_free (spa_meta0 sa) \<or> 4 \<le> pm_free (spa_meta1 sa)" by blast
  then have "1 \<le> pm_free (spa_meta0 sa) \<or> 1 \<le> pm_free (spa_meta1 sa)" by linarith
  then obtain c sa' where c: "slot_alloc_prealloc sa 1 = (Ok c, sa')" "spa_inv sa'"
    using slot_alloc_prealloc_ok [OF sa(2), of 1] by (auto simp: L2_CNODE_SLOTS_def)
  moreover have "\<not> spa_is_refilling sa'" "\<not> spa_static_refilling sa'" using slot_alloc_prealloc_flag [OF c(1)] sa(3,4) by simp_all
  moreover have "mm_slot_alloc env mm 1 = Ok (c, mm\<lparr>mm_slot_inst := sa'\<rparr>)"
    unfolding mm_slot_alloc_def Let_def sa(1) using c(1) by simp
  ultimately show ?thesis by blast
qed

section \<open>One attempt\<close>

text \<open>
  A region \<open>{a..<a + sz}\<close> of free memory, aligned, becomes memory of type \<open>t\<close> with the
  capability \<open>c\<close>; no other memory changes its type.
\<close>

definition alloc_effect :: "nat \<Rightarrow> nat \<Rightarrow> nodetype \<Rightarrow> capref \<Rightarrow> mmnode list \<Rightarrow> mmnode list \<Rightarrow> bool" where
  "alloc_effect sz alignment t c ns ns' \<longleftrightarrow>
     (\<exists>a. alignment dvd a \<and> {a..<a + sz} \<subseteq> mem_of NodeType_Free ns \<and>
        mem_of NodeType_Free ns' = mem_of NodeType_Free ns - {a..<a + sz} \<and>
        (\<forall>t'. t' \<noteq> NodeType_Free \<longrightarrow> mem_of t' ns' = mem_of t' ns \<union> (if t' = t then {a..<a + sz} else {})) \<and>
        (\<exists>n \<in> set ns'. mn_type n = t \<and> mn_cap n = Some c \<and> nd_range n = {a..<a + sz}))"

lemma list_all_mem_of: "list_all (\<lambda>n. mn_type n = NodeType_Free) ns \<Longrightarrow> t \<noteq> NodeType_Free \<Longrightarrow> mem_of t ns = {}"
  by (auto simp: mem_of_def list_all_iff)

lemma mem_of_free: "list_all (\<lambda>n. mn_type n = NodeType_Free) ns \<Longrightarrow> mem_of NodeType_Free ns = (\<Union>n \<in> set ns. nd_range n)"
  by (auto simp: mem_of_def list_all_iff)

lemma tiles_mem_disjoint:
  assumes "tiles lo (pre @ node # post) hi"
  shows "mem_of t (pre @ post) \<inter> nd_range node = {}"
proof -
  have "sorted_wrt (\<lambda>m n. nd_range m \<inter> nd_range n = {}) (pre @ node # post)" using tiles_disjoint [OF assms] .
  then show ?thesis by (auto simp: sorted_wrt_append mem_of_def)
qed

lemma split_effect:
  assumes "tiles lo (pre @ node # post) hi" "mn_type node = NodeType_Free" "split_of node dif sz A new B" "t \<noteq> NodeType_Free"
    "alignment dvd nd_lo node + dif"
  shows "alloc_effect sz alignment t c (pre @ node # post) (pre @ A @ new\<lparr>mn_type := t, mn_cap := Some c\<rparr> # B @ post)"
    and "tiles lo (pre @ A @ new\<lparr>mn_type := t, mn_cap := Some c\<rparr> # B @ post) hi"
proof -
  let ?new = "new\<lparr>mn_type := t, mn_cap := Some c\<rparr>"
  let ?R = "{nd_lo new..<nd_lo new + sz}"
  have new: "nd_lo ?new = nd_lo new" "nd_hi ?new = nd_hi new" "nd_range new = ?R" "nd_range ?new = ?R"
    using assms(3) by (simp_all add: split_of_def nd_range_def nd_lo_def nd_hi_def)
  have AB: "list_all (\<lambda>n. mn_type n = NodeType_Free) (A @ B)" "tiles (nd_lo node) (A @ new # B) (nd_hi node)"
    "nd_lo new = nd_lo node + dif"
    using assms(3) by (simp_all add: split_of_def)
  have cover: "mem_of NodeType_Free (A @ B) \<union> ?R = nd_range node"
    using tiles_cover [OF AB(2)] mem_of_free [OF AB(1)] new(3) by (auto simp: nd_range_def)
  have apart: "mem_of NodeType_Free (A @ B) \<inter> ?R = {}" using tiles_mem_disjoint [OF AB(2)] new(3) by metis
  have others: "mem_of t' (pre @ post) \<inter> ?R = {}" for t'
    using tiles_mem_disjoint [OF assms(1), of t'] cover by blast
  have "?R \<subseteq> mem_of NodeType_Free (pre @ node # post)" using cover assms(2) by auto
  moreover have "mem_of NodeType_Free (pre @ A @ ?new # B @ post) = mem_of NodeType_Free (pre @ node # post) - ?R"
    using cover apart others [of NodeType_Free] assms(2,4) by auto
  moreover have "mem_of t' (pre @ A @ ?new # B @ post) = mem_of t' (pre @ node # post) \<union> (if t' = t then ?R else {})"
    if "t' \<noteq> NodeType_Free" for t'
    using list_all_mem_of [OF AB(1) that] that assms(2) new(4) by auto
  moreover have "\<exists>n \<in> set (pre @ A @ ?new # B @ post). mn_type n = t \<and> mn_cap n = Some c \<and> nd_range n = ?R"
    using new(4) by (intro bexI [of _ ?new]) simp_all
  ultimately show "alloc_effect sz alignment t c (pre @ node # post) (pre @ A @ ?new # B @ post)"
    unfolding alloc_effect_def using assms(5) AB(3) by (intro exI [of _ "nd_lo new"]) auto
  have "tiles (nd_lo node) (A @ ?new # B) (nd_hi node)" using AB(2) new(1,2) by (auto simp: tiles_append)
  then show "tiles lo (pre @ A @ ?new # B @ post) hi" using assms(1) by (auto simp: tiles_append)
qed

text \<open>No two neighbouring regions are free: the free memory is not fragmented more than it has to be.\<close>

definition coalesced :: "mmnode list \<Rightarrow> bool" where
  "coalesced ns = successively (\<lambda>m n. mn_type m \<noteq> NodeType_Free \<or> mn_type n \<noteq> NodeType_Free) ns"

lemma split_coalesced:
  assumes "coalesced (pre @ node # post)" "mn_type node = NodeType_Free" "split_of node dif sz A new B" "t \<noteq> NodeType_Free"
  shows "coalesced (pre @ A @ new\<lparr>mn_type := t, mn_cap := Some c\<rparr> # B @ post)"
proof -
  have "A = [] \<or> (\<exists>a. A = [a] \<and> mn_type a = NodeType_Free)" "B = [] \<or> (\<exists>b. B = [b] \<and> mn_type b = NodeType_Free)"
    using assms(3) by (cases A; cases B; simp add: split_of_def)+
  then show ?thesis using assms(1,2,4)
    by (elim disjE exE) (auto simp: coalesced_def successively_append_iff successively_Cons)
qed

text \<open>
  When some free node fits, the attempt succeeds and marking the node it returns with a type
  places an aligned region of that type; when none fits, the program stops.
\<close>

definition placed :: "nat \<Rightarrow> nat \<Rightarrow> nat \<Rightarrow> nat \<Rightarrow> nodetype \<Rightarrow> capref \<Rightarrow> mm \<Rightarrow> mm \<Rightarrow> bool" where
  "placed lo hi sz alignment t c mm mm' \<longleftrightarrow>
     mm_inv lo hi mm' \<and> mm_ready mm' \<and> (coalesced (mm_head mm) \<longrightarrow> coalesced (mm_head mm')) \<and>
     alloc_effect sz alignment t c (mm_head mm) (mm_head mm')"

lemma mm_attempt_ok:
  assumes "mm_inv lo hi mm" "mm_ready mm" "slab_refill_ok (slab_refill env)" "slot_refill_ok (slot_refill env)"
    "0 < unat sz" "alignment \<noteq> 0" "unat sz + unat alignment \<le> 2 ^ 32"
  shows "(\<forall>n \<in> set (mm_head mm). \<not> fits sz alignment n) \<and> mm_attempt env mm sz alignment = Abort \<or>
    (\<exists>n \<in> set (mm_head mm). fits sz alignment n) \<and>
    (\<exists>new c mm1. mm_attempt env mm sz alignment = Ok (new, c, mm1) \<and>
       (\<forall>t. t \<noteq> NodeType_Free \<longrightarrow>
          placed lo hi (unat sz) (unat alignment) t c mm (upd_node (mn_addr new) (\<lambda>n. n\<lparr>mn_type := t\<rparr>) mm1)))"
proof -
  have inv: "tiles lo (mm_head mm) hi" "hi < 2 ^ 64" "blocks_ok (mm_slabs mm) (mm_head mm)" "spa_inv (mm_slot_inst mm)"
    using assms(1) by (simp_all add: mm_inv_def)
  obtain sl where sl: "mm_slab_refill env mm = Ok (mm\<lparr>mm_slabs := sl\<rparr>)" "blocks_ok sl (mm_head mm)" "4 \<le> slab_freecount sl"
    using mm_slab_refill_ok [OF inv(3) assms(2,3)] by blast
  let ?mm = "mm\<lparr>mm_slabs := sl\<rparr>"
  consider (none) "mmnode_find sz alignment (mm_head mm) = Err MM_ERR_NOT_FOUND" "\<forall>n \<in> set (mm_head mm). \<not> fits sz alignment n"
    | (some) pre node post where "mmnode_find sz alignment (mm_head mm) = Ok node" "mm_head mm = pre @ node # post"
        "fits sz alignment node"
    using mmnode_find_ok [OF assms(6,7)] by blast
  then show ?thesis
  proof cases
    case none
    then show ?thesis using sl(1) by (simp add: mm_attempt_def mm_mmnode_find_def mm_check_def)
  next
    case some
    let ?dif = "align_dif (mn_base node) alignment"
    have node: "mn_type node = NodeType_Free" "unat sz + unat ?dif \<le> unat (mn_size node)" using some(3) by (simp_all add: fits_def)
    obtain A new B sl' where split: "mm_split env ?mm node sz alignment = Ok (new, ?mm\<lparr>mm_slabs := sl', mm_head := pre @ A @ new # B @ post\<rparr>)"
      "split_of node (unat ?dif) (unat sz) A new B" "blocks_ok sl' (pre @ A @ new # B @ post)"
      using mm_split_ok [of ?mm pre node post lo hi sz ?dif alignment env] some(2) inv(1,2) sl(2,3) node assms(5)
        fits_word(2) [OF assms(6,7)] by auto
    let ?mm2 = "?mm\<lparr>mm_slabs := sl', mm_head := pre @ A @ new # B @ post\<rparr>"
    obtain c sa where slot: "mm_slot_alloc env ?mm2 1 = Ok (c, ?mm2\<lparr>mm_slot_inst := sa\<rparr>)" "spa_inv sa" "\<not> spa_is_refilling sa"
      "\<not> spa_static_refilling sa"
      using mm_slot_alloc_ok [of ?mm2 env] inv(4) assms(2,4) by (auto simp: mm_ready_def)
    let ?mm3 = "?mm2\<lparr>mm_slot_inst := sa\<rparr>"
    let ?cap = "\<lambda>n. n\<lparr>mn_cap := Some c\<rparr>"
    have dist: "distinct (map mn_addr ((pre @ A) @ new # B @ post))" using split(3) by (simp add: blocks_ok_def)
    have cap: "upd_node (mn_addr new) ?cap ?mm3 = ?mm3\<lparr>mm_head := (pre @ A) @ ?cap new # B @ post\<rparr>"
      using upd_node_at [of ?mm3 "pre @ A" new "B @ post" ?cap] dist by simp
    have "node_split (mn_addr new) [] (mm_head ?mm3) = Some (pre @ A, new, B @ post)"
      using node_split_at [of new "pre @ A" "[]" "B @ post"] dist by (simp add: image_Un)
    then have att: "mm_attempt env mm sz alignment = Ok (new, c, upd_node (mn_addr new) ?cap ?mm3)"
      using sl(1) some(1) node(1) split(1) slot(1)
      by (simp add: mm_attempt_def mm_mmnode_find_def mm_check_def)
    have "placed lo hi (unat sz) (unat alignment) t c mm (upd_node (mn_addr new) (\<lambda>n. n\<lparr>mn_type := t\<rparr>) (upd_node (mn_addr new) ?cap ?mm3))"
      if t: "t \<noteq> NodeType_Free" for t
    proof -
      let ?new = "new\<lparr>mn_type := t, mn_cap := Some c\<rparr>"
      have upd: "upd_node (mn_addr new) (\<lambda>n. n\<lparr>mn_type := t\<rparr>) (upd_node (mn_addr new) ?cap ?mm3) =
          ?mm3\<lparr>mm_head := pre @ A @ ?new # B @ post\<rparr>" (is "_ = ?mm4")
        using upd_node_at [of "?mm3\<lparr>mm_head := (pre @ A) @ ?cap new # B @ post\<rparr>" "pre @ A" "?cap new" "B @ post" "\<lambda>n. n\<lparr>mn_type := t\<rparr>"] dist
        unfolding cap by simp
      have blocks: "blocks_ok sl' (pre @ A @ ?new # B @ post)" using split(3) by (auto simp: blocks_ok_def)
      have al: "unat alignment dvd nd_lo node + unat ?dif" using align_dif_ok(2) [OF assms(6)] by (simp add: nd_lo_def)
      note split_effect [OF inv(1) [unfolded some(2)] node(1) split(2) t al, of c]
      moreover have "coalesced (mm_head mm) \<longrightarrow> coalesced (pre @ A @ ?new # B @ post)"
        using split_coalesced [OF _ node(1) split(2) t] some(2) by simp
      ultimately show ?thesis unfolding upd placed_def using blocks inv(2) slot(2-4) assms(2) some(2)
        by (simp add: mm_inv_def mm_ready_def)
    qed
    then show ?thesis using att some(2,3) by (intro disjI2 conjI exI [of _ new] exI [of _ c] exI) auto
  qed
qed

section \<open>Rounding up to pages\<close>

definition page_up :: "nat \<Rightarrow> nat" where
  "page_up n = (n + 4095) div 4096 * 4096"

lemma page_up_mod: "page_up n = (if n mod 4096 \<noteq> 0 then n + (4096 - n mod 4096) else n)"
proof -
  obtain q r where n: "n = 4096 * q + r" "r < 4096" by (metis mod_less_divisor mult_div_mod_eq zero_less_numeral)
  have "(n + 4095) div 4096 = (if r = 0 then q else Suc q)"
  proof (cases "r = 0")
    case False
    then have "n + 4095 = (r - 1) + Suc q * 4096" "r - 1 < 4096" using n by auto
    then show ?thesis using False by (simp only: div_mult_self1) simp
  qed (use n in simp)
  then show ?thesis using n by (auto simp: page_up_def)
qed

lemma page_up_facts: "n \<le> page_up n" "0 < n \<Longrightarrow> 4096 \<le> page_up n" "4096 dvd page_up n"
proof -
  show "n \<le> page_up n" using mod_less_divisor [of 4096 n] unfolding page_up_mod by auto
  show "4096 dvd page_up n" by (simp add: page_up_def)
  then show "4096 \<le> page_up n" if "0 < n" using that \<open>n \<le> page_up n\<close> by (intro dvd_imp_le) auto
qed

lemma round_up_page_ok:
  assumes "page_up (unat n) < 2 ^ 32"
  shows "unat (round_up_page n) = page_up (unat n)"
proof -
  let ?r = "unat n mod 4096"
  have r: "unat (n mod PAGE) = ?r" by (simp add: PAGE_def unat_mod_distrib)
  have "?r < 4096" by simp
  then have "unat (PAGE - n mod PAGE) = 4096 - ?r"
    using r unat_minus_le [of "n mod PAGE" PAGE] by (simp add: word_le_nat_alt PAGE_def)
  moreover have "n mod PAGE = 0 \<longleftrightarrow> ?r = 0" using r by (metis unsigned_eq_0_iff)
  ultimately show ?thesis
    using assms unat_plus_less [of n "PAGE - n mod PAGE"] by (auto simp: round_up_page_def page_up_mod)
qed

text \<open>The size and the alignment that a request is served with.\<close>

definition eff_align :: "u32 \<Rightarrow> nat" where
  "eff_align alignment = page_up (if alignment = 0 then 4096 else unat alignment)"

definition request_ok :: "u32 \<Rightarrow> u32 \<Rightarrow> bool" where
  "request_ok sz alignment \<longleftrightarrow> sz \<noteq> 0 \<and> page_up (unat sz) + eff_align alignment \<le> 2 ^ 32"

lemma request_words:
  assumes "request_ok sz alignment"
  defines "al \<equiv> round_up_page (if alignment = 0 then PAGE else alignment)"
  shows "unat (round_up_page sz) = page_up (unat sz)" "unat al = eff_align alignment"
    "0 < unat (round_up_page sz)" "al \<noteq> 0" "unat (round_up_page sz) + unat al \<le> 2 ^ 32"
proof -
  have page: "unat PAGE = 4096" by (simp add: PAGE_def)
  have "0 < unat sz" using assms(1) by (simp add: request_ok_def unat_gt_0)
  then have s: "4096 \<le> page_up (unat sz)" by (rule page_up_facts(2))
  have "0 < (if alignment = 0 then 4096 else unat alignment)" by (simp add: unat_gt_0)
  then have a: "4096 \<le> eff_align alignment" unfolding eff_align_def by (rule page_up_facts(2))
  have sum: "page_up (unat sz) + eff_align alignment \<le> 2 ^ 32" using assms(1) by (simp add: request_ok_def)
  show rs: "unat (round_up_page sz) = page_up (unat sz)" using sum a by (intro round_up_page_ok) linarith
  have e: "eff_align alignment = page_up (unat (if alignment = 0 then PAGE else alignment))" using page by (simp add: eff_align_def)
  then show ra: "unat al = eff_align alignment"
    unfolding al_def e using sum s e by (intro round_up_page_ok) linarith
  show "0 < unat (round_up_page sz)" using rs s by linarith
  show "al \<noteq> 0" using ra a by (metis not_numeral_le_zero unsigned_0)
  show "unat (round_up_page sz) + unat al \<le> 2 ^ 32" using rs ra sum by simp
qed

section \<open>The retries\<close>

lemma finite_mem_of: "finite (mem_of t ns)"
  by (simp add: mem_of_def nd_range_def)

text \<open>What abandoned attempts may do: memory is lost, but none is handed out.\<close>

definition retried :: "mmnode list \<Rightarrow> mmnode list \<Rightarrow> bool" where
  "retried ns ns' \<longleftrightarrow> mem_of NodeType_Free ns' \<subseteq> mem_of NodeType_Free ns \<and>
     mem_of NodeType_Allocated ns' = mem_of NodeType_Allocated ns \<and> (coalesced ns \<longrightarrow> coalesced ns')"

lemma retried_refl [simp]: "retried ns ns"
  by (simp add: retried_def)

lemma retried_trans: "retried ns ns' \<Longrightarrow> retried ns' ns'' \<Longrightarrow> retried ns ns''"
  by (auto simp: retried_def)

lemma placed_wasted:
  assumes "placed lo hi sz alignment NodeType_Wasted c mm mm'"
  shows "mm_inv lo hi mm'" "mm_ready mm'" "card (mem_of NodeType_Free (mm_head mm')) + sz = card (mem_of NodeType_Free (mm_head mm))"
    "retried (mm_head mm) (mm_head mm')"
proof -
  show "mm_inv lo hi mm'" "mm_ready mm'" using assms by (simp_all add: placed_def)
  obtain a where a: "{a..<a + sz} \<subseteq> mem_of NodeType_Free (mm_head mm)"
    "mem_of NodeType_Free (mm_head mm') = mem_of NodeType_Free (mm_head mm) - {a..<a + sz}"
    "mem_of NodeType_Allocated (mm_head mm') = mem_of NodeType_Allocated (mm_head mm)"
    using assms by (auto simp: placed_def alloc_effect_def)
  have "card {a..<a + sz} \<le> card (mem_of NodeType_Free (mm_head mm))" using card_mono [OF finite_mem_of a(1)] .
  then show "card (mem_of NodeType_Free (mm_head mm')) + sz = card (mem_of NodeType_Free (mm_head mm))"
    unfolding a(2) using card_Diff_subset [OF _ a(1)] by simp
  show "retried (mm_head mm) (mm_head mm')" using a(2,3) assms by (simp add: retried_def placed_def)
qed

text \<open>
  The attempt inside one round, with the sizes of the request as numbers.
\<close>

lemma mm_round_ok:
  assumes "mm_inv lo hi mm" "mm_ready mm" "slab_refill_ok (slab_refill env)" "slot_refill_ok (slot_refill env)"
    "request_ok sz alignment"
  defines "A \<equiv> round_up_page (if alignment = 0 then PAGE else alignment)"
  shows "(\<forall>n \<in> set (mm_head mm). \<not> fits (round_up_page sz) A n) \<and> mm_alloc_aligned (Suc fuel) env mm sz alignment = Some Abort \<or>
    (\<exists>n \<in> set (mm_head mm). fits (round_up_page sz) A n) \<and>
    (\<exists>(new :: mmnode) c mm1. (\<forall>t. t \<noteq> NodeType_Free \<longrightarrow> placed lo hi (page_up (unat sz)) (eff_align alignment) t c mm
          (upd_node (mn_addr new) (\<lambda>n. n\<lparr>mn_type := t\<rparr>) mm1)) \<and>
       mm_alloc_aligned (Suc fuel) env mm sz alignment =
         (if cap_retype env mm1 (mn_base new - initial_base mm1) (ucast (round_up_page sz)) = Some SYS_ERR_REVOKE_FIRST
          then mm_alloc_aligned fuel env (upd_node (mn_addr new) (\<lambda>n. n\<lparr>mn_type := NodeType_Wasted\<rparr>) mm1) sz alignment
          else Some (Ok (c, upd_node (mn_addr new) (\<lambda>n. n\<lparr>mn_type := NodeType_Allocated\<rparr>) mm1))))"
proof -
  note w = request_words [OF assms(5), folded A_def]
  from mm_attempt_ok [OF assms(1-4) w(3,4,5)] show ?thesis
  proof (elim disjE conjE exE)
    assume "\<forall>n \<in> set (mm_head mm). \<not> fits (round_up_page sz) A n" "mm_attempt env mm (round_up_page sz) A = Abort"
    then show ?thesis by (simp add: A_def)
  next
    fix new c mm1
    assume "\<exists>n \<in> set (mm_head mm). fits (round_up_page sz) A n" "mm_attempt env mm (round_up_page sz) A = Ok (new, c, mm1)"
      "\<forall>t. t \<noteq> NodeType_Free \<longrightarrow> placed lo hi (unat (round_up_page sz)) (unat A) t c mm (upd_node (mn_addr new) (\<lambda>n. n\<lparr>mn_type := t\<rparr>) mm1)"
    then show ?thesis unfolding w(1,2)
      by (intro disjI2 conjI exI [of _ new] exI [of _ c] exI [of _ mm1]) (simp_all add: A_def)
  qed
qed

lemma mm_alloc_rounds:
  assumes "slab_refill_ok (slab_refill env)" "slot_refill_ok (slot_refill env)" "request_ok sz alignment"
    "mm_inv lo hi mm" "mm_ready mm"
  shows "mm_alloc_aligned fuel env mm sz alignment = None \<and> fuel * page_up (unat sz) \<le> card (mem_of NodeType_Free (mm_head mm)) \<or>
    mm_alloc_aligned fuel env mm sz alignment = Some Abort \<or>
    (\<exists>c mm1 mm'. mm_alloc_aligned fuel env mm sz alignment = Some (Ok (c, mm')) \<and> retried (mm_head mm) (mm_head mm1) \<and>
       placed lo hi (page_up (unat sz)) (eff_align alignment) NodeType_Allocated c mm1 mm')"
  using assms(4,5)
proof (induction fuel arbitrary: mm)
  case (Suc fuel)
  from mm_round_ok [OF Suc.prems assms(1-3), of fuel] show ?case
  proof (elim disjE conjE exE)
    fix new :: mmnode and c mm1
    assume pl: "\<forall>t. t \<noteq> NodeType_Free \<longrightarrow> placed lo hi (page_up (unat sz)) (eff_align alignment) t c mm
          (upd_node (mn_addr new) (\<lambda>n. n\<lparr>mn_type := t\<rparr>) mm1)"
      and r: "mm_alloc_aligned (Suc fuel) env mm sz alignment =
         (if cap_retype env mm1 (mn_base new - initial_base mm1) (ucast (round_up_page sz)) = Some SYS_ERR_REVOKE_FIRST
          then mm_alloc_aligned fuel env (upd_node (mn_addr new) (\<lambda>n. n\<lparr>mn_type := NodeType_Wasted\<rparr>) mm1) sz alignment
          else Some (Ok (c, upd_node (mn_addr new) (\<lambda>n. n\<lparr>mn_type := NodeType_Allocated\<rparr>) mm1)))"
    let ?mmw = "upd_node (mn_addr new) (\<lambda>n. n\<lparr>mn_type := NodeType_Wasted\<rparr>) mm1"
    show ?case
    proof (cases "cap_retype env mm1 (mn_base new - initial_base mm1) (ucast (round_up_page sz)) = Some SYS_ERR_REVOKE_FIRST")
      case True
      have "placed lo hi (page_up (unat sz)) (eff_align alignment) NodeType_Wasted c mm ?mmw" using pl by blast
      note w = placed_wasted [OF this]
      from r True have "mm_alloc_aligned (Suc fuel) env mm sz alignment = mm_alloc_aligned fuel env ?mmw sz alignment" by simp
      then show ?thesis using Suc.IH [OF w(1,2)] w(3) retried_trans [OF w(4)] by (elim disjE) auto
    next
      case False
      then show ?thesis unfolding r using pl by (intro disjI2 exI conjI) auto
    qed
  qed auto
qed simp

section \<open>When a request can be served\<close>

text \<open>
  In a list without neighbouring free regions every contiguous free range lies in one region.
  So an attempt fails only if no aligned range of free memory is large enough.
\<close>

lemma free_range_in_node:
  assumes "tiles lo ns hi" "coalesced ns" "{a..<a + k} \<subseteq> mem_of NodeType_Free ns" "0 < k"
  shows "\<exists>n \<in> set ns. mn_type n = NodeType_Free \<and> {a..<a + k} \<subseteq> nd_range n"
  using assms
proof (induction ns arbitrary: lo)
  case (Cons n ns)
  have t: "nd_lo n = lo" "lo < nd_hi n" "tiles (nd_hi n) ns hi" using Cons.prems(1) by simp_all
  have later: "mem_of NodeType_Free ns \<subseteq> {nd_hi n..<hi}" by (rule mem_of_bounds [OF t(3)])
  have c: "coalesced ns" using Cons.prems(2) by (cases ns) (simp_all add: coalesced_def)
  show ?case
  proof (cases "a < nd_hi n")
    case True
    have "a \<in> {a..<a + k}" using Cons.prems(4) by simp
    with Cons.prems(3) have "a \<in> mem_of NodeType_Free (n # ns)" by (rule subsetD)
    then have free: "mn_type n = NodeType_Free" "a \<in> nd_range n" using True later by (auto split: if_splits)
    have "a + k \<le> nd_hi n"
    proof (rule ccontr)
      assume "\<not> a + k \<le> nd_hi n"
      then have "nd_hi n \<in> {a..<a + k}" using True by simp
      with Cons.prems(3) have "nd_hi n \<in> mem_of NodeType_Free (n # ns)" by (rule subsetD)
      then have hi: "nd_hi n \<in> mem_of NodeType_Free ns" using free(1) by (auto simp: nd_range_def)
      then obtain m ms where ns: "ns = m # ms" by (cases ns) auto
      moreover have "mem_of NodeType_Free ms \<subseteq> {nd_hi m..<hi}" using t(3) ns by (intro mem_of_bounds) simp
      ultimately have "mn_type m = NodeType_Free" using hi t(3) by (auto split: if_splits)
      then show False using Cons.prems(2) ns free(1) by (simp add: coalesced_def)
    qed
    then show ?thesis using free by (intro bexI [of _ n]) (auto simp: nd_range_def)
  next
    case False
    then have "{a..<a + k} \<subseteq> mem_of NodeType_Free ns"
      using Cons.prems(3) by (auto simp: nd_range_def split: if_splits)
    then show ?thesis using Cons.IH [OF t(3) c] Cons.prems(4) by auto
  qed
qed simp

lemma fits_iff:
  assumes "alignment \<noteq> 0" "0 < unat sz"
  shows "fits sz alignment n \<longleftrightarrow> mn_type n = NodeType_Free \<and>
    (\<exists>a. unat alignment dvd a \<and> {a..<a + unat sz} \<subseteq> nd_range n)"
proof -
  let ?d = "unat (align_dif (mn_base n) alignment)"
  note d = align_dif_ok [OF assms(1), of "mn_base n"]
  have "unat sz + ?d \<le> unat (mn_size n)" if a: "unat alignment dvd a" "{a..<a + unat sz} \<subseteq> nd_range n" for a
  proof -
    have "nd_lo n \<le> a" "a + unat sz \<le> nd_hi n" using a(2) assms(2) unfolding nd_range_def by auto
    moreover have "nd_lo n + ?d \<le> a"
    proof (rule ccontr)
      assume lt: "\<not> nd_lo n + ?d \<le> a"
      then have "unat alignment dvd nd_lo n + ?d - a" using a(1) d(2) by (intro dvd_diff_nat) (simp_all add: nd_lo_def)
      then have "unat alignment \<le> nd_lo n + ?d - a" using lt by (intro dvd_imp_le) auto
      then show False using \<open>nd_lo n \<le> a\<close> d(1) by linarith
    qed
    ultimately show ?thesis unfolding nd_hi_def nd_lo_def by linarith
  qed
  moreover have "\<exists>a. unat alignment dvd a \<and> {a..<a + unat sz} \<subseteq> nd_range n" if "unat sz + ?d \<le> unat (mn_size n)"
    using that d(2) by (intro exI [of _ "nd_lo n + ?d"]) (auto simp: nd_range_def nd_hi_def nd_lo_def)
  ultimately show ?thesis unfolding fits_def by blast
qed

lemma some_node_fits:
  assumes "mm_inv lo hi mm" "coalesced (mm_head mm)" "alignment \<noteq> 0" "0 < unat sz"
  shows "(\<exists>n \<in> set (mm_head mm). fits sz alignment n) \<longleftrightarrow>
    (\<exists>a. unat alignment dvd a \<and> {a..<a + unat sz} \<subseteq> mem_of NodeType_Free (mm_head mm))"
proof
  assume "\<exists>n \<in> set (mm_head mm). fits sz alignment n"
  then obtain n a where n: "n \<in> set (mm_head mm)" "mn_type n = NodeType_Free" "unat alignment dvd a" "{a..<a + unat sz} \<subseteq> nd_range n"
    unfolding fits_iff [OF assms(3,4)] by blast
  moreover have "nd_range n \<subseteq> mem_of NodeType_Free (mm_head mm)" using n(1,2) by (auto simp: mem_of_def)
  ultimately show "\<exists>a. unat alignment dvd a \<and> {a..<a + unat sz} \<subseteq> mem_of NodeType_Free (mm_head mm)"
    by (metis subset_trans)
next
  assume "\<exists>a. unat alignment dvd a \<and> {a..<a + unat sz} \<subseteq> mem_of NodeType_Free (mm_head mm)"
  then obtain a where a: "unat alignment dvd a" "{a..<a + unat sz} \<subseteq> mem_of NodeType_Free (mm_head mm)" by blast
  have "tiles lo (mm_head mm) hi" using assms(1) by (simp add: mm_inv_def)
  from free_range_in_node [OF this assms(2) a(2) assms(4)]
  obtain n where "n \<in> set (mm_head mm)" "mn_type n = NodeType_Free" "{a..<a + unat sz} \<subseteq> nd_range n" by blast
  then show "\<exists>n \<in> set (mm_head mm). fits sz alignment n"
    using a(1) fits_iff [OF assms(3,4), of n] by metis
qed

lemma mm_alloc_iff:
  assumes "mm_inv lo hi mm" "mm_ready mm" "coalesced (mm_head mm)" "slab_refill_ok (slab_refill env)" "slot_refill_ok (slot_refill env)"
    "request_ok sz alignment" "\<And>mm off s. cap_retype env mm off s \<noteq> Some SYS_ERR_REVOKE_FIRST"
  shows "if \<exists>a. eff_align alignment dvd a \<and> {a..<a + page_up (unat sz)} \<subseteq> mem_of NodeType_Free (mm_head mm)
    then (\<exists>c mm'. mm_alloc_aligned (Suc fuel) env mm sz alignment = Some (Ok (c, mm')) \<and>
      placed lo hi (page_up (unat sz)) (eff_align alignment) NodeType_Allocated c mm mm')
    else mm_alloc_aligned (Suc fuel) env mm sz alignment = Some Abort"
proof -
  note w = request_words [OF assms(6)]
  note fit = some_node_fits [OF assms(1,3) w(4) w(3), unfolded w(1,2)]
  from mm_round_ok [OF assms(1,2,4,5,6), of fuel, unfolded fit [symmetric]] show ?thesis
    unfolding fit [symmetric] using assms(7) by auto
qed

end
