(* ===== verification/Mm_Free.thy ===== *)
theory Mm_Free
  imports Mm_Alloc
begin

text \<open>
  Freeing in the memory manager: the search finds the region, and releasing it turns exactly
  its memory into free memory and joins it with its free neighbours.
\<close>

section \<open>Joining two regions\<close>

definition join_nodes :: "mmnode \<Rightarrow> mmnode \<Rightarrow> mmnode" where
  "join_nodes n m = n\<lparr>mn_size := mn_size n + mn_size m\<rparr>"

lemma join_nodes_simps [simp]:
  "mn_addr (join_nodes n m) = mn_addr n" "mn_type (join_nodes n m) = mn_type n" "nd_lo (join_nodes n m) = nd_lo n"
  by (simp_all add: join_nodes_def nd_lo_def)

lemma join_nodes_ok:
  assumes "tiles lo (pre @ n # m # post) hi" "hi < 2 ^ 64" "mn_type n = mn_type m"
  shows "tiles lo (pre @ join_nodes n m # post) hi" "mem_of t (pre @ join_nodes n m # post) = mem_of t (pre @ n # m # post)"
proof -
  have m: "nd_hi m < 2 ^ 64" using tiles_bounds [OF assms(1), of m] assms(2) by simp
  have adj: "nd_hi n = nd_lo m" "nd_lo n < nd_hi n" "nd_lo m < nd_hi m" using assms(1) by (auto simp: tiles_append)
  then have "unat (mn_size n) + unat (mn_size m) < 2 ^ 64" using m by (simp add: nd_hi_def nd_lo_def)
  then have hi: "nd_hi (join_nodes n m) = nd_hi m"
    using adj unat_plus_less [of "mn_size n" "mn_size m"] by (simp add: nd_hi_def nd_lo_def join_nodes_def)
  then show "tiles lo (pre @ join_nodes n m # post) hi" using assms(1) adj by (auto simp: tiles_append)
  have "nd_range (join_nodes n m) = nd_range n \<union> nd_range m" using hi adj by (auto simp: nd_range_def)
  then show "mem_of t (pre @ join_nodes n m # post) = mem_of t (pre @ n # m # post)" using assms(3) by auto
qed

lemma merge_step:
  assumes "mm_inv lo hi mm" "mm_head mm = pre @ n # m # post" "mn_type n = NodeType_Free" "mn_type m = NodeType_Free"
    "mn_addr n' = mn_addr n"
  shows "\<exists>sl. mm_mmnode_merge mm n' m = Ok (mm\<lparr>mm_head := pre @ join_nodes n m # post, mm_slabs := sl\<rparr>) \<and>
    mm_inv lo hi (mm\<lparr>mm_head := pre @ join_nodes n m # post, mm_slabs := sl\<rparr>) \<and>
    (\<forall>t. mem_of t (pre @ join_nodes n m # post) = mem_of t (pre @ n # m # post))"
proof -
  have inv: "tiles lo (pre @ n # m # post) hi" "hi < 2 ^ 64" "blocks_ok (mm_slabs mm) (pre @ n # m # post)" "spa_inv (mm_slot_inst mm)"
    using assms(1,2) by (simp_all add: mm_inv_def)
  have "mn_type n = mn_type m" using assms(3,4) by simp
  note j = join_nodes_ok [OF inv(1,2) this]
  have "mm_mmnode_merge mm n' m = mm_mmnode_merge mm n m" using assms(5) by (simp add: mm_mmnode_merge_def)
  then show ?thesis using mm_mmnode_merge_ok [OF assms(2) inv(3)] j inv(2,4)
    by (auto simp: join_nodes_def mm_inv_def)
qed

section \<open>Releasing a region\<close>

lemma release_next:
  assumes "mm_inv lo hi mm" "mm_head mm = pre @ n # post" "mn_type n = NodeType_Free" "mn_addr n' = mn_addr n"
  shows "\<exists>n2 post2 sl.
    (case post of nxt # _ \<Rightarrow> if mn_type nxt = NodeType_Free then mm_mmnode_merge mm n' nxt else Ok mm | [] \<Rightarrow> Ok mm) =
      Ok (mm\<lparr>mm_head := pre @ n2 # post2, mm_slabs := sl\<rparr>) \<and>
    mn_addr n2 = mn_addr n \<and> mn_type n2 = NodeType_Free \<and> mm_inv lo hi (mm\<lparr>mm_head := pre @ n2 # post2, mm_slabs := sl\<rparr>) \<and>
    (\<forall>t. mem_of t (pre @ n2 # post2) = mem_of t (pre @ n # post)) \<and> (coalesced post \<longrightarrow> coalesced (n2 # post2))"
proof (cases "post \<noteq> [] \<and> mn_type (hd post) = NodeType_Free")
  case True
  then obtain m post' where post: "post = m # post'" "mn_type m = NodeType_Free" by (cases post) auto
  then obtain sl where "mm_mmnode_merge mm n' m = Ok (mm\<lparr>mm_head := pre @ join_nodes n m # post', mm_slabs := sl\<rparr>)"
    "mm_inv lo hi (mm\<lparr>mm_head := pre @ join_nodes n m # post', mm_slabs := sl\<rparr>)"
    "\<forall>t. mem_of t (pre @ join_nodes n m # post') = mem_of t (pre @ n # post)"
    using merge_step [OF assms(1) _ assms(3) _ assms(4), of pre m post'] assms(2) by auto
  then show ?thesis using post assms(3)
    by (intro exI [of _ "join_nodes n m"] exI [of _ post'] exI [of _ sl]) (auto simp: coalesced_def successively_Cons)
next
  case False
  have "mm\<lparr>mm_head := pre @ n # post, mm_slabs := mm_slabs mm\<rparr> = mm" using assms(2) by (cases mm) simp
  then show ?thesis using False assms
    by (intro exI [of _ n] exI [of _ post] exI [of _ "mm_slabs mm"])
      (auto simp: mm_inv_def coalesced_def successively_Cons split: list.splits)
qed

lemma release_prev:
  assumes "mm_inv lo hi mm" "mm_head mm = pre @ n # post" "mn_type n = NodeType_Free" "mn_addr n = a"
  shows "\<exists>ns sl.
    (if pre \<noteq> [] \<and> mn_type (last pre) = NodeType_Free
     then case node_split a [] (mm_head mm) of Some (_, node, _) \<Rightarrow> mm_mmnode_merge mm (last pre) node | None \<Rightarrow> Abort
     else Ok mm) = Ok (mm\<lparr>mm_head := ns, mm_slabs := sl\<rparr>) \<and>
    mm_inv lo hi (mm\<lparr>mm_head := ns, mm_slabs := sl\<rparr>) \<and>
    (\<forall>t. mem_of t ns = mem_of t (pre @ n # post)) \<and> (coalesced pre \<and> coalesced (n # post) \<longrightarrow> coalesced ns)"
proof (cases "pre \<noteq> [] \<and> mn_type (last pre) = NodeType_Free")
  case True
  then obtain pre' p where pre: "pre = pre' @ [p]" "mn_type p = NodeType_Free" by (cases pre rule: rev_cases) auto
  then have head: "mm_head mm = pre' @ p # n # post" using assms(2) by simp
  have "node_split a [] (mm_head mm) = Some (pre, n, post)"
    using node_split_at [of n pre "[]" post] assms by (auto simp: mm_inv_def blocks_ok_def)
  moreover obtain sl where "mm_mmnode_merge mm p n = Ok (mm\<lparr>mm_head := pre' @ join_nodes p n # post, mm_slabs := sl\<rparr>)"
    "mm_inv lo hi (mm\<lparr>mm_head := pre' @ join_nodes p n # post, mm_slabs := sl\<rparr>)"
    "\<forall>t. mem_of t (pre' @ join_nodes p n # post) = mem_of t (pre' @ p # n # post)"
    using merge_step [OF assms(1) head pre(2) assms(3) refl] by blast
  moreover have "coalesced (pre' @ join_nodes p n # post)" if "coalesced pre" "coalesced (n # post)"
    using that pre assms(3) by (auto simp: coalesced_def successively_append_iff successively_Cons)
  ultimately show ?thesis using pre
    by (intro exI [of _ "pre' @ join_nodes p n # post"] exI [of _ sl]) simp
next
  case False
  have "mm\<lparr>mm_head := pre @ n # post, mm_slabs := mm_slabs mm\<rparr> = mm" using assms(2) by (cases mm) simp
  then show ?thesis using False assms
    by (intro exI [of _ "pre @ n # post"] exI [of _ "mm_slabs mm"])
      (auto simp: mm_inv_def coalesced_def successively_append_iff)
qed

text \<open>
  The memory of the node becomes free memory and no other memory changes; a list without
  neighbouring free regions stays so.
\<close>

definition free_effect :: "nat \<Rightarrow> nat \<Rightarrow> mmnode \<Rightarrow> mm \<Rightarrow> mm \<Rightarrow> bool" where
  "free_effect lo hi n mm mm' \<longleftrightarrow>
     mm_inv lo hi mm' \<and> (mm_ready mm \<longrightarrow> mm_ready mm') \<and> (coalesced (mm_head mm) \<longrightarrow> coalesced (mm_head mm')) \<and>
     mem_of NodeType_Free (mm_head mm') = mem_of NodeType_Free (mm_head mm) \<union> nd_range n \<and>
     (\<forall>t. t \<noteq> NodeType_Free \<longrightarrow> mem_of t (mm_head mm') = mem_of t (mm_head mm) - nd_range n)"

lemma mm_release_ok:
  assumes "mm_inv lo hi mm" "mm_head mm = pre @ node # post"
  shows "\<exists>mm'. mm_release mm pre node post = Ok mm' \<and> free_effect lo hi node mm mm'"
proof -
  let ?n = "node\<lparr>mn_type := NodeType_Free\<rparr>"
  let ?mm = "mm\<lparr>mm_head := pre @ ?n # post\<rparr>"
  have inv: "tiles lo (pre @ node # post) hi" "blocks_ok (mm_slabs mm) (pre @ node # post)"
    using assms by (simp_all add: mm_inv_def)
  have rng: "nd_lo ?n = nd_lo node" "nd_hi ?n = nd_hi node" "nd_range ?n = nd_range node"
    by (simp_all add: nd_lo_def nd_hi_def nd_range_def)
  have upd: "upd_node (mn_addr node) (\<lambda>n. n\<lparr>mn_type := NodeType_Free\<rparr>) mm = ?mm"
    using upd_node_at [OF assms(2)] inv(2) assms(2) by (simp add: blocks_ok_def)
  have "tiles lo (pre @ ?n # post) hi" "blocks_ok (mm_slabs mm) (pre @ ?n # post)"
    using inv rng by (auto simp: tiles_append blocks_ok_def)
  then have i1: "mm_inv lo hi ?mm" using assms(1) by (simp add: mm_inv_def)
  obtain n2 post2 sl where r1: "(case post of nxt # _ \<Rightarrow> if mn_type nxt = NodeType_Free then mm_mmnode_merge ?mm node nxt else Ok ?mm
       | [] \<Rightarrow> Ok ?mm) = Ok (?mm\<lparr>mm_head := pre @ n2 # post2, mm_slabs := sl\<rparr>)" (is "_ = Ok ?mm2")
    "mn_addr n2 = mn_addr node" "mn_type n2 = NodeType_Free" "mm_inv lo hi (?mm\<lparr>mm_head := pre @ n2 # post2, mm_slabs := sl\<rparr>)"
    "\<forall>t. mem_of t (pre @ n2 # post2) = mem_of t (pre @ ?n # post)" "coalesced post \<longrightarrow> coalesced (n2 # post2)"
    using release_next [OF i1, of pre ?n post node] by auto
  have h: "mm_head ?mm2 = pre @ n2 # post2" by simp
  obtain ns sl' where r2: "(if pre \<noteq> [] \<and> mn_type (last pre) = NodeType_Free
     then case node_split (mn_addr node) [] (mm_head ?mm2) of Some (_, node, _) \<Rightarrow> mm_mmnode_merge ?mm2 (last pre) node | None \<Rightarrow> Abort
     else Ok ?mm2) = Ok (?mm2\<lparr>mm_head := ns, mm_slabs := sl'\<rparr>)" (is "_ = Ok ?mm3")
    "mm_inv lo hi (?mm2\<lparr>mm_head := ns, mm_slabs := sl'\<rparr>)" "\<forall>t. mem_of t ns = mem_of t (pre @ n2 # post2)"
    "coalesced pre \<and> coalesced (n2 # post2) \<longrightarrow> coalesced ns"
    using release_prev [OF r1(4) h r1(3,2)] by blast
  have "mm_release mm pre node post = Ok ?mm3"
    unfolding mm_release_def Let_def upd r1(1) bind_outcome.simps by (rule r2(1))
  moreover have "mem_of t ns = (if t = NodeType_Free then nd_range node else {}) \<union> mem_of t (pre @ post)" for t
    using r1(5) r2(3) rng(3) by auto
  then have "mem_of NodeType_Free ns = mem_of NodeType_Free (mm_head mm) \<union> nd_range node"
    "\<forall>t. t \<noteq> NodeType_Free \<longrightarrow> mem_of t ns = mem_of t (mm_head mm) - nd_range node"
    using assms(2) tiles_mem_disjoint [OF inv(1)] by auto
  moreover have "coalesced (mm_head mm) \<longrightarrow> coalesced ns"
    using r1(6) r2(4) assms(2) by (auto simp: coalesced_def successively_append_iff successively_Cons)
  ultimately show ?thesis using r2(2) unfolding free_effect_def
    by (intro exI [of _ ?mm3] conjI) (simp_all add: mm_ready_def)
qed

section \<open>Finding the region\<close>

lemma mm_free_search_at:
  assumes "\<And>n. n \<in> set pre \<Longrightarrow> fst (region n) \<noteq> base" "fst (region node) = base" "snd (region node) - sz \<le> PAGE64"
  shows "mm_free_search region mm base sz ps (pre @ node # post) = mm_release mm (ps @ pre) node post"
  using assms(1)
proof (induction pre arbitrary: ps)
  case Nil
  then show ?case using assms(2,3) by simp
next
  case (Cons n pre)
  then show ?case by simp
qed

lemma mm_free_search_none:
  "(\<And>n. n \<in> set ns \<Longrightarrow> fst (region n) \<noteq> base) \<Longrightarrow> mm_free_search region mm base sz ps ns = Err MM_ERR_NOT_FOUND"
  by (induction ns arbitrary: ps) auto

lemma tiles_base_unique:
  assumes "tiles lo (pre @ node # post) hi" "n \<in> set pre"
  shows "mn_base n \<noteq> mn_base node"
proof -
  obtain mid where "tiles lo pre mid" "nd_lo node = mid" using assms(1) by (auto simp: tiles_append)
  then show ?thesis using tiles_bounds [of lo pre mid n] assms(2) by (auto simp: nd_lo_def)
qed

lemma mm_free_ok:
  assumes "mm_inv lo hi mm" "node \<in> set (mm_head mm)" "sz \<le> mn_size node" "unat (mn_size node) \<le> unat sz + 4096"
  shows "\<exists>mm'. mm_free env mm (mn_base node) sz = Ok mm' \<and> free_effect lo hi node mm mm'"
proof -
  obtain pre post where head: "mm_head mm = pre @ node # post" using split_list [OF assms(2)] by blast
  then have "mn_base n \<noteq> mn_base node" if "n \<in> set pre" for n
    using tiles_base_unique [OF _ that] assms(1) by (auto simp: mm_inv_def)
  moreover have "mn_size node - sz \<le> PAGE64"
    using unat_minus_le [OF assms(3)] assms(4) by (simp add: word_le_nat_alt PAGE64_def)
  ultimately have "mm_free_search (\<lambda>n. (mn_base n, mn_size n)) mm (mn_base node) sz [] (mm_head mm) = mm_release mm pre node post"
    unfolding head by (subst mm_free_search_at) auto
  then show ?thesis using mm_release_ok [OF assms(1) head] by (auto simp: mm_free_def)
qed

end
