(* ===== verification/Mm_Refill.thy ===== *)
theory Mm_Refill
  imports Mm_Life
begin

text \<open>
  The refill functions of a memory manager. \<open>slot_prealloc_refill\<close>
  (\<^verbatim>\<open>lib/mm/slot_alloc.c\<close>) builds a new cnode with memory of the manager whose slots it refills;
  \<open>slab_default_refill\<close> maps a page for the slabs. When the memory comes from elsewhere both do
  what allocation needs of them; when the memory comes from the manager itself, the refill is
  handed the region that the interrupted allocation has set aside.
\<close>

section \<open>The code\<close>

text \<open>
  \<open>cnode_ram\<close> is the call of \<open>mm_alloc\<close> for the memory of a cnode, \<open>slot_alloc_root\<close> allocates a slot in the root cnode (the second
  time \<open>slot_alloc_root_again\<close>), \<open>root_refill\<close> enlarges the root cnode, \<open>cnode_create\<close> builds
  the cnode from slot and memory.
\<close>

definition root_slot :: "capref outcome \<Rightarrow> (mm \<Rightarrow> mm outcome) \<Rightarrow> capref outcome \<Rightarrow> mm \<Rightarrow> (capref \<times> mm) outcome" where
  "root_slot slot_alloc_root root_refill slot_alloc_root_again mm =
     (case slot_alloc_root of
        Ok c \<Rightarrow> Ok (c, mm)
      | Abort \<Rightarrow> Abort
      | Err e \<Rightarrow>
          if e = LIB_ERR_SLOT_ALLOC_NO_SPACE
          then (case root_refill mm of
                  Ok mm \<Rightarrow>
                    (case slot_alloc_root_again of Ok c \<Rightarrow> Ok (c, mm) | Err _ \<Rightarrow> Err LIB_ERR_SLOT_ALLOC | Abort \<Rightarrow> Abort)
                | Err _ \<Rightarrow> Err LIB_ERR_ROOTSA_RESIZE
                | Abort \<Rightarrow> Abort)
          else Err LIB_ERR_SLOT_ALLOC)"

definition slot_prealloc_refill ::
    "(mm \<Rightarrow> (capref \<times> mm) outcome) \<Rightarrow> (mm \<Rightarrow> (capref \<times> mm) outcome) \<Rightarrow>
      (capref \<Rightarrow> capref \<Rightarrow> mm \<Rightarrow> cnoderef outcome) \<Rightarrow> mm \<Rightarrow> mm outcome" where
  "slot_prealloc_refill cnode_ram root cnode_create mm =
     (let sa = mm_slot_inst mm; refill = (\<not> spa_current sa) in
      if spa_static_refilling sa then Ok mm
      else if pm_free (spa_meta sa refill) = L2_CNODE_SLOTS then Ok mm
      else case cnode_ram (mm\<lparr>mm_slot_inst := sa\<lparr>spa_static_refilling := True\<rparr>\<rparr>) of
             Ok (ram, mm) \<Rightarrow>
               bind_outcome (root mm)
                 (\<lambda>(cnode_cap, mm).
                    case cnode_create cnode_cap ram mm of
                      Ok cnode \<Rightarrow>
                        Ok (mm\<lparr>mm_slot_inst :=
                          (spa_set_meta refill \<lparr>pm_cap = \<lparr>cap_cnode = cnode, cap_slot = 0\<rparr>, pm_free = L2_CNODE_SLOTS\<rparr>
                             (mm_slot_inst mm))\<lparr>spa_static_refilling := False\<rparr>\<rparr>)
                    | Err _ \<Rightarrow> Err LIB_ERR_CNODE_CREATE
                    | Abort \<Rightarrow> Abort)
           | Err _ \<Rightarrow> Err MM_ERR_SLOT_MM_ALLOC
           | Abort \<Rightarrow> Abort)"

section \<open>Refilling from elsewhere\<close>

text \<open>Pages that do not overlap the slabs there are.\<close>

definition fresh_pages :: "(slab_allocator \<Rightarrow> nat \<Rightarrow> (nat \<times> nat) outcome) \<Rightarrow> bool" where
  "fresh_pages pages \<longleftrightarrow> (\<forall>sl. node_slab sl \<longrightarrow>
     (\<exists>buf. pages sl BASE_PAGE_SIZE = Ok (buf, BASE_PAGE_SIZE) \<and> buf \<noteq> 0 \<and>
        (\<forall>sh \<in> set (slabs sl). slab_range (blocksize sl) sh \<inter> {buf..<buf + BASE_PAGE_SIZE} = {})))"

definition page_refill :: "(slab_allocator \<Rightarrow> nat \<Rightarrow> (nat \<times> nat) outcome) \<Rightarrow> mm \<Rightarrow> mm outcome" where
  "page_refill pages mm =
     bind_outcome (slab_default_refill (pages (mm_slabs mm)) (mm_slabs mm)) (\<lambda>sl. Ok (mm\<lparr>mm_slabs := sl\<rparr>))"

lemma default_refill_grows:
  assumes "fresh_pages pages" "node_slab sl"
  shows "\<exists>sl'. slab_default_refill (pages sl) sl = Ok sl' \<and> node_slab sl' \<and> slab_used sl' = slab_used sl \<and> 4 \<le> slab_freecount sl'"
proof -
  obtain buf where buf: "pages sl BASE_PAGE_SIZE = Ok (buf, BASE_PAGE_SIZE)" "buf \<noteq> 0"
    "\<And>sh. sh \<in> set (slabs sl) \<Longrightarrow> slab_range (blocksize sl) sh \<inter> {buf..<buf + BASE_PAGE_SIZE} = {}"
    using assms unfolding fresh_pages_def by blast
  have bs: "0 < blocksize sl" "4 * blocksize sl \<le> 4080" "SLAB_HEAD_SIZE + blocksize sl \<le> BASE_PAGE_SIZE" "slab_inv sl"
    using assms(2) by (auto simp: node_slab_def slab_inv_def SLAB_HEAD_SIZE_def BASE_PAGE_SIZE_def)
  let ?n = "(BASE_PAGE_SIZE - SLAB_HEAD_SIZE) div blocksize sl"
  have page: "BASE_PAGE_SIZE - SLAB_HEAD_SIZE = 4080" by (simp add: SLAB_HEAD_SIZE_def BASE_PAGE_SIZE_def)
  have "?n \<le> 4080" unfolding page by simp
  then have small: "?n < 2 ^ 32" by simp
  have "4 \<le> ?n" unfolding page using bs(1,2) by (simp add: less_eq_div_iff_mult_less_eq)
  then show ?thesis using slab_grow_ok [OF bs(4) buf(2) bs(3) small buf(3)] buf(1) assms(2)
    by (auto simp: slab_default_refill_def slab_refill_pages_def node_slab_def)
qed

lemma page_refill_ok: "fresh_pages pages \<Longrightarrow> slab_refill_ok (page_refill pages)"
  unfolding slab_refill_ok_def page_refill_def using default_refill_grows by fastforce

lemma prealloc_refill_ok:
  assumes "\<And>mm. \<exists>c. alloc mm = Ok (c, mm)" "\<And>mm. \<exists>c. root mm = Ok (c, mm)"
    "\<And>c r mm. \<exists>cn. create c r mm = Ok cn \<and> cn \<noteq> cap_cnode (pm_cap (spa_meta0 (mm_slot_inst mm))) \<and>
       cn \<noteq> cap_cnode (pm_cap (spa_meta1 (mm_slot_inst mm)))"
  shows "slot_refill_ok (slot_prealloc_refill alloc root create)"
  unfolding slot_refill_ok_def
proof (intro allI impI)
  fix mm :: mm
  assume inv: "spa_inv (mm_slot_inst mm) \<and> \<not> spa_static_refilling (mm_slot_inst mm)"
  let ?sa = "mm_slot_inst mm"
  let ?mm = "mm\<lparr>mm_slot_inst := ?sa\<lparr>spa_static_refilling := True\<rparr>\<rparr>"
  let ?i = "\<not> spa_current ?sa"
  obtain r c cn where p: "alloc ?mm = Ok (r, ?mm)" "root ?mm = Ok (c, ?mm)" "create c r ?mm = Ok cn"
    "cn \<noteq> cap_cnode (pm_cap (spa_meta0 ?sa))" "cn \<noteq> cap_cnode (pm_cap (spa_meta1 ?sa))"
    using assms(1) [of ?mm] assms(2) [of ?mm] assms(3) [of _ _ ?mm] by fastforce
  show "\<exists>sa. slot_prealloc_refill alloc root create mm = Ok (mm\<lparr>mm_slot_inst := sa\<rparr>) \<and> spa_inv sa \<and>
      \<not> spa_static_refilling sa \<and> spa_is_refilling sa = spa_is_refilling ?sa \<and>
      (4 \<le> pm_free (spa_meta0 sa) \<or> 4 \<le> pm_free (spa_meta1 sa))"
  proof (cases "pm_free (spa_meta ?sa ?i) = L2_CNODE_SLOTS")
    case True
    then show ?thesis using inv
      by (intro exI [of _ ?sa]) (auto simp: slot_prealloc_refill_def Let_def spa_meta_def L2_CNODE_SLOTS_def split: if_splits)
  next
    case False
    let ?sa' = "(spa_set_meta ?i \<lparr>pm_cap = \<lparr>cap_cnode = cn, cap_slot = 0\<rparr>, pm_free = L2_CNODE_SLOTS\<rparr>
      (?sa\<lparr>spa_static_refilling := True\<rparr>))\<lparr>spa_static_refilling := False\<rparr>"
    have "slot_prealloc_refill alloc root create mm = Ok (mm\<lparr>mm_slot_inst := ?sa'\<rparr>)"
      using False inv p(1-3) by (simp add: slot_prealloc_refill_def Let_def)
    then show ?thesis using inv p(4,5)
      by (intro exI [of _ ?sa'], cases "spa_current ?sa") (auto simp: spa_set_meta_def spa_inv_def L2_CNODE_SLOTS_def)
  qed
qed

section \<open>Refilling from the manager itself\<close>

text \<open>
  Between setting a region aside and marking it as allocated, \<open>mm_alloc_aligned\<close> allocates a
  slot, which may refill the slots with memory of the same manager. The region is still free
  then, and as the first one that fits it is found again.
\<close>

lemma mmnode_find_split:
  assumes "mmnode_find sz alignment ns = Ok node"
  shows "\<exists>pre post. ns = pre @ node # post \<and> (\<forall>n \<in> set pre. mmnode_find sz alignment [n] = Err MM_ERR_NOT_FOUND) \<and>
    mmnode_find sz alignment [node] = Ok node"
  using assms
proof (induction ns)
  case (Cons n ns)
  show ?case
  proof (cases "mn_type n = NodeType_Free \<and> ucast (sz + align_dif (mn_base n) alignment) \<le> mn_size n")
    case True
    then show ?thesis using Cons.prems by (intro exI [of _ "[]"] exI [of _ ns]) (auto split: if_splits)
  next
    case False
    then have "mmnode_find sz alignment ns = Ok node" "mmnode_find sz alignment [n] = Err MM_ERR_NOT_FOUND"
      using Cons.prems by (auto split: if_splits)
    then show ?thesis using Cons.IH by (metis append_Cons set_ConsD)
  qed
qed simp

lemma mmnode_find_skip:
  "(\<forall>n \<in> set pre. mmnode_find sz alignment [n] = Err MM_ERR_NOT_FOUND) \<Longrightarrow>
     mmnode_find sz alignment (pre @ ns) = mmnode_find sz alignment ns"
  by (induction pre) (auto split: if_splits)

lemma reserved_node_found_again:
  assumes "mm_inv lo hi mm" "2 \<le> slab_freecount (mm_slabs mm)" "0 < unat sz" "alignment \<noteq> 0"
    "unat sz + unat alignment \<le> 2 ^ 32" "mm_mmnode_find mm sz alignment = Ok node" "align_dif (mn_base node) alignment = 0"
  shows "\<exists>new mm'. mm_split env mm node sz alignment = Ok (new, mm') \<and> mn_type new = NodeType_Free \<and>
    mm_mmnode_find mm' sz alignment = Ok new"
proof -
  obtain pre post where head: "mm_head mm = pre @ node # post" "\<forall>n \<in> set pre. mmnode_find sz alignment [n] = Err MM_ERR_NOT_FOUND"
    "mmnode_find sz alignment [node] = Ok node"
    using mmnode_find_split assms(6) unfolding mm_mmnode_find_def by blast
  have node: "mn_type node = NodeType_Free" "ucast sz \<le> mn_size node"
    using head(3) assms(4,7) by (auto split: if_splits)
  have inv: "tiles lo (pre @ node # post) hi" "hi < 2 ^ 64" "blocks_ok (mm_slabs mm) (pre @ node # post)"
    using assms(1) head(1) by (simp_all add: mm_inv_def)
  have le: "unat sz \<le> unat (mn_size node)" using node(2) by (simp add: word_le_nat_alt unat_ucast_64)
  have "unat sz < 2 ^ 32" using unat_exp_less [of sz] by simp
  then obtain A new B sl where split:
    "mm_split env mm node sz alignment = Ok (new, mm\<lparr>mm_slabs := sl, mm_head := pre @ A @ new # B @ post\<rparr>)"
    "split_of node 0 (unat sz) A new B"
    using mm_split_ok [OF head(1) inv assms(2) node(1) assms(3) assms(7) [symmetric], where env = env] le assms(7) by auto
  have t: "tiles (nd_lo node) (A @ new # B) (nd_hi node)" "nd_lo new = nd_lo node" "nd_hi new = nd_lo new + unat sz"
      "mn_type new = NodeType_Free"
    using split(2) by (simp_all add: split_of_def)
  have "A = []" using t(1,2) by (cases A) (auto simp: tiles_append dest: tiles_le)
  moreover have "mn_base new = mn_base node" "unat (mn_size new) = unat sz"
    using t(2,3) by (simp_all add: nd_lo_def nd_hi_def word_unat_eq_iff)
  then have "mmnode_find sz alignment (new # B @ post) = Ok new"
    using t(4) assms(4,7) by (simp add: word_le_nat_alt unat_ucast_64)
  ultimately show ?thesis using split(1) t(4) head(2)
    by (simp add: mm_mmnode_find_def mmnode_find_skip)
qed

end
