(* ===== verification/Mem_Alloc.thy ===== *)
theory Mem_Alloc
  imports Mm_Refill
begin

text \<open>
  The memory allocator of the init process, \<^verbatim>\<open>usr/init/mem_alloc.c\<close>: how it is set up from the
  regions in the boot information, and the functions that the rest of the system allocates
  and frees memory with. Every core takes one region: the first core the first empty one, the
  second core the second, and so on.
\<close>

section \<open>The code\<close>

datatype region_type = RegionType_Empty | RegionType_RootTask | RegionType_PhyAddr | RegionType_PlatformData
  | RegionType_Module | RegionType_ACPI_TABLE | RegionType_Max

record mem_region =
  mr_base :: u64
  mr_type :: region_type
  mr_bytes :: u64

definition aos_ram_alloc_aligned :: "nat \<Rightarrow> mm_env \<Rightarrow> mm \<Rightarrow> u32 \<Rightarrow> u32 \<Rightarrow> (capref \<times> mm) outcome option" where
  "aos_ram_alloc_aligned fuel env aos_mm sz alignment = mm_alloc_aligned fuel env aos_mm sz alignment"

text \<open>\<open>fi\<close> is the address and size that the kernel reports for the capability.\<close>

definition aos_ram_free :: "mm_env \<Rightarrow> mm \<Rightarrow> u64 \<times> u64 \<Rightarrow> mm outcome" where
  "aos_ram_free env aos_mm fi = mm_free env aos_mm (fst fi) (snd fi)"

text \<open>
  The walk over the regions. \<open>ram_forge\<close> creates the capability of a region on another core.
  A failed \<open>mm_add\<close> is only reported (\<open>mm_add\<close> returns no errors, it aborts).
\<close>

fun add_regions :: "mm_env \<Rightarrow> nat \<Rightarrow> (capref \<Rightarrow> u64 \<Rightarrow> u64 \<Rightarrow> unit outcome) \<Rightarrow> nat \<Rightarrow> capref \<Rightarrow> mem_region list \<Rightarrow> mm \<Rightarrow> mm outcome" where
  "add_regions env core ram_forge used_regions mem_cap [] mm = Ok mm"
| "add_regions env core ram_forge used_regions mem_cap (r # rs) mm =
     (if mr_type r = RegionType_Empty then
        if used_regions = core then
          bind_outcome (if core \<noteq> 0 then mm_check (ram_forge mem_cap (mr_base r) (mr_bytes r)) else Ok ())
            (\<lambda>_. bind_outcome
               (case mm_add env mm mem_cap (mr_base r) (mr_bytes r) of Err _ \<Rightarrow> Ok mm | res \<Rightarrow> res)
               (\<lambda>mm. bind_outcome
                  (case slot_refill env mm of Err e \<Rightarrow> if e = MM_ERR_SLOT_MM_ALLOC then Ok mm else Abort | res \<Rightarrow> res)
                  (\<lambda>mm. add_regions env core ram_forge (used_regions + 1)
                     (mem_cap\<lparr>cap_slot := cap_slot mem_cap + 1\<rparr>) rs mm)))
        else add_regions env core ram_forge (used_regions + 1) mem_cap rs mm
      else add_regions env core ram_forge used_regions mem_cap rs mm)"

text \<open>
  \<open>node_size\<close> is the size of a node, \<open>nodebuf\<close> the address of the buffer for the first 64 nodes,
  \<open>uninit\<close> the contents of memory that has not been initialised. The result of the last
  allocation is ignored.
\<close>

definition initialize_ram_alloc ::
    "nat \<Rightarrow> mm_env \<Rightarrow> nat \<Rightarrow> (capref \<Rightarrow> u64 \<Rightarrow> u64 \<Rightarrow> unit outcome) \<Rightarrow> cnoderef \<Rightarrow> cnoderef \<Rightarrow> nat \<Rightarrow> nat \<Rightarrow> prealloc_meta \<Rightarrow>
      mem_region list \<Rightarrow> mm outcome option" where
  "initialize_ram_alloc fuel env core ram_forge slot_alloc0 cnode_super node_size nodebuf uninit regions =
     (case bind_outcome (slot_prealloc_init \<lparr>cap_cnode = slot_alloc0, cap_slot = 0\<rparr> L2_CNODE_SLOTS uninit)
       (\<lambda>init_slot_alloc.
          let mm = mm_init node_size init_slot_alloc 0 None
          in bind_outcome (slab_grow (mm_slabs mm) nodebuf (node_size * 64))
            (\<lambda>slabs. add_regions env core ram_forge 0 \<lparr>cap_cnode = cnode_super, cap_slot = 0\<rparr> regions (mm\<lparr>mm_slabs := slabs\<rparr>))) of
        Ok mm \<Rightarrow>
          (case mm_alloc fuel env mm 20 of
             None \<Rightarrow> None
           | Some (Ok (_, mm)) \<Rightarrow> Some (Ok mm)
           | Some (Err _) \<Rightarrow> Some (Ok mm)
           | Some Abort \<Rightarrow> Some Abort)
      | Err e \<Rightarrow> Some (Err e)
      | Abort \<Rightarrow> Some Abort)"

section \<open>The region of a core\<close>

abbreviation empty_regions :: "mem_region list \<Rightarrow> mem_region list" where
  "empty_regions regions \<equiv> filter (\<lambda>r. mr_type r = RegionType_Empty) regions"

lemma add_regions_later:
  "core < used \<Longrightarrow> add_regions env core ram_forge used mem_cap rs mm = Ok mm"
  by (induction rs arbitrary: used) auto

lemma add_regions_ok:
  assumes "k < length (empty_regions rs)" "core = 0 \<or> ram_forge mem_cap (mr_base (empty_regions rs ! k)) (mr_bytes (empty_regions rs ! k)) = Ok ()"
    "mm_add env mm mem_cap (mr_base (empty_regions rs ! k)) (mr_bytes (empty_regions rs ! k)) = Ok mm1" "slot_refill env mm1 = Ok mm2"
    "core = used + k"
  shows "add_regions env core ram_forge used mem_cap rs mm = Ok mm2"
  using assms
proof (induction rs arbitrary: used k)
  case (Cons r rs)
  show ?case
  proof (cases "mr_type r = RegionType_Empty")
    case True
    show ?thesis
    proof (cases k)
      case 0
      then show ?thesis using True Cons.prems by (auto simp: add_regions_later mm_check_def)
    next
      case (Suc k')
      then show ?thesis using True Cons.prems Cons.IH [of k' "Suc used"] by simp
    qed
  qed (use Cons in auto)
qed simp

lemma add_regions_none:
  "used + length (empty_regions rs) \<le> core \<Longrightarrow> add_regions env core ram_forge used mem_cap rs mm = Ok mm"
  by (induction rs arbitrary: used) auto

section \<open>Setting up\<close>

text \<open>The manager before the regions are added: no regions, 256 slots, and nodes in the static buffer.\<close>

lemma init_nodes:
  assumes "1 \<le> node_size" "SLAB_HEAD_SIZE + 4 * SLAB_REAL_BLOCKSIZE node_size \<le> BASE_PAGE_SIZE"
    "SLAB_HEAD_SIZE + SLAB_REAL_BLOCKSIZE node_size \<le> node_size * 64" "nodebuf \<noteq> 0"
  shows "\<exists>sl. slab_grow (slab_init node_size) nodebuf (node_size * 64) = Ok sl \<and> node_slab sl \<and> 0 < slab_freecount sl"
proof -
  let ?bs = "SLAB_REAL_BLOCKSIZE node_size"
  let ?n = "(node_size * 64 - SLAB_HEAD_SIZE) div ?bs"
  have init: "slab_inv (slab_init node_size)" "slab_freecount (slab_init node_size) = 0" "blocksize (slab_init node_size) = ?bs"
    "slabs (slab_init node_size) = []"
    by (simp_all add: slab_init_def slab_inv_def slabs_ok_def slab_freecount_def SLAB_REAL_BLOCKSIZE_def SLAB_BLOCK_HDRSIZE_def)
  have bs: "node_size \<le> ?bs" "0 < ?bs" "?bs \<le> 1020" using assms(1,2)
    by (auto simp: SLAB_REAL_BLOCKSIZE_def SLAB_BLOCK_HDRSIZE_def SLAB_HEAD_SIZE_def BASE_PAGE_SIZE_def)
  have "?n \<le> node_size * 64" by (rule le_trans [OF div_le_dividend]) simp
  then have small: "?n < 2 ^ 32" using bs by simp
  have pos: "0 < ?n" using assms(3) bs(2) by (simp add: div_greater_zero_iff)
  obtain sl where "slab_grow (slab_init node_size) nodebuf (node_size * 64) = Ok sl" "slab_inv sl"
    "slab_freecount sl = slab_freecount (slab_init node_size) + ?n" "blocksize sl = ?bs"
    using slab_grow_ok [of "slab_init node_size" nodebuf "node_size * 64"] init assms(3,4) small by auto
  then show ?thesis using pos assms(2) init(2) by (intro exI [of _ sl]) (simp add: node_slab_def)
qed

text \<open>What initialising needs: the refill functions, a retype of the whole region, a size of a node between bounds.\<close>

definition boot_ok :: "mm_env \<Rightarrow> (capref \<Rightarrow> u64 \<Rightarrow> u64 \<Rightarrow> unit outcome) \<Rightarrow> nat \<Rightarrow> nat \<Rightarrow> mem_region \<Rightarrow> bool" where
  "boot_ok env ram_forge node_size nodebuf r \<longleftrightarrow>
     slab_refill_ok (slab_refill env) \<and> slot_refill_ok (slot_refill env) \<and> (\<forall>mm off s. cap_retype env mm off s = None) \<and>
     (\<forall>c b s. ram_forge c b s = Ok ()) \<and> 4 \<le> node_size \<and> node_size \<le> 1020 \<and> nodebuf \<noteq> 0 \<and>
     0 < mr_bytes r \<and> unat (mr_base r) + unat (mr_bytes r) < 2 ^ 64"

lemma add_regions_boot:
  assumes "boot_ok env ram_forge node_size nodebuf (empty_regions regions ! core)" "core < length (empty_regions regions)"
    "mm_head mm = []" "node_slab (mm_slabs mm)" "0 < slab_freecount (mm_slabs mm)" "spa_inv (mm_slot_inst mm)" "mm_ready mm"
  defines "r \<equiv> empty_regions regions ! core"
  shows "\<exists>mm'. add_regions env core ram_forge 0 mem_cap regions mm = Ok mm' \<and>
    mm_inv (unat (mr_base r)) (unat (mr_base r) + unat (mr_bytes r)) mm' \<and> mm_ready mm' \<and> coalesced (mm_head mm') \<and>
    mem_of NodeType_Free (mm_head mm') = {unat (mr_base r)..<unat (mr_base r) + unat (mr_bytes r)}"
proof -
  note b = assms(1) [folded r_def, unfolded boot_ok_def]
  have bytes: "0 < unat (mr_bytes r)" using b by (simp add: unat_gt_0 word_neq_0_conv)
  obtain mm1 where mm1: "mm_add env mm mem_cap (mr_base r) (mr_bytes r) = Ok mm1"
    "mm_inv (unat (mr_base r)) (unat (mr_base r) + unat (mr_bytes r)) mm1" "mm_ready mm1" "coalesced (mm_head mm1)"
    "mem_of NodeType_Free (mm_head mm1) = {unat (mr_base r)..<unat (mr_base r) + unat (mr_bytes r)}"
    using mm_add_ok [OF assms(3-7) _ bytes, where base = "mr_base r" and env = env and cap = mem_cap] b by auto
  obtain sa where sa: "slot_refill env mm1 = Ok (mm1\<lparr>mm_slot_inst := sa\<rparr>)" "spa_inv sa" "\<not> spa_static_refilling sa"
    "spa_is_refilling sa = spa_is_refilling (mm_slot_inst mm1)"
    using b mm1(2,3) unfolding slot_refill_ok_def mm_inv_def mm_ready_def by blast
  have "add_regions env core ram_forge 0 mem_cap regions mm = Ok (mm1\<lparr>mm_slot_inst := sa\<rparr>)"
    using add_regions_ok [OF assms(2), of core ram_forge mem_cap env mm mm1 _ 0] b mm1(1) sa(1) by (simp add: r_def)
  then show ?thesis using mm1 sa by (intro exI [of _ "mm1\<lparr>mm_slot_inst := sa\<rparr>"]) (simp add: mm_inv_def mm_ready_def)
qed

end
