(* ===== verification/Alloc_Properties.thy ===== *)
theory Alloc_Properties
  imports Slot_Single Mem_Alloc
begin

text \<open>
  The properties of the allocators: the slab allocator, the capability slot allocators and the
  physical memory manager of the init process.
\<close>

section \<open>Helper lemmas\<close>

lemma mem_of_disjoint:
  assumes "tiles lo ns hi" "t \<noteq> t'"
  shows "mem_of t ns \<inter> mem_of t' ns = {}"
  using assms(1)
proof (induction ns arbitrary: lo)
  case (Cons n ns)
  have "nd_range n \<inter> mem_of x ns = {}" for x
    using mem_of_bounds [of "nd_hi n" ns hi x] Cons.prems by (auto simp: nd_range_def disjoint_iff subset_iff)
  then show ?case using Cons assms(2) by auto
qed simp

lemma mem_of_cover: "tiles lo ns hi \<Longrightarrow> mem_of NodeType_Free ns \<union> mem_of NodeType_Allocated ns \<union> mem_of NodeType_Wasted ns = {lo..<hi}"
proof -
  have "mem_of NodeType_Free ns \<union> mem_of NodeType_Allocated ns \<union> mem_of NodeType_Wasted ns = (\<Union>n \<in> set ns. nd_range n)"
    by (auto simp: mem_of_def) (metis nodetype.exhaust)
  then show "tiles lo ns hi \<Longrightarrow> ?thesis" using tiles_cover by simp
qed

text \<open>The memory map: every address of the region is free, allocated or wasted, and only one of these.\<close>

definition memory_map_ok :: "nat \<Rightarrow> nat \<Rightarrow> mm \<Rightarrow> bool" where
  "memory_map_ok lo hi mm \<longleftrightarrow>
     mem_of NodeType_Free (mm_head mm) \<union> mem_of NodeType_Allocated (mm_head mm) \<union> mem_of NodeType_Wasted (mm_head mm) = {lo..<hi} \<and>
     mem_of NodeType_Free (mm_head mm) \<inter> mem_of NodeType_Allocated (mm_head mm) = {} \<and>
     mem_of NodeType_Free (mm_head mm) \<inter> mem_of NodeType_Wasted (mm_head mm) = {} \<and>
     mem_of NodeType_Allocated (mm_head mm) \<inter> mem_of NodeType_Wasted (mm_head mm) = {} \<and>
     sorted_wrt (\<lambda>m n. nd_range m \<inter> nd_range n = {}) (mm_head mm)"

lemma mm_inv_map: "mm_inv lo hi mm \<Longrightarrow> memory_map_ok lo hi mm"
  unfolding memory_map_ok_def mm_inv_def using mem_of_cover tiles_disjoint
  by (intro conjI) (auto intro!: mem_of_disjoint)

lemma node_size_of_range:
  assumes "nd_range n = {a..<a + k}" "0 < k"
  shows "unat (mn_size n) = k"
proof -
  have "{nd_lo n..<nd_hi n} = {a..<a + k}" using assms(1) by (simp add: nd_range_def)
  then have "card {nd_lo n..<nd_hi n} = k" by simp
  then show ?thesis by (simp add: nd_hi_def nd_lo_def)
qed

lemma placed_free:
  assumes "mm_inv lo hi mm" "placed lo hi S al NodeType_Allocated c mm mm'" "0 < S" "unat s \<le> S" "S \<le> unat s + 4096"
  shows "\<exists>n \<in> set (mm_head mm'). mn_type n = NodeType_Allocated \<and> mn_cap n = Some c \<and>
    (\<exists>mm''. mm_free env mm' (mn_base n) s = Ok mm'' \<and> mm_inv lo hi mm'' \<and> (\<forall>t. mem_of t (mm_head mm'') = mem_of t (mm_head mm)))"
proof -
  have inv: "mm_inv lo hi mm'" "alloc_effect S al NodeType_Allocated c (mm_head mm) (mm_head mm')"
    using assms(2) by (simp_all add: placed_def)
  let ?m = "\<lambda>t. mem_of t (mm_head mm)"
  obtain a n where a: "{a..<a + S} \<subseteq> ?m NodeType_Free"
    "mem_of NodeType_Free (mm_head mm') = ?m NodeType_Free - {a..<a + S}"
    "\<And>t. t \<noteq> NodeType_Free \<Longrightarrow> mem_of t (mm_head mm') = ?m t \<union> (if t = NodeType_Allocated then {a..<a + S} else {})"
    and n: "n \<in> set (mm_head mm')" "mn_type n = NodeType_Allocated" "mn_cap n = Some c" "nd_range n = {a..<a + S}"
    using inv(2) unfolding alloc_effect_def by metis
  have sz: "unat (mn_size n) = S" using node_size_of_range [OF n(4) assms(3)] .
  then have "s \<le> mn_size n" "unat (mn_size n) \<le> unat s + 4096" using assms(4,5) by (simp_all add: word_le_nat_alt)
  then obtain mm'' where f: "mm_free env mm' (mn_base n) s = Ok mm''" "free_effect lo hi n mm' mm''"
    using mm_free_ok [OF inv(1) n(1), of s env] by blast
  have "mem_of t (mm_head mm'') = ?m t" for t
  proof (cases "t = NodeType_Free")
    case True
    then show ?thesis using f(2) a(1,2) n(4) by (auto simp: free_effect_def)
  next
    case False
    then have "?m t \<inter> {a..<a + S} = {}"
      using mem_of_disjoint [of lo "mm_head mm" hi t NodeType_Free] assms(1) a(1) unfolding mm_inv_def by blast
    then show ?thesis using f(2) False a(3) [OF False] n(4) by (auto simp: free_effect_def)
  qed
  then show ?thesis using n(1-3) f by (intro bexI [OF _ n(1)]) (auto simp: free_effect_def)
qed

lemma card_caps: "card (free_caps sca) = card (meta_set (sca_head sca))" "card (all_caps sca) = sca_nslots sca"
proof -
  have "inj_on (\<lambda>slot. \<lparr>cap_cnode = sca_cnode sca, cap_slot = slot\<rparr>) X" for X by (auto simp: inj_on_def)
  then show "card (free_caps sca) = card (meta_set (sca_head sca))" "card (all_caps sca) = sca_nslots sca"
    by (simp_all add: free_caps_def all_caps_def card_image)
qed

section \<open>A concrete manager\<close>

text \<open>
  An environment whose refills take pages behind the slabs there are and build cnodes that are
  not in use, and a manager of 64 KiB in it.
\<close>

definition next_page :: "slab_allocator \<Rightarrow> nat \<Rightarrow> (nat \<times> nat) outcome" where
  "next_page sl bytes = Ok (Suc (sum_list (map (\<lambda>sh. sh_addr sh + SLAB_HEAD_SIZE + sh_total sh * blocksize sl) (slabs sl))), bytes)"

definition next_cnode :: "slot_prealloc \<Rightarrow> cnoderef" where
  "next_cnode sa = \<lparr>cn_croot = 0, cn_cnode = 0,
     cn_level = Suc (cn_level (cap_cnode (pm_cap (spa_meta0 sa))) + cn_level (cap_cnode (pm_cap (spa_meta1 sa))))\<rparr>"

definition boot_cnode :: cnoderef where
  "boot_cnode = \<lparr>cn_croot = 0, cn_cnode = 0, cn_level = 0\<rparr>"

definition boot_cap :: "nat \<Rightarrow> capref" where
  "boot_cap slot = \<lparr>cap_cnode = boot_cnode, cap_slot = slot\<rparr>"

definition boot_env :: mm_env where
  "boot_env = \<lparr>slab_refill = page_refill next_page,
     slot_refill = slot_prealloc_refill (\<lambda>mm. Ok (boot_cap 0, mm)) (\<lambda>mm. Ok (boot_cap 0, mm)) (\<lambda>_ _ mm. Ok (next_cnode (mm_slot_inst mm))),
     cap_retype = (\<lambda>_ _ _. None), frame_identify = (\<lambda>n. (mn_base n, mn_size n))\<rparr>"

definition boot_slots :: slot_prealloc where
  "boot_slots = \<lparr>spa_meta0 = \<lparr>pm_cap = boot_cap 0, pm_free = 256\<rparr>, spa_meta1 = \<lparr>pm_cap = boot_cap 0, pm_free = 0\<rparr>,
     spa_current = False, spa_is_refilling = False, spa_static_refilling = False\<rparr>"

definition boot_mm :: "mm outcome" where
  "boot_mm = bind_outcome (slab_grow (slab_init 56) 4096 3584)
     (\<lambda>sl. mm_add boot_env ((mm_init 56 boot_slots 0 None)\<lparr>mm_slabs := sl\<rparr>) (boot_cap 0) 0x10000 0x10000)"

definition boot_region :: mem_region where
  "boot_region = \<lparr>mr_base = 0x10000, mr_type = RegionType_Empty, mr_bytes = 0x10000\<rparr>"

lemma next_page_fresh: "fresh_pages next_page"
proof -
  have "sh_addr sh + SLAB_HEAD_SIZE + sh_total sh * blocksize sl \<le>
      sum_list (map (\<lambda>sh. sh_addr sh + SLAB_HEAD_SIZE + sh_total sh * blocksize sl) (slabs sl))"
    if "sh \<in> set (slabs sl)" for sh sl using that by (intro member_le_sum_list) auto
  then show ?thesis unfolding fresh_pages_def next_page_def slab_range_def by (fastforce simp: disjoint_iff)
qed

lemma boot_env_ok:
  "slab_refill_ok (slab_refill boot_env)" "slot_refill_ok (slot_refill boot_env)" "cap_retype boot_env mm off s = None"
proof -
  have "next_cnode sa \<noteq> cap_cnode (pm_cap (spa_meta0 sa)) \<and> next_cnode sa \<noteq> cap_cnode (pm_cap (spa_meta1 sa))" for sa
    by (auto simp: next_cnode_def dest: arg_cong [of _ _ cn_level])
  then show "slot_refill_ok (slot_refill boot_env)" by (auto simp: boot_env_def intro: prealloc_refill_ok)
  show "slab_refill_ok (slab_refill boot_env)" by (simp add: boot_env_def page_refill_ok next_page_fresh)
  show "cap_retype boot_env mm off s = None" by (simp add: boot_env_def)
qed

lemma boot_mm_ok:
  "\<exists>mm. boot_mm = Ok mm \<and> mm_inv 65536 131072 mm \<and> mm_ready mm \<and> coalesced (mm_head mm) \<and>
     mem_of NodeType_Free (mm_head mm) = {65536..<131072} \<and>
     (\<exists>n. mm_head mm = [n] \<and> mn_base n = 0x10000 \<and> mn_size n = 0x10000)"
proof -
  have "SLAB_HEAD_SIZE + 4 * SLAB_REAL_BLOCKSIZE 56 \<le> BASE_PAGE_SIZE" "SLAB_HEAD_SIZE + SLAB_REAL_BLOCKSIZE 56 \<le> 56 * 64"
    by (simp_all add: SLAB_REAL_BLOCKSIZE_def SLAB_BLOCK_HDRSIZE_def SLAB_HEAD_SIZE_def BASE_PAGE_SIZE_def)
  then obtain sl where sl: "slab_grow (slab_init 56) 4096 3584 = Ok sl" "node_slab sl" "0 < slab_freecount sl"
    using init_nodes [of 56 4096] by auto
  let ?mm = "(mm_init 56 boot_slots 0 None)\<lparr>mm_slabs := sl\<rparr>"
  have mm: "mm_head ?mm = []" "node_slab (mm_slabs ?mm)" "0 < slab_freecount (mm_slabs ?mm)" "spa_inv (mm_slot_inst ?mm)" "mm_ready ?mm"
    using sl(2,3) by (simp_all add: mm_init_def boot_slots_def boot_cap_def spa_inv_def mm_ready_def L2_CNODE_SLOTS_def)
  have w: "0 < unat (0x10000 :: u64)" "unat (0x10000 :: u64) + unat (0x10000 :: u64) < 2 ^ 64" by simp_all
  from mm_add_ok [OF mm boot_env_ok(2) w boot_env_ok(3), of "boot_cap 0"] show ?thesis
    using sl(1) by (auto simp: boot_mm_def)
qed

lemma boot_request: "request_ok 4000 0" "page_up (unat (4000 :: u32)) = 4096" "eff_align 0 = 4096"
  by (simp_all add: request_ok_def page_up_def eff_align_def)

section \<open>The memory manager\<close>







text \<open>
  C11: \<open>mm_free\<close> with the address of a node and a size within a page below the node's turns
  exactly the memory of that node into free memory, joins it with its free neighbours, and
  keeps the list well formed. If no node starts at the address and no capability of a node reports it, the
  result is an error.
\<close>

theorem mm_free_correct:
  assumes "mm_inv lo hi mm"
  shows "(\<forall>n \<in> set (mm_head mm). s \<le> mn_size n \<and> unat (mn_size n) \<le> unat s + 4096 \<longrightarrow>
      (\<exists>mm'. mm_free env mm (mn_base n) s = Ok mm' \<and> mm_inv lo hi mm' \<and>
         (coalesced (mm_head mm) \<longrightarrow> coalesced (mm_head mm')) \<and>
         mem_of NodeType_Free (mm_head mm') = mem_of NodeType_Free (mm_head mm) \<union> nd_range n \<and>
         (\<forall>t. t \<noteq> NodeType_Free \<longrightarrow> mem_of t (mm_head mm') = mem_of t (mm_head mm) - nd_range n))) \<and>
    ((\<forall>n \<in> set (mm_head mm). mn_base n \<noteq> base \<and> fst (frame_identify env n) \<noteq> base) \<longrightarrow> mm_free env mm base s = Err MM_ERR_MM_FREE)"
proof (intro conjI ballI impI)
  fix n
  assume "n \<in> set (mm_head mm)" "s \<le> mn_size n \<and> unat (mn_size n) \<le> unat s + 4096"
  then show "\<exists>mm'. mm_free env mm (mn_base n) s = Ok mm' \<and> mm_inv lo hi mm' \<and> (coalesced (mm_head mm) \<longrightarrow> coalesced (mm_head mm')) \<and>
      mem_of NodeType_Free (mm_head mm') = mem_of NodeType_Free (mm_head mm) \<union> nd_range n \<and>
      (\<forall>t. t \<noteq> NodeType_Free \<longrightarrow> mem_of t (mm_head mm') = mem_of t (mm_head mm) - nd_range n)"
    using mm_free_ok [OF assms, of n s env] unfolding free_effect_def by blast
next
  assume "\<forall>n \<in> set (mm_head mm). mn_base n \<noteq> base \<and> fst (frame_identify env n) \<noteq> base"
  then show "mm_free env mm base s = Err MM_ERR_MM_FREE"
    by (simp add: mm_free_def re_search_free_def mm_free_search_none)
qed

lemma mm_free_correct_witness:
  "\<exists>mm mm'. boot_mm = Ok mm \<and> mm_free boot_env mm 0x10000 0x10000 = Ok mm' \<and> mem_of NodeType_Free (mm_head mm') = {65536..<131072} \<and>
     mm_free boot_env mm 0x20000 0x10000 = Err MM_ERR_MM_FREE"
proof -
  obtain mm n where mm: "boot_mm = Ok mm" "mm_inv 65536 131072 mm" "mem_of NodeType_Free (mm_head mm) = {65536..<131072}"
    and n: "mm_head mm = [n]" "mn_base n = 0x10000" "mn_size n = 0x10000"
    using boot_mm_ok by blast
  have "nd_range n = {65536..<131072}" using n(2,3) by (simp add: nd_range_def nd_lo_def nd_hi_def)
  then show ?thesis
    using mm_free_correct [OF mm(2), of "0x10000" boot_env "0x20000"] mm(1,3) n
    by (simp add: boot_env_def) blast
qed



section \<open>The slab allocator\<close>

text \<open>
  C14: A slab allocator stays well formed under all its operations: \<open>slab_init\<close> makes it so; \<open>slab_grow\<close> with a buffer apart from
  the slabs there are adds as many free blocks as fit behind the header; \<open>slab_alloc\<close> returns a block that is not in use
  whenever one is free; \<open>slab_free\<close> takes a block in use back; and blocks do not overlap.
\<close>

theorem slab_operations_wellformed:
  assumes "slab_inv sl"
  shows "slab_inv (slab_init n) \<and> slab_used (slab_init n) = {} \<and>
    (buf \<noteq> 0 \<and> SLAB_HEAD_SIZE + blocksize sl \<le> buflen \<and> buflen < 2 ^ 32 \<and>
       (\<forall>sh \<in> set (slabs sl). slab_range (blocksize sl) sh \<inter> {buf..<buf + buflen} = {}) \<longrightarrow>
       (\<exists>sl'. slab_grow sl buf buflen = Ok sl' \<and> slab_inv sl' \<and> slab_used sl' = slab_used sl \<and>
          slab_freecount sl' = slab_freecount sl + (buflen - SLAB_HEAD_SIZE) div blocksize sl)) \<and>
    (0 < slab_freecount sl \<longrightarrow>
       (\<exists>b sl'. slab_alloc r sl = Ok (Some b, sl') \<and> b \<notin> slab_used sl \<and> slab_inv sl' \<and> slab_used sl' = insert b (slab_used sl) \<and>
          Suc (slab_freecount sl') = slab_freecount sl)) \<and>
    (\<forall>b \<in> slab_used sl. \<exists>sl'. slab_free sl b = Ok sl' \<and> slab_inv sl' \<and> slab_used sl' = slab_used sl - {b} \<and>
       slab_freecount sl' = Suc (slab_freecount sl)) \<and>
    (\<forall>b \<in> slab_used sl. \<forall>b' \<in> slab_used sl. b \<noteq> b' \<longrightarrow> {b..<b + blocksize sl} \<inter> {b'..<b' + blocksize sl} = {})"
proof (intro conjI impI ballI)
  show "slab_inv (slab_init n)" "slab_used (slab_init n) = {}" by simp_all
next
  assume "0 < slab_freecount sl"
  then show "\<exists>b sl'. slab_alloc r sl = Ok (Some b, sl') \<and> b \<notin> slab_used sl \<and> slab_inv sl' \<and> slab_used sl' = insert b (slab_used sl) \<and>
          Suc (slab_freecount sl') = slab_freecount sl"
    using slab_alloc_ok [OF assms, of r] by blast
next
  fix b
  assume "b \<in> slab_used sl"
  then show "\<exists>sl'. slab_free sl b = Ok sl' \<and> slab_inv sl' \<and> slab_used sl' = slab_used sl - {b} \<and>
       slab_freecount sl' = Suc (slab_freecount sl)"
    using slab_free_ok [OF assms] by blast
next
  assume "buf \<noteq> 0 \<and> SLAB_HEAD_SIZE + blocksize sl \<le> buflen \<and> buflen < 2 ^ 32 \<and>
       (\<forall>sh \<in> set (slabs sl). slab_range (blocksize sl) sh \<inter> {buf..<buf + buflen} = {})"
  moreover from this have "(buflen - SLAB_HEAD_SIZE) div blocksize sl < 2 ^ 32"
    by (meson diff_le_self div_le_dividend le_less_trans)
  ultimately show "\<exists>sl'. slab_grow sl buf buflen = Ok sl' \<and> slab_inv sl' \<and> slab_used sl' = slab_used sl \<and>
          slab_freecount sl' = slab_freecount sl + (buflen - SLAB_HEAD_SIZE) div blocksize sl"
    using slab_grow_ok [OF assms, of buf buflen] by blast
next
  fix b b'
  assume "b \<in> slab_used sl" "b' \<in> slab_used sl" "b \<noteq> b'"
  then show "{b..<b + blocksize sl} \<inter> {b'..<b' + blocksize sl} = {}"
    by (intro blocks_apart [OF assms]) (simp_all add: slab_used_def)
qed

lemma slab_operations_wellformed_witness:
  "\<exists>sl. slab_grow (slab_init 16) 4096 1024 = Ok sl \<and> slab_freecount sl = 63"
  using slab_operations_wellformed [of "slab_init 16" 16 4096 1024 None]
  by (auto simp: SLAB_HEAD_SIZE_def SLAB_REAL_BLOCKSIZE_def SLAB_BLOCK_HDRSIZE_def)

section \<open>The slot allocators\<close>

text \<open>
  The single-cnode slot allocator: \<open>salloc\<close> returns the lowest free slot and makes only that one used, or reports that none is
  left; \<open>sfree\<close> of a slot in use makes it free again, of a free slot reports that it is not
  allocated, and of a slot in another cnode that the cnode is wrong; the number of free slots is counted right.
\<close>

lemma single_slot_alloc_correct:
  assumes "single_inv sca"
  shows "(if free_caps sca = {} then salloc sca = Err LIB_ERR_SLOT_ALLOC_NO_SPACE
     else \<exists>c sca'. salloc sca = Ok (c, sca') \<and> c \<in> free_caps sca \<and> (\<forall>d \<in> free_caps sca. cap_slot c \<le> cap_slot d) \<and>
       single_inv sca' \<and> free_caps sca' = free_caps sca - {c} \<and> all_caps sca' = all_caps sca) \<and>
    (\<forall>c \<in> all_caps sca. if c \<in> free_caps sca then sfree sca c = Err LIB_ERR_SLOT_UNALLOCATED
       else \<exists>sca'. sfree sca c = Ok sca' \<and> single_inv sca' \<and> free_caps sca' = insert c (free_caps sca) \<and> all_caps sca' = all_caps sca) \<and>
    (cap_cnode d \<noteq> sca_cnode sca \<longrightarrow> sfree sca d = Err LIB_ERR_SLOT_ALLOC_WRONG_CNODE) \<and>
    single_slot_alloc_freecount sca = card (free_caps sca)"
proof (intro conjI ballI impI)
  show "if free_caps sca = {} then salloc sca = Err LIB_ERR_SLOT_ALLOC_NO_SPACE
     else \<exists>c sca'. salloc sca = Ok (c, sca') \<and> c \<in> free_caps sca \<and> (\<forall>d \<in> free_caps sca. cap_slot c \<le> cap_slot d) \<and>
       single_inv sca' \<and> free_caps sca' = free_caps sca - {c} \<and> all_caps sca' = all_caps sca"
    using salloc_ok [OF assms] by (auto split: if_splits)
next
  fix c
  assume "c \<in> all_caps sca"
  then show "if c \<in> free_caps sca then sfree sca c = Err LIB_ERR_SLOT_UNALLOCATED
       else \<exists>sca'. sfree sca c = Ok sca' \<and> single_inv sca' \<and> free_caps sca' = insert c (free_caps sca) \<and> all_caps sca' = all_caps sca"
    using sfree_ok [OF assms, of c] by (auto split: if_splits)
next
  assume "cap_cnode d \<noteq> sca_cnode sca"
  then show "sfree sca d = Err LIB_ERR_SLOT_ALLOC_WRONG_CNODE" by (simp add: sfree_def cnodecmp_eq)
next
  show "single_slot_alloc_freecount sca = card (free_caps sca)"
    using freecount_space [OF assms] assms by (simp add: card_caps single_inv_def)
qed

text \<open>
  C13: A single-cnode slot allocator set up with the buffer size that the code computes hands out all its slots, each one once, and never runs out of
  nodes for its free list: whatever the order in which they come back, all are free again at the end.
\<close>

theorem single_slot_session:
  assumes "2 \<le> nslots" "even nslots" "buf \<noteq> 0" "SINGLE_SLOT_ALLOC_BUFLEN nslots < 2 ^ 32" "n \<le> nslots"
  shows "\<exists>sca cs sca'. single_slot_alloc_init_raw cap cnode nslots buf (SINGLE_SLOT_ALLOC_BUFLEN nslots) = Ok sca \<and>
    slot_pool.alloc_list n sca = Ok (cs, sca') \<and> length cs = n \<and> distinct cs \<and>
    (\<forall>c \<in> set cs. cap_cnode c = cnode \<and> cap_slot c < nslots) \<and>
    (\<forall>ds. distinct ds \<and> set ds = set cs \<longrightarrow>
       (\<exists>sca''. slot_pool.release_list ds sca' = Ok sca'' \<and> free_caps sca'' = all_caps sca \<and> sca_space sca'' = nslots))"
proof -
  obtain sca where sca: "single_slot_alloc_init_raw cap cnode nslots buf (SINGLE_SLOT_ALLOC_BUFLEN nslots) = Ok sca"
    "single_inv sca" "sca_cnode sca = cnode" "sca_nslots sca = nslots" "free_caps sca = all_caps sca"
    using init_raw_ok [OF assms(1-4), of cap cnode] by blast
  have space: "sca_space sca = nslots"
    using sca(2,4) card_caps [of sca] unfolding sca(5) by (simp add: single_inv_def)
  let ?U = "all_caps sca"
  obtain cs sca' where s: "slot_pool.alloc_list n sca = Ok (cs, sca')" "length cs = n" "distinct cs"
    "?U - free_caps sca' = ?U - free_caps sca \<union> set cs"
    "\<forall>ds. distinct ds \<and> set ds = set cs \<longrightarrow> (\<exists>p. slot_pool.release_list ds sca' = Ok p \<and> (single_inv p \<and> all_caps p = ?U) \<and>
       ?U - free_caps p = ?U - free_caps sca \<and> sca_space p = sca_space sca)"
    using slot_pool.session [of sca ?U n] sca(2) space assms(5) by blast
  have "cap_cnode c = cnode \<and> cap_slot c < nslots" if "c \<in> set cs" for c
    using s(4) that sca(3,4) all_caps_iff [of c sca] by blast
  moreover have "\<exists>p. slot_pool.release_list ds sca' = Ok p \<and> free_caps p = ?U \<and> sca_space p = nslots"
    if ds: "distinct ds" "set ds = set cs" for ds
  proof -
    obtain p where p: "slot_pool.release_list ds sca' = Ok p" "single_inv p" "all_caps p = ?U" "?U - free_caps p = {}" "sca_space p = nslots"
      using s(5) ds space sca(5) by auto
    then have "free_caps p = ?U" using free_caps_sub [OF p(2)] by auto
    then show ?thesis using p(1,5) by blast
  qed
  ultimately show ?thesis using sca(1) s(1-3)
    by (intro exI [of _ sca] exI [of _ cs] exI [of _ sca']) simp
qed

lemma single_slot_session_witness:
  "\<exists>sca cs sca'. single_slot_alloc_init_raw (boot_cap 0) boot_cnode 4 4096 (SINGLE_SLOT_ALLOC_BUFLEN 4) = Ok sca \<and>
     slot_pool.alloc_list 4 sca = Ok (cs, sca') \<and> length cs = 4 \<and> distinct cs"
proof -
  have "SINGLE_SLOT_ALLOC_BUFLEN 4 < 2 ^ 32"
    by (simp add: SINGLE_SLOT_ALLOC_BUFLEN_def SLAB_HEAD_SIZE_def SLAB_REAL_BLOCKSIZE_def SLAB_BLOCK_HDRSIZE_def CNODE_META_SIZE_def)
  then show ?thesis using single_slot_session [of 4 4096 4 "boot_cap 0" boot_cnode] by auto
qed





end
