(* ===== verification/Vm_Entry.thy ===== *)
theory Vm_Entry
  imports Prelude
begin

text \<open>
  Page table entries of the ARMv7-A short descriptor format, as the unions \<open>arm_l1_entry\<close> and
  \<open>arm_l2_entry\<close> of \<^verbatim>\<open>include/target/arm/barrelfish_kpi/paging_arm_v7.h\<close> lay them out: a bit
  field is a position and a width, allocated from the least significant bit on. The entries
  that the kernel writes are built field by field, as the code builds them.

  The translation table walk of the processor, \<open>arm_walk\<close>, is what these entries mean. It is
  not code of the system: it is the specification that the mapping operations are held to.
\<close>

section \<open>Bit fields\<close>

definition get_field :: "nat \<Rightarrow> nat \<Rightarrow> u32 \<Rightarrow> u32" where
  "get_field lo n w = take_bit n (drop_bit lo w)"

definition set_field :: "nat \<Rightarrow> nat \<Rightarrow> u32 \<Rightarrow> u32 \<Rightarrow> u32" where
  "set_field lo n v w = (w AND NOT (push_bit lo (mask n))) OR push_bit lo (take_bit n v)"

lemma get_set_same [simp]: "lo + n \<le> 32 \<Longrightarrow> get_field lo n (set_field lo n v w) = take_bit n v"
  by (rule bit_word_eqI) (auto simp: get_field_def set_field_def bit_simps)

lemma get_set_other [simp]:
  "lo + n \<le> lo' \<or> lo' + n' \<le> lo \<Longrightarrow> get_field lo n (set_field lo' n' v w) = get_field lo n w"
  by (rule bit_word_eqI) (auto simp: get_field_def set_field_def bit_simps dest: bit_imp_le_length)

lemma unat_take_drop:
  "unat (take_bit n w) = unat w mod 2 ^ n" "unat (drop_bit n w) = unat w div 2 ^ n" for w :: u32
proof -
  show "unat (take_bit n w) = unat w mod 2 ^ n"
    unfolding unsigned_take_bit_eq by (rule take_bit_eq_mod)
  have "take_bit 32 (unat w) = unat w" using unat_exp_less [of w] by (simp add: take_bit_eq_mod)
  then show "unat (drop_bit n w) = unat w div 2 ^ n"
    unfolding unsigned_drop_bit_eq by (simp add: drop_bit_eq_div)
qed

lemma unat_get_field: "unat (get_field lo n w) = unat w div 2 ^ lo mod 2 ^ n"
  unfolding get_field_def unat_take_drop by simp

section \<open>Addresses\<close>

definition ARM_L1_OFFSET :: "u32 \<Rightarrow> u32" where "ARM_L1_OFFSET a = drop_bit 20 a AND 0xFFF"
definition ARM_L2_OFFSET :: "u32 \<Rightarrow> u32" where "ARM_L2_OFFSET a = drop_bit 12 a AND 0xFF"
definition ARM_PAGE_OFFSET :: "u32 \<Rightarrow> u32" where "ARM_PAGE_OFFSET a = a AND 0xFFF"

definition L1_TYPE :: "u32 \<Rightarrow> u32" where "L1_TYPE x = x AND 3"
definition L2_TYPE :: "u32 \<Rightarrow> u32" where "L2_TYPE x = x AND 3"

lemma and_mask_numerals:
  "w AND 3 = take_bit 2 (w :: u32)" "w AND 0xFF = take_bit 8 (w :: u32)"
  "w AND 0xFFF = take_bit 12 (w :: u32)" "w AND 0xFFFFF = take_bit 20 (w :: u32)"
  by (simp_all add: take_bit_eq_mask mask_eq_exp_minus_1)

lemma type_field: "L1_TYPE x = get_field 0 2 x" "L2_TYPE x = get_field 0 2 x"
  by (simp_all add: L1_TYPE_def L2_TYPE_def get_field_def and_mask_numerals)

lemma unat_offsets:
  "unat (ARM_L1_OFFSET a) = unat a div 2 ^ 20"
  "unat (ARM_L2_OFFSET a) = unat a div 2 ^ 12 mod 2 ^ 8"
  "unat (ARM_PAGE_OFFSET a) = unat a mod 2 ^ 12"
proof -
  have "unat a < 2 ^ 20 * 2 ^ 12" using unat_exp_less [of a] by simp
  then have "unat a div 2 ^ 20 < 2 ^ 12" by (simp add: less_mult_imp_div_less)
  then show "unat (ARM_L1_OFFSET a) = unat a div 2 ^ 20"
    unfolding ARM_L1_OFFSET_def and_mask_numerals unat_take_drop by simp
qed (simp_all add: ARM_L2_OFFSET_def ARM_PAGE_OFFSET_def and_mask_numerals unat_take_drop)

section \<open>The entries of the kernel\<close>

abbreviation (input) KPI_PAGING_FLAGS_READ :: u32 where "KPI_PAGING_FLAGS_READ \<equiv> 1"
abbreviation (input) KPI_PAGING_FLAGS_WRITE :: u32 where "KPI_PAGING_FLAGS_WRITE \<equiv> 2"
abbreviation (input) KPI_PAGING_FLAGS_NOCACHE :: u32 where "KPI_PAGING_FLAGS_NOCACHE \<equiv> 8"
abbreviation (input) KPI_PAGING_FLAGS_MASK :: u32 where "KPI_PAGING_FLAGS_MASK \<equiv> 15"

text \<open>The access permissions \<open>AP[1:0]\<close>: the value of \<open>ap10\<close> after its two assignments.\<close>

definition kpi_ap10 :: "u32 \<Rightarrow> u32" where
  "kpi_ap10 flags = (if flags AND KPI_PAGING_FLAGS_READ \<noteq> 0 then 2 else 0) OR
     (if flags AND KPI_PAGING_FLAGS_WRITE \<noteq> 0 then 3 else 0)"

definition kpi_cacheable :: "u32 \<Rightarrow> u32" where
  "kpi_cacheable flags = (if flags AND KPI_PAGING_FLAGS_NOCACHE \<noteq> 0 then 0 else 1)"

text \<open>
  The fields of a small page: type 0--1, bufferable 2, cacheable 3, ap10 4--5, tex 6--8,
  ap2 9, shareable 10, not global 11, base address 12--31.
\<close>

definition paging_set_flags :: "u32 \<Rightarrow> u32 \<Rightarrow> u32" where
  "paging_set_flags flags e =
     set_field 9 1 0
    (set_field 4 2 (kpi_ap10 flags)
    (set_field 3 1 (kpi_cacheable flags)
    (set_field 2 1 1
    (set_field 10 1 1
    (set_field 6 3 1 e)))))"

definition small_page_entry :: "u32 \<Rightarrow> u32 \<Rightarrow> u32" where
  "small_page_entry flags pa =
     set_field 12 20 (drop_bit 12 pa) (paging_set_flags flags (set_field 0 2 2 0))"

text \<open>
  The fields of a section: type 0--1, bufferable 2, cacheable 3, execute never 4, domain 5--8,
  ap10 10--11, tex 12--14, ap2 15, base address 20--31.
\<close>

definition section_entry :: "u32 \<Rightarrow> u32 \<Rightarrow> u32" where
  "section_entry flags pa =
     set_field 20 12 (drop_bit 20 pa)
    (set_field 15 1 0
    (set_field 10 2 (kpi_ap10 flags)
    (set_field 3 1 (kpi_cacheable flags)
    (set_field 2 1 1
    (set_field 0 2 2 0)))))"

text \<open>The fields of a page table pointer: type 0--1, domain 5--8, base address 10--31.\<close>

definition page_table_entry :: "u32 \<Rightarrow> u32" where
  "page_table_entry pa = set_field 10 22 (drop_bit 10 pa) (set_field 5 4 0 (set_field 0 2 1 0))"

section \<open>The translation table walk\<close>

text \<open>
  The result is the physical address and the access permissions. A level 1 entry of type 1
  points to a level 2 table, one of type 2 maps a section of one megabyte; a level 2 entry of
  type 2 or 3 maps a small page, one of type 1 a large page of 64 kilobytes.
\<close>

definition walk_l2 :: "u32 \<Rightarrow> u32 \<Rightarrow> (u32 \<times> u32) option" where
  "walk_l2 e va =
     (if L2_TYPE e = 0 then None
      else if L2_TYPE e = 1 then
        Some (push_bit 16 (get_field 16 16 e) + (va AND 0xFFFF), get_field 4 2 e)
      else Some (push_bit 12 (get_field 12 20 e) + ARM_PAGE_OFFSET va, get_field 4 2 e))"

definition arm_walk :: "(u32 \<Rightarrow> u32) \<Rightarrow> u32 \<Rightarrow> u32 \<Rightarrow> (u32 \<times> u32) option" where
  "arm_walk mem ttbr va =
     (let e = mem (ttbr + 4 * ARM_L1_OFFSET va) in
      if L1_TYPE e = 1 then
        walk_l2 (mem (push_bit 10 (get_field 10 22 e) + 4 * ARM_L2_OFFSET va)) va
      else if L1_TYPE e = 2 then
        Some (push_bit 20 (get_field 20 12 e) + (va AND 0xFFFFF), get_field 10 2 e)
      else None)"

text \<open>What the entries of the kernel mean to the walk.\<close>

lemma small_page_fields [simp]:
  "L2_TYPE (small_page_entry flags pa) = 2"
  "get_field 12 20 (small_page_entry flags pa) = drop_bit 12 pa"
  "get_field 4 2 (small_page_entry flags pa) = kpi_ap10 flags"
proof -
  show "L2_TYPE (small_page_entry flags pa) = 2"
    by (simp add: type_field small_page_entry_def paging_set_flags_def)
  have "take_bit 20 (drop_bit 12 pa) = drop_bit 12 pa"
    by (rule bit_word_eqI) (auto simp: bit_simps dest: bit_imp_le_length)
  then show "get_field 12 20 (small_page_entry flags pa) = drop_bit 12 pa"
    by (simp add: small_page_entry_def)
  show "get_field 4 2 (small_page_entry flags pa) = kpi_ap10 flags"
    by (simp add: small_page_entry_def paging_set_flags_def kpi_ap10_def)
qed

lemma page_table_fields [simp]:
  "L1_TYPE (page_table_entry pa) = 1"
  "get_field 10 22 (page_table_entry pa) = drop_bit 10 pa"
proof -
  show "L1_TYPE (page_table_entry pa) = 1" by (simp add: type_field page_table_entry_def)
  have "take_bit 22 (drop_bit 10 pa) = drop_bit 10 pa"
    by (rule bit_word_eqI) (auto simp: bit_simps dest: bit_imp_le_length)
  then show "get_field 10 22 (page_table_entry pa) = drop_bit 10 pa" by (simp add: page_table_entry_def)
qed

lemma section_fields [simp]:
  "L1_TYPE (section_entry flags pa) = 2"
  "get_field 20 12 (section_entry flags pa) = drop_bit 20 pa"
  "get_field 10 2 (section_entry flags pa) = kpi_ap10 flags"
proof -
  show "L1_TYPE (section_entry flags pa) = 2" by (simp add: type_field section_entry_def)
  have "take_bit 12 (drop_bit 20 pa) = drop_bit 20 pa"
    by (rule bit_word_eqI) (auto simp: bit_simps dest: bit_imp_le_length)
  then show "get_field 20 12 (section_entry flags pa) = drop_bit 20 pa" by (simp add: section_entry_def)
  show "get_field 10 2 (section_entry flags pa) = kpi_ap10 flags"
    by (simp add: section_entry_def kpi_ap10_def)
qed

text \<open>An aligned address is the shifted value of its upper bits.\<close>

lemma push_drop_aligned:
  "unat (a :: u32) mod 2 ^ n = 0 \<Longrightarrow> push_bit n (drop_bit n a) = a"
proof -
  assume "unat a mod 2 ^ n = 0"
  then have "unat (take_bit n a) = 0" by (simp add: unat_take_drop)
  then have "take_bit n a = 0" by (simp add: unsigned_eq_0_iff)
  then show ?thesis using bits_ident [of n a] by simp
qed

lemma walk_l2_small_page:
  "unat pa mod 2 ^ 12 = 0 \<Longrightarrow> walk_l2 (small_page_entry flags pa) va = Some (pa + ARM_PAGE_OFFSET va, kpi_ap10 flags)"
  using push_drop_aligned [of pa 12] by (simp add: walk_l2_def)

end
