(* ===== verification/Kernel_Vm.thy ===== *)
theory Kernel_Vm
  imports Vm_Entry Mdb
begin

text \<open>
  The page table operations of the kernel, \<^verbatim>\<open>kernel/arch/armv7/paging.c\<close> and
  \<^verbatim>\<open>kernel/paging_generic.c\<close>. The state is the part of the machine that they work on: the
  physical memory as words, the capability slots and the mapping database. A \<open>struct cte *\<close> or
  a \<open>struct capability *\<close> is the address of a slot. The memory is indexed by physical
  addresses: \<open>local_phys_to_mem\<close> gives the address at which the kernel sees the same word.
  Caches and the TLB are not part of the state, so the maintenance operations disappear.
\<close>

section \<open>The state\<close>

text \<open>
  The object types, numbered as \<^verbatim>\<open>capabilities/caps.hl\<close> lists them. The \<open>eq\<close> field of a mapping is
  \<open>pte\<close>, its address is the address of the capability that it maps, and its size is 1.
\<close>

abbreviation (input) ObjType_Null :: nat where "ObjType_Null \<equiv> 0"
abbreviation (input) ObjType_RAM :: nat where "ObjType_RAM \<equiv> 2"
abbreviation (input) ObjType_Frame :: nat where "ObjType_Frame \<equiv> 8"
abbreviation (input) ObjType_Frame_Mapping :: nat where "ObjType_Frame_Mapping \<equiv> 9"
abbreviation (input) ObjType_DevFrame :: nat where "ObjType_DevFrame \<equiv> 10"
abbreviation (input) ObjType_DevFrame_Mapping :: nat where "ObjType_DevFrame_Mapping \<equiv> 11"
abbreviation (input) ObjType_VNode_ARM_l1 :: nat where "ObjType_VNode_ARM_l1 \<equiv> 27"
abbreviation (input) ObjType_VNode_ARM_l2 :: nat where "ObjType_VNode_ARM_l2 \<equiv> 29"
abbreviation (input) objsize_mapping :: u64 where "objsize_mapping \<equiv> 1"

record kcap = capability +
  fm_cap :: u32
  fm_pte :: u32
  fm_offset :: u32
  fm_pte_count :: u16

record kernel =
  k_mem :: "u32 \<Rightarrow> u32"
  k_ctes :: "u32 \<Rightarrow> kcap"
  k_mdb :: "u32 mdb"

definition null_cap :: kcap where
  "null_cap = \<lparr>cap_type = ObjType_Null, cap_base = 0, cap_bytes = 0, cap_eq_fields = 0,
     fm_cap = 0, fm_pte = 0, fm_offset = 0, fm_pte_count = 0\<rparr>"

definition kpreds :: "(u32 \<Rightarrow> kcap) \<Rightarrow> u32 cap_preds" where
  "kpreds ctes = hamlet_preds (\<lambda>p. capability.truncate (ctes p))"

definition ktype :: "'z kernel_scheme \<Rightarrow> u32 \<Rightarrow> nat" where
  "ktype k p = cap_type (k_ctes k p)"

definition kaddress :: "'z kernel_scheme \<Rightarrow> u32 \<Rightarrow> u64" where
  "kaddress k p = get_address (kpreds (k_ctes k)) p"

definition ksize :: "'z kernel_scheme \<Rightarrow> u32 \<Rightarrow> u64" where
  "ksize k p = get_size (kpreds (k_ctes k)) p"

definition type_is_vnode :: "nat \<Rightarrow> bool" where
  "type_is_vnode ty \<longleftrightarrow> 13 \<le> ty \<and> ty \<le> 37 \<and> odd ty"

definition type_is_mapping :: "nat \<Rightarrow> bool" where
  "type_is_mapping ty \<longleftrightarrow> ty = ObjType_Frame_Mapping \<or> ty = ObjType_DevFrame_Mapping \<or>
     14 \<le> ty \<and> ty \<le> 38 \<and> even ty"

definition get_mapping_type :: "nat \<Rightarrow> nat" where
  "get_mapping_type ty =
     (if ty = ObjType_Frame \<or> ty = ObjType_DevFrame \<or> type_is_vnode ty then ty + 1 else ObjType_Null)"

section \<open>Mapping capabilities\<close>

definition create_mapping_cap ::
    "'z kernel_scheme \<Rightarrow> u32 \<Rightarrow> u32 \<Rightarrow> u32 \<Rightarrow> u32 \<Rightarrow> u32 \<Rightarrow> 'z kernel_scheme outcome" where
  "create_mapping_cap k mapping_cte src pte offset pte_count =
     (if ktype k mapping_cte \<noteq> ObjType_Null then Abort
      else if (ucast offset :: u64) AND NOT (mask 42) \<noteq> 0 then Abort
      else Ok (k\<lparr>k_ctes := (k_ctes k)(mapping_cte :=
        \<lparr>cap_type = get_mapping_type (ktype k src), cap_base = kaddress k src,
         cap_bytes = objsize_mapping, cap_eq_fields = unat pte,
         fm_cap = src, fm_pte = pte, fm_offset = drop_bit 10 offset, fm_pte_count = ucast pte_count\<rparr>)\<rparr>))"

section \<open>Writing entries\<close>

text \<open>
  The three loops that fill consecutive entries, from the \<open>i\<close>-th of \<open>i + n\<close> on. The address of an
  entry is a pointer, so a loop over too many entries runs through the memory behind the table.
\<close>

fun fill_entries :: "(nat \<Rightarrow> u32) \<Rightarrow> (u32 \<Rightarrow> u32) \<Rightarrow> u32 \<Rightarrow> nat \<Rightarrow> nat \<Rightarrow> u32 \<Rightarrow> u32" where
  "fill_entries f mem e i 0 = mem"
| "fill_entries f mem e i (Suc n) = fill_entries f (mem(e := f i)) (e + 4) (Suc i) n"

definition do_unmap :: "(u32 \<Rightarrow> u32) \<Rightarrow> u32 \<Rightarrow> u32 \<Rightarrow> nat \<Rightarrow> u32 \<Rightarrow> u32" where
  "do_unmap mem pt slot num_pages = fill_entries (\<lambda>i. 0) mem (pt + 4 * slot) 0 num_pages"

section \<open>Mapping into a level 1 table\<close>

definition aligned :: "u32 \<Rightarrow> u32 \<Rightarrow> bool" where
  "aligned address bytes \<longleftrightarrow> address AND (bytes - 1) = 0"

abbreviation (input) BYTES_PER_SECTION :: u32 where "BYTES_PER_SECTION \<equiv> 0x100000"
abbreviation (input) ARM_L2_TABLE_BYTES :: u32 where "ARM_L2_TABLE_BYTES \<equiv> 1024"
abbreviation (input) PAGE_BYTES :: u32 where "PAGE_BYTES \<equiv> 4096"
abbreviation (input) MEMORY_OFFSET :: u32 where "MEMORY_OFFSET \<equiv> 0x80000000"

definition map_sections ::
    "'z kernel_scheme \<Rightarrow> u32 \<Rightarrow> u32 \<Rightarrow> u32 \<Rightarrow> u32 \<Rightarrow> u32 \<Rightarrow> u32 \<Rightarrow> u32 \<Rightarrow> 'z kernel_scheme outcome" where
  "map_sections k dest slot src flags offset pte_count mapping_cte =
     (if flags AND NOT KPI_PAGING_FLAGS_MASK \<noteq> 0 then Abort
      else if 4096 \<le> slot then Abort
      else if ktype k src \<noteq> ObjType_Frame \<and> ktype k src \<noteq> ObjType_DevFrame then Abort
      else if ksize k src < ucast (offset + pte_count * BYTES_PER_SECTION) \<or> offset mod BYTES_PER_SECTION \<noteq> 0
      then Abort
      else if 4096 < slot + pte_count then Err SYS_ERR_VM_MAP_SIZE
      else
        let dest_lpaddr = ucast (kaddress k dest);
            entry = dest_lpaddr + 4 * slot
        in if L1_TYPE (k_mem k entry) \<noteq> 0 then Abort
           else let src_lpaddr = ucast (kaddress k src + ucast offset) in
             if src_lpaddr AND (BYTES_PER_SECTION - 1) \<noteq> 0 then Abort
             else bind_outcome (create_mapping_cap k mapping_cte src (dest_lpaddr + slot * 4) offset pte_count)
               (\<lambda>k. Ok (k\<lparr>k_mem := fill_entries (\<lambda>i. section_entry flags (src_lpaddr + of_nat i * BYTES_PER_SECTION))
                   (k_mem k) entry 0 (unat pte_count)\<rparr>)))"

definition caps_map_l1 ::
    "'z kernel_scheme \<Rightarrow> u32 \<Rightarrow> u32 \<Rightarrow> u32 \<Rightarrow> u32 \<Rightarrow> u32 \<Rightarrow> u32 \<Rightarrow> u32 \<Rightarrow> 'z kernel_scheme outcome" where
  "caps_map_l1 k dest slot src flags offset pte_count mapping_cte =
     (if ktype k src \<noteq> ObjType_VNode_ARM_l2
      then map_sections k dest slot src flags offset pte_count mapping_cte
      else if 4096 \<le> slot then Err SYS_ERR_VNODE_SLOT_INVALID
      else if ksize k src < ucast (offset + pte_count * ARM_L2_TABLE_BYTES) \<or> offset mod ARM_L2_TABLE_BYTES \<noteq> 0
      then Err SYS_ERR_FRAME_OFFSET_INVALID
      else if 4096 < slot + pte_count then Err SYS_ERR_VM_MAP_SIZE
      else if ARM_L1_OFFSET MEMORY_OFFSET \<le> slot then Err SYS_ERR_VNODE_SLOT_RESERVED
      else
        let dest_lpaddr = ucast (kaddress k dest);
            entry = dest_lpaddr + 4 * slot;
            src_lpaddr = ucast (kaddress k src) + offset
        in if \<not> aligned src_lpaddr 1024 then Abort
           else if \<not> (src_lpaddr < dest_lpaddr \<or> dest_lpaddr + 16384 \<le> src_lpaddr) then Abort
           else bind_outcome (create_mapping_cap k mapping_cte src (dest_lpaddr + slot * 4) offset pte_count)
             (\<lambda>k. Ok (k\<lparr>k_mem := fill_entries (\<lambda>i. page_table_entry (src_lpaddr + of_nat i * ARM_L2_TABLE_BYTES))
                 (k_mem k) entry 0 (unat pte_count)\<rparr>)))"

section \<open>Mapping into a level 2 table\<close>

definition caps_map_l2 ::
    "'z kernel_scheme \<Rightarrow> u32 \<Rightarrow> u32 \<Rightarrow> u32 \<Rightarrow> u32 \<Rightarrow> u32 \<Rightarrow> u32 \<Rightarrow> u32 \<Rightarrow> 'z kernel_scheme outcome" where
  "caps_map_l2 k dest slot src flags offset pte_count mapping_cte =
     (if flags AND NOT KPI_PAGING_FLAGS_MASK \<noteq> 0 then Abort
      else if 256 \<le> slot then Abort
      else if ktype k src \<noteq> ObjType_Frame \<and> ktype k src \<noteq> ObjType_DevFrame then Abort
      else if ksize k src < ucast (offset + pte_count * PAGE_BYTES) \<or> offset mod PAGE_BYTES \<noteq> 0
      then Err SYS_ERR_FRAME_OFFSET_INVALID
      else if 256 < slot + pte_count then Err SYS_ERR_VM_MAP_SIZE
      else
        let dest_lpaddr = ucast (kaddress k dest);
            entry = dest_lpaddr + 4 * slot
        in if L2_TYPE (k_mem k entry) \<noteq> 0 then Abort
           else let src_lpaddr = ucast (kaddress k src + ucast offset) in
             if src_lpaddr AND (PAGE_BYTES - 1) \<noteq> 0 then Abort
             else bind_outcome (create_mapping_cap k mapping_cte src (dest_lpaddr + slot * 4) offset pte_count)
               (\<lambda>k. Ok (k\<lparr>k_mem := fill_entries (\<lambda>i. small_page_entry flags (src_lpaddr + of_nat i * PAGE_BYTES))
                   (k_mem k) entry 0 (unat pte_count)\<rparr>)))"

section \<open>The map system call\<close>

text \<open>
  An error comes with the state after the call: when the insertion into the mapping database
  fails, the entries are already written.
\<close>

type_synonym 'k syscall = "(errval option \<times> 'k) outcome"

definition caps_copy_to_vnode ::
    "'z kernel_scheme \<Rightarrow> u32 \<Rightarrow> u32 \<Rightarrow> u32 \<Rightarrow> u32 \<Rightarrow> u32 \<Rightarrow> u32 \<Rightarrow> u32 \<Rightarrow> 'z kernel_scheme syscall" where
  "caps_copy_to_vnode k dest_vnode_cte dest_slot src_cte flags offset pte_count mapping_cte =
     (if ktype k mapping_cte \<noteq> ObjType_Null then Abort
      else
        let mapped =
          (if ktype k dest_vnode_cte = ObjType_VNode_ARM_l1
           then caps_map_l1 k dest_vnode_cte dest_slot src_cte flags offset pte_count mapping_cte
           else if ktype k dest_vnode_cte = ObjType_VNode_ARM_l2
           then caps_map_l2 k dest_vnode_cte dest_slot src_cte flags offset pte_count mapping_cte
           else Abort)
        in case mapped of
             Abort \<Rightarrow> Abort
           | Err e \<Rightarrow> Ok (Some e, k\<lparr>k_ctes := (k_ctes k)(mapping_cte := null_cap)\<rparr>)
           | Ok k \<Rightarrow>
               if \<not> type_is_mapping (ktype k mapping_cte) then Abort
               else case mdb_insert (kpreds (k_ctes k)) (k_mdb k)
                    (new_cte \<lparr>cap = mapping_cte, remote_copies = False, remote_ancs = False, remote_descs = False\<rparr>) of
                      Abort \<Rightarrow> Abort
                    | Err e \<Rightarrow> Ok (Some e, k)
                    | Ok t \<Rightarrow> Ok (None, k\<lparr>k_mdb := t\<rparr>))"

text \<open>The part of \<open>sys_map\<close> behind the lookups in the capability space.\<close>

definition sys_map ::
    "'z kernel_scheme \<Rightarrow> u32 \<Rightarrow> u32 \<Rightarrow> u32 \<Rightarrow> u32 \<Rightarrow> u32 \<Rightarrow> u32 \<Rightarrow> u32 \<Rightarrow> 'z kernel_scheme syscall" where
  "sys_map k ptable slot src_cte flags offset pte_count mapping_cte =
     (if \<not> type_is_vnode (ktype k ptable) then Abort
      else if ktype k mapping_cte \<noteq> ObjType_Null then Ok (Some SYS_ERR_SLOT_IN_USE, k)
      else caps_copy_to_vnode k ptable slot src_cte flags offset pte_count mapping_cte)"

section \<open>Unmapping\<close>

text \<open>The slots from one on in the direction of \<open>mdb_successor\<close> or \<open>mdb_predecessor\<close>.\<close>

definition k_successor :: "'z kernel_scheme \<Rightarrow> u32 \<Rightarrow> u32 option" where
  "k_successor k c =
     map_option cap (mdb_successor (kpreds (k_ctes k)) (k_mdb k) (mdb_node_at (k_mdb k) c))"

definition k_predecessor :: "'z kernel_scheme \<Rightarrow> u32 \<Rightarrow> u32 option" where
  "k_predecessor k c =
     map_option cap (mdb_predecessor (kpreds (k_ctes k)) (k_mdb k) (mdb_node_at (k_mdb k) c))"

text \<open>
  The loops over neighbours visit different slots, so the number of slots in the database
  bounds their rounds.
\<close>

fun find_mapping_from :: "'z kernel_scheme \<Rightarrow> u32 \<Rightarrow> nat \<Rightarrow> u32 \<Rightarrow> u32 outcome" where
  "find_mapping_from k c 0 this = Abort"
| "find_mapping_from k c (Suc fuel) this =
     (case k_successor k this of
        None \<Rightarrow> Err SYS_ERR_CAP_NOT_FOUND
      | Some n \<Rightarrow>
          if kaddress k n \<noteq> kaddress k c then Err SYS_ERR_CAP_NOT_FOUND
          else if ktype k n = get_mapping_type (ktype k c) \<and> fm_cap (k_ctes k n) = c then Ok n
          else find_mapping_from k c fuel n)"

definition find_mapping_for_cap :: "'z kernel_scheme \<Rightarrow> u32 \<Rightarrow> u32 outcome" where
  "find_mapping_for_cap k c = find_mapping_from k c (Suc (length (inorder (k_mdb k)))) c"

fun vnode_copy :: "'z kernel_scheme \<Rightarrow> (u32 \<Rightarrow> u32 option) \<Rightarrow> u32 \<Rightarrow> nat \<Rightarrow> u32 option \<Rightarrow> u32 option outcome" where
  "vnode_copy k step c fuel None = Abort"
| "vnode_copy k step c 0 (Some tmp) = Abort"
| "vnode_copy k step c (Suc fuel) (Some tmp) =
     (if \<not> is_copy (kpreds (k_ctes k)) tmp c then Ok None
      else if type_is_vnode (ktype k tmp) then Ok (Some tmp)
      else vnode_copy k step c fuel (step tmp))"

definition find_next_ptable :: "'z kernel_scheme \<Rightarrow> u32 \<Rightarrow> u32 outcome" where
  "find_next_ptable k mapping_cte =
     (case mdb_find_cap_for_address (kpreds (k_ctes k)) ObjType_RAM (k_mdb k) (ucast (fm_pte (k_ctes k mapping_cte))) of
        Abort \<Rightarrow> Abort
      | Err e \<Rightarrow> if e = SYS_ERR_CAP_NOT_FOUND then Err SYS_ERR_VNODE_NOT_INSTALLED else Err e
      | Ok None \<Rightarrow> Abort
      | Ok (Some nd) \<Rightarrow>
          let c = cap nd; fuel = Suc (length (inorder (k_mdb k))) in
          if type_is_vnode (ktype k c) then Ok c
          else bind_outcome (vnode_copy k (k_predecessor k) c fuel (k_predecessor k c)) (\<lambda>r.
            case r of
              Some p \<Rightarrow> Ok p
            | None \<Rightarrow>
                bind_outcome (vnode_copy k (k_successor k) c fuel (k_successor k c)) (\<lambda>r.
                  case r of Some p \<Rightarrow> Ok p | None \<Rightarrow> Err SYS_ERR_VNODE_LOOKUP_NEXT)))"

text \<open>
  The climb from a page table to the root. The virtual address that the code assembles on the
  way is left out: the TLB operations of this architecture ignore it. \<open>fuel\<close> bounds the number
  of levels.
\<close>

fun compile_vaddr_from :: "'z kernel_scheme \<Rightarrow> nat \<Rightarrow> u32 \<Rightarrow> unit outcome" where
  "compile_vaddr_from k 0 old = Abort"
| "compile_vaddr_from k (Suc fuel) old =
     (if ktype k old = ObjType_VNode_ARM_l1 then Ok ()
      else case find_mapping_for_cap k old of
             Abort \<Rightarrow> Abort
           | Err _ \<Rightarrow> Err SYS_ERR_VNODE_NOT_INSTALLED
           | Ok mapping \<Rightarrow>
               (case find_next_ptable k mapping of
                  Abort \<Rightarrow> Abort
                | Err e \<Rightarrow>
                    if e = SYS_ERR_VNODE_NOT_INSTALLED \<or> e = SYS_ERR_VNODE_LOOKUP_NEXT
                    then Err SYS_ERR_VNODE_NOT_INSTALLED else Err e
                | Ok nxt \<Rightarrow> compile_vaddr_from k fuel nxt))"

definition compile_vaddr :: "'z kernel_scheme \<Rightarrow> u32 \<Rightarrow> unit outcome" where
  "compile_vaddr k ptable =
     (if \<not> type_is_vnode (ktype k ptable) then Err SYS_ERR_VNODE_TYPE
      else compile_vaddr_from k (Suc (length (inorder (k_mdb k)))) ptable)"

definition page_mappings_unmap :: "'z kernel_scheme \<Rightarrow> u32 \<Rightarrow> u32 \<Rightarrow> 'z kernel_scheme outcome" where
  "page_mappings_unmap k pgtable mapping =
     (if \<not> type_is_vnode (ktype k pgtable) \<or> \<not> type_is_mapping (ktype k mapping) then Abort
      else
        let pt = ucast (kaddress k pgtable);
            slot = (fm_pte (k_ctes k mapping) - pt) div 4;
            unmapped = k\<lparr>k_mem := do_unmap (k_mem k) pt slot (unat (fm_pte_count (k_ctes k mapping)))\<rparr>
        in case compile_vaddr k pgtable of
             Abort \<Rightarrow> Abort
           | Err e \<Rightarrow>
               if e = SYS_ERR_VNODE_NOT_INSTALLED \<or> e = SYS_ERR_VNODE_SLOT_INVALID then Ok unmapped else Err e
           | Ok _ \<Rightarrow> Ok unmapped)"

section \<open>Changing the permissions\<close>

fun modify_entries :: "u32 \<Rightarrow> (u32 \<Rightarrow> u32) \<Rightarrow> u32 \<Rightarrow> nat \<Rightarrow> u32 \<Rightarrow> u32" where
  "modify_entries flags mem e 0 = mem"
| "modify_entries flags mem e (Suc n) = modify_entries flags (mem(e := paging_set_flags flags (mem e))) (e + 4) n"

definition paging_tlb_flush_range :: "'z kernel_scheme \<Rightarrow> u32 \<Rightarrow> errval option outcome" where
  "paging_tlb_flush_range k mapping_cte =
     (if \<not> type_is_mapping (ktype k mapping_cte) then Abort
      else case mdb_find_cap_for_address (kpreds (k_ctes k)) ObjType_RAM (k_mdb k) (ucast (fm_pte (k_ctes k mapping_cte))) of
        Abort \<Rightarrow> Abort
      | Err e \<Rightarrow> Ok (Some e)
      | Ok None \<Rightarrow> Abort
      | Ok (Some leaf_pt) \<Rightarrow>
          (let flush = (if ktype k (cap leaf_pt) = ObjType_VNode_ARM_l2 then Ok None else Abort) in
           case compile_vaddr k (cap leaf_pt) of
             Abort \<Rightarrow> Abort
           | Err e \<Rightarrow> if e = SYS_ERR_VNODE_NOT_INSTALLED then flush else Ok (Some e)
           | Ok _ \<Rightarrow> flush))"

definition paging_modify_flags ::
    "'z kernel_scheme \<Rightarrow> u32 \<Rightarrow> u32 \<Rightarrow> u32 \<Rightarrow> u32 \<Rightarrow> 'z kernel_scheme syscall" where
  "paging_modify_flags k mapping offset pages flags =
     (if \<not> type_is_mapping (ktype k mapping) then Abort
      else if flags AND NOT KPI_PAGING_FLAGS_MASK \<noteq> 0 then Abort
      else
        let base = fm_pte (k_ctes k mapping) + offset * 4;
            k = k\<lparr>k_mem := modify_entries flags (k_mem k) base (unat pages)\<rparr>
        in bind_outcome (paging_tlb_flush_range k mapping) (\<lambda>e. Ok (e, k)))"

end
