(* ===== verification/Vspace.thy ===== *)
theory Vspace
  imports Kernel_Vm Slab
begin

text \<open>
  The virtual address space of a process, \<^verbatim>\<open>lib/aos/paging.c\<close>, on top of the system calls of
  \<open>Kernel_Vm\<close>. A capability reference stands for the slot that it names. The state of the paging
  code (\<open>struct paging_state\<close>) is passed along with the state of the kernel.

  The paging state is the one of the running process (\<open>get_current_paging_state\<close>), whose
  \<open>spawninfo\<close> is the null pointer. What the paging code calls outside itself is an environment:
  the slot allocator, \<open>vnode_create\<close>, \<open>frame_alloc\<close>, and the refill of the slab allocator when it
  runs empty in the middle of an operation. They may call the paging code again, so they work
  on both states. A \<open>CHECK\<close> that fails stops the process.
\<close>

section \<open>The state\<close>

record paging_frame_node =
  pf_addr :: nat
  pf_base :: u32
  pf_size :: u32

record paging_map_node =
  pm_addr :: nat
  pm_table :: u32
  pm_mapping :: u32

record paging_used_node =
  pu_addr :: nat
  pu_start :: u32
  pu_size :: u32
  pu_map_list :: "paging_map_node list"

text \<open>The first node of the free space is a part of the state, so that list is never empty.\<close>

record paging_state =
  ps_slabs :: slab_allocator
  free_vspace :: "paging_frame_node list"
  ps_mappings :: "paging_used_node list"
  l1_page_table :: u32
  l2_page_tables :: "u32 \<Rightarrow> u32 option"

record paging_region =
  pr_base :: u32
  pr_current :: u32
  pr_size :: u32
  pr_holes :: "paging_frame_node list"

record 'k vs_env =
  vs_slot_alloc :: "'k \<Rightarrow> paging_state \<Rightarrow> (u32 \<times> 'k \<times> paging_state) outcome"
  vs_vnode_create :: "u32 \<Rightarrow> 'k \<Rightarrow> paging_state \<Rightarrow> ('k \<times> paging_state) outcome"
  vs_frame_alloc :: "u32 \<Rightarrow> 'k \<Rightarrow> paging_state \<Rightarrow> ((u32 \<times> u32) \<times> 'k \<times> paging_state) outcome"
  vs_slab_refill :: "'k \<Rightarrow> paging_state \<Rightarrow> ('k \<times> paging_state) outcome"

definition vs_check :: "'a outcome \<Rightarrow> 'a outcome" where
  "vs_check r = (case r of Ok x \<Rightarrow> Ok x | _ \<Rightarrow> Abort)"

abbreviation (input) VREGION_FLAGS_READ_WRITE :: u32 where "VREGION_FLAGS_READ_WRITE \<equiv> 3"

definition PAGING_MINBYTES :: nat where "PAGING_MINBYTES = 36"

definition paging_init_state :: "u32 \<Rightarrow> u32 \<Rightarrow> paging_used_node list \<Rightarrow> paging_state" where
  "paging_init_state start_vaddr pdir uninitialised =
     \<lparr>ps_slabs = slab_init PAGING_MINBYTES,
      free_vspace = [\<lparr>pf_addr = 0, pf_base = start_vaddr, pf_size = 0xFFFFFFFF - start_vaddr\<rparr>],
      ps_mappings = uninitialised, l1_page_table = pdir, l2_page_tables = (\<lambda>_. None)\<rparr>"

text \<open>
  A node from the slab allocator. When it is empty \<open>slab_alloc\<close> calls the refill function; the
  code uses the result without a test for the null pointer.
\<close>

definition ps_node :: "'k vs_env \<Rightarrow> 'k \<Rightarrow> paging_state \<Rightarrow> (nat \<times> 'k \<times> paging_state) outcome" where
  "ps_node env k st =
     bind_outcome (if slab_has_free (ps_slabs st) then Ok (k, st) else vs_check (vs_slab_refill env k st))
       (\<lambda>(k, st). bind_outcome (slab_get None (ps_slabs st)) (\<lambda>(a, sl). Ok (a, k, st\<lparr>ps_slabs := sl\<rparr>)))"

section \<open>Free address space\<close>

definition ROUND_UP_PAGE :: "u32 \<Rightarrow> u32" where
  "ROUND_UP_PAGE n = (n + 4095) AND NOT 4095"

fun vspace_take :: "u32 \<Rightarrow> paging_frame_node list \<Rightarrow> (u32 \<times> paging_frame_node list) option" where
  "vspace_take bytes [] = None"
| "vspace_take bytes (node # rest) =
     (if bytes \<le> pf_size node then
        let buf = pf_base node;
            base = pf_base node + bytes;
            temp = ROUND_UP_PAGE base
        in Some (buf, node\<lparr>pf_base := temp, pf_size := pf_size node - (bytes + (temp - base))\<rparr> # rest)
      else map_option (\<lambda>(buf, rest). (buf, node # rest)) (vspace_take bytes rest))"

definition paging_alloc :: "paging_state \<Rightarrow> u32 \<Rightarrow> (u32 \<times> paging_state) outcome" where
  "paging_alloc st bytes =
     (case vspace_take bytes (free_vspace st) of
        None \<Rightarrow> Err LIB_ERR_OUT_OF_VIRTUAL_ADDR
      | Some (buf, fs) \<Rightarrow> Ok (buf, st\<lparr>free_vspace := fs\<rparr>))"

definition paging_add_space :: "'k vs_env \<Rightarrow> 'k \<Rightarrow> paging_state \<Rightarrow> u32 \<Rightarrow> u32 \<Rightarrow> ('k \<times> paging_state) outcome" where
  "paging_add_space env k st base sz =
     bind_outcome (ps_node env k st) (\<lambda>(a, k, st).
       case free_vspace st of
         [] \<Rightarrow> Abort
       | fst_node # rest \<Rightarrow>
           Ok (k, st\<lparr>free_vspace := fst_node # \<lparr>pf_addr = a, pf_base = base, pf_size = sz\<rparr> # rest\<rparr>))"

section \<open>Mapping\<close>

text \<open>\<open>vnode_map\<close> packs the arguments of the system call, which has room for 16 bits of each count.\<close>

definition vnode_map ::
    "'z kernel_scheme \<Rightarrow> u32 \<Rightarrow> u32 \<Rightarrow> u32 \<Rightarrow> u32 \<Rightarrow> u32 \<Rightarrow> u32 \<Rightarrow> u32 \<Rightarrow> 'z kernel_scheme outcome" where
  "vnode_map k dest src slot attr off pte_count mapping =
     (if 0xFFFF < slot \<or> 0xFFFF < pte_count then Abort
      else case sys_map k dest slot src attr off pte_count mapping of
             Ok (None, k) \<Rightarrow> Ok k
           | _ \<Rightarrow> Abort)"

definition arml2_alloc :: "'k vs_env \<Rightarrow> 'k \<Rightarrow> paging_state \<Rightarrow> (u32 \<times> 'k \<times> paging_state) outcome" where
  "arml2_alloc env k st =
     bind_outcome (vs_check (vs_slot_alloc env k st)) (\<lambda>(s, k, st).
       bind_outcome (vs_check (vs_vnode_create env s k st)) (\<lambda>(k, st). Ok (s, k, st)))"

text \<open>The level 2 table of an address, created and installed in the level 1 table when missing.\<close>

definition l2_table ::
    "'z kernel_scheme vs_env \<Rightarrow> 'z kernel_scheme \<Rightarrow> paging_state \<Rightarrow> u32 \<Rightarrow>
     (u32 \<times> 'z kernel_scheme \<times> paging_state) outcome" where
  "l2_table env k st l1_index =
     (case l2_page_tables st l1_index of
        Some t \<Rightarrow> Ok (t, k, st)
      | None \<Rightarrow>
          bind_outcome (arml2_alloc env k st) (\<lambda>(t, k, st).
          bind_outcome (vs_check (vs_slot_alloc env k st)) (\<lambda>(l2_l1_mapping, k, st).
          bind_outcome (vnode_map k (l1_page_table st) t l1_index VREGION_FLAGS_READ_WRITE 0 1 l2_l1_mapping) (\<lambda>k.
          Ok (t, k, st\<lparr>l2_page_tables := (l2_page_tables st)(l1_index \<mapsto> t)\<rparr>)))))"

text \<open>The bytes that go into the level 2 table of an address.\<close>

definition piece_size :: "u32 \<Rightarrow> u32 \<Rightarrow> u32" where
  "piece_size vaddr bytes = min bytes ((256 - ARM_L2_OFFSET vaddr) * PAGE_BYTES)"

text \<open>One round of the loop: the part of the frame that goes into one level 2 table.\<close>

definition map_piece ::
    "'z kernel_scheme vs_env \<Rightarrow> 'z kernel_scheme \<Rightarrow> paging_state \<Rightarrow> u32 \<Rightarrow> u32 \<Rightarrow> u32 \<Rightarrow> u32 \<Rightarrow> u32 \<Rightarrow>
     (u32 \<times> u32 \<times> 'z kernel_scheme \<times> paging_state) outcome" where
  "map_piece env k st vaddr frame mapped_bytes bytes flags =
     bind_outcome (l2_table env k st (ARM_L1_OFFSET vaddr)) (\<lambda>(t, k, st).
     bind_outcome (vs_check (vs_slot_alloc env k st)) (\<lambda>(l2_frame, k, st).
     bind_outcome (vnode_map k t frame (ARM_L2_OFFSET vaddr) flags mapped_bytes
                     (piece_size vaddr bytes div PAGE_BYTES) l2_frame) (\<lambda>k.
     Ok (t, l2_frame, k, st))))"

lemma unat_min: "unat (min a b) = min (unat a) (unat (b :: 'a :: len word))"
  by (simp add: min_def word_le_nat_alt)

lemma unat_piece_size: "unat (piece_size vaddr bytes) = min (unat bytes) ((256 - unat (ARM_L2_OFFSET vaddr)) * 4096)"
proof -
  have l: "unat (ARM_L2_OFFSET vaddr) < 256" by (simp add: unat_offsets)
  have "unat (256 - ARM_L2_OFFSET vaddr) = 256 - unat (ARM_L2_OFFSET vaddr)"
    using unat_minus_le [of "ARM_L2_OFFSET vaddr" 256] l by (simp add: word_le_nat_alt)
  then have "unat ((256 - ARM_L2_OFFSET vaddr) * PAGE_BYTES) = (256 - unat (ARM_L2_OFFSET vaddr)) * 4096"
    using unat_times_less [of "256 - ARM_L2_OFFSET vaddr" PAGE_BYTES] l by simp
  then show ?thesis unfolding piece_size_def unat_min by simp
qed

lemma piece_size_pos: "bytes \<noteq> 0 \<Longrightarrow> unat (bytes - piece_size vaddr bytes) < unat bytes"
proof -
  assume b: "bytes \<noteq> 0"
  have l: "unat (ARM_L2_OFFSET vaddr) < 256" by (simp add: unat_offsets)
  have "0 < unat bytes" using b by (simp add: unat_gt_0)
  then have "0 < unat (piece_size vaddr bytes)" "unat (piece_size vaddr bytes) \<le> unat bytes"
    using l unfolding unat_piece_size by auto
  then show ?thesis using unat_minus_le [of "piece_size vaddr bytes" bytes] by (simp add: word_le_nat_alt)
qed

text \<open>The loop of \<open>slab_refill_no_pagefault\<close>, which keeps no record of the mappings.\<close>

function map_untracked ::
    "'z kernel_scheme vs_env \<Rightarrow> 'z kernel_scheme \<Rightarrow> paging_state \<Rightarrow> u32 \<Rightarrow> u32 \<Rightarrow> u32 \<Rightarrow> u32 \<Rightarrow> u32 \<Rightarrow>
     ('z kernel_scheme \<times> paging_state) outcome" where
  "map_untracked env k st vaddr frame mapped_bytes bytes flags =
     (if bytes = 0 then Ok (k, st)
      else bind_outcome (map_piece env k st vaddr frame mapped_bytes bytes flags) (\<lambda>(t, m, k, st).
        let sz = piece_size vaddr bytes in
        map_untracked env k st (vaddr + sz) frame (mapped_bytes + sz) (bytes - sz) flags))"
  by pat_completeness auto
termination
  by (relation "measure (\<lambda>(env, k, st, vaddr, frame, mapped, bytes, flags). unat bytes)")
     (auto simp: piece_size_pos)

definition slab_refill_no_pagefault ::
    "'z kernel_scheme vs_env \<Rightarrow> 'z kernel_scheme \<Rightarrow> paging_state \<Rightarrow> u32 \<Rightarrow>
     ('z kernel_scheme \<times> paging_state) outcome" where
  "slab_refill_no_pagefault env k st minbytes =
     bind_outcome (vs_check (vs_frame_alloc env minbytes k st)) (\<lambda>((frame, frame_size), k, st).
     bind_outcome (vs_check (paging_alloc st frame_size)) (\<lambda>(buf, st).
     bind_outcome (map_untracked env k st buf frame 0 frame_size VREGION_FLAGS_READ_WRITE) (\<lambda>(k, st).
     bind_outcome (slab_grow (ps_slabs st) (unat buf) (unat frame_size)) (\<lambda>sl.
     Ok (k, st\<lparr>ps_slabs := sl\<rparr>)))))"

definition add_map_node :: "nat \<Rightarrow> paging_map_node \<Rightarrow> paging_used_node list \<Rightarrow> paging_used_node list" where
  "add_map_node a m us =
     map (\<lambda>u. if pu_addr u = a then u\<lparr>pu_map_list := m # pu_map_list u\<rparr> else u) us"

text \<open>The loop of \<open>paging_map_fixed_attr\<close>: \<open>a\<close> is the address of the node of the region.\<close>

function map_tracked ::
    "'z kernel_scheme vs_env \<Rightarrow> nat \<Rightarrow> 'z kernel_scheme \<Rightarrow> paging_state \<Rightarrow> u32 \<Rightarrow> u32 \<Rightarrow> u32 \<Rightarrow> u32 \<Rightarrow> u32 \<Rightarrow>
     ('z kernel_scheme \<times> paging_state) outcome" where
  "map_tracked env a k st vaddr frame mapped_bytes bytes flags =
     (if bytes = 0 then Ok (k, st)
      else bind_outcome (map_piece env k st vaddr frame mapped_bytes bytes flags) (\<lambda>(t, m, k, st).
           bind_outcome (ps_node env k st) (\<lambda>(b, k, st).
        let sz = piece_size vaddr bytes in
        map_tracked env a k
          (st\<lparr>ps_mappings := add_map_node a \<lparr>pm_addr = b, pm_table = t, pm_mapping = m\<rparr> (ps_mappings st)\<rparr>)
          (vaddr + sz) frame (mapped_bytes + sz) (bytes - sz) flags)))"
  by pat_completeness auto
termination
  by (relation "measure (\<lambda>(env, a, k, st, vaddr, frame, mapped, bytes, flags). unat bytes)")
     (auto simp: piece_size_pos)

declare map_untracked.simps [simp del] map_tracked.simps [simp del]

text \<open>
  The refill at the start. The results of the slot allocation and of the refill are not looked
  at, and the slot is not used.
\<close>

definition paging_special_refill ::
    "'z kernel_scheme vs_env \<Rightarrow> 'z kernel_scheme \<Rightarrow> paging_state \<Rightarrow> ('z kernel_scheme \<times> paging_state) outcome" where
  "paging_special_refill env k st =
     (if slab_freecount (ps_slabs st) \<noteq> 0 then Ok (k, st)
      else
        bind_outcome
          (case vs_slot_alloc env k st of Ok (_, k, st) \<Rightarrow> Ok (k, st) | Err _ \<Rightarrow> Ok (k, st) | Abort \<Rightarrow> Abort)
          (\<lambda>(k, st). slab_refill_no_pagefault env k st PAGE_BYTES))"

definition paging_map_fixed_attr ::
    "'z kernel_scheme vs_env \<Rightarrow> 'z kernel_scheme \<Rightarrow> paging_state \<Rightarrow> u32 \<Rightarrow> u32 \<Rightarrow> u32 \<Rightarrow> u32 \<Rightarrow>
     ('z kernel_scheme \<times> paging_state) outcome" where
  "paging_map_fixed_attr env k st vaddr frame bytes flags =
     bind_outcome (paging_special_refill env k st) (\<lambda>(k, st).
     bind_outcome (ps_node env k st) (\<lambda>(a, k, st).
     map_tracked env a k
       (st\<lparr>ps_mappings := \<lparr>pu_addr = a, pu_start = vaddr, pu_size = bytes, pu_map_list = []\<rparr> # ps_mappings st\<rparr>)
       vaddr frame 0 bytes flags))"

definition paging_map_frame_attr ::
    "'z kernel_scheme vs_env \<Rightarrow> 'z kernel_scheme \<Rightarrow> paging_state \<Rightarrow> u32 \<Rightarrow> u32 \<Rightarrow> u32 \<Rightarrow>
     (u32 \<times> 'z kernel_scheme \<times> paging_state) outcome" where
  "paging_map_frame_attr env k st bytes frame flags =
     bind_outcome (vs_check (paging_alloc st bytes)) (\<lambda>(buf, st).
     bind_outcome (paging_map_fixed_attr env k st buf frame bytes flags) (\<lambda>(k, st). Ok (buf, k, st)))"

section \<open>Unmapping\<close>

text \<open>The results of \<open>vnode_unmap\<close> are not looked at.\<close>

definition vnode_unmap :: "'z kernel_scheme \<Rightarrow> u32 \<Rightarrow> u32 \<Rightarrow> 'z kernel_scheme outcome" where
  "vnode_unmap k pgtl mapping =
     (case page_mappings_unmap k pgtl mapping of Ok k \<Rightarrow> Ok k | Err _ \<Rightarrow> Ok k | Abort \<Rightarrow> Abort)"

fun unmap_nodes ::
    "'z kernel_scheme \<Rightarrow> slab_allocator \<Rightarrow> paging_map_node list \<Rightarrow> ('z kernel_scheme \<times> slab_allocator) outcome" where
  "unmap_nodes k sl [] = Ok (k, sl)"
| "unmap_nodes k sl (m # ms) =
     bind_outcome (vnode_unmap k (pm_table m) (pm_mapping m)) (\<lambda>k.
     bind_outcome (slab_free sl (pm_addr m)) (\<lambda>sl. unmap_nodes k sl ms))"

text \<open>The nodes before, at and after the first region that starts at an address.\<close>

fun used_split :: "u32 \<Rightarrow> paging_used_node list \<Rightarrow>
    (paging_used_node list \<times> paging_used_node \<times> paging_used_node list) option" where
  "used_split start [] = None"
| "used_split start (u # us) =
     (if pu_start u = start then Some ([], u, us)
      else map_option (\<lambda>(pre, v, post). (u # pre, v, post)) (used_split start us))"

definition paging_unmap ::
    "'z kernel_scheme vs_env \<Rightarrow> 'z kernel_scheme \<Rightarrow> paging_state \<Rightarrow> u32 \<Rightarrow> ('z kernel_scheme \<times> paging_state) outcome" where
  "paging_unmap env k st region =
     (case used_split region (ps_mappings st) of
        None \<Rightarrow> Abort
      | Some (pre, node, post) \<Rightarrow>
          bind_outcome (unmap_nodes k (ps_slabs st) (pu_map_list node)) (\<lambda>(k, sl).
          bind_outcome (paging_add_space env k (st\<lparr>ps_mappings := pre @ post, ps_slabs := sl\<rparr>) (pu_start node) (pu_size node))
            (\<lambda>(k, st).
          bind_outcome (slab_free (ps_slabs st) (pu_addr node)) (\<lambda>sl. Ok (k, st\<lparr>ps_slabs := sl\<rparr>)))))"

section \<open>Page faults\<close>

datatype fault_result = ThreadExit | Resumed

definition pagefault_handler ::
    "'z kernel_scheme vs_env \<Rightarrow> 'z kernel_scheme \<Rightarrow> paging_state \<Rightarrow> u32 \<Rightarrow> u32 \<Rightarrow> u32 \<Rightarrow> u32 \<Rightarrow>
     (fault_result \<times> 'z kernel_scheme \<times> paging_state) outcome" where
  "pagefault_handler env k st sp stack stack_top addr =
     (if addr = 0 then Ok (ThreadExit, k, st)
      else if 0x80000000 < addr then Ok (ThreadExit, k, st)
      else if sp < stack \<or> stack_top < sp then Ok (ThreadExit, k, st)
      else
        let vaddr = addr - addr mod PAGE_BYTES in
        bind_outcome (vs_check (vs_frame_alloc env PAGE_BYTES k st)) (\<lambda>((frame, retsize), k, st).
        bind_outcome (paging_map_fixed_attr env k st vaddr frame retsize VREGION_FLAGS_READ_WRITE)
          (\<lambda>(k, st). Ok (Resumed, k, st))))"

section \<open>Regions\<close>

definition paging_region_init :: "paging_state \<Rightarrow> paging_region \<Rightarrow> u32 \<Rightarrow> (paging_region \<times> paging_state) outcome" where
  "paging_region_init st pr sz =
     bind_outcome (vs_check (paging_alloc st sz)) (\<lambda>(base, st).
       Ok (pr\<lparr>pr_base := base, pr_current := base, pr_size := sz\<rparr>, st))"

text \<open>\<open>rem\<close> is signed; the comparison with the unsigned size converts it back.\<close>

definition paging_region_map :: "paging_region \<Rightarrow> u32 \<Rightarrow> ((u32 \<times> u32) \<times> paging_region) outcome" where
  "paging_region_map pr req_size =
     (let end_addr = pr_base pr + pr_size pr;
          rem = end_addr - pr_current pr
      in if req_size < rem then Ok ((pr_current pr, req_size), pr\<lparr>pr_current := pr_current pr + req_size\<rparr>)
         else if 0 < sint rem then Ok ((pr_current pr, rem), pr\<lparr>pr_current := pr_current pr + rem\<rparr>)
         else Err LIB_ERR_VSPACE_MMU_AWARE_NO_SPACE)"

text \<open>
  Recording a hole: the list is searched up to its last node, which is not compared. \<open>new\<close> is the
  address of the node that the code allocates in the cases that need one.
\<close>

fun hole_merges :: "u32 \<Rightarrow> paging_frame_node list \<Rightarrow> bool" where
  "hole_merges base [] = False"
| "hole_merges base [n] = False"
| "hole_merges base (n # m # ns) =
     (if pf_base n < base then pf_base n + pf_size n = base \<or> hole_merges base (m # ns) else False)"

fun hole_insert :: "nat \<Rightarrow> u32 \<Rightarrow> u32 \<Rightarrow> paging_frame_node list \<Rightarrow> paging_frame_node list" where
  "hole_insert new base bytes [] = [\<lparr>pf_addr = new, pf_base = base, pf_size = bytes\<rparr>]"
| "hole_insert new base bytes [n] = [n, \<lparr>pf_addr = new, pf_base = base, pf_size = bytes\<rparr>]"
| "hole_insert new base bytes (n # m # ns) =
     (if pf_base n < base then
        if pf_base n + pf_size n = base then n\<lparr>pf_size := pf_size n + bytes\<rparr> # m # ns
        else n # hole_insert new base bytes (m # ns)
      else n\<lparr>pf_base := base, pf_size := bytes\<rparr> # n\<lparr>pf_addr := new\<rparr> # m # ns)"

text \<open>Coalescing: the nodes that remain, and the addresses of the nodes that are freed.\<close>

fun hole_coalesce :: "paging_frame_node \<Rightarrow> paging_frame_node list \<Rightarrow> paging_frame_node list \<times> nat list" where
  "hole_coalesce n [] = ([n], [])"
| "hole_coalesce n (t # ns) =
     (if pf_base t = pf_base n + pf_size n then
        let (r, fs) = hole_coalesce (n\<lparr>pf_size := pf_size n + pf_size t\<rparr>) ns in (r, pf_addr t # fs)
      else let (r, fs) = hole_coalesce t ns in (n # r, fs))"

fun free_nodes :: "slab_allocator \<Rightarrow> nat list \<Rightarrow> slab_allocator outcome" where
  "free_nodes sl [] = Ok sl"
| "free_nodes sl (a # as) = bind_outcome (slab_free sl a) (\<lambda>sl. free_nodes sl as)"

definition region_coalesce :: "slab_allocator \<Rightarrow> paging_region \<Rightarrow> (paging_region \<times> slab_allocator) outcome" where
  "region_coalesce sl pr =
     (case pr_holes pr of
        [] \<Rightarrow> Ok (pr, sl)
      | n # ns \<Rightarrow>
          let (hs, freed) = hole_coalesce n ns; node = last hs in
          bind_outcome (free_nodes sl freed) (\<lambda>sl.
            if pf_base node + pf_size node = pr_current pr then
              bind_outcome (slab_free sl (pf_addr node)) (\<lambda>sl.
                Ok (pr\<lparr>pr_current := pr_current pr - pf_size node, pr_holes := butlast hs\<rparr>, sl))
            else Ok (pr\<lparr>pr_holes := hs\<rparr>, sl)))"

definition paging_region_unmap ::
    "'k vs_env \<Rightarrow> 'k \<Rightarrow> paging_state \<Rightarrow> paging_region \<Rightarrow> u32 \<Rightarrow> u32 \<Rightarrow>
     (paging_region \<times> 'k \<times> paging_state) outcome" where
  "paging_region_unmap env k st pr base bytes =
     (if \<not> base \<le> pr_base pr \<or> \<not> base + bytes \<le> pr_base pr + pr_size pr \<or> \<not> base + bytes \<le> pr_current pr
      then Abort
      else
        bind_outcome
          (if pr_current pr - bytes = base then Ok (pr\<lparr>pr_current := base\<rparr>, k, st)
           else if hole_merges base (pr_holes pr)
           then Ok (pr\<lparr>pr_holes := hole_insert 0 base bytes (pr_holes pr)\<rparr>, k, st)
           else bind_outcome (ps_node env k st) (\<lambda>(a, k, st).
             Ok (pr\<lparr>pr_holes := hole_insert a base bytes (pr_holes pr)\<rparr>, k, st)))
          (\<lambda>(pr, k, st).
             bind_outcome (region_coalesce (ps_slabs st) pr) (\<lambda>(pr, sl). Ok (pr, k, st\<lparr>ps_slabs := sl\<rparr>))))"

end
