(* ===== verification/Vm_Lemmas.thy ===== *)
theory Vm_Lemmas
  imports Vspace
begin

text \<open>
  What the page table operations of the kernel do: which words of memory they write, which
  slot and which entry of the mapping database they add, and what that means to the
  translation table walk.
\<close>

section \<open>Writing entries\<close>

lemma fill_entries_other:
  "(\<And>j. j < n \<Longrightarrow> a \<noteq> e + 4 * of_nat j) \<Longrightarrow> fill_entries f mem e i n a = mem a"
proof (induction n arbitrary: mem e i)
  case (Suc n)
  have "a \<noteq> e" using Suc.prems [of 0] by simp
  moreover have "a \<noteq> e + 4 + 4 * of_nat j" if "j < n" for j
    using Suc.prems [of "Suc j"] that by (simp add: algebra_simps)
  ultimately show ?case using Suc.IH [of "e + 4"] by simp
qed simp

lemma of_nat_times4: "n \<le> 2 ^ 30 \<Longrightarrow> 0 < j \<Longrightarrow> j < n \<Longrightarrow> (4 * of_nat j :: u32) \<noteq> 0"
proof
  assume a: "n \<le> 2 ^ 30" "0 < j" "j < n" "(4 * of_nat j :: u32) = 0"
  have "unat (of_nat (4 * j) :: u32) = 4 * j" using a(1,3) by (intro unat_of_nat_less) simp
  then show False using a(2,4) by simp
qed

lemma fill_entries_at:
  "j < n \<Longrightarrow> n \<le> 2 ^ 30 \<Longrightarrow> fill_entries f mem e i n (e + 4 * of_nat j) = f (i + j)"
proof (induction n arbitrary: mem e i j)
  case (Suc n)
  show ?case
  proof (cases j)
    case 0
    have "e \<noteq> e + 4 + 4 * of_nat j'" if "j' < n" for j'
      using of_nat_times4 [OF Suc.prems(2), of "Suc j'"] that by (simp add: algebra_simps)
    then show ?thesis using 0 fill_entries_other [of n e "e + 4" f "mem(e := f i)" "Suc i"] by simp
  next
    case (Suc j')
    have "e + 4 * of_nat j = (e + 4) + 4 * of_nat j'" using Suc by (simp add: algebra_simps)
    moreover have "fill_entries f (mem(e := f i)) (e + 4) (Suc i) n (e + 4 + 4 * of_nat j') = f (Suc i + j')"
      by (rule Suc.IH) (use Suc Suc.prems in simp_all)
    ultimately show ?thesis using Suc by (simp add: add.assoc)
  qed
qed simp

text \<open>Inside a table: \<open>b\<close> is its base and \<open>x\<close> an index.\<close>

lemma table_address:
  assumes "unat (b :: u32) mod m = 0" "m dvd 2 ^ 32" "4 * unat x < m"
  shows "unat (b + 4 * x) = unat b + 4 * unat x"
proof -
  obtain q where qb: "unat b = m * q" using assms(1) by (auto simp: mod_eq_0_iff_dvd dvd_def)
  obtain r where "(2 :: nat) ^ 32 = m * r" using assms(2) unfolding dvd_def by blast
  note q = qb this
  have "m * q < m * r" using unat_exp_less [of b] q by simp
  then have "q + 1 \<le> r" by simp
  then have "m * (q + 1) \<le> m * r" by (rule mult_le_mono2)
  then have "unat b + m \<le> 2 ^ 32" using q by (simp add: algebra_simps)
  moreover have "unat (4 * x) = 4 * unat x" using unat_times_less [of 4 x] assms(3) calculation by simp
  ultimately show ?thesis using unat_plus_less [of b "4 * x"] assms(3) by simp
qed

lemma table_address_inj:
  assumes "unat (b :: u32) mod m = 0" "m dvd 2 ^ 32" "4 * unat x < m" "4 * unat y < m" "b + 4 * x = b + 4 * y"
  shows "x = y"
  using table_address [OF assms(1-3)] table_address [OF assms(1,2,4)] assms(5)
  by (simp add: word_unat_eq_iff)

text \<open>Two aligned tables with different bases have no entry in common.\<close>

lemma table_disjoint:
  assumes "unat (b :: u32) mod m = 0" "unat (c :: u32) mod m = 0" "m dvd 2 ^ 32" "b \<noteq> c" "4 * unat x < m" "4 * unat y < m"
  shows "b + 4 * x \<noteq> c + 4 * y"
proof
  assume e: "b + 4 * x = c + 4 * y"
  then have "unat b + 4 * unat x = unat c + 4 * unat y"
    using table_address [OF assms(1,3,5)] table_address [OF assms(2,3,6)] by simp
  moreover obtain q where "unat b = m * q" using assms(1) by (auto simp: mod_eq_0_iff_dvd dvd_def)
  moreover obtain r where "unat c = m * r" using assms(2) by (auto simp: mod_eq_0_iff_dvd dvd_def)
  ultimately have "m * q + 4 * unat x = m * r + 4 * unat y" by simp
  then have "(4 * unat x + m * q) div m = (4 * unat y + m * r) div m" by (simp add: add.commute)
  then have "q = r" using assms(5,6) by simp
  then show False using \<open>unat b = m * q\<close> \<open>unat c = m * r\<close> assms(4) by (simp add: word_unat_eq_iff)
qed

section \<open>Slots\<close>

lemma kpreds_simps [simp]:
  "objtype (kpreds c) p = cap_type (c p)"
  "get_address (kpreds c) p = hamlet_address (capability.truncate (c p))"
  "get_size (kpreds c) p = hamlet_size (capability.truncate (c p))"
  "get_type_root (kpreds c) = hamlet_type_root"
  "compare_caps (kpreds c) = hamlet_compare_caps (\<lambda>p. capability.truncate (c p))"
  by (simp_all add: kpreds_def hamlet_preds_def capability.truncate_def)

lemma kpreds_order: "cap_order (kpreds c)"
  unfolding kpreds_def by (rule hamlet.cap_order_axioms)

lemma cap_type_truncate [simp]: "cap_type (capability.truncate c) = cap_type c"
  by (simp add: capability.truncate_def)

text \<open>The database is well formed whenever the slots that it contains are unchanged.\<close>

lemma hamlet_compare_cong:
  "h a = h' a \<Longrightarrow> h b = h' b \<Longrightarrow> hamlet_compare_caps h a b t = hamlet_compare_caps h' a b t"
  by (simp add: hamlet_compare_caps_def)

lemma mdb_aug_cong:
  "(\<And>x. x \<in> entries t \<Longrightarrow> c (cap x) = c' (cap x)) \<Longrightarrow> mdb_aug (kpreds c) t \<Longrightarrow> mdb_aug (kpreds c') t"
proof (induction t)
  case (Node l x e er k r)
  have "c (cap x) = c' (cap x)" using Node.prems by simp
  then have "cap_root (kpreds c) (cap x) = cap_root (kpreds c') (cap x)"
    "get_address (kpreds c) (cap x) = get_address (kpreds c') (cap x)"
    "get_size (kpreds c) (cap x) = get_size (kpreds c') (cap x)" by (simp_all add: cap_root_def)
  then have "expected_end_root (kpreds c') l x r = expected_end_root (kpreds c) l x r"
    "expected_end (kpreds c') l x r er = expected_end (kpreds c) l x r er"
    unfolding expected_end_root_def expected_end_def Let_def by (simp_all del: kpreds_simps)
  then show ?case using Node by simp
qed simp

lemma mdb_wf_cong:
  assumes "\<And>x. x \<in> entries t \<Longrightarrow> c (cap x) = c' (cap x)" "mdb_wf (kpreds c) t"
  shows "mdb_wf (kpreds c') t"
proof -
  have "mdb_sorted (kpreds c') t"
    unfolding mdb_sorted_def
  proof (rule sorted_wrt_mono_rel)
    show "sorted_wrt (\<lambda>a b. compare_caps (kpreds c) (cap a) (cap b) True < 0) (inorder t)"
      using assms(2) by (simp add: mdb_wf_def mdb_sorted_def)
    show "compare_caps (kpreds c') (cap a) (cap b) True < 0"
      if "a \<in> entries t" "b \<in> entries t" "compare_caps (kpreds c) (cap a) (cap b) True < 0" for a b
      using that assms(1) hamlet_compare_cong [of "\<lambda>p. capability.truncate (c p)" "cap a" "\<lambda>p. capability.truncate (c' p)" "cap b" True]
      by simp
  qed
  moreover have "mdb_typed (kpreds c') t" using assms by (simp add: mdb_wf_def mdb_typed_def)
  ultimately show ?thesis using assms(2) mdb_aug_cong [of t c c'] assms(1) by (simp add: mdb_wf_def)
qed

section \<open>The map system call\<close>

definition mapping_cap :: "'z kernel_scheme \<Rightarrow> u32 \<Rightarrow> u32 \<Rightarrow> u32 \<Rightarrow> nat \<Rightarrow> kcap" where
  "mapping_cap k src pte offset n =
     \<lparr>cap_type = get_mapping_type (ktype k src), cap_base = kaddress k src,
      cap_bytes = objsize_mapping, cap_eq_fields = unat pte,
      fm_cap = src, fm_pte = pte, fm_offset = drop_bit 10 offset, fm_pte_count = ucast (of_nat n :: u32)\<rparr>"

text \<open>
  The effect of a successful map operation: entries \<open>f\<close> from index \<open>slot\<close> of the table on, and
  one more mapping capability, which the database knows.
\<close>

definition mapped :: "'z kernel_scheme \<Rightarrow> u32 \<Rightarrow> u32 \<Rightarrow> u32 \<Rightarrow> u32 \<Rightarrow> nat \<Rightarrow> u32 \<Rightarrow> (nat \<Rightarrow> u32) \<Rightarrow> 'z kernel_scheme \<Rightarrow> bool" where
  "mapped k t slot src offset n m f k' \<longleftrightarrow>
     k_mem k' = fill_entries f (k_mem k) (ucast (kaddress k t) + 4 * slot) 0 n \<and>
     k_ctes k' = (k_ctes k)(m := mapping_cap k src (ucast (kaddress k t) + 4 * slot) offset n) \<and>
     mdb_wf (kpreds (k_ctes k')) (k_mdb k') \<and> cap ` entries (k_mdb k') = insert m (cap ` entries (k_mdb k)) \<and>
     kernel.more k' = kernel.more k"

lemma ucast_add_offset: "(ucast (a + ucast b :: u64) :: u32) = ucast a + b"
proof -
  have "unat (ucast (a + ucast b :: u64) :: u32) = (unat a + unat b) mod 2 ^ 64 mod 2 ^ 32"
    by (simp add: unat_ucast_32 unat_ucast_64 unat_word_ariths)
  also have "... = (unat a + unat b) mod 2 ^ 32" by (rule mod_mod_cancel) simp
  also have "... = unat (ucast a + b)" by (simp add: unat_ucast_32 unat_word_ariths mod_simps)
  finally show ?thesis by (simp add: word_unat_eq_iff)
qed

lemma ucast_up_down [simp]: "(ucast (ucast (a :: u32) :: u64) :: u32) = a"
  using unat_exp_less [of a] by (simp add: word_unat_eq_iff unat_ucast_32 unat_ucast_64)

lemma mask42: "(ucast (x :: u32) :: u64) AND NOT (mask 42) = 0"
  by (rule bit_word_eqI) (auto simp: bit_simps dest: bit_imp_le_length)

lemma insert_mapping_ok:
  assumes "mdb_wf (kpreds c) t" "cap_type (c m) = 0" "cap_type x \<noteq> 0"
  shows "\<exists>t'. mdb_insert (kpreds (c(m := x))) t
      (new_cte \<lparr>cap = m, remote_copies = False, remote_ancs = False, remote_descs = False\<rparr>) = Ok t' \<and>
    mdb_wf (kpreds (c(m := x))) t' \<and> cap ` entries t' = insert m (cap ` entries t)"
proof -
  let ?P = "kpreds (c(m := x))"
  let ?n = "\<lparr>cap = m, remote_copies = False, remote_ancs = False, remote_descs = False\<rparr>"
  have new: "cap e \<noteq> m" if "e \<in> entries t" for e
    using assms(1,2) that by (auto simp: mdb_wf_def mdb_typed_def)
  then have wf: "mdb_wf ?P t" using mdb_wf_cong [of t c "c(m := x)"] assms(1) by simp
  obtain t' where t': "mdb_sub_insert ?P (new_cte ?n) t = Ok t'"
    using cap_order.sub_insert_cases [OF kpreds_order wfD(1) [OF wf], of ?n] new by auto
  have "objtype ?P (cap ?n) \<noteq> 0" using assms(3) by simp
  then have "mdb_wf ?P t'" using cap_order.sub_insert_wf [OF kpreds_order wf _ t'] by simp
  moreover have "cap ` entries t' = insert m (cap ` entries t)"
    using cap_order.sub_insert_inorder [OF kpreds_order t'] by force
  ultimately show ?thesis using t' by (simp add: mdb_insert_def)
qed

lemma mapping_type:
  "ty \<in> {8, 10, 27, 29} \<Longrightarrow> get_mapping_type ty = ty + 1 \<and> type_is_mapping (ty + 1)"
  by (auto simp: get_mapping_type_def type_is_mapping_def type_is_vnode_def)

text \<open>
  A map operation of the kernel that creates the mapping and writes the entries succeeds as a
  system call.
\<close>

lemma vnode_map_ok:
  assumes "mdb_wf (kpreds (k_ctes k)) (k_mdb k)" "ktype k m = 0" "ktype k src \<in> {8, 10, 27, 29}"
    "unat slot < 2 ^ 16" "n < 2 ^ 16"
    and op: "ktype k t = ObjType_VNode_ARM_l1 \<and>
        caps_map_l1 k t slot src flags offset (of_nat n) m =
          bind_outcome (create_mapping_cap k m src (ucast (kaddress k t) + slot * 4) offset (of_nat n)) (\<lambda>k1.
            Ok (k1\<lparr>k_mem := fill_entries f (k_mem k1) (ucast (kaddress k t) + 4 * slot) 0 n\<rparr>)) \<or>
      ktype k t = ObjType_VNode_ARM_l2 \<and>
        caps_map_l2 k t slot src flags offset (of_nat n) m =
          bind_outcome (create_mapping_cap k m src (ucast (kaddress k t) + slot * 4) offset (of_nat n)) (\<lambda>k1.
            Ok (k1\<lparr>k_mem := fill_entries f (k_mem k1) (ucast (kaddress k t) + 4 * slot) 0 n\<rparr>))"
  shows "\<exists>k'. vnode_map k t src slot flags offset (of_nat n) m = Ok k' \<and> mapped k t slot src offset n m f k'"
proof -
  let ?pte = "ucast (kaddress k t) + 4 * slot"
  let ?c = "mapping_cap k src ?pte offset n"
  let ?k = "k\<lparr>k_ctes := (k_ctes k)(m := ?c), k_mem := fill_entries f (k_mem k) ?pte 0 n\<rparr>"
  have c: "create_mapping_cap k m src (ucast (kaddress k t) + slot * 4) offset (of_nat n) = Ok (k\<lparr>k_ctes := (k_ctes k)(m := ?c)\<rparr>)"
    using assms(2) by (simp add: create_mapping_cap_def mapping_cap_def mask42 mult.commute)
  have ty: "type_is_mapping (cap_type ?c)" "cap_type ?c \<noteq> 0"
    using mapping_type [OF assms(3)] by (simp_all add: mapping_cap_def)
  obtain t' where t': "mdb_insert (kpreds ((k_ctes k)(m := ?c))) (k_mdb k)
      (new_cte \<lparr>cap = m, remote_copies = False, remote_ancs = False, remote_descs = False\<rparr>) = Ok t'"
    "mdb_wf (kpreds ((k_ctes k)(m := ?c))) t'" "cap ` entries t' = insert m (cap ` entries (k_mdb k))"
    using insert_mapping_ok [OF assms(1) _ ty(2), of m] assms(2) by (auto simp: ktype_def)
  have "caps_copy_to_vnode k t slot src flags offset (of_nat n) m = Ok (None, ?k\<lparr>k_mdb := t'\<rparr>)"
    using op assms(2) c ty(1) t'(1)
    by (auto simp: caps_copy_to_vnode_def ktype_def)
  moreover have "type_is_vnode (ktype k t)" using op by (auto simp: type_is_vnode_def)
  moreover have "\<not> 0xFFFF < slot" "\<not> 0xFFFF < (of_nat n :: u32)"
    using assms(4,5) by (simp_all add: word_less_nat_alt unat_of_nat_less)
  ultimately have "vnode_map k t src slot flags offset (of_nat n) m = Ok (?k\<lparr>k_mdb := t'\<rparr>)"
    using assms(2) by (simp add: vnode_map_def sys_map_def)
  then show ?thesis using t'(2,3) by (auto simp: mapped_def)
qed

lemma memory_types:
  assumes "ktype k p \<in> {8, 10, 27, 29}"
  shows "kaddress k p = cap_base (k_ctes k p)" "ksize k p = cap_bytes (k_ctes k p)"
  using assms by (auto simp: kaddress_def ksize_def ktype_def hamlet_address_def hamlet_size_def hamlet_type_root_def
      capability.truncate_def)

lemma page_aligned_and: "(x :: u32) AND 4095 = 0 \<longleftrightarrow> unat x mod 4096 = 0"
proof -
  have "x AND 4095 = 0 \<longleftrightarrow> unat (take_bit 12 x) = 0" by (simp add: and_mask_numerals unsigned_eq_0_iff)
  then show ?thesis by (simp add: unat_take_drop)
qed

lemma table_aligned_and: "(x :: u32) AND 1023 = 0 \<longleftrightarrow> unat x mod 1024 = 0"
proof -
  have "x AND 1023 = take_bit 10 x" by (simp add: take_bit_eq_mask mask_eq_exp_minus_1)
  then have "x AND 1023 = 0 \<longleftrightarrow> unat (take_bit 10 x) = 0" by (simp add: unsigned_eq_0_iff)
  then show ?thesis by (simp add: unat_take_drop)
qed

text \<open>Mapping \<open>n\<close> pages of a frame from \<open>offset\<close> on into a level 2 table.\<close>

lemma map_l2_ok:
  assumes "mdb_wf (kpreds (k_ctes k)) (k_mdb k)" "ktype k m = 0" "ktype k t = ObjType_VNode_ARM_l2"
    "ktype k src \<in> {ObjType_Frame, ObjType_DevFrame}" "flags AND NOT KPI_PAGING_FLAGS_MASK = 0"
    "unat slot + n \<le> 256" "0 < n" "unat offset mod 4096 = 0" "unat offset + n * 4096 \<le> unat (ksize k src)"
    "unat offset + n * 4096 < 2 ^ 32" "L2_TYPE (k_mem k (ucast (kaddress k t) + 4 * slot)) = 0"
    "unat (kaddress k src) mod 4096 = 0"
  shows "\<exists>k'. vnode_map k t src slot flags offset (of_nat n) m = Ok k' \<and>
    mapped k t slot src offset n m
      (\<lambda>i. small_page_entry flags (ucast (kaddress k src) + offset + of_nat i * PAGE_BYTES)) k'"
proof -
  have n: "unat (of_nat n :: u32) = n" "unat slot < 256" "n \<le> 256" using assms(6,7) by (auto intro!: unat_of_nat_less)
  then have np: "unat (of_nat n * PAGE_BYTES :: u32) = n * 4096"
    using unat_times_less [of "of_nat n" PAGE_BYTES] by simp
  then have sum: "unat (offset + of_nat n * PAGE_BYTES) = unat offset + n * 4096"
    using unat_plus_less [of offset "of_nat n * PAGE_BYTES"] assms(10) by simp
  have "\<not> ksize k src < ucast (offset + of_nat n * PAGE_BYTES)"
    using assms(9) by (simp add: word_less_nat_alt unat_ucast_64 sum)
  moreover have "offset mod PAGE_BYTES = 0" using assms(8) by (simp add: word_arith_nat_mod)
  moreover have "\<not> 256 \<le> slot" using n by (simp add: word_le_nat_alt)
  moreover have "\<not> 256 < slot + of_nat n"
    using unat_plus_less [of slot "of_nat n"] n assms(6) by (simp add: word_less_nat_alt)
  moreover have "(ucast (kaddress k src + ucast offset) :: u32) AND 4095 = 0"
  proof -
    have "(unat (kaddress k src) mod 2 ^ 32 + unat offset) mod 2 ^ 32 mod 4096 = (unat (kaddress k src) mod 2 ^ 32 + unat offset) mod 4096"
      by (rule mod_mod_cancel) simp
    also have "... = (unat (kaddress k src) mod 2 ^ 32 mod 4096 + unat offset mod 4096) mod 4096" by (simp add: mod_simps)
    also have "unat (kaddress k src) mod 2 ^ 32 mod 4096 = 0"
      using assms(12) mod_mod_cancel [of 4096 "2 ^ 32" "unat (kaddress k src)"] by simp
    finally show ?thesis
      using assms(8) unfolding page_aligned_and ucast_add_offset by (simp add: unat_word_ariths unat_ucast_32)
  qed
  ultimately have "caps_map_l2 k t slot src flags offset (of_nat n) m =
      bind_outcome (create_mapping_cap k m src (ucast (kaddress k t) + slot * 4) offset (of_nat n)) (\<lambda>k1.
        Ok (k1\<lparr>k_mem := fill_entries (\<lambda>i. small_page_entry flags (ucast (kaddress k src) + offset + of_nat i * PAGE_BYTES))
          (k_mem k1) (ucast (kaddress k t) + 4 * slot) 0 n\<rparr>))"
    using assms(4,5,11) n(1) by (auto simp: caps_map_l2_def Let_def ucast_add_offset)
  then show ?thesis using vnode_map_ok [OF assms(1,2), of src slot n t flags offset] assms(3,4) n(2,3) by auto
qed

text \<open>Installing a level 2 table in a level 1 table, below the part of the kernel.\<close>

lemma map_l1_ok:
  assumes "mdb_wf (kpreds (k_ctes k)) (k_mdb k)" "ktype k m = 0" "ktype k t = ObjType_VNode_ARM_l1"
    "ktype k src = ObjType_VNode_ARM_l2" "unat slot < 2048" "1024 \<le> unat (ksize k src)"
    "unat (ucast (kaddress k src) :: u32) mod 1024 = 0"
    "unat (ucast (kaddress k src) :: u32) < unat (ucast (kaddress k t) :: u32) \<or>
     unat (ucast (kaddress k t) + 16384 :: u32) \<le> unat (ucast (kaddress k src) :: u32)"
  shows "\<exists>k'. vnode_map k t src slot flags 0 1 m = Ok k' \<and>
    mapped k t slot src 0 1 m (\<lambda>i. page_table_entry (ucast (kaddress k src) + of_nat i * ARM_L2_TABLE_BYTES)) k'"
proof -
  have "\<not> 4096 \<le> slot" "\<not> 4096 < slot + 1" "\<not> ARM_L1_OFFSET MEMORY_OFFSET \<le> slot"
    using assms(5) unat_plus_less [of slot 1] by (simp_all add: word_le_nat_alt word_less_nat_alt unat_offsets)
  moreover have "\<not> ksize k src < ucast (1024 :: u32)" using assms(6) by (simp add: word_less_nat_alt unat_ucast_64)
  moreover have "aligned (ucast (kaddress k src)) 1024"
    using assms(7) by (simp add: aligned_def table_aligned_and)
  ultimately have "caps_map_l1 k t slot src flags 0 (of_nat 1) m =
      bind_outcome (create_mapping_cap k m src (ucast (kaddress k t) + slot * 4) 0 (of_nat 1)) (\<lambda>k1.
        Ok (k1\<lparr>k_mem := fill_entries (\<lambda>i. page_table_entry (ucast (kaddress k src) + of_nat i * ARM_L2_TABLE_BYTES))
          (k_mem k1) (ucast (kaddress k t) + 4 * slot) 0 1\<rparr>))"
    using assms(4,8) by (auto simp: caps_map_l1_def Let_def word_less_nat_alt word_le_nat_alt)
  then show ?thesis using vnode_map_ok [OF assms(1,2), of src slot 1 t flags 0] assms(3,4,5) by auto
qed

end
