(* ===== verification/Vspace_Map.thy ===== *)
theory Vspace_Map
  imports Vm_Lemmas
begin

text \<open>
  Mapping into an address space. The invariant relates the page tables that the process has
  recorded to the tables in memory; \<open>vtrans\<close> is the translation of the processor. The lemmas
  show that a mapping changes the translation of exactly the addresses of its range.
\<close>

section \<open>The page tables of a process\<close>

definition tb :: "'z kernel_scheme \<Rightarrow> u32 \<Rightarrow> u32" where
  "tb k p = ucast (kaddress k p)"

text \<open>The tables of the process translate the lower half of the addresses, those of the kernel the upper half.\<close>

definition vtrans :: "'z kernel_scheme \<Rightarrow> paging_state \<Rightarrow> u32 \<Rightarrow> (u32 \<times> u32) option" where
  "vtrans k st va = (if va < MEMORY_OFFSET then arm_walk (k_mem k) (tb k (l1_page_table st)) va else None)"

lemma user_half: "va < MEMORY_OFFSET \<longleftrightarrow> unat (ARM_L1_OFFSET va) < 2048"
  unfolding unat_offsets word_less_nat_alt by (auto simp: less_mult_imp_div_less div_less_iff_less_mult)

definition l1_ok :: "'z kernel_scheme \<Rightarrow> paging_state \<Rightarrow> bool" where
  "l1_ok k st \<longleftrightarrow> ktype k (l1_page_table st) = ObjType_VNode_ARM_l1 \<and> ksize k (l1_page_table st) = 16384 \<and>
     unat (tb k (l1_page_table st)) mod 16384 = 0 \<and>
     (\<forall>i. unat i < 2048 \<longrightarrow> l2_page_tables st i = None \<longrightarrow> L1_TYPE (k_mem k (tb k (l1_page_table st) + 4 * i)) = 0)"

definition l2_ok :: "'z kernel_scheme \<Rightarrow> paging_state \<Rightarrow> u32 \<Rightarrow> u32 \<Rightarrow> bool" where
  "l2_ok k st i t \<longleftrightarrow> unat i < 2048 \<and> ktype k t = ObjType_VNode_ARM_l2 \<and> ksize k t = 1024 \<and> unat (tb k t) mod 1024 = 0 \<and>
     (unat (tb k t) + 1024 \<le> unat (tb k (l1_page_table st)) \<or> unat (tb k (l1_page_table st)) + 16384 \<le> unat (tb k t)) \<and>
     k_mem k (tb k (l1_page_table st) + 4 * i) = page_table_entry (tb k t)"

definition tables_ok :: "'z kernel_scheme \<Rightarrow> paging_state \<Rightarrow> bool" where
  "tables_ok k st \<longleftrightarrow> l1_ok k st \<and> (\<forall>i t. l2_page_tables st i = Some t \<longrightarrow> l2_ok k st i t) \<and>
     (\<forall>i j t u. l2_page_tables st i = Some t \<longrightarrow> l2_page_tables st j = Some u \<longrightarrow> i \<noteq> j \<longrightarrow> tb k t \<noteq> tb k u)"

lemma tables_okD:
  assumes "tables_ok k st"
  shows "l1_ok k st" "l2_page_tables st i = Some t \<Longrightarrow> l2_ok k st i t"
    "l2_page_tables st i = Some t \<Longrightarrow> l2_page_tables st j = Some u \<Longrightarrow> i \<noteq> j \<Longrightarrow> tb k t \<noteq> tb k u"
  using assms unfolding tables_ok_def by blast+

lemma walk_table:
  assumes "l2_ok k st (ARM_L1_OFFSET va) t"
  shows "vtrans k st va = walk_l2 (k_mem k (tb k t + 4 * ARM_L2_OFFSET va)) va"
  using assms push_drop_aligned [of "tb k t" 10] by (simp add: vtrans_def user_half arm_walk_def l2_ok_def Let_def)

lemma walk_no_table:
  assumes "l1_ok k st" "l2_page_tables st (ARM_L1_OFFSET va) = None"
  shows "vtrans k st va = None"
  using assms by (simp add: vtrans_def user_half arm_walk_def l1_ok_def)

text \<open>The translation of an address is that of its level 2 table, if it has one.\<close>

lemma vtrans_cases:
  assumes "tables_ok k st"
  shows "vtrans k st va = (case l2_page_tables st (ARM_L1_OFFSET va) of None \<Rightarrow> None
    | Some t \<Rightarrow> walk_l2 (k_mem k (tb k t + 4 * ARM_L2_OFFSET va)) va)"
  using walk_table [OF tables_okD(2) [OF assms]] walk_no_table [OF tables_okD(1) [OF assms]]
  by (cases "l2_page_tables st (ARM_L1_OFFSET va)") auto

text \<open>Entries of different tables are different words.\<close>

lemma l1_l2_apart:
  assumes "l1_ok k st" "l2_ok k st i t" "unat x < 4096" "unat y < 256"
  shows "tb k (l1_page_table st) + 4 * x \<noteq> tb k t + 4 * y"
proof
  assume e: "tb k (l1_page_table st) + 4 * x = tb k t + 4 * y"
  have "unat (tb k (l1_page_table st) + 4 * x) = unat (tb k (l1_page_table st)) + 4 * unat x"
    using assms(1,3) by (intro table_address [of _ 16384]) (auto simp: l1_ok_def)
  moreover have "unat (tb k t + 4 * y) = unat (tb k t) + 4 * unat y"
    using assms(2,4) by (intro table_address [of _ 1024]) (auto simp: l2_ok_def)
  ultimately show False using e assms(2-4) by (auto simp: l2_ok_def)
qed

section \<open>What other components leave alone\<close>

definition keeps :: "'z kernel_scheme \<Rightarrow> 'z kernel_scheme \<Rightarrow> bool" where
  "keeps k k' \<longleftrightarrow> (\<forall>p. ktype k p \<noteq> 0 \<longrightarrow> k_ctes k' p = k_ctes k p) \<and>
     (\<forall>p a. type_is_vnode (ktype k p) \<longrightarrow> unat (tb k p) \<le> unat a \<longrightarrow> unat a < unat (tb k p) + unat (ksize k p) \<longrightarrow>
        k_mem k' a = k_mem k a)"

lemma same_slot:
  assumes "k_ctes k' p = k_ctes k p"
  shows "ktype k' p = ktype k p" "tb k' p = tb k p" "ksize k' p = ksize k p" "kaddress k' p = kaddress k p"
  using assms by (simp_all add: ktype_def tb_def ksize_def kaddress_def)

lemma keeps_slot:
  assumes "keeps k k'" "ktype k p \<noteq> 0"
  shows "k_ctes k' p = k_ctes k p" "ktype k' p = ktype k p" "tb k' p = tb k p" "ksize k' p = ksize k p" "kaddress k' p = kaddress k p"
  using assms same_slot [of k' p k] by (auto simp: keeps_def)

lemma keeps_entry:
  assumes "keeps k k'" "type_is_vnode (ktype k p)" "unat (tb k p) mod m = 0" "m dvd 2 ^ 32" "unat (ksize k p) = m" "4 * unat x < m"
  shows "k_mem k' (tb k p + 4 * x) = k_mem k (tb k p + 4 * x)"
  using assms(1,2,5,6) table_address [OF assms(3,4,6)] unfolding keeps_def by simp

lemma vnode_types [simp]: "type_is_vnode ObjType_VNode_ARM_l1" "type_is_vnode ObjType_VNode_ARM_l2"
  by (simp_all add: type_is_vnode_def)

lemma keeps_l1:
  assumes "keeps k k'" "l1_ok k st" "unat i < 4096"
  shows "k_mem k' (tb k (l1_page_table st) + 4 * i) = k_mem k (tb k (l1_page_table st) + 4 * i)"
  using assms by (intro keeps_entry [of k k' _ 16384]) (auto simp: l1_ok_def)

lemma keeps_l2:
  assumes "keeps k k'" "l2_ok k st i t" "unat y < 256"
  shows "k_mem k' (tb k t + 4 * y) = k_mem k (tb k t + 4 * y)"
  using assms by (intro keeps_entry [of k k' _ 1024]) (auto simp: l2_ok_def)

lemma keeps_ok:
  assumes "keeps k k'" "l1_ok k st"
  shows "l1_ok k' st" "l2_ok k st i t \<Longrightarrow> l2_ok k' st i t"
proof -
  note l1 = keeps_slot [OF assms(1), of "l1_page_table st"]
  have nz: "ktype k (l1_page_table st) \<noteq> 0" using assms(2) by (simp add: l1_ok_def)
  show "l1_ok k' st" using assms keeps_l1 [OF assms] l1 nz by (simp add: l1_ok_def)
  assume "l2_ok k st i t"
  then show "l2_ok k' st i t"
    using keeps_slot [OF assms(1), of t] keeps_l1 [OF assms, of i] l1 nz by (simp add: l2_ok_def)
qed

lemma unat_L2_OFFSET: "unat (ARM_L2_OFFSET va) < 256"
  by (simp add: unat_offsets)

lemma keeps_tables:
  assumes "keeps k k'" "tables_ok k st"
  shows "tables_ok k' st" "vtrans k' st = vtrans k st"
proof -
  note ok = tables_okD [OF assms(2)]
  have tb: "tb k' t = tb k t" if "l2_page_tables st i = Some t" for i t
    using ok(2) [OF that] keeps_slot [OF assms(1)] by (simp add: l2_ok_def)
  show tok: "tables_ok k' st"
    unfolding tables_ok_def
  proof (intro conjI allI impI)
    show "l1_ok k' st" by (rule keeps_ok [OF assms(1) ok(1)])
    show "l2_ok k' st i t" if "l2_page_tables st i = Some t" for i t
      by (rule keeps_ok(2) [OF assms(1) ok(1) ok(2) [OF that]])
    show "tb k' t \<noteq> tb k' u" if "l2_page_tables st i = Some t" "l2_page_tables st j = Some u" "i \<noteq> j" for i j t u
      using ok(3) [OF that] tb that(1,2) by simp
  qed
  show "vtrans k' st = vtrans k st"
  proof
    fix va
    show "vtrans k' st va = vtrans k st va"
      unfolding vtrans_cases [OF tok] vtrans_cases [OF assms(2)]
      using tb keeps_l2 [OF assms(1) ok(2) unat_L2_OFFSET]
      by (cases "l2_page_tables st (ARM_L1_OFFSET va)") auto
  qed
qed

section \<open>A mapping in a level 2 table\<close>

text \<open>
  The pages that a level 2 mapping covers, as addresses: \<open>v\<close> is the first address, and \<open>n\<close> pages
  from its entry on fit into its table.
\<close>

lemma page_range_nat:
  fixes p q n :: nat
  assumes "q mod 256 + n \<le> 256"
  shows "q \<le> p \<and> p < q + n \<longleftrightarrow> p div 256 = q div 256 \<and> q mod 256 \<le> p mod 256 \<and> p mod 256 < q mod 256 + n"
  (is "?l \<longleftrightarrow> ?r")
proof
  assume l: ?l
  have "q = 256 * (q div 256) + q mod 256" by simp
  then have b: "256 * (q div 256) \<le> p" "p < 256 * (q div 256) + 256" using l assms by linarith+
  then have d: "p div 256 = q div 256" by (intro div_nat_eqI) simp_all
  have "p = 256 * (p div 256) + p mod 256" by simp
  then show ?r using l d \<open>q = 256 * (q div 256) + q mod 256\<close> by linarith
next
  assume r: ?r
  have "p = 256 * (p div 256) + p mod 256" "q = 256 * (q div 256) + q mod 256" by simp_all
  then show ?l using r by linarith
qed

lemma page_range:
  assumes "unat v mod 4096 = 0" "unat (ARM_L2_OFFSET v) + n \<le> 256"
  shows "unat v \<le> unat va \<and> unat va < unat v + n * 4096 \<longleftrightarrow>
    ARM_L1_OFFSET va = ARM_L1_OFFSET v \<and> unat (ARM_L2_OFFSET v) \<le> unat (ARM_L2_OFFSET va) \<and>
    unat (ARM_L2_OFFSET va) < unat (ARM_L2_OFFSET v) + n"
proof -
  obtain q where q: "unat v = 4096 * q" using assms(1) by (auto simp: mod_eq_0_iff_dvd dvd_def)
  let ?p = "unat va div 4096"
  have "unat v \<le> unat va \<longleftrightarrow> q \<le> ?p" unfolding q by (simp add: less_eq_div_iff_mult_less_eq mult.commute)
  moreover have "unat va < unat v + n * 4096 \<longleftrightarrow> ?p < q + n"
    unfolding q by (simp add: div_less_iff_less_mult algebra_simps)
  moreover have "unat (ARM_L2_OFFSET v) = q mod 256" "unat (ARM_L2_OFFSET va) = ?p mod 256" by (simp_all add: unat_offsets q)
  moreover have "ARM_L1_OFFSET va = ARM_L1_OFFSET v \<longleftrightarrow> ?p div 256 = q div 256"
    unfolding word_unat_eq_iff unat_offsets q by (simp add: div_mult2_eq [symmetric])
  ultimately show ?thesis using page_range_nat [of q n ?p] assms(2) by simp
qed

definition map_range :: "u32 \<Rightarrow> nat \<Rightarrow> u32 \<Rightarrow> u32 \<Rightarrow> (u32 \<Rightarrow> (u32 \<times> u32) option) \<Rightarrow> u32 \<Rightarrow> (u32 \<times> u32) option" where
  "map_range v len pa ap T va =
     (if unat v \<le> unat va \<and> unat va < unat v + len then Some (pa + (va - v), ap) else T va)"

lemma va_parts:
  "unat va = unat (ARM_L1_OFFSET va) * 2 ^ 20 + unat (ARM_L2_OFFSET va) * 4096 + unat (ARM_PAGE_OFFSET va)"
proof -
  define p where "p = unat va div 4096"
  define q r where "q = p div 256" and "r = p mod 256"
  have "unat va = p * 4096 + unat va mod 4096" "p = q * 256 + r" by (simp_all add: p_def q_def r_def)
  moreover have "q = unat va div 2 ^ 20" by (simp add: p_def q_def div_mult2_eq [symmetric])
  moreover have "r = unat va div 2 ^ 12 mod 2 ^ 8" by (simp add: p_def r_def)
  ultimately show ?thesis unfolding unat_offsets by simp
qed

lemma va_minus_page:
  assumes "unat v mod 4096 = 0" "ARM_L1_OFFSET va = ARM_L1_OFFSET v" "unat (ARM_L2_OFFSET v) \<le> unat (ARM_L2_OFFSET va)"
  shows "of_nat (unat (ARM_L2_OFFSET va) - unat (ARM_L2_OFFSET v)) * PAGE_BYTES + ARM_PAGE_OFFSET va = va - v"
proof -
  let ?j = "unat (ARM_L2_OFFSET va) - unat (ARM_L2_OFFSET v)"
  have "unat (ARM_PAGE_OFFSET v) = 0" using assms(1) by (simp add: unat_offsets)
  then have d: "unat va = unat v + ?j * 4096 + unat (ARM_PAGE_OFFSET va)"
    using va_parts [of va] va_parts [of v] assms(2,3) by (simp add: algebra_simps)
  define j where "j = ?j"
  have "va = of_nat (unat v + j * 4096 + unat (ARM_PAGE_OFFSET va))" unfolding j_def d [symmetric] by simp
  then show ?thesis unfolding j_def [symmetric] by (simp add: algebra_simps)
qed

text \<open>The words that a mapping writes into a table.\<close>

lemma index_word: "unat (slot :: u32) + n \<le> 256 \<Longrightarrow> j < n \<Longrightarrow> unat (slot + of_nat j) = unat slot + j"
  using unat_plus_less [of slot "of_nat j"] by (simp add: unat_of_nat_less)

lemma fill_table_other:
  assumes "unat slot + n \<le> 256" "\<And>y. unat y < 256 \<Longrightarrow> unat slot \<le> unat y \<Longrightarrow> unat y < unat slot + n \<Longrightarrow> a \<noteq> b + 4 * y"
  shows "fill_entries f mem (b + 4 * slot) 0 n a = mem a"
proof (rule fill_entries_other)
  fix j assume j: "j < n"
  have "b + 4 * slot + 4 * of_nat j = b + 4 * (slot + of_nat j)" by (simp add: algebra_simps)
  then show "a \<noteq> b + 4 * slot + 4 * of_nat j"
    using assms(2) [of "slot + of_nat j"] index_word [OF assms(1) j] assms(1) j by (simp add: add.assoc)
qed

lemma fill_table_at:
  assumes "unat slot + n \<le> 256" "unat slot \<le> unat y" "unat y < unat slot + n"
  shows "fill_entries f mem (b + 4 * slot) 0 n (b + 4 * y) = f (unat y - unat slot)"
proof -
  let ?j = "unat y - unat slot"
  have "unat (slot + of_nat ?j) = unat y" using index_word [OF assms(1), of ?j] assms by simp
  then have y: "y = slot + of_nat ?j" by (simp add: word_unat_eq_iff)
  have "b + 4 * y = b + 4 * slot + 4 * of_nat ?j" by (subst y) (simp add: algebra_simps)
  then show ?thesis using fill_entries_at [of ?j n f mem "b + 4 * slot" 0] assms by simp
qed

lemma mapped_slot:
  assumes "mapped k t slot src off n m f k'" "ktype k m = 0" "ktype k p \<noteq> 0"
  shows "k_ctes k' p = k_ctes k p"
  using assms by (auto simp: mapped_def)

lemma mapped_mem: "mapped k t slot src off n m f k' \<Longrightarrow> k_mem k' = fill_entries f (k_mem k) (tb k t + 4 * slot) 0 n"
  by (simp add: mapped_def tb_def)

text \<open>Changing entries of one level 2 table keeps the structure of the tables.\<close>

lemma tables_ok_mem:
  assumes "tables_ok k st" "\<And>p. ktype k p \<noteq> 0 \<Longrightarrow> k_ctes k' p = k_ctes k p"
    "\<And>i. unat i < 4096 \<Longrightarrow> k_mem k' (tb k (l1_page_table st) + 4 * i) = k_mem k (tb k (l1_page_table st) + 4 * i)"
  shows "tables_ok k' st"
proof -
  note ok = tables_okD [OF assms(1)]
  note l1 = same_slot [OF assms(2), of "l1_page_table st"]
  have nz: "ktype k (l1_page_table st) \<noteq> 0" using ok(1) by (simp add: l1_ok_def)
  have tb: "tb k' t = tb k t" if "l2_page_tables st i = Some t" for i t
    using ok(2) [OF that] same_slot [OF assms(2)] by (simp add: l2_ok_def)
  have "l1_ok k' st" using ok(1) assms(3) l1 nz by (simp add: l1_ok_def)
  moreover have "l2_ok k' st i t" if "l2_page_tables st i = Some t" for i t
    using ok(2) [OF that] assms(3) [of i] l1 nz same_slot [OF assms(2), of t] by (simp add: l2_ok_def)
  ultimately show ?thesis unfolding tables_ok_def using ok(3) tb by metis
qed

lemma fill_pages_trans:
  assumes "tables_ok k st" "l2_page_tables st (ARM_L1_OFFSET v) = Some t" "\<And>p. ktype k p \<noteq> 0 \<Longrightarrow> k_ctes k' p = k_ctes k p"
    "k_mem k' = fill_entries f (k_mem k) (tb k t + 4 * ARM_L2_OFFSET v) 0 n"
    "unat v mod 4096 = 0" "unat (ARM_L2_OFFSET v) + n \<le> 256"
  shows "tables_ok k' st"
    "vtrans k' st va = (if unat v \<le> unat va \<and> unat va < unat v + n * 4096
      then walk_l2 (f (unat (ARM_L2_OFFSET va) - unat (ARM_L2_OFFSET v))) va else vtrans k st va)"
proof -
  let ?i = "ARM_L1_OFFSET va" and ?y = "ARM_L2_OFFSET va"
  note ok = tables_okD [OF assms(1)] and mem = assms(4)
  have l2t: "l2_ok k st (ARM_L1_OFFSET v) t" by (rule ok(2) [OF assms(2)])
  show tok: "tables_ok k' st"
    using tables_ok_mem [OF assms(1,3)] mem fill_table_other [OF assms(6)] l1_l2_apart [OF ok(1) l2t] by simp
  have tb: "tb k' u = tb k u" if "l2_page_tables st i = Some u" for i u
    using ok(2) [OF that] same_slot [OF assms(3)] by (simp add: l2_ok_def)
  show "vtrans k' st va = (if unat v \<le> unat va \<and> unat va < unat v + n * 4096
      then walk_l2 (f (unat ?y - unat (ARM_L2_OFFSET v))) va else vtrans k st va)"
  proof (cases "unat v \<le> unat va \<and> unat va < unat v + n * 4096")
    case True
    then have r: "?i = ARM_L1_OFFSET v" "unat (ARM_L2_OFFSET v) \<le> unat ?y" "unat ?y < unat (ARM_L2_OFFSET v) + n"
      using page_range [OF assms(5,6)] by simp_all
    then show ?thesis
      using True vtrans_cases [OF tok, of va] assms(2) tb mem fill_table_at [OF assms(6) r(2,3)] by simp
  next
    case False
    then have r: "\<not> (?i = ARM_L1_OFFSET v \<and> unat (ARM_L2_OFFSET v) \<le> unat ?y \<and> unat ?y < unat (ARM_L2_OFFSET v) + n)"
      using page_range [OF assms(5,6)] by simp
    have "k_mem k' (tb k u + 4 * ?y) = k_mem k (tb k u + 4 * ?y)" if u: "l2_page_tables st ?i = Some u" for u
      unfolding mem
    proof (rule fill_table_other [OF assms(6)])
      fix y :: u32 assume y: "unat y < 256" "unat (ARM_L2_OFFSET v) \<le> unat y" "unat y < unat (ARM_L2_OFFSET v) + n"
      show "tb k u + 4 * ?y \<noteq> tb k t + 4 * y"
      proof (cases "?i = ARM_L1_OFFSET v")
        case True
        then have "u = t" "?y \<noteq> y" using u assms(2) r y by auto
        then show ?thesis
          using table_address_inj [of "tb k t" 1024 ?y y] l2t unat_L2_OFFSET [of va] y(1) by (auto simp: l2_ok_def)
      next
        case False
        then show ?thesis
          using table_disjoint [of "tb k u" 1024 "tb k t" ?y y] ok(3) [OF u assms(2) False] ok(2) [OF u] l2t
            unat_L2_OFFSET [of va] y(1) by (simp add: l2_ok_def)
      qed
    qed
    then show ?thesis
      using False vtrans_cases [OF tok, of va] vtrans_cases [OF assms(1), of va] tb
      by (cases "l2_page_tables st ?i") auto
  qed
qed

lemma map_pages_trans:
  assumes "tables_ok k st" "l2_page_tables st (ARM_L1_OFFSET v) = Some t" "ktype k m = 0"
    "mapped k t (ARM_L2_OFFSET v) src off n m (\<lambda>i. small_page_entry flags (pa + of_nat i * PAGE_BYTES)) k'"
    "unat v mod 4096 = 0" "unat (ARM_L2_OFFSET v) + n \<le> 256" "unat pa mod 4096 = 0"
  shows "tables_ok k' st" "vtrans k' st = map_range v (n * 4096) pa (kpi_ap10 flags) (vtrans k st)"
proof -
  note t = fill_pages_trans [OF assms(1,2) mapped_slot [OF assms(4,3)] mapped_mem [OF assms(4)] assms(5,6)]
  show "tables_ok k' st" by (rule t(1))
  have "walk_l2 (small_page_entry flags (pa + of_nat (unat (ARM_L2_OFFSET va) - unat (ARM_L2_OFFSET v)) * PAGE_BYTES)) va =
      Some (pa + (va - v), kpi_ap10 flags)"
    if "unat v \<le> unat va \<and> unat va < unat v + n * 4096" for va
  proof -
    let ?j = "unat (ARM_L2_OFFSET va) - unat (ARM_L2_OFFSET v)"
    have r: "ARM_L1_OFFSET va = ARM_L1_OFFSET v" "unat (ARM_L2_OFFSET v) \<le> unat (ARM_L2_OFFSET va)"
      using page_range [OF assms(5,6)] that by simp_all
    have "unat (pa + of_nat ?j * PAGE_BYTES) mod 2 ^ 12 = 0"
      using assms(7) mod_mod_cancel [of 4096 "2 ^ 32" "unat pa + ?j * 4096"]
      by (simp add: unat_word_ariths unat_of_nat mod_simps)
    from walk_l2_small_page [OF this] show ?thesis using va_minus_page [OF assms(5) r] by (simp add: add.assoc)
  qed
  then show "vtrans k' st = map_range v (n * 4096) pa (kpi_ap10 flags) (vtrans k st)"
    by (intro ext) (simp add: map_range_def t(2))
qed

section \<open>Installing a level 2 table\<close>

lemma walk_l2_zero [simp]: "walk_l2 0 va = None"
  by (simp add: walk_l2_def L2_TYPE_def)

definition table_apart :: "'z kernel_scheme \<Rightarrow> u32 \<Rightarrow> u32 \<Rightarrow> bool" where
  "table_apart k s p \<longleftrightarrow> unat (tb k s) + 1024 \<le> unat (tb k p) \<or> unat (tb k p) + unat (ksize k p) \<le> unat (tb k s)"

lemma install_table:
  assumes "tables_ok k st" "l2_page_tables st i = None" "unat i < 2048"
    "ktype k s = ObjType_VNode_ARM_l2" "ksize k s = 1024" "unat (tb k s) mod 1024 = 0"
    "\<And>y. unat y < 256 \<Longrightarrow> k_mem k (tb k s + 4 * y) = 0"
    "table_apart k s (l1_page_table st)" "\<And>j u. l2_page_tables st j = Some u \<Longrightarrow> table_apart k s u"
    "ktype k m = 0" "mapped k (l1_page_table st) i s 0 1 m (\<lambda>i. page_table_entry (tb k s + of_nat i * ARM_L2_TABLE_BYTES)) k'"
  shows "tables_ok k' (st\<lparr>l2_page_tables := (l2_page_tables st)(i \<mapsto> s)\<rparr>)"
    "vtrans k' (st\<lparr>l2_page_tables := (l2_page_tables st)(i \<mapsto> s)\<rparr>) = vtrans k st"
proof -
  let ?B = "tb k (l1_page_table st)" and ?st = "st\<lparr>l2_page_tables := (l2_page_tables st)(i \<mapsto> s)\<rparr>"
  note ok = tables_okD [OF assms(1)]
  note slots = mapped_slot [OF assms(11,10)]
  have l1: "ktype k (l1_page_table st) \<noteq> 0" using ok(1) by (simp add: l1_ok_def)
  note B = same_slot [OF slots, OF l1] and S = same_slot [OF slots, of s]
  have mem: "k_mem k' = (k_mem k)(?B + 4 * i := page_table_entry (tb k s))" using mapped_mem [OF assms(11)] by simp
  have other: "k_mem k' (?B + 4 * j) = k_mem k (?B + 4 * j)" if "unat j < 4096" "j \<noteq> i" for j
    using table_address_inj [of ?B 16384 j i] ok(1) that assms(3) by (auto simp: mem l1_ok_def)
  have new: "l2_ok k' ?st i s"
    using assms(3-6,8) B S ok(1) by (simp add: l2_ok_def mem table_apart_def l1_ok_def)
  have old: "l2_ok k' ?st j u" "tb k' u = tb k u" "tb k u \<noteq> tb k s" if u: "l2_page_tables st j = Some u" for j u
  proof -
    note o = ok(2) [OF u]
    have "j \<noteq> i" "unat j < 4096" using u assms(2) o by (auto simp: l2_ok_def)
    then show "l2_ok k' ?st j u" "tb k' u = tb k u"
      using o other B same_slot [OF slots, of u] by (simp_all add: l2_ok_def)
    show "tb k u \<noteq> tb k s" using assms(9) [OF u] o by (auto simp: table_apart_def l2_ok_def)
  qed
  have "l1_ok k' ?st" using ok(1) B other by (simp add: l1_ok_def)
  then show tok: "tables_ok k' ?st"
    unfolding tables_ok_def using new old(1,2) old(3) [symmetric] old(3) ok(3) S assms(4)
    by (auto split: if_splits)
  show "vtrans k' ?st = vtrans k st"
  proof
    fix va
    let ?y = "ARM_L2_OFFSET va"
    have same: "k_mem k' (tb k u + 4 * ?y) = k_mem k (tb k u + 4 * ?y)" if u: "l2_page_tables st j = Some u" for j u
      using l1_l2_apart [OF ok(1) ok(2) [OF u], of i ?y] assms(3) unat_L2_OFFSET [of va] by (simp add: mem)
    have "k_mem k' (tb k s + 4 * ?y) = 0"
    proof -
      have "tb k s + 4 * ?y \<noteq> ?B + 4 * i"
        using table_address [of "tb k s" 1024 ?y] table_address [of ?B 16384 i] ok(1) assms(3,6,8) unat_L2_OFFSET [of va]
        by (auto simp: l1_ok_def table_apart_def word_unat_eq_iff)
      then show ?thesis using assms(7) [OF unat_L2_OFFSET] by (simp add: mem)
    qed
    then show "vtrans k' ?st va = vtrans k st va"
      unfolding vtrans_cases [OF tok] vtrans_cases [OF assms(1)]
      using S assms(2,4) same old(2)
      by (cases "l2_page_tables st (ARM_L1_OFFSET va)") auto
  qed
qed

section \<open>The environment\<close>

text \<open>
  What the paging code relies on. \<open>ready n k\<close> says that \<open>n\<close> more requests can be served, and
  \<open>fresh k s\<close> that the slot \<open>s\<close> has been handed out: the slot allocator returns empty slots,
  \<open>vnode_create\<close> fills an empty slot with a table of zeroes that overlaps no other table, both leave
  existing capabilities and tables alone and do not call the paging code again, and filling a
  slot that was handed out with a mapping does not affect what is still to come.
\<close>

definition new_table :: "'z kernel_scheme \<Rightarrow> u32 \<Rightarrow> 'z kernel_scheme \<Rightarrow> bool" where
  "new_table k s k' \<longleftrightarrow> keeps k k' \<and> ktype k' s = ObjType_VNode_ARM_l2 \<and> ksize k' s = 1024 \<and> unat (tb k' s) mod 1024 = 0 \<and>
     (\<forall>y. unat y < 256 \<longrightarrow> k_mem k' (tb k' s + 4 * y) = 0) \<and>
     (\<forall>p. type_is_vnode (ktype k p) \<longrightarrow> table_apart k' s p)"

definition supply_ok ::
    "'z kernel_scheme vs_env \<Rightarrow> (nat \<Rightarrow> 'z kernel_scheme \<Rightarrow> bool) \<Rightarrow> ('z kernel_scheme \<Rightarrow> u32 \<Rightarrow> bool) \<Rightarrow> bool" where
  "supply_ok env ready fresh \<longleftrightarrow>
     (\<forall>n k. ready n k \<longrightarrow> mdb_wf (kpreds (k_ctes k)) (k_mdb k)) \<and>
     (\<forall>n k. ready (Suc n) k \<longrightarrow> ready n k) \<and>
     (\<forall>n k st. ready (Suc n) k \<longrightarrow> (\<exists>s k'. vs_slot_alloc env k st = Ok (s, k', st) \<and> fresh k' s \<and>
        ktype k' s = 0 \<and> keeps k k' \<and> ready n k')) \<and>
     (\<forall>n k st s. ready (Suc n) k \<longrightarrow> fresh k s \<longrightarrow> ktype k s = 0 \<longrightarrow>
        (\<exists>k'. vs_vnode_create env s k st = Ok (k', st) \<and> new_table k s k' \<and> ready n k')) \<and>
     (\<forall>n k s x mem t. ready n k \<longrightarrow> fresh k s \<longrightarrow> ktype k s = 0 \<longrightarrow> type_is_mapping (cap_type x) \<longrightarrow>
        mdb_wf (kpreds ((k_ctes k)(s := x))) t \<longrightarrow>
        ready n (k\<lparr>k_mem := mem, k_ctes := (k_ctes k)(s := x), k_mdb := t\<rparr>))"

lemma supply_okD:
  assumes "supply_ok env ready fresh"
  shows "ready n k \<Longrightarrow> mdb_wf (kpreds (k_ctes k)) (k_mdb k)"
    "ready (Suc n) k \<Longrightarrow> \<exists>s k'. vs_slot_alloc env k st = Ok (s, k', st) \<and> fresh k' s \<and> ktype k' s = 0 \<and> keeps k k' \<and> ready n k'"
    "ready (Suc n) k \<Longrightarrow> fresh k s \<Longrightarrow> ktype k s = 0 \<Longrightarrow>
      \<exists>k'. vs_vnode_create env s k st = Ok (k', st) \<and> new_table k s k' \<and> ready n k'"
    "ready (Suc n) k \<Longrightarrow> ready n k"
  using assms unfolding supply_ok_def by blast+

lemma supply_mapped:
  assumes "supply_ok env ready fresh" "ready n k" "fresh k m" "ktype k m = 0" "mapped k t slot src off c m f k'"
    "ktype k src \<in> {8, 10, 27, 29}"
  shows "ready n k'"
proof -
  let ?x = "mapping_cap k src (tb k t + 4 * slot) off c"
  have "k' = k\<lparr>k_mem := k_mem k', k_ctes := (k_ctes k)(m := ?x), k_mdb := k_mdb k'\<rparr>"
    using assms(5) by (cases k'; cases k) (simp add: mapped_def tb_def)
  moreover have "type_is_mapping (cap_type ?x)" using mapping_type [OF assms(6)] by (simp add: mapping_cap_def)
  moreover have "k_ctes k' = (k_ctes k)(m := ?x)" "mdb_wf (kpreds (k_ctes k')) (k_mdb k')"
    using assms(5) unfolding mapped_def tb_def by blast+
  then have "mdb_wf (kpreds ((k_ctes k)(m := ?x))) (k_mdb k')" by simp
  ultimately show ?thesis using assms(1-4) unfolding supply_ok_def by metis
qed

lemma ready_mono: "supply_ok env ready fresh \<Longrightarrow> ready (m + n) k \<Longrightarrow> ready n k"
  by (induction m) (auto dest: supply_okD(4))

section \<open>One round of the mapping loop\<close>

definition caps_kept :: "'z kernel_scheme \<Rightarrow> 'z kernel_scheme \<Rightarrow> bool" where
  "caps_kept k k' \<longleftrightarrow> (\<forall>p. ktype k p \<noteq> 0 \<longrightarrow> k_ctes k' p = k_ctes k p)"

definition more_tables :: "paging_state \<Rightarrow> paging_state \<Rightarrow> bool" where
  "more_tables st st' \<longleftrightarrow> st' = st\<lparr>l2_page_tables := l2_page_tables st'\<rparr> \<and>
     (\<forall>i t. l2_page_tables st i = Some t \<longrightarrow> l2_page_tables st' i = Some t)"

lemma caps_kept_trans [trans]:
  assumes "caps_kept k k1" "caps_kept k1 k2" shows "caps_kept k k2"
  using assms by (auto simp: caps_kept_def ktype_def)

lemma caps_kept_refl [simp]: "caps_kept k k" by (simp add: caps_kept_def)

lemma keeps_caps: "keeps k k' \<Longrightarrow> caps_kept k k'" by (simp add: keeps_def caps_kept_def)

lemma mapped_caps: "mapped k t slot src off n m f k' \<Longrightarrow> ktype k m = 0 \<Longrightarrow> caps_kept k k'"
  using mapped_slot by (auto simp: caps_kept_def)

lemma caps_kept_slot:
  assumes "caps_kept k k'" "ktype k p \<noteq> 0"
  shows "k_ctes k' p = k_ctes k p" "ktype k' p = ktype k p" "tb k' p = tb k p" "ksize k' p = ksize k p" "kaddress k' p = kaddress k p"
  using assms same_slot [of k' p k] by (auto simp: caps_kept_def)

lemma more_tables_refl [simp]: "more_tables st st" by (simp add: more_tables_def)

lemma new_table_later:
  assumes "new_table ka s kb" "keeps kb kc"
  shows "ktype kc s = ObjType_VNode_ARM_l2" "ksize kc s = 1024" "unat (tb kc s) mod 1024 = 0"
    "unat y < 256 \<Longrightarrow> k_mem kc (tb kc s + 4 * y) = 0" "type_is_vnode (ktype ka p) \<Longrightarrow> table_apart kc s p"
proof -
  note S = keeps_slot [OF assms(2), of s]
  show "ktype kc s = ObjType_VNode_ARM_l2" "ksize kc s = 1024" "unat (tb kc s) mod 1024 = 0"
    using assms(1) S by (simp_all add: new_table_def)
  show "k_mem kc (tb kc s + 4 * y) = 0" if "unat y < 256"
    using keeps_entry [OF assms(2), of s 1024 y] assms(1) S that by (simp add: new_table_def)
  assume p: "type_is_vnode (ktype ka p)"
  then have "ktype ka p \<noteq> 0" by (auto simp: type_is_vnode_def)
  then have "ktype kb p \<noteq> 0" using keeps_slot [of ka kb p] assms(1) by (simp add: new_table_def)
  then show "table_apart kc s p" using assms(1) p S keeps_slot [OF assms(2), of p] by (simp add: new_table_def table_apart_def)
qed

lemma l2_table_ok:
  assumes sup: "supply_ok env ready fresh" and rdy: "ready (3 + n) k" and tok: "tables_ok k st" and i: "unat i < 2048"
  shows "\<exists>t k' st'. l2_table env k st i = Ok (t, k', st') \<and> ready n k' \<and> tables_ok k' st' \<and> vtrans k' st' = vtrans k st \<and>
    l2_page_tables st' i = Some t \<and> caps_kept k k' \<and> more_tables st st'"
proof (cases "l2_page_tables st i")
  case (Some t)
  then show ?thesis using ready_mono [OF sup rdy] tok by (simp add: l2_table_def)
next
  case None
  obtain s ka where a: "vs_slot_alloc env k st = Ok (s, ka, st)" "fresh ka s" "ktype ka s = 0" "keeps k ka" "ready (2 + n) ka"
    using supply_okD(2) [OF sup, of "2 + n" k st] rdy by (auto simp: numeral_3_eq_3)
  obtain kb where b: "vs_vnode_create env s ka st = Ok (kb, st)" "new_table ka s kb" "ready (1 + n) kb"
    using supply_okD(3) [OF sup _ a(2,3), of "1 + n" st] a(5) by auto
  obtain m kc where c: "vs_slot_alloc env kb st = Ok (m, kc, st)" "fresh kc m" "ktype kc m = 0" "keeps kb kc" "ready n kc"
    using supply_okD(2) [OF sup, of n kb st] b(3) by auto
  have kab: "keeps ka kb" using b(2) by (simp add: new_table_def)
  have toka: "tables_ok ka st" "vtrans ka st = vtrans k st" by (rule keeps_tables [OF a(4) tok])+
  have tokc: "tables_ok kc st" "vtrans kc st = vtrans ka st"
    using keeps_tables [OF kab toka(1)] keeps_tables [OF c(4)] by simp_all
  note s = new_table_later [OF b(2) c(4)]
  have l1: "table_apart kc s (l1_page_table st)"
    using s(5) tables_okD(1) [OF toka(1)] by (simp add: l1_ok_def)
  have l2: "table_apart kc s u" if "l2_page_tables st j = Some u" for j u
    using s(5) tables_okD(2) [OF toka(1) that] by (simp add: l2_ok_def)
  have "ktype kc (l1_page_table st) = ObjType_VNode_ARM_l1" using tables_okD(1) [OF tokc(1)] by (simp add: l1_ok_def)
  moreover have "unat (tb kc s) < unat (tb kc (l1_page_table st)) \<or> unat (tb kc (l1_page_table st) + 16384) \<le> unat (tb kc s)"
    using l1 tables_okD(1) [OF tokc(1)] unat_plus_less [of "tb kc (l1_page_table st)" 16384] unat_exp_less [of "tb kc s"]
    by (auto simp: l1_ok_def table_apart_def)
  ultimately obtain kd where d: "vnode_map kc (l1_page_table st) s i VREGION_FLAGS_READ_WRITE 0 1 m = Ok kd"
    "mapped kc (l1_page_table st) i s 0 1 m (\<lambda>i. page_table_entry (tb kc s + of_nat i * ARM_L2_TABLE_BYTES)) kd"
    using map_l1_ok [OF supply_okD(1) [OF sup c(5)] c(3), of "l1_page_table st" s i VREGION_FLAGS_READ_WRITE] s(1-3) i
    by (auto simp: tb_def)
  let ?st = "st\<lparr>l2_page_tables := (l2_page_tables st)(i \<mapsto> s)\<rparr>"
  have "l2_table env k st i = Ok (s, kd, ?st)"
    using None a(1) b(1) c(1) d(1) by (simp add: l2_table_def arml2_alloc_def vs_check_def)
  moreover have "ready n kd" using supply_mapped [OF sup c(5) c(2,3) d(2)] s(1) by simp
  moreover have "tables_ok kd ?st" "vtrans kd ?st = vtrans k st"
    using install_table [OF tokc(1) None i s(1-4) l1 l2 c(3) d(2)] tokc(2) toka(2) by simp_all
  moreover have "caps_kept k kd"
    using caps_kept_trans [OF keeps_caps [OF a(4)] keeps_caps [OF kab]] keeps_caps [OF c(4)] mapped_caps [OF d(2) c(3)]
      caps_kept_trans by blast
  moreover have "more_tables st ?st" using None by (auto simp: more_tables_def)
  ultimately show ?thesis by (intro exI [of _ s] exI [of _ kd] exI [of _ ?st]) simp
qed

end
