(* ===== verification/Vspace_Frames.thy ===== *)
theory Vspace_Frames
  imports Vspace_Map "HOL-Library.Multiset"
begin

text \<open>
  Mapping a frame: the loop over the level 2 tables. Each round maps the part of the frame
  that lies in one window of a megabyte, records the mapping in a node of the region, and
  the rounds together cover the region.
\<close>

section \<open>Windows\<close>

definition windows :: "nat \<Rightarrow> nat \<Rightarrow> nat" where
  "windows v b = (if b = 0 then 0 else (v + b - 1) div 2 ^ 20 - v div 2 ^ 20 + 1)"

lemma window_rest:
  fixes v :: nat assumes "v mod 4096 = 0"
  shows "(256 - v div 4096 mod 256) * 4096 = 2 ^ 20 - v mod 2 ^ 20"
proof -
  obtain q where q: "v = 4096 * q" using assms by (auto simp: mod_eq_0_iff_dvd dvd_def)
  define r where "r = q mod 256"
  have "v mod 2 ^ 20 = r * 4096" unfolding q r_def using mult_mod_right [of 4096 q 256] by simp
  moreover have "v div 4096 mod 256 = r" by (simp add: q r_def)
  ultimately show ?thesis by (simp add: diff_mult_distrib)
qed

lemma windows_step:
  assumes "0 < b" "s = min b (2 ^ 20 - v mod 2 ^ 20)"
  shows "Suc (windows (v + s) (b - s)) = windows v b"
proof (cases "b \<le> 2 ^ 20 - v mod 2 ^ 20")
  case True
  define w :: nat where "w = 2 ^ 20"
  have w: "0 < w" "v mod w < w" by (simp_all add: w_def)
  have "v mod w + b \<le> w" using True w unfolding w_def by linarith
  moreover have "v = w * (v div w) + v mod w" by simp
  ultimately have "w * (v div w) \<le> v + b - 1" "v + b - 1 < w * (v div w) + w" using assms(1) by linarith+
  then have "(v + b - 1) div w = v div w" by (intro div_nat_eqI) simp_all
  then show ?thesis using True assms by (simp add: windows_def w_def)
next
  case False
  define w :: nat where "w = 2 ^ 20"
  have w: "0 < w" "v mod w < w" by (simp_all add: w_def)
  have s: "s = w - v mod w" "s < b" using False assms(2) by (simp_all add: w_def)
  have v: "v = w * (v div w) + v mod w" by simp
  then have "v + s = w * (v div w) + w" using s(1) w(2) by linarith
  then have vs: "v + s = w * (v div w + 1)" by simp
  then have d: "(v + s) div w = v div w + 1" using w(1) by simp
  have "w * (v div w + 1) \<le> v + b - 1" using vs s(2) by linarith
  then have "v div w + 1 \<le> (v + b - 1) div w" using w(1) by (simp add: less_eq_div_iff_mult_less_eq mult.commute)
  moreover have "v + s + (b - s) - 1 = v + b - 1" using s(2) by simp
  ultimately show ?thesis using s(2) assms(1) d by (simp add: windows_def w_def Suc_diff_Suc Suc_le_eq)
qed

lemma piece_ok:
  assumes "unat v mod 4096 = 0" "unat bytes mod 4096 = 0" "bytes \<noteq> 0"
  defines "sz \<equiv> piece_size v bytes"
  shows "unat sz = unat (sz div PAGE_BYTES) * 4096" "0 < unat (sz div PAGE_BYTES)"
    "unat (ARM_L2_OFFSET v) + unat (sz div PAGE_BYTES) \<le> 256" "unat sz \<le> unat bytes"
    "unat (bytes - sz) = unat bytes - unat sz" "unat (bytes - sz) mod 4096 = 0"
    "Suc (windows (unat v + unat sz) (unat bytes - unat sz)) = windows (unat v) (unat bytes)"
proof -
  have l: "unat (ARM_L2_OFFSET v) < 256" by (rule unat_L2_OFFSET)
  have b: "0 < unat bytes" using assms(3) by (simp add: unat_gt_0)
  have s: "unat sz = min (unat bytes) ((256 - unat (ARM_L2_OFFSET v)) * 4096)" by (simp add: sz_def unat_piece_size)
  then have m: "unat sz mod 4096 = 0" using assms(2) by (simp add: min_def)
  have d: "unat (sz div PAGE_BYTES) = unat sz div 4096" by (simp add: unat_div_distrib)
  show e: "unat sz = unat (sz div PAGE_BYTES) * 4096" unfolding d using m by (metis div_mult_mod_eq add.right_neutral)
  have "0 < unat sz" using s b l by simp
  then show "0 < unat (sz div PAGE_BYTES)" using e by (cases "unat (sz div PAGE_BYTES)") auto
  have "unat (sz div PAGE_BYTES) * 4096 \<le> (256 - unat (ARM_L2_OFFSET v)) * 4096" unfolding e [symmetric] s by simp
  then have "unat (sz div PAGE_BYTES) \<le> 256 - unat (ARM_L2_OFFSET v)" by simp
  then show "unat (ARM_L2_OFFSET v) + unat (sz div PAGE_BYTES) \<le> 256" using l by linarith
  show le: "unat sz \<le> unat bytes" by (simp add: s)
  then show r: "unat (bytes - sz) = unat bytes - unat sz" using unat_minus_le [of sz bytes] by (simp add: word_le_nat_alt)
  have "(4096 :: nat) dvd unat bytes - unat sz" using assms(2) m by (intro dvd_diff_nat) (simp_all add: mod_eq_0_iff_dvd)
  then show "unat (bytes - sz) mod 4096 = 0" unfolding r by (simp add: mod_eq_0_iff_dvd)
  have "unat sz = min (unat bytes) (2 ^ 20 - unat v mod 2 ^ 20)"
    unfolding s unat_offsets using window_rest [OF assms(1)] by simp
  then show "Suc (windows (unat v + unat sz) (unat bytes - unat sz)) = windows (unat v) (unat bytes)"
    using windows_step [OF b] by blast
qed

section \<open>One piece\<close>

text \<open>
  What the node of a piece says: the table of the piece, and the mapping capability, whose
  entries are the pages of the piece.
\<close>

definition piece_of :: "'z kernel_scheme \<Rightarrow> paging_state \<Rightarrow> u32 \<Rightarrow> u32 \<Rightarrow> u32 \<Rightarrow> bool" where
  "piece_of k st v t m \<longleftrightarrow> unat v mod 4096 = 0 \<and> l2_page_tables st (ARM_L1_OFFSET v) = Some t \<and>
     type_is_mapping (ktype k m) \<and> fm_pte (k_ctes k m) = tb k t + 4 * ARM_L2_OFFSET v \<and>
     unat (ARM_L2_OFFSET v) + unat (fm_pte_count (k_ctes k m)) \<le> 256"

definition piece_len :: "'z kernel_scheme \<Rightarrow> u32 \<Rightarrow> nat" where
  "piece_len k m = unat (fm_pte_count (k_ctes k m)) * 4096"

definition frame_ok :: "'z kernel_scheme \<Rightarrow> u32 \<Rightarrow> nat \<Rightarrow> bool" where
  "frame_ok k frame b \<longleftrightarrow> ktype k frame \<in> {ObjType_Frame, ObjType_DevFrame} \<and> unat (kaddress k frame) mod 4096 = 0 \<and>
     b \<le> unat (ksize k frame) \<and> b < 2 ^ 32"

lemma frame_ok_kept: "frame_ok k frame b \<Longrightarrow> caps_kept k k' \<Longrightarrow> frame_ok k' frame b \<and> tb k' frame = tb k frame"
  using caps_kept_slot [of k k' frame] by (auto simp: frame_ok_def)

lemma tb_aligned: "unat (kaddress k f) mod 4096 = 0 \<Longrightarrow> unat (tb k f) mod 4096 = 0"
  using mod_mod_cancel [of 4096 "2 ^ 32" "unat (kaddress k f)"] by (simp add: tb_def unat_ucast_32)

lemma aligned_add: "unat a mod 4096 = 0 \<Longrightarrow> unat b mod 4096 = 0 \<Longrightarrow> unat (a + b :: u32) mod 4096 = 0"
  using mod_mod_cancel [of 4096 "2 ^ 32" "unat a + unat b"] by (simp add: unat_word_ariths mod_eq_0_iff_dvd)

lemma map_piece_ok:
  assumes sup: "supply_ok env ready fresh" and rdy: "ready (4 + n) k" and tok: "tables_ok k st"
    and frame: "frame_ok k frame (unat done_bytes + unat bytes)" "unat done_bytes mod 4096 = 0"
    and flags: "flags AND NOT KPI_PAGING_FLAGS_MASK = 0"
    and v: "unat v mod 4096 = 0" "unat bytes mod 4096 = 0" "bytes \<noteq> 0" "v < MEMORY_OFFSET" "vtrans k st v = None"
  defines "sz \<equiv> piece_size v bytes"
  shows "\<exists>t m k' st'. map_piece env k st v frame done_bytes bytes flags = Ok (t, m, k', st') \<and> ready n k' \<and>
    tables_ok k' st' \<and> vtrans k' st' = map_range v (unat sz) (tb k frame + done_bytes) (kpi_ap10 flags) (vtrans k st) \<and>
    caps_kept k k' \<and> more_tables st st' \<and> piece_of k' st' v t m \<and> piece_len k' m = unat sz"
proof -
  let ?n = "unat (sz div PAGE_BYTES)"
  note p = piece_ok [OF v(1-3), folded sz_def]
  have i: "unat (ARM_L1_OFFSET v) < 2048" using v(4) by (simp add: user_half)
  have "ready (3 + (1 + n)) k" using rdy by (simp add: numeral_eq_Suc)
  then obtain t ka sta where a: "l2_table env k st (ARM_L1_OFFSET v) = Ok (t, ka, sta)" "ready (1 + n) ka" "tables_ok ka sta"
    "vtrans ka sta = vtrans k st" "l2_page_tables sta (ARM_L1_OFFSET v) = Some t" "caps_kept k ka" "more_tables st sta"
    using l2_table_ok [OF sup _ tok i, of "1 + n"] by blast
  obtain m kb where b: "vs_slot_alloc env ka sta = Ok (m, kb, sta)" "fresh kb m" "ktype kb m = 0" "keeps ka kb" "ready n kb"
    using supply_okD(2) [OF sup, of n ka sta] a(2) by auto
  have tokb: "tables_ok kb sta" "vtrans kb sta = vtrans k st" using keeps_tables [OF b(4) a(3)] a(4) by simp_all
  have kept: "caps_kept k kb" by (rule caps_kept_trans [OF a(6) keeps_caps [OF b(4)]])
  have l2: "l2_ok kb sta (ARM_L1_OFFSET v) t" by (rule tables_okD(2) [OF tokb(1) a(5)])
  then have t: "ktype kb t = ObjType_VNode_ARM_l2" by (simp add: l2_ok_def)
  have f: "frame_ok kb frame (unat done_bytes + unat bytes)" "tb kb frame = tb k frame"
    using frame_ok_kept [OF frame(1) kept] by simp_all
  have "walk_l2 (k_mem kb (tb kb t + 4 * ARM_L2_OFFSET v)) v = None"
    using vtrans_cases [OF tokb(1), of v] a(5) tokb(2) v(5) by simp
  then have free: "L2_TYPE (k_mem kb (tb kb t + 4 * ARM_L2_OFFSET v)) = 0" by (simp add: walk_l2_def split: if_splits)
  have bounds: "unat done_bytes + ?n * 4096 \<le> unat (ksize kb frame)" "unat done_bytes + ?n * 4096 < 2 ^ 32"
    using f(1) p(1,4) by (simp_all add: frame_ok_def)
  obtain kc where c: "vnode_map kb t frame (ARM_L2_OFFSET v) flags done_bytes (of_nat ?n) m = Ok kc"
    "mapped kb t (ARM_L2_OFFSET v) frame done_bytes ?n m
      (\<lambda>i. small_page_entry flags (tb k frame + done_bytes + of_nat i * PAGE_BYTES)) kc"
    using map_l2_ok [OF supply_okD(1) [OF sup b(5)] b(3) t _ flags p(3,2) frame(2) bounds] f free
    by (auto simp: frame_ok_def tb_def)
  have al: "unat (tb k frame + done_bytes) mod 4096 = 0"
    using tb_aligned [of kb frame] f frame(2) by (intro aligned_add) (simp_all add: frame_ok_def)
  note trans = map_pages_trans [OF tokb(1) a(5) b(3) c(2) v(1) p(3) al]
  have "map_piece env k st v frame done_bytes bytes flags = Ok (t, m, kc, sta)"
    using a(1) b(1) c(1) by (simp add: map_piece_def vs_check_def sz_def)
  moreover have "ready n kc" using supply_mapped [OF sup b(5) b(2,3) c(2)] f(1) by (auto simp: frame_ok_def)
  moreover have "vtrans kc sta = map_range v (unat sz) (tb k frame + done_bytes) (kpi_ap10 flags) (vtrans k st)"
    using trans(2) tokb(2) p(1) by simp
  moreover have kbc: "caps_kept kb kc" by (rule mapped_caps [OF c(2) b(3)])
  then have "caps_kept k kc" by (rule caps_kept_trans [OF kept])
  moreover have "k_ctes kc m = mapping_cap kb frame (tb kb t + 4 * ARM_L2_OFFSET v) done_bytes ?n"
    using c(2) by (simp add: mapped_def tb_def)
  moreover have "tb kc t = tb kb t" using caps_kept_slot [OF kbc] t by simp
  moreover have "unat (ucast (of_nat ?n :: u32) :: u16) = ?n"
    using p(3) unfolding unsigned_ucast_eq by (simp add: take_bit_eq_mod unat_of_nat)
  moreover have "type_is_mapping (get_mapping_type (ktype kb frame))"
    using mapping_type [of "ktype kb frame"] f(1) by (auto simp: frame_ok_def)
  ultimately show ?thesis
    using trans(1) a(5,7) v(1) p(1,3)
    by (intro exI [of _ t] exI [of _ m] exI [of _ kc] exI [of _ sta])
       (simp add: piece_of_def piece_len_def mapping_cap_def ktype_def)
qed

section \<open>Regions and their nodes\<close>

text \<open>The pieces of a region, the last one first, cover it without gaps.\<close>

fun covers :: "'z kernel_scheme \<Rightarrow> paging_state \<Rightarrow> nat \<Rightarrow> nat \<Rightarrow> paging_map_node list \<Rightarrow> bool" where
  "covers k st lo hi [] \<longleftrightarrow> lo = hi"
| "covers k st lo hi (m # ms) \<longleftrightarrow>
     (\<exists>v. piece_of k st v (pm_table m) (pm_mapping m) \<and> unat v + piece_len k (pm_mapping m) = hi \<and> covers k st lo (unat v) ms)"

definition region_ok :: "'z kernel_scheme \<Rightarrow> paging_state \<Rightarrow> paging_used_node \<Rightarrow> bool" where
  "region_ok k st u \<longleftrightarrow> covers k st (unat (pu_start u)) (unat (pu_start u) + unat (pu_size u)) (pu_map_list u)"

definition region_blocks :: "paging_used_node \<Rightarrow> nat list" where
  "region_blocks u = pu_addr u # map pm_addr (pu_map_list u)"

definition ps_blocks :: "paging_state \<Rightarrow> nat list" where
  "ps_blocks st = concat (map region_blocks (ps_mappings st)) @ map pf_addr (tl (free_vspace st))"

definition nodes_ok :: "paging_state \<Rightarrow> bool" where
  "nodes_ok st \<longleftrightarrow> slab_inv (ps_slabs st) \<and> distinct (ps_blocks st) \<and> set (ps_blocks st) \<subseteq> slab_used (ps_slabs st) \<and>
     free_vspace st \<noteq> []"

definition vspace_inv :: "'z kernel_scheme \<Rightarrow> paging_state \<Rightarrow> bool" where
  "vspace_inv k st \<longleftrightarrow> tables_ok k st \<and> nodes_ok st \<and> (\<forall>u \<in> set (ps_mappings st). region_ok k st u)"

definition tables_grow :: "paging_state \<Rightarrow> paging_state \<Rightarrow> bool" where
  "tables_grow st st' \<longleftrightarrow> free_vspace st' = free_vspace st \<and> l1_page_table st' = l1_page_table st \<and>
     (\<forall>i t. l2_page_tables st i = Some t \<longrightarrow> l2_page_tables st' i = Some t)"

lemma tables_grow_trans [trans]: "tables_grow st st1 \<Longrightarrow> tables_grow st1 st2 \<Longrightarrow> tables_grow st st2"
  by (auto simp: tables_grow_def)

lemma more_tables_grow:
  assumes "more_tables st st'"
  shows "tables_grow st st'" "ps_slabs st' = ps_slabs st" "ps_mappings st' = ps_mappings st" "free_vspace st' = free_vspace st"
proof -
  have "st' = st\<lparr>l2_page_tables := l2_page_tables st'\<rparr>" using assms by (simp add: more_tables_def)
  then have e: "ps_slabs st' = ps_slabs st" "ps_mappings st' = ps_mappings st" "free_vspace st' = free_vspace st"
    "l1_page_table st' = l1_page_table st"
    by (metis paging_state.select_convs(1-4) paging_state.surjective paging_state.update_convs(5))+
  then show "ps_slabs st' = ps_slabs st" "ps_mappings st' = ps_mappings st" "free_vspace st' = free_vspace st" by blast+
  show "tables_grow st st'" using e assms by (simp add: tables_grow_def more_tables_def)
qed

lemma piece_kept:
  assumes "tables_ok k st" "caps_kept k k'" "tables_grow st st'" "piece_of k st v t m"
  shows "piece_of k' st' v t m" "piece_len k' m = piece_len k m"
proof -
  have t: "l2_page_tables st (ARM_L1_OFFSET v) = Some t" using assms(4) by (simp add: piece_of_def)
  have "ktype k t \<noteq> 0" using tables_okD(2) [OF assms(1) t] by (simp add: l2_ok_def)
  moreover have "ktype k m \<noteq> 0" using assms(4) by (auto simp: piece_of_def type_is_mapping_def)
  ultimately have "tb k' t = tb k t" "k_ctes k' m = k_ctes k m" "ktype k' m = ktype k m"
    using caps_kept_slot [OF assms(2)] by simp_all
  then show "piece_of k' st' v t m" "piece_len k' m = piece_len k m"
    using assms(3,4) by (simp_all add: piece_of_def piece_len_def tables_grow_def)
qed

lemma covers_kept:
  assumes "tables_ok k st" "caps_kept k k'" "tables_grow st st'"
  shows "covers k st lo hi ms \<Longrightarrow> covers k' st' lo hi ms"
proof (induction ms arbitrary: hi)
  case (Cons m ms)
  then obtain v where v: "piece_of k st v (pm_table m) (pm_mapping m)" "unat v + piece_len k (pm_mapping m) = hi" "covers k st lo (unat v) ms"
    by auto
  then show ?case using piece_kept [OF assms v(1)] Cons.IH [OF v(3)] by auto
qed simp

lemma covers_l2: "l2_page_tables st' = l2_page_tables st \<Longrightarrow> covers k st' lo hi ms = covers k st lo hi ms"
  by (induction ms arbitrary: hi) (simp_all add: piece_of_def)

text \<open>A node for a piece or a region.\<close>

lemma ps_node_ok:
  assumes "nodes_ok st" "0 < slab_freecount (ps_slabs st)"
  shows "\<exists>a sl. ps_node env k st = Ok (a, k, st\<lparr>ps_slabs := sl\<rparr>) \<and> a \<notin> slab_used (ps_slabs st) \<and> slab_inv sl \<and>
    slab_used sl = insert a (slab_used (ps_slabs st)) \<and> Suc (slab_freecount sl) = slab_freecount (ps_slabs st)"
proof -
  obtain a sl where a: "slab_get None (ps_slabs st) = Ok (a, sl)" "a \<notin> slab_used (ps_slabs st)" "slab_inv sl"
    "slab_used sl = insert a (slab_used (ps_slabs st))" "Suc (slab_freecount sl) = slab_freecount (ps_slabs st)"
    using slab_pool.alloc_ok [of "ps_slabs st" None] assms by (auto simp: nodes_ok_def)
  moreover have "ps_node env k st = Ok (a, k, st\<lparr>ps_slabs := sl\<rparr>)"
    using a(1) assms(2) by (simp add: ps_node_def slab_has_free_count)
  ultimately show ?thesis using assms(1) by (auto simp: nodes_ok_def)
qed

lemma nodes_ok_add:
  assumes "nodes_ok st" "a \<notin> slab_used (ps_slabs st)" "slab_inv sl" "slab_used sl = insert a (slab_used (ps_slabs st))"
    "ps_slabs st' = sl" "mset (ps_blocks st') = add_mset a (mset (ps_blocks st))" "free_vspace st' \<noteq> []"
  shows "nodes_ok st'"
proof -
  have e: "mset (ps_blocks st') = mset (a # ps_blocks st)" using assms(6) by simp
  have "a \<notin> set (ps_blocks st)" using assms(1,2) unfolding nodes_ok_def by blast
  then have "distinct (a # ps_blocks st)" using assms(1) by (simp add: nodes_ok_def)
  then have "distinct (ps_blocks st')" using mset_eq_imp_distinct_iff [OF e] by blast
  moreover have "set (ps_blocks st') = insert a (set (ps_blocks st))" using mset_eq_setD [OF e] by simp
  then have "set (ps_blocks st') \<subseteq> slab_used sl" using assms(1,4) unfolding nodes_ok_def by blast
  ultimately show ?thesis using assms(3,5,7) by (simp add: nodes_ok_def)
qed

lemma add_map_node_head:
  assumes "nodes_ok st" "ps_mappings st = u # us"
  shows "add_map_node (pu_addr u) m (u # us) = u\<lparr>pu_map_list := m # pu_map_list u\<rparr> # us"
proof -
  have "pu_addr u \<notin> pu_addr ` set us"
    using assms by (auto simp: nodes_ok_def ps_blocks_def region_blocks_def)
  then have "map (\<lambda>v. if pu_addr v = pu_addr u then v\<lparr>pu_map_list := m # pu_map_list v\<rparr> else v) us = us"
    by (intro map_idI) (metis image_eqI)
  then show ?thesis by (simp add: add_map_node_def)
qed

lemma map_range_split:
  assumes "unat v + unat sz < 2 ^ 32"
  shows "map_range (v + sz) r (pa + sz) ap (map_range v (unat sz) pa ap T) = map_range v (unat sz + r) pa ap T"
proof
  fix va
  have "unat (v + sz) = unat v + unat sz" using unat_plus_less [of v sz] assms by simp
  then show "map_range (v + sz) r (pa + sz) ap (map_range v (unat sz) pa ap T) va = map_range v (unat sz + r) pa ap T va"
    by (simp add: map_range_def)
qed

lemma map_range_0 [simp]: "map_range v 0 pa ap T = T"
  by (rule ext) (auto simp: map_range_def)

section \<open>The loop\<close>

lemma map_tracked_0 [simp]: "map_tracked env a k st v frame done_bytes 0 flags = Ok (k, st)"
  by (subst map_tracked.simps) simp

text \<open>A round that succeeds: the piece is mapped, and its node is recorded at the head region.\<close>

lemma map_round_ok:
  assumes sup: "supply_ok env ready fresh" and rdy: "ready (4 + n) k" and tok: "tables_ok k st"
    and frame: "frame_ok k frame (unat done_bytes + unat bytes)" "unat done_bytes mod 4096 = 0"
    and flags: "flags AND NOT KPI_PAGING_FLAGS_MASK = 0"
    and v: "unat v mod 4096 = 0" "unat bytes mod 4096 = 0" "bytes \<noteq> 0" "v < MEMORY_OFFSET" "vtrans k st v = None"
    and nodes: "nodes_ok st" "ps_mappings st = u # us" "0 < slab_freecount (ps_slabs st)"
    and cov: "covers k st lo (unat v) (pu_map_list u)"
  defines "sz \<equiv> piece_size v bytes"
  shows "\<exists>k' st' ms. map_tracked env (pu_addr u) k st v frame done_bytes bytes flags =
      map_tracked env (pu_addr u) k' st' (v + sz) frame (done_bytes + sz) (bytes - sz) flags \<and> ready n k' \<and> tables_ok k' st' \<and>
    vtrans k' st' = map_range v (unat sz) (tb k frame + done_bytes) (kpi_ap10 flags) (vtrans k st) \<and> caps_kept k k' \<and>
    tables_grow st st' \<and> nodes_ok st' \<and> ps_mappings st' = u\<lparr>pu_map_list := ms\<rparr> # us \<and>
    Suc (slab_freecount (ps_slabs st')) = slab_freecount (ps_slabs st) \<and> covers k' st' lo (unat v + unat sz) ms"
proof -
  obtain t m k' sta where p: "map_piece env k st v frame done_bytes bytes flags = Ok (t, m, k', sta)" "ready n k'"
    "tables_ok k' sta" "vtrans k' sta = map_range v (unat sz) (tb k frame + done_bytes) (kpi_ap10 flags) (vtrans k st)"
    "caps_kept k k'" "more_tables st sta" "piece_of k' sta v t m" "piece_len k' m = unat sz"
    using map_piece_ok [OF sup rdy tok frame flags v] unfolding sz_def by blast
  note same = more_tables_grow [OF p(6)]
  have nsta: "nodes_ok sta" "ps_mappings sta = u # us" "0 < slab_freecount (ps_slabs sta)"
    using nodes same by (simp_all add: nodes_ok_def ps_blocks_def)
  obtain b sl where b: "ps_node env k' sta = Ok (b, k', sta\<lparr>ps_slabs := sl\<rparr>)" "b \<notin> slab_used (ps_slabs sta)" "slab_inv sl"
    "slab_used sl = insert b (slab_used (ps_slabs sta))" "Suc (slab_freecount sl) = slab_freecount (ps_slabs sta)"
    using ps_node_ok [OF nsta(1,3), of env k'] by blast
  let ?m = "\<lparr>pm_addr = b, pm_table = t, pm_mapping = m\<rparr>"
  let ?st = "sta\<lparr>ps_slabs := sl, ps_mappings := u\<lparr>pu_map_list := ?m # pu_map_list u\<rparr> # us\<rparr>"
  have "map_tracked env (pu_addr u) k st v frame done_bytes bytes flags =
      map_tracked env (pu_addr u) k' ?st (v + sz) frame (done_bytes + sz) (bytes - sz) flags"
    using p(1) b(1) v(3) nsta(2) add_map_node_head [OF nsta(1,2), of ?m]
    by (subst map_tracked.simps) (simp add: sz_def Let_def)
  moreover have tg: "tables_grow sta ?st" "tables_grow st ?st"
    using same(1) by (simp_all add: tables_grow_def)
  moreover have "tables_ok k' ?st" "vtrans k' ?st = vtrans k' sta"
    using p(3) by (simp_all add: tables_ok_def l1_ok_def l2_ok_def vtrans_def fun_eq_iff)
  moreover have "nodes_ok ?st"
    using nodes_ok_add [OF nsta(1) b(2,3,4), of ?st] nsta by (simp add: nodes_ok_def ps_blocks_def region_blocks_def)
  moreover have "covers k' ?st lo (unat v) (pu_map_list u)"
    by (rule covers_kept [OF tok p(5) tg(2) cov])
  moreover have "piece_of k' ?st v t m" by (rule piece_kept(1) [OF p(3) caps_kept_refl tg(1) p(7)])
  ultimately show ?thesis
    using p(2,4,5,8) b(5) same(2)
    by (intro exI [of _ k'] exI [of _ ?st] exI [of _ "?m # pu_map_list u"]) auto
qed

lemma map_tracked_ok:
  assumes sup: "supply_ok env ready fresh" and flags: "flags AND NOT KPI_PAGING_FLAGS_MASK = 0"
  shows "windows (unat v) (unat bytes) = w \<Longrightarrow> ready (4 * w + n) k \<Longrightarrow> tables_ok k st \<Longrightarrow>
    frame_ok k frame (unat done_bytes + unat bytes) \<Longrightarrow> unat done_bytes mod 4096 = 0 \<Longrightarrow> unat v mod 4096 = 0 \<Longrightarrow>
    unat bytes mod 4096 = 0 \<Longrightarrow> unat v + unat bytes \<le> 2 ^ 31 \<Longrightarrow>
    (\<And>va. unat v \<le> unat va \<Longrightarrow> unat va < unat v + unat bytes \<Longrightarrow> vtrans k st va = None) \<Longrightarrow>
    nodes_ok st \<Longrightarrow> ps_mappings st = u # us \<Longrightarrow> w \<le> slab_freecount (ps_slabs st) \<Longrightarrow> covers k st lo (unat v) (pu_map_list u) \<Longrightarrow>
    \<exists>k' st' ms. map_tracked env (pu_addr u) k st v frame done_bytes bytes flags = Ok (k', st') \<and> ready n k' \<and> tables_ok k' st' \<and>
      vtrans k' st' = map_range v (unat bytes) (tb k frame + done_bytes) (kpi_ap10 flags) (vtrans k st) \<and> caps_kept k k' \<and>
      tables_grow st st' \<and> nodes_ok st' \<and> ps_mappings st' = u\<lparr>pu_map_list := ms\<rparr> # us \<and>
      slab_freecount (ps_slabs st) = w + slab_freecount (ps_slabs st') \<and> covers k' st' lo (unat v + unat bytes) ms"
proof (induction w arbitrary: v bytes k st done_bytes u)
  case 0
  then have "bytes = 0" by (simp add: windows_def unsigned_eq_0_iff split: if_splits)
  then show ?case
    using 0 by (intro exI [of _ k] exI [of _ st] exI [of _ "pu_map_list u"]) (simp add: tables_grow_def)
next
  case (Suc w)
  let ?sz = "piece_size v bytes"
  have bz: "bytes \<noteq> 0" using Suc.prems(1) by (auto simp: windows_def)
  then have b0: "0 < unat bytes" by (simp add: unat_gt_0)
  note p = piece_ok [OF Suc.prems(6,7) bz]
  have low: "v < MEMORY_OFFSET" "vtrans k st v = None"
    using Suc.prems(8) b0 Suc.prems(9) [of v] by (simp_all add: word_less_nat_alt)
  have "ready (4 + (4 * w + n)) k" using Suc.prems(2) by (simp add: add.assoc)
  from map_round_ok [OF sup this Suc.prems(3,4,5) flags Suc.prems(6,7) bz low Suc.prems(10,11) _ Suc.prems(13)] Suc.prems(12)
  obtain k1 st1 ms1 where r: "map_tracked env (pu_addr u) k st v frame done_bytes bytes flags =
      map_tracked env (pu_addr u) k1 st1 (v + ?sz) frame (done_bytes + ?sz) (bytes - ?sz) flags" "ready (4 * w + n) k1"
    "tables_ok k1 st1" "vtrans k1 st1 = map_range v (unat ?sz) (tb k frame + done_bytes) (kpi_ap10 flags) (vtrans k st)"
    "caps_kept k k1" "tables_grow st st1" "nodes_ok st1" "ps_mappings st1 = u\<lparr>pu_map_list := ms1\<rparr> # us"
    "Suc (slab_freecount (ps_slabs st1)) = slab_freecount (ps_slabs st)" "covers k1 st1 lo (unat v + unat ?sz) ms1"
    by auto
  have vs: "unat (v + ?sz) = unat v + unat ?sz" using unat_plus_less [of v ?sz] p(4) Suc.prems(8) by simp
  have ds: "unat (done_bytes + ?sz) = unat done_bytes + unat ?sz"
    using unat_plus_less [of done_bytes ?sz] p(4) Suc.prems(4) by (simp add: frame_ok_def)
  have fr: "frame_ok k1 frame (unat (done_bytes + ?sz) + unat (bytes - ?sz))" "tb k1 frame = tb k frame"
    using frame_ok_kept [OF Suc.prems(4) r(5)] ds p(4,5) by (simp_all add: add.assoc)
  have al: "unat ?sz mod 4096 = 0" unfolding p(1) by simp
  have free: "vtrans k1 st1 va = None" if "unat (v + ?sz) \<le> unat va" "unat va < unat (v + ?sz) + unat (bytes - ?sz)" for va
    using that Suc.prems(9) [of va] p(4) unfolding r(4) map_range_def vs p(5) by simp
  have w: "windows (unat (v + ?sz)) (unat (bytes - ?sz)) = w" "w \<le> slab_freecount (ps_slabs st1)"
    "unat (v + ?sz) + unat (bytes - ?sz) \<le> 2 ^ 31" "covers k1 st1 lo (unat (v + ?sz)) (pu_map_list (u\<lparr>pu_map_list := ms1\<rparr>))"
    using p(4,5,7) vs Suc.prems(1,8,12) r(9,10) by simp_all
  have "unat (done_bytes + ?sz) mod 4096 = 0" "unat (v + ?sz) mod 4096 = 0"
    using aligned_add [OF Suc.prems(5) al] aligned_add [OF Suc.prems(6) al] by simp_all
  from Suc.IH [OF w(1) r(2,3) fr(1) this p(6) w(3) free r(7,8) w(2,4)]
  obtain k' st' ms where f: "map_tracked env (pu_addr u) k1 st1 (v + ?sz) frame (done_bytes + ?sz) (bytes - ?sz) flags = Ok (k', st')"
      "ready n k'" "tables_ok k' st'"
      "vtrans k' st' = map_range (v + ?sz) (unat (bytes - ?sz)) (tb k1 frame + (done_bytes + ?sz)) (kpi_ap10 flags) (vtrans k1 st1)"
      "caps_kept k1 k'" "tables_grow st1 st'" "nodes_ok st'" "ps_mappings st' = u\<lparr>pu_map_list := ms\<rparr> # us"
      "slab_freecount (ps_slabs st1) = w + slab_freecount (ps_slabs st')" "covers k' st' lo (unat (v + ?sz) + unat (bytes - ?sz)) ms"
    by auto
  have "vtrans k' st' = map_range v (unat bytes) (tb k frame + done_bytes) (kpi_ap10 flags) (vtrans k st)"
    using f(4) map_range_split [of v ?sz "unat (bytes - ?sz)" "tb k frame + done_bytes"] r(4) fr(2) p(4,5) Suc.prems(8)
    by (simp add: add.assoc)
  moreover have "unat (v + ?sz) + unat (bytes - ?sz) = unat v + unat bytes" using vs p(4,5) by simp
  ultimately show ?case
    using r(1,9) f(1-3,7-10) caps_kept_trans [OF r(5) f(5)] tables_grow_trans [OF r(6) f(6)] by auto
qed

section \<open>Mapping a frame at a fixed address\<close>

lemma tables_ok_nodes:
  "tables_ok k (st\<lparr>ps_slabs := sl, ps_mappings := us\<rparr>) = tables_ok k st"
  "vtrans k (st\<lparr>ps_slabs := sl, ps_mappings := us\<rparr>) = vtrans k st"
  by (simp_all add: tables_ok_def l1_ok_def l2_ok_def vtrans_def fun_eq_iff)

lemma paging_map_fixed_attr_ok:
  assumes sup: "supply_ok env ready fresh" and flags: "flags AND NOT KPI_PAGING_FLAGS_MASK = 0"
    and inv: "vspace_inv k st" and rdy: "ready (4 * windows (unat v) (unat bytes) + n) k"
    and blocks: "windows (unat v) (unat bytes) < slab_freecount (ps_slabs st)"
    and frame: "frame_ok k frame (unat bytes)"
    and v: "unat v mod 4096 = 0" "unat bytes mod 4096 = 0" "unat v + unat bytes \<le> 2 ^ 31"
      "\<And>va. unat v \<le> unat va \<Longrightarrow> unat va < unat v + unat bytes \<Longrightarrow> vtrans k st va = None"
  shows "\<exists>k' st' ms a. paging_map_fixed_attr env k st v frame bytes flags = Ok (k', st') \<and> ready n k' \<and> vspace_inv k' st' \<and>
    vtrans k' st' = map_range v (unat bytes) (tb k frame) (kpi_ap10 flags) (vtrans k st) \<and> caps_kept k k' \<and>
    tables_grow st st' \<and>
    ps_mappings st' = \<lparr>pu_addr = a, pu_start = v, pu_size = bytes, pu_map_list = ms\<rparr> # ps_mappings st \<and>
    slab_freecount (ps_slabs st) = Suc (windows (unat v) (unat bytes)) + slab_freecount (ps_slabs st')"
proof -
  have tok: "tables_ok k st" and nok: "nodes_ok st" using inv by (simp_all add: vspace_inv_def)
  obtain a sl where a: "ps_node env k st = Ok (a, k, st\<lparr>ps_slabs := sl\<rparr>)" "a \<notin> slab_used (ps_slabs st)" "slab_inv sl"
    "slab_used sl = insert a (slab_used (ps_slabs st))" "Suc (slab_freecount sl) = slab_freecount (ps_slabs st)"
    using ps_node_ok [OF nok, of env k] blocks by auto
  let ?u = "\<lparr>pu_addr = a, pu_start = v, pu_size = bytes, pu_map_list = []\<rparr>"
  let ?st = "st\<lparr>ps_slabs := sl, ps_mappings := ?u # ps_mappings st\<rparr>"
  have start: "paging_map_fixed_attr env k st v frame bytes flags = map_tracked env (pu_addr ?u) k ?st v frame 0 bytes flags"
    using a(1) blocks by (simp add: paging_map_fixed_attr_def paging_special_refill_def)
  have ns: "nodes_ok ?st" using nodes_ok_add [OF nok a(2,3,4), of ?st] nok by (simp add: nodes_ok_def ps_blocks_def region_blocks_def)
  have fr: "frame_ok k frame (unat (0 :: u32) + unat bytes)" "unat (0 :: u32) mod 4096 = 0" using frame by simp_all
  have ts: "tables_ok k ?st" "\<And>va. unat v \<le> unat va \<Longrightarrow> unat va < unat v + unat bytes \<Longrightarrow> vtrans k ?st va = None"
    using tok v(4) unfolding tables_ok_nodes by blast+
  have w: "windows (unat v) (unat bytes) \<le> slab_freecount (ps_slabs ?st)" using a(5) blocks by simp
  have c: "ps_mappings ?st = ?u # ps_mappings st" "covers k ?st (unat v) (unat v) (pu_map_list ?u)" by simp_all
  obtain k' st' ms where f: "map_tracked env (pu_addr ?u) k ?st v frame 0 bytes flags = Ok (k', st')" "ready n k'"
    "tables_ok k' st'" "vtrans k' st' = map_range v (unat bytes) (tb k frame + 0) (kpi_ap10 flags) (vtrans k ?st)"
    "caps_kept k k'" "tables_grow ?st st'" "nodes_ok st'" "ps_mappings st' = ?u\<lparr>pu_map_list := ms\<rparr> # ps_mappings st"
    "slab_freecount (ps_slabs ?st) = windows (unat v) (unat bytes) + slab_freecount (ps_slabs st')"
    "covers k' st' (unat v) (unat v + unat bytes) ms"
    using map_tracked_ok [OF sup flags refl rdy ts(1) fr v(1,2,3) ts(2) ns c(1) w c(2)] by blast
  have tg: "tables_grow st st'" using f(6) by (simp add: tables_grow_def)
  have "region_ok k' st' u" if "u \<in> set (ps_mappings st)" for u
    using inv that covers_kept [OF tok f(5) tg] by (simp add: vspace_inv_def region_ok_def)
  then have "vspace_inv k' st'" using f(3,7,8,10) by (simp add: vspace_inv_def region_ok_def)
  moreover have "vtrans k' st' = map_range v (unat bytes) (tb k frame) (kpi_ap10 flags) (vtrans k st)"
    using f(4) unfolding tables_ok_nodes by simp
  ultimately show ?thesis
    using start f(1,2,5,8,9) tg a(5) by (intro exI [of _ k'] exI [of _ st'] exI [of _ ms] exI [of _ a]) simp
qed

end
