(* ===== verification/Vspace_Unmap.thy ===== *)
theory Vspace_Unmap
  imports Vspace_Frames
begin

text \<open>
  Unmapping a region: every piece is removed from its table by the kernel, the nodes go back
  to the slab allocator, and the addresses go back to the free space.
\<close>

section \<open>The system call\<close>

text \<open>
  The climb to the root page table, which only decides whether the TLB is flushed, reads
  neither the page tables nor anything that unmapping changes.
\<close>

definition climb_ok :: "'z kernel_scheme \<Rightarrow> paging_state \<Rightarrow> bool" where
  "climb_ok k st \<longleftrightarrow> (\<forall>i t. l2_page_tables st i = Some t \<longrightarrow>
     compile_vaddr k t = Ok () \<or> compile_vaddr k t = Err SYS_ERR_VNODE_NOT_INSTALLED)"

lemma slots_mem [simp]:
  "ktype (k\<lparr>k_mem := mem\<rparr>) p = ktype k p" "kaddress (k\<lparr>k_mem := mem\<rparr>) p = kaddress k p"
  "ksize (k\<lparr>k_mem := mem\<rparr>) p = ksize k p" "tb (k\<lparr>k_mem := mem\<rparr>) p = tb k p"
  "k_successor (k\<lparr>k_mem := mem\<rparr>) p = k_successor k p" "k_predecessor (k\<lparr>k_mem := mem\<rparr>) p = k_predecessor k p"
  by (simp_all add: ktype_def kaddress_def ksize_def tb_def k_successor_def k_predecessor_def)

lemma find_mapping_mem [simp]: "find_mapping_from (k\<lparr>k_mem := mem\<rparr>) c n p = find_mapping_from k c n p"
  by (induction n arbitrary: p) (simp_all split: option.split)

lemma find_mapping_for_cap_mem [simp]: "find_mapping_for_cap (k\<lparr>k_mem := mem\<rparr>) c = find_mapping_for_cap k c"
  by (simp add: find_mapping_for_cap_def del: find_mapping_from.simps)

lemma vnode_copy_mem [simp]: "vnode_copy (k\<lparr>k_mem := mem\<rparr>) step c n p = vnode_copy k step c n p"
  by (induction k step c n p rule: vnode_copy.induct) simp_all

lemma find_next_ptable_mem [simp]: "find_next_ptable (k\<lparr>k_mem := mem\<rparr>) p = find_next_ptable k p"
proof -
  have "k_predecessor (k\<lparr>k_mem := mem\<rparr>) = k_predecessor k" "k_successor (k\<lparr>k_mem := mem\<rparr>) = k_successor k"
    by (simp_all add: fun_eq_iff)
  then show ?thesis by (simp add: find_next_ptable_def Let_def split: outcome.split option.split)
qed

lemma compile_vaddr_mem [simp]: "compile_vaddr (k\<lparr>k_mem := mem\<rparr>) p = compile_vaddr k p"
proof -
  have "compile_vaddr_from (k\<lparr>k_mem := mem\<rparr>) n p = compile_vaddr_from k n p" for n p
    by (induction n arbitrary: p) (simp_all split: outcome.split)
  then show ?thesis by (simp add: compile_vaddr_def del: compile_vaddr_from.simps)
qed

lemma climb_ok_mem [simp]: "climb_ok (k\<lparr>k_mem := mem\<rparr>) st = climb_ok k st"
  by (simp add: climb_ok_def)

definition unmap_range :: "nat \<Rightarrow> nat \<Rightarrow> (u32 \<Rightarrow> (u32 \<times> u32) option) \<Rightarrow> u32 \<Rightarrow> (u32 \<times> u32) option" where
  "unmap_range lo hi T va = (if lo \<le> unat va \<and> unat va < hi then None else T va)"

lemma unmap_range_same [simp]: "unmap_range lo lo T = T"
  by (rule ext) (auto simp: unmap_range_def)

lemma unmap_range_join: "lo \<le> mid \<Longrightarrow> mid \<le> hi \<Longrightarrow> unmap_range lo mid (unmap_range mid hi T) = unmap_range lo hi T"
  by (rule ext) (auto simp: unmap_range_def)

lemma unmap_piece_ok:
  assumes "tables_ok k st" "piece_of k st v t m" "climb_ok k st"
  shows "\<exists>mem. vnode_unmap k t m = Ok (k\<lparr>k_mem := mem\<rparr>) \<and> tables_ok (k\<lparr>k_mem := mem\<rparr>) st \<and>
    vtrans (k\<lparr>k_mem := mem\<rparr>) st = unmap_range (unat v) (unat v + piece_len k m) (vtrans k st)"
proof -
  let ?y = "ARM_L2_OFFSET v" and ?n = "unat (fm_pte_count (k_ctes k m))"
  have p: "unat v mod 4096 = 0" "l2_page_tables st (ARM_L1_OFFSET v) = Some t" "type_is_mapping (ktype k m)"
    "fm_pte (k_ctes k m) = tb k t + 4 * ?y" "unat ?y + ?n \<le> 256"
    using assms(2) by (simp_all add: piece_of_def)
  have t: "ktype k t = ObjType_VNode_ARM_l2" using tables_okD(2) [OF assms(1) p(2)] by (simp add: l2_ok_def)
  have "unat (4 * ?y) = 4 * unat ?y" using unat_times_less [of 4 ?y] unat_L2_OFFSET [of v] by simp
  moreover have "fm_pte (k_ctes k m) - tb k t = 4 * ?y" by (simp add: p(4))
  ultimately have slot: "(fm_pte (k_ctes k m) - tb k t) div 4 = ?y"
    by (simp add: word_unat_eq_iff [of "4 * ?y div 4"] unat_div_distrib)
  have climb: "compile_vaddr k t = Ok () \<or> compile_vaddr k t = Err SYS_ERR_VNODE_NOT_INSTALLED"
    using assms(3) p(2) unfolding climb_ok_def by blast
  let ?mem = "fill_entries (\<lambda>i. 0) (k_mem k) (tb k t + 4 * ?y) 0 ?n"
  have "vnode_unmap k t m = Ok (k\<lparr>k_mem := ?mem\<rparr>)"
    using climb t p(3) slot
    by (auto simp: vnode_unmap_def page_mappings_unmap_def Let_def do_unmap_def tb_def [symmetric])
  moreover note trans = fill_pages_trans [OF assms(1) p(2) _ _ p(1,5), of "k\<lparr>k_mem := ?mem\<rparr>" "\<lambda>i. 0"]
  have "vtrans (k\<lparr>k_mem := ?mem\<rparr>) st = unmap_range (unat v) (unat v + piece_len k m) (vtrans k st)"
    using trans(2) by (intro ext) (simp add: unmap_range_def piece_len_def)
  ultimately show ?thesis using trans(1) by (intro exI [of _ ?mem]) simp
qed

section \<open>The nodes of a region\<close>

lemma covers_le: "covers k st lo hi ms \<Longrightarrow> lo \<le> hi"
proof (induction ms arbitrary: hi)
  case (Cons m ms)
  then obtain v :: u32 where "unat v + piece_len k (pm_mapping m) = hi" "lo \<le> unat v" by auto
  then show ?case by simp
qed simp

lemma unmap_nodes_ok:
  assumes "tables_ok k st" "climb_ok k st" "covers k st lo hi ms" "slab_inv sl" "distinct (map pm_addr ms)"
    "set (map pm_addr ms) \<subseteq> slab_used sl"
  shows "\<exists>mem sl'. unmap_nodes k sl ms = Ok (k\<lparr>k_mem := mem\<rparr>, sl') \<and> tables_ok (k\<lparr>k_mem := mem\<rparr>) st \<and>
    vtrans (k\<lparr>k_mem := mem\<rparr>) st = unmap_range lo hi (vtrans k st) \<and> slab_inv sl' \<and>
    slab_used sl' = slab_used sl - set (map pm_addr ms) \<and> slab_freecount sl' = slab_freecount sl + length ms"
  using assms
proof (induction ms arbitrary: k sl hi)
  case Nil
  then show ?case by (intro exI [of _ "k_mem k"] exI [of _ sl]) simp
next
  case (Cons m ms)
  obtain v where v: "piece_of k st v (pm_table m) (pm_mapping m)" "unat v + piece_len k (pm_mapping m) = hi" "covers k st lo (unat v) ms"
    using Cons.prems(3) by auto
  obtain mem where m: "vnode_unmap k (pm_table m) (pm_mapping m) = Ok (k\<lparr>k_mem := mem\<rparr>)" "tables_ok (k\<lparr>k_mem := mem\<rparr>) st"
    "vtrans (k\<lparr>k_mem := mem\<rparr>) st = unmap_range (unat v) hi (vtrans k st)"
    using unmap_piece_ok [OF Cons.prems(1) v(1) Cons.prems(2)] v(2) by auto
  let ?k = "k\<lparr>k_mem := mem\<rparr>"
  obtain sl1 where s: "slab_free sl (pm_addr m) = Ok sl1" "slab_inv sl1" "slab_used sl1 = slab_used sl - {pm_addr m}"
    "slab_freecount sl1 = Suc (slab_freecount sl)"
    using slab_pool.release_ok [OF Cons.prems(4), of "pm_addr m"] Cons.prems(6) by auto
  have "covers ?k st lo (unat v) ms"
    using covers_kept [OF Cons.prems(1) _ _ v(3), of ?k st] by (simp add: caps_kept_def tables_grow_def)
  moreover have "climb_ok ?k st" "distinct (map pm_addr ms)" "set (map pm_addr ms) \<subseteq> slab_used sl1"
    using Cons.prems(2,5,6) s(3) by (auto simp: image_iff)
  ultimately obtain mem' sl' where r: "unmap_nodes ?k sl1 ms = Ok (?k\<lparr>k_mem := mem'\<rparr>, sl')" "tables_ok (?k\<lparr>k_mem := mem'\<rparr>) st"
    "vtrans (?k\<lparr>k_mem := mem'\<rparr>) st = unmap_range lo (unat v) (vtrans ?k st)" "slab_inv sl'"
    "slab_used sl' = slab_used sl1 - set (map pm_addr ms)" "slab_freecount sl' = slab_freecount sl1 + length ms"
    using Cons.IH [OF m(2) _ _ s(2)] by blast
  have "lo \<le> unat v" "unat v \<le> hi" using covers_le [OF v(3)] v(2) by simp_all
  then have "vtrans (k\<lparr>k_mem := mem'\<rparr>) st = unmap_range lo hi (vtrans k st)"
    using r(3) m(3) unmap_range_join [of lo "unat v" hi] by simp
  moreover have "slab_used sl' = slab_used sl - set (map pm_addr (m # ms))" using r(5) s(3) by auto
  ultimately show ?case
    using m(1) s r(1,2,4,6) by (intro exI [of _ mem'] exI [of _ sl']) simp
qed

section \<open>Unmapping a region\<close>

lemma used_split_Some:
  "used_split s us = Some (pre, u, post) \<Longrightarrow> us = pre @ u # post \<and> pu_start u = s"
  by (induction us arbitrary: pre) (auto split: if_splits)

lemma used_split_ex: "u \<in> set us \<Longrightarrow> pu_start u = s \<Longrightarrow> \<exists>pre v post. used_split s us = Some (pre, v, post)"
  by (induction us) auto

lemma drop_region_blocks:
  assumes "nodes_ok st" "ps_mappings st = pre @ u # post"
  defines "rest \<equiv> concat (map region_blocks (pre @ post)) @ map pf_addr (tl (free_vspace st))"
  shows "distinct rest" "set rest \<inter> set (region_blocks u) = {}" "distinct (region_blocks u)"
    "set rest \<subseteq> slab_used (ps_slabs st)" "set (region_blocks u) \<subseteq> slab_used (ps_slabs st)"
proof -
  define A C where "A = concat (map region_blocks pre)" and "C = concat (map region_blocks post) @ map pf_addr (tl (free_vspace st))"
  have "ps_blocks st = A @ region_blocks u @ C" "rest = A @ C" by (simp_all add: ps_blocks_def assms(2) rest_def A_def C_def)
  then show "distinct rest" "set rest \<inter> set (region_blocks u) = {}" "distinct (region_blocks u)"
      "set rest \<subseteq> slab_used (ps_slabs st)" "set (region_blocks u) \<subseteq> slab_used (ps_slabs st)"
    using assms(1) unfolding nodes_ok_def by auto
qed

lemma paging_unmap_ok:
  assumes inv: "vspace_inv k st" and climb: "climb_ok k st" and u: "used_split region (ps_mappings st) = Some (pre, u, post)"
    and sz: "pu_size u \<noteq> 0"
  shows "\<exists>k' st' a. paging_unmap env k st region = Ok (k', st') \<and> vspace_inv k' st' \<and> k' = k\<lparr>k_mem := k_mem k'\<rparr> \<and>
    vtrans k' st' = unmap_range (unat region) (unat region + unat (pu_size u)) (vtrans k st) \<and>
    ps_mappings st' = pre @ post \<and> l2_page_tables st' = l2_page_tables st \<and> l1_page_table st' = l1_page_table st \<and>
    free_vspace st' = hd (free_vspace st) # \<lparr>pf_addr = a, pf_base = region, pf_size = pu_size u\<rparr> # tl (free_vspace st)"
proof -
  let ?ms = "pu_map_list u"
  have us: "ps_mappings st = pre @ u # post" "pu_start u = region" using used_split_Some [OF u] by auto
  have tok: "tables_ok k st" and nok: "nodes_ok st" using inv by (simp_all add: vspace_inv_def)
  have cov: "covers k st (unat region) (unat region + unat (pu_size u)) ?ms"
    using inv us by (auto simp: vspace_inv_def region_ok_def)
  have "?ms \<noteq> []" using cov sz by (auto simp: unsigned_eq_0_iff)
  then have len: "0 < length ?ms" by simp
  note drop = drop_region_blocks [OF nok us(1)]
  have inv_sl: "slab_inv (ps_slabs st)" and blocks: "distinct (map pm_addr ?ms)" "set (map pm_addr ?ms) \<subseteq> slab_used (ps_slabs st)"
      "pu_addr u \<notin> set (map pm_addr ?ms)" "pu_addr u \<in> slab_used (ps_slabs st)"
    using nok drop(3,5) by (simp_all add: nodes_ok_def region_blocks_def)
  obtain mem sl where m: "unmap_nodes k (ps_slabs st) ?ms = Ok (k\<lparr>k_mem := mem\<rparr>, sl)" "tables_ok (k\<lparr>k_mem := mem\<rparr>) st"
    "vtrans (k\<lparr>k_mem := mem\<rparr>) st = unmap_range (unat region) (unat region + unat (pu_size u)) (vtrans k st)" "slab_inv sl"
    "slab_used sl = slab_used (ps_slabs st) - set (map pm_addr ?ms)" "slab_freecount sl = slab_freecount (ps_slabs st) + length ?ms"
    using unmap_nodes_ok [OF tok climb cov inv_sl blocks(1,2)] by blast
  let ?k = "k\<lparr>k_mem := mem\<rparr>" and ?st = "st\<lparr>ps_mappings := pre @ post, ps_slabs := sl\<rparr>"
  have rest: "set (ps_blocks ?st) \<subseteq> slab_used sl" "pu_addr u \<in> slab_used sl" "pu_addr u \<notin> set (ps_blocks ?st)" "distinct (ps_blocks ?st)"
    using drop(1,2,4) blocks(3,4) m(5) by (auto simp: ps_blocks_def region_blocks_def [of u])
  then have nst: "nodes_ok ?st" using m(4) nok by (simp add: nodes_ok_def)
  obtain a sl1 where a: "ps_node env ?k ?st = Ok (a, ?k, ?st\<lparr>ps_slabs := sl1\<rparr>)" "a \<notin> slab_used sl" "slab_inv sl1"
    "slab_used sl1 = insert a (slab_used sl)" "Suc (slab_freecount sl1) = slab_freecount sl"
    using ps_node_ok [OF nst, of env ?k] m(6) len by auto
  obtain sl2 where c: "slab_free sl1 (pu_addr u) = Ok sl2" "slab_inv sl2" "slab_used sl2 = slab_used sl1 - {pu_addr u}"
    using slab_pool.release_ok [OF a(3), of "pu_addr u"] a(4) rest(2) by auto
  let ?n = "\<lparr>pf_addr = a, pf_base = region, pf_size = pu_size u\<rparr>"
  let ?st' = "?st\<lparr>ps_slabs := sl2, free_vspace := hd (free_vspace st) # ?n # tl (free_vspace st)\<rparr>"
  obtain h hs where h: "free_vspace st = h # hs" using nok by (cases "free_vspace st") (auto simp: nodes_ok_def)
  then have "paging_unmap env k st region = Ok (?k, ?st')"
    using u m(1) a(1) c(1) us(2) by (simp add: paging_unmap_def paging_add_space_def)
  moreover have "nodes_ok ?st'"
  proof -
    let ?s = "?st\<lparr>ps_slabs := sl1, free_vspace := hd (free_vspace st) # ?n # tl (free_vspace st)\<rparr>"
    have s: "nodes_ok ?s" using nodes_ok_add [OF nst _ a(3), of a ?s] a(2,4) by (simp add: ps_blocks_def)
    have "ps_blocks ?s = ps_blocks ?st'" by (simp add: ps_blocks_def)
    moreover have "set (ps_blocks ?s) = insert a (set (ps_blocks ?st))" by (auto simp: ps_blocks_def)
    then have "pu_addr u \<notin> set (ps_blocks ?s)" using rest(2,3) a(2) by auto
    ultimately show ?thesis using s c(2,3) unfolding nodes_ok_def by (simp add: subset_Diff_insert)
  qed
  moreover have "tables_ok ?k ?st'" "vtrans ?k ?st' = vtrans ?k st"
    using m(2) by (simp_all add: tables_ok_def l1_ok_def l2_ok_def vtrans_def fun_eq_iff)
  moreover have "region_ok ?k ?st' x" if "x \<in> set (pre @ post)" for x
  proof -
    have "region_ok k st x" using inv us(1) that by (auto simp: vspace_inv_def)
    then have "region_ok ?k st x" using covers_kept [OF tok, of ?k st] by (simp add: region_ok_def caps_kept_def tables_grow_def)
    then show ?thesis using covers_l2 [of ?st' st ?k] by (simp add: region_ok_def)
  qed
  ultimately show ?thesis
    using m(3) by (intro exI [of _ ?k] exI [of _ ?st'] exI [of _ a]) (simp add: vspace_inv_def)
qed

end
