(* ===== verification/Vspace_Climb.thy ===== *)
theory Vspace_Climb
  imports Vspace_Unmap
begin

text \<open>
  The climb from a level 2 table to its level 1 table through the mapping database: the
  searches end, and the climb arrives whenever the database shows the level 1 table as the
  innermost capability at every entry that an installed table occupies.
\<close>

section \<open>The search for a mapping\<close>

lemma k_successor_next:
  assumes "mdb_wf (kpreds (k_ctes k)) (k_mdb k)" "inorder (k_mdb k) = xs @ x # ys"
  shows "k_successor k (cap x) = map_option cap (hd_opt ys)"
  using cap_order.slot_neighbours(2) [OF kpreds_order wfD(1) [OF assms(1)] assms(2)] by (simp add: k_successor_def)

text \<open>One round for every later slot is enough, and what is found is a mapping of the capability.\<close>

definition mapping_found :: "'z kernel_scheme \<Rightarrow> u32 \<Rightarrow> u32 outcome \<Rightarrow> bool" where
  "mapping_found k c r \<longleftrightarrow> r = Err SYS_ERR_CAP_NOT_FOUND \<or>
     (\<exists>m \<in> entries (k_mdb k). r = Ok (cap m) \<and> ktype k (cap m) = get_mapping_type (ktype k c) \<and> fm_cap (k_ctes k (cap m)) = c)"

lemma find_mapping_from_found:
  assumes "mdb_wf (kpreds (k_ctes k)) (k_mdb k)"
  shows "inorder (k_mdb k) = xs @ x # ys \<Longrightarrow> length ys < n \<Longrightarrow> mapping_found k c (find_mapping_from k c n (cap x))"
proof (induction ys arbitrary: xs x n)
  case Nil
  then obtain n' where "n = Suc n'" by (cases n) auto
  then show ?case using k_successor_next [OF assms Nil.prems(1)] by (simp add: mapping_found_def)
next
  case (Cons y ys)
  then obtain n' where n: "n = Suc n'" by (cases n) auto
  have y: "y \<in> entries (k_mdb k)" using Cons.prems(1) by simp
  have "mapping_found k c (find_mapping_from k c n' (cap y))"
    using Cons.IH [of "xs @ [x]" y n'] Cons.prems n by simp
  then show ?case using k_successor_next [OF assms Cons.prems(1)] y n by (auto simp: mapping_found_def)
qed

lemma find_mapping_for_cap_found:
  assumes "mdb_wf (kpreds (k_ctes k)) (k_mdb k)" "c \<in> cap ` entries (k_mdb k)"
  shows "mapping_found k c (find_mapping_for_cap k c)"
proof -
  obtain x xs ys where x: "cap x = c" "inorder (k_mdb k) = xs @ x # ys"
    using assms(2) by (auto dest!: split_list)
  then show ?thesis using find_mapping_from_found [OF assms(1) x(2), of _ c] by (simp add: find_mapping_for_cap_def del: find_mapping_from.simps)
qed

section \<open>The climb\<close>

definition root_found :: "'z kernel_scheme \<Rightarrow> u64 \<Rightarrow> bool" where
  "root_found k a \<longleftrightarrow> a < a + 1 \<and> (\<forall>c \<in> entries (k_mdb k). range_pre (kpreds (k_ctes k)) 1 a (a + 1) c) \<and>
     (\<exists>x \<in> entries (k_mdb k). ktype k (cap x) = ObjType_VNode_ARM_l1 \<and> covers_byte (kpreds (k_ctes k)) 1 a x \<and>
        (\<forall>c \<in> entries (k_mdb k). covers_byte (kpreds (k_ctes k)) 1 a c \<longrightarrow> compare_caps (kpreds (k_ctes k)) (cap c) (cap x) True \<le> 0))"

definition climb_db :: "'z kernel_scheme \<Rightarrow> paging_state \<Rightarrow> bool" where
  "climb_db k st \<longleftrightarrow> mdb_wf (kpreds (k_ctes k)) (k_mdb k) \<and>
     (\<forall>i t. l2_page_tables st i = Some t \<longrightarrow> ktype k t = ObjType_VNode_ARM_l2 \<and> t \<in> cap ` entries (k_mdb k)) \<and>
     (\<forall>m \<in> entries (k_mdb k). ktype k (cap m) = get_mapping_type ObjType_VNode_ARM_l2 \<longrightarrow>
        root_found k (ucast (fm_pte (k_ctes k (cap m)))))"

lemma find_next_ptable_root:
  assumes "mdb_wf (kpreds (k_ctes k)) (k_mdb k)" "root_found k (ucast (fm_pte (k_ctes k m)))"
  shows "\<exists>p. find_next_ptable k m = Ok p \<and> ktype k p = ObjType_VNode_ARM_l1"
proof -
  let ?P = "kpreds (k_ctes k)" and ?a = "ucast (fm_pte (k_ctes k m)) :: u64"
  have root: "get_type_root ?P ObjType_RAM = 1" by (simp add: hamlet_type_root_def)
  obtain x where x: "x \<in> entries (k_mdb k)" "ktype k (cap x) = ObjType_VNode_ARM_l1" "covers_byte ?P 1 ?a x"
    "\<forall>c \<in> entries (k_mdb k). covers_byte ?P 1 ?a c \<longrightarrow> compare_caps ?P (cap c) (cap x) True \<le> 0"
    using assms(2) unfolding root_found_def by blast
  have pre: "?a < ?a + 1" "\<forall>c \<in> entries (k_mdb k). range_pre ?P (get_type_root ?P ObjType_RAM) ?a (?a + 1) c"
    using assms(2) unfolding root_found_def root by blast+
  have ex: "\<exists>c \<in> entries (k_mdb k). covers_byte ?P (get_type_root ?P ObjType_RAM) ?a c" using x(1,3) unfolding root by blast
  obtain y where y: "y \<in> entries (k_mdb k)" "mdb_find_cap_for_address ?P ObjType_RAM (k_mdb k) ?a = Ok (Some y)"
    "covers_byte ?P 1 ?a y" "\<forall>c \<in> entries (k_mdb k). covers_byte ?P 1 ?a c \<longrightarrow> compare_caps ?P (cap c) (cap y) True \<le> 0"
    using cap_order.find_cap_correct [OF kpreds_order assms(1) pre] ex unfolding root by (simp del: kpreds_simps) blast
  have "compare_caps ?P (cap x) (cap y) True \<le> 0" "compare_caps ?P (cap y) (cap x) True \<le> 0" using x y by blast+
  then have "compare_caps ?P (cap x) (cap y) True = 0"
    using cap_order.cmp_swap [OF kpreds_order, of "k_ctes k" "cap y" "cap x" True] by linarith
  then have "cap x = cap y" using cap_order.cmp_tie [OF kpreds_order] by blast
  then show ?thesis using x(2) y(2) by (simp add: find_next_ptable_def Let_def type_is_vnode_def)
qed

lemma climb_db_ok:
  assumes "climb_db k st"
  shows "climb_ok k st"
  unfolding climb_ok_def
proof (intro allI impI)
  fix i t assume "l2_page_tables st i = Some t"
  then have t: "ktype k t = ObjType_VNode_ARM_l2" "t \<in> cap ` entries (k_mdb k)" and wf: "mdb_wf (kpreds (k_ctes k)) (k_mdb k)"
    using assms unfolding climb_db_def by blast+
  obtain n where n: "length (inorder (k_mdb k)) = Suc n" using t(2) by (cases "inorder (k_mdb k)") auto
  have f: "mapping_found k t (find_mapping_for_cap k t)" by (rule find_mapping_for_cap_found [OF wf t(2)])
  show "compile_vaddr k t = Ok () \<or> compile_vaddr k t = Err SYS_ERR_VNODE_NOT_INSTALLED"
  proof (cases "find_mapping_for_cap k t")
    case (Ok m)
    then have "root_found k (ucast (fm_pte (k_ctes k m)))"
      using f assms t(1) unfolding climb_db_def mapping_found_def by auto
    then obtain p where "find_next_ptable k m = Ok p" "ktype k p = ObjType_VNode_ARM_l1"
      using find_next_ptable_root [OF wf] by blast
    then show ?thesis using t(1) n Ok by (simp add: compile_vaddr_def type_is_vnode_def)
  next
    case (Err e)
    then show ?thesis using t(1) by (simp add: compile_vaddr_def type_is_vnode_def)
  next
    case Abort
    then show ?thesis using f by (simp add: mapping_found_def)
  qed
qed

end
