(* ===== verification/Vspace_Space.thy ===== *)
theory Vspace_Space
  imports Vspace_Climb
begin

text \<open>
  The use of the address space: the ranges on the free list and the ranges of the mapped
  regions do not overlap, free addresses are not translated, and every region is translated
  to consecutive physical addresses. Allocating, mapping and unmapping keep this.
\<close>

section \<open>Ranges\<close>

definition apart :: "nat \<times> nat \<Rightarrow> nat \<times> nat \<Rightarrow> bool" where
  "apart r s \<longleftrightarrow> snd r \<le> fst s \<or> snd s \<le> fst r"

lemma apart_sym: "apart r s = apart s r"
  by (auto simp: apart_def)

definition free_range :: "paging_frame_node \<Rightarrow> nat \<times> nat" where
  "free_range f = (unat (pf_base f), unat (pf_base f) + unat (pf_size f))"

definition used_range :: "paging_used_node \<Rightarrow> nat \<times> nat" where
  "used_range u = (unat (pu_start u), unat (pu_start u) + unat (pu_size u))"

definition ps_ranges :: "paging_state \<Rightarrow> (nat \<times> nat) list" where
  "ps_ranges st = map used_range (ps_mappings st) @ map free_range (free_vspace st)"

definition in_range :: "u32 \<Rightarrow> nat \<times> nat \<Rightarrow> bool" where
  "in_range va r \<longleftrightarrow> fst r \<le> unat va \<and> unat va < snd r"

lemma in_range_apart: "in_range va r \<Longrightarrow> apart r s \<Longrightarrow> \<not> in_range va s"
  by (auto simp: in_range_def apart_def)

definition translated :: "'z kernel_scheme \<Rightarrow> paging_state \<Rightarrow> paging_used_node \<Rightarrow> bool" where
  "translated k st u \<longleftrightarrow> (\<exists>pa ap. \<forall>va. in_range va (used_range u) \<longrightarrow> vtrans k st va = Some (pa + (va - pu_start u), ap))"

definition space_inv :: "'z kernel_scheme \<Rightarrow> paging_state \<Rightarrow> bool" where
  "space_inv k st \<longleftrightarrow> sorted_wrt apart (ps_ranges st) \<and>
     (\<forall>f \<in> set (free_vspace st). unat (pf_base f) mod 4096 = 0 \<and> snd (free_range f) \<le> 2 ^ 32) \<and>
     (\<forall>u \<in> set (ps_mappings st). unat (pu_start u) mod 4096 = 0 \<and> snd (used_range u) \<le> 2 ^ 32 \<and> pu_size u \<noteq> 0) \<and>
     (\<forall>f \<in> set (free_vspace st). \<forall>va. in_range va (free_range f) \<longrightarrow> vtrans k st va = None) \<and>
     (\<forall>u \<in> set (ps_mappings st). translated k st u)"

section \<open>Allocating addresses\<close>

lemma aligned_apart:
  fixes a b m :: nat
  assumes "a mod m = 0" "b mod m = 0" "a \<noteq> b"
  shows "a + m \<le> b \<or> b + m \<le> a"
proof -
  obtain q r where q: "a = m * q" "b = m * r" using assms(1,2) by (auto simp: mod_eq_0_iff_dvd dvd_def)
  then have "q + 1 \<le> r \<or> r + 1 \<le> q" using assms(3) by auto
  then have "m * (q + 1) \<le> m * r \<or> m * (r + 1) \<le> m * q" using mult_le_mono2 by blast
  then show ?thesis by (simp add: q algebra_simps)
qed

lemma page_mult_room: "unat (x :: u32) mod 4096 = 0 \<Longrightarrow> unat x + 4096 \<le> 2 ^ 32"
  using aligned_apart [of "unat x" 4096 "2 ^ 32"] unat_exp_less [of x] by simp

lemma page_mult_round_up:
  assumes "unat x mod 4096 = 0"
  shows "ROUND_UP_PAGE x = x"
proof -
  obtain q where q: "unat x = 4096 * q" using assms by (auto simp: mod_eq_0_iff_dvd dvd_def)
  have "unat (x + 4095) = unat x + 4095" using unat_plus_less [of x 4095] page_mult_room [OF assms] by simp
  then have "unat (drop_bit 12 (x + 4095)) = unat (drop_bit 12 x)" by (simp add: unat_take_drop q)
  then have "drop_bit 12 (x + 4095) = drop_bit 12 x" by (simp add: word_unat_eq_iff)
  moreover have "(x + 4095) AND NOT (mask 12) = push_bit 12 (drop_bit 12 (x + 4095))"
    by (rule bit_word_eqI) (auto simp: bit_simps)
  moreover have "(4095 :: u32) = mask 12" by (simp add: mask_eq_exp_minus_1)
  ultimately show ?thesis using push_drop_aligned [of x 12] assms by (simp add: ROUND_UP_PAGE_def)
qed

lemma vspace_take_cases:
  assumes "vspace_take bytes fs = Some (buf, fs')"
  shows "\<exists>pre f post. fs = pre @ f # post \<and> bytes \<le> pf_size f \<and> buf = pf_base f \<and>
    fs' = pre @ f\<lparr>pf_base := ROUND_UP_PAGE (pf_base f + bytes),
      pf_size := pf_size f - (bytes + (ROUND_UP_PAGE (pf_base f + bytes) - (pf_base f + bytes)))\<rparr> # post"
  using assms
proof (induction bytes fs arbitrary: fs' rule: vspace_take.induct)
  case (2 bytes node rest)
  show ?case
  proof (cases "bytes \<le> pf_size node")
    case True
    then show ?thesis using "2.prems" by (rule_tac exI [of _ "[]"]) (auto simp: Let_def)
  next
    case False
    then obtain r where r: "vspace_take bytes rest = Some (buf, r)" "fs' = node # r" using "2.prems" by auto
    from "2.IH" [OF False r(1)] obtain pre f post where
      "rest = pre @ f # post" "bytes \<le> pf_size f" "buf = pf_base f"
      "r = pre @ f\<lparr>pf_base := ROUND_UP_PAGE (pf_base f + bytes),
        pf_size := pf_size f - (bytes + (ROUND_UP_PAGE (pf_base f + bytes) - (pf_base f + bytes)))\<rparr> # post" by blast
    then show ?thesis using r(2) by (rule_tac exI [of _ "node # pre"]) auto
  qed
qed simp

lemma sorted_apart_insert:
  "sorted_wrt apart (xs @ r # ys) \<longleftrightarrow> sorted_wrt apart (xs @ ys) \<and> (\<forall>s \<in> set (xs @ ys). apart r s)"
  by (auto simp: sorted_wrt_append apart_sym)

lemma free_nodes_ok:
  assumes "vspace_inv k st" "map pf_addr fs = map pf_addr (free_vspace st)" "st' = st\<lparr>free_vspace := fs\<rparr>"
  shows "vspace_inv k st'" "vtrans k st' = vtrans k st"
proof -
  show "vtrans k st' = vtrans k st" by (simp add: assms(3) vtrans_def fun_eq_iff)
  have "map pf_addr (tl fs) = map pf_addr (tl (free_vspace st))" using assms(2) by (metis map_tl)
  then have b: "ps_blocks st' = ps_blocks st" by (simp add: ps_blocks_def assms(3))
  have "fs \<noteq> []" using assms(1,2) by (auto simp: vspace_inv_def nodes_ok_def)
  then have "nodes_ok st'" using assms(1) b by (simp add: vspace_inv_def nodes_ok_def assms(3))
  moreover have "tables_ok k st'"
    using assms(1) by (simp add: vspace_inv_def tables_ok_def l1_ok_def l2_ok_def assms(3))
  moreover have "region_ok k st' u = region_ok k st u" for u
    using covers_l2 [of st' st k] by (simp add: region_ok_def assms(3))
  ultimately show "vspace_inv k st'" using assms(1) by (simp add: vspace_inv_def assms(3))
qed

text \<open>The nodes after the first fit gives up its start: what was taken is apart from all that is left.\<close>

lemma paging_alloc_ok:
  assumes inv: "vspace_inv k st" "space_inv k st" and take: "vspace_take bytes (free_vspace st) = Some (buf, fs)"
    and bytes: "unat bytes mod 4096 = 0" "unat buf + unat bytes < 2 ^ 32"
  defines "st1 \<equiv> st\<lparr>free_vspace := fs\<rparr>" and "r \<equiv> (unat buf, unat buf + unat bytes)"
  shows "paging_alloc st bytes = Ok (buf, st1)" "vspace_inv k st1" "vtrans k st1 = vtrans k st" "unat buf mod 4096 = 0"
    "sorted_wrt apart (r # ps_ranges st1)" "space_inv k st1" "in_range va r \<Longrightarrow> vtrans k st va = None"
proof -
  show "paging_alloc st bytes = Ok (buf, st1)" using take by (simp add: paging_alloc_def st1_def)
  obtain pre f f' post where f: "free_vspace st = pre @ f # post" "bytes \<le> pf_size f" "buf = pf_base f" "fs = pre @ f' # post"
    "f' = f\<lparr>pf_base := ROUND_UP_PAGE (buf + bytes), pf_size := pf_size f - (bytes + (ROUND_UP_PAGE (buf + bytes) - (buf + bytes)))\<rparr>"
    using vspace_take_cases [OF take] by blast
  have al: "unat buf mod 4096 = 0" "snd (free_range f) \<le> 2 ^ 32" using inv(2) f(1,3) by (simp_all add: space_inv_def)
  then show "unat buf mod 4096 = 0" by simp
  have sum: "unat (buf + bytes) = unat buf + unat bytes" using unat_plus_less [of buf bytes] bytes(2) by simp
  have "f' = f\<lparr>pf_base := buf + bytes, pf_size := pf_size f - bytes\<rparr>"
    using page_mult_round_up [of "buf + bytes"] aligned_add [OF al(1) bytes(1)] f(5) by simp
  then have f': "free_range f' = (unat buf + unat bytes, snd (free_range f))" "pf_addr f' = pf_addr f" "pf_base f' = buf + bytes"
    using sum unat_minus_le [of bytes "pf_size f"] f(2,3) by (simp_all add: free_range_def word_le_nat_alt)
  have fr: "fst (free_range f) = unat buf" "unat buf + unat bytes \<le> snd (free_range f)"
    using f(2,3) by (simp_all add: free_range_def word_le_nat_alt)
  show v1: "vspace_inv k st1" "vtrans k st1 = vtrans k st"
    using free_nodes_ok [OF inv(1), of fs st1] f(1,4) f'(2) by (simp_all add: st1_def)
  let ?A = "map used_range (ps_mappings st) @ map free_range pre" and ?B = "map free_range post"
  have R: "ps_ranges st = ?A @ free_range f # ?B" "ps_ranges st1 = ?A @ free_range f' # ?B"
    by (simp_all add: ps_ranges_def st1_def f(1,4))
  have "sorted_wrt apart (?A @ free_range f # ?B)" using inv(2) R(1) by (simp add: space_inv_def)
  then have s: "sorted_wrt apart (?A @ ?B)" "\<forall>s \<in> set (?A @ ?B). apart (free_range f) s" unfolding sorted_apart_insert by blast+
  have "apart r s \<and> apart (free_range f') s" if "s \<in> set (?A @ ?B)" for s
  proof -
    have "apart (free_range f) s" using s(2) that by blast
    then show ?thesis unfolding apart_def r_def f'(1) using fr by (auto simp: apart_def)
  qed
  then show s1: "sorted_wrt apart (r # ps_ranges st1)"
    using s(1) unfolding R(2) sorted_wrt.simps sorted_apart_insert by (auto simp: r_def f'(1) apart_def)
  have mem: "in_range va (free_range f') \<or> in_range va r \<Longrightarrow> in_range va (free_range f)" for va
    using fr by (auto simp: in_range_def r_def f'(1))
  have f_none: "in_range va (free_range f) \<Longrightarrow> vtrans k st va = None" for va using inv(2) f(1) unfolding space_inv_def by auto
  then show "in_range va r \<Longrightarrow> vtrans k st va = None" using mem by blast
  have free: "unat (pf_base g) mod 4096 = 0 \<and> snd (free_range g) \<le> 2 ^ 32 \<and>
      (\<forall>va. in_range va (free_range g) \<longrightarrow> vtrans k st va = None)" if "g \<in> set fs" for g
  proof (cases "g = f'")
    case True
    then show ?thesis using f' al aligned_add [OF al(1) bytes(1)] mem f_none by auto
  next
    case False
    then have "g \<in> set (free_vspace st)" using that f(1,4) by auto
    then show ?thesis using inv(2) unfolding space_inv_def by blast
  qed
  have "translated k st1 u = translated k st u" for u using v1(2) by (simp add: translated_def)
  then show "space_inv k st1" using inv(2) s1 free v1(2) by (simp add: space_inv_def st1_def)
qed

section \<open>Mapping and unmapping\<close>

lemma map_range_in: "in_range va (unat v, unat v + n) \<Longrightarrow> map_range v n pa ap T va = Some (pa + (va - v), ap)"
  by (simp add: map_range_def in_range_def)

lemma map_range_out: "apart (unat v, unat v + n) r \<Longrightarrow> in_range va r \<Longrightarrow> map_range v n pa ap T va = T va"
  by (auto simp: map_range_def in_range_def apart_def)

lemma unmap_range_in: "in_range va (lo, hi) \<Longrightarrow> unmap_range lo hi T va = None"
  by (simp add: unmap_range_def in_range_def)

lemma unmap_range_out: "apart (lo, hi) r \<Longrightarrow> in_range va r \<Longrightarrow> unmap_range lo hi T va = T va"
  by (auto simp: unmap_range_def in_range_def apart_def)

lemma translated_same:
  assumes "translated k st u" "\<And>va. in_range va (used_range u) \<Longrightarrow> vtrans k' st' va = vtrans k st va"
  shows "translated k' st' u"
  using assms unfolding translated_def by metis

lemma map_fixed_space:
  assumes inv: "space_inv k st" and new: "sorted_wrt apart ((unat v, unat v + unat bytes) # ps_ranges st)"
    and v: "unat v mod 4096 = 0" "bytes \<noteq> 0" "unat v + unat bytes \<le> 2 ^ 31"
    and st': "vtrans k' st' = map_range v (unat bytes) pa ap (vtrans k st)" "free_vspace st' = free_vspace st"
      "ps_mappings st' = u # ps_mappings st" "pu_start u = v" "pu_size u = bytes"
  shows "space_inv k' st'"
proof -
  let ?r = "(unat v, unat v + unat bytes)"
  have u: "used_range u = ?r" by (simp add: used_range_def st'(4,5))
  have R: "ps_ranges st' = ?r # ps_ranges st" by (simp add: ps_ranges_def st'(2,3) u)
  have ap: "apart ?r (free_range f)" if "f \<in> set (free_vspace st)" for f using new that by (simp add: ps_ranges_def)
  have "apart ?r (used_range w)" if "w \<in> set (ps_mappings st)" for w using new that by (simp add: ps_ranges_def)
  then have "translated k' st' w" if "w \<in> set (ps_mappings st)" for w
    using inv that translated_same [of k st w k' st'] map_range_out [of v "unat bytes" "used_range w"]
    by (simp add: space_inv_def st'(1))
  moreover have "translated k' st' u"
    unfolding translated_def u st'(1,4) using map_range_in by blast
  moreover have "vtrans k' st' va = None" if "f \<in> set (free_vspace st)" "in_range va (free_range f)" for f va
    using inv that map_range_out [OF ap [OF that(1)] that(2)] unfolding st'(1) space_inv_def by simp
  ultimately show ?thesis
    using inv new R v u unfolding space_inv_def st'(2,3) by (simp add: st'(4,5))
qed

lemma paging_map_frame_attr_ok:
  assumes sup: "supply_ok env ready fresh" and flags: "flags AND NOT KPI_PAGING_FLAGS_MASK = 0"
    and inv: "vspace_inv k st" "space_inv k st" and take: "vspace_take bytes (free_vspace st) = Some (buf, fs)"
    and rdy: "ready (4 * windows (unat buf) (unat bytes) + n) k"
    and blocks: "windows (unat buf) (unat bytes) < slab_freecount (ps_slabs st)" and frame: "frame_ok k frame (unat bytes)"
    and bytes: "unat bytes mod 4096 = 0" "bytes \<noteq> 0" "unat buf + unat bytes \<le> 2 ^ 31"
  shows "\<exists>k' st' u. paging_map_frame_attr env k st bytes frame flags = Ok (buf, k', st') \<and> ready n k' \<and>
    vspace_inv k' st' \<and> space_inv k' st' \<and> ps_mappings st' = u # ps_mappings st \<and> pu_start u = buf \<and> pu_size u = bytes \<and>
    vtrans k' st' = map_range buf (unat bytes) (tb k frame) (kpi_ap10 flags) (vtrans k st)"
proof -
  let ?st = "st\<lparr>free_vspace := fs\<rparr>"
  have "unat buf + unat bytes < 2 ^ 32" using bytes(3) by simp
  note al = paging_alloc_ok [OF inv take bytes(1) this]
  have none: "vtrans k ?st va = None" if "unat buf \<le> unat va" "unat va < unat buf + unat bytes" for va
    using al(7) [of va] that unfolding al(3) by (simp add: in_range_def)
  have blocks1: "windows (unat buf) (unat bytes) < slab_freecount (ps_slabs ?st)" using blocks by simp
  obtain k' st' ms a where m: "paging_map_fixed_attr env k ?st buf frame bytes flags = Ok (k', st')" "ready n k'" "vspace_inv k' st'"
    "vtrans k' st' = map_range buf (unat bytes) (tb k frame) (kpi_ap10 flags) (vtrans k ?st)" "tables_grow ?st st'"
    "ps_mappings st' = \<lparr>pu_addr = a, pu_start = buf, pu_size = bytes, pu_map_list = ms\<rparr> # ps_mappings ?st"
    using paging_map_fixed_attr_ok [OF sup flags al(2) rdy blocks1 frame al(4) bytes(1,3) none] by blast
  have "free_vspace st' = free_vspace ?st" using m(5) by (simp add: tables_grow_def)
  then have "space_inv k' st'"
    using map_fixed_space [OF al(6,5,4) bytes(2,3) m(4) _ m(6)] by simp
  then show ?thesis using m al(1) unfolding al(3) by (auto simp: paging_map_frame_attr_def vs_check_def)
qed

lemma used_apart:
  assumes "space_inv k st" "ps_mappings st = pre @ u # post"
  shows "x \<in> set (pre @ post) \<Longrightarrow> apart (used_range u) (used_range x)"
    "f \<in> set (free_vspace st) \<Longrightarrow> apart (used_range u) (free_range f)"
    "sorted_wrt apart (map used_range (pre @ post) @ map free_range (free_vspace st))"
proof -
  have "sorted_wrt apart (map used_range pre @ used_range u # map used_range post @ map free_range (free_vspace st))"
    using assms by (simp add: space_inv_def ps_ranges_def)
  then show "x \<in> set (pre @ post) \<Longrightarrow> apart (used_range u) (used_range x)"
    "f \<in> set (free_vspace st) \<Longrightarrow> apart (used_range u) (free_range f)"
    "sorted_wrt apart (map used_range (pre @ post) @ map free_range (free_vspace st))"
    unfolding sorted_apart_insert by auto
qed

text \<open>Regions have different starts, so the search of \<open>paging_unmap\<close> finds the region itself.\<close>

lemma used_split_self:
  assumes "space_inv k st" "u \<in> set (ps_mappings st)"
  shows "\<exists>pre post. used_split (pu_start u) (ps_mappings st) = Some (pre, u, post)"
proof -
  obtain pre w post where w: "used_split (pu_start u) (ps_mappings st) = Some (pre, w, post)"
    using used_split_ex [OF assms(2) refl] by blast
  then have s: "ps_mappings st = pre @ w # post" "pu_start w = pu_start u" using used_split_Some by blast+
  have "u = w"
  proof (rule ccontr)
    assume "u \<noteq> w"
    then have "apart (used_range w) (used_range u)" using used_apart(1) [OF assms(1) s(1), of u] assms(2) s(1) by auto
    moreover have "pu_size u \<noteq> 0" "pu_size w \<noteq> 0" using assms s(1) by (auto simp: space_inv_def)
    ultimately show False using s(2) by (auto simp: apart_def used_range_def unsigned_eq_0_iff)
  qed
  then show ?thesis using w by blast
qed

lemma paging_unmap_space:
  assumes inv: "vspace_inv k st" "space_inv k st" and climb: "climb_ok k st" and u: "u \<in> set (ps_mappings st)"
  shows "\<exists>k' st' pre post. paging_unmap env k st (pu_start u) = Ok (k', st') \<and> vspace_inv k' st' \<and> space_inv k' st' \<and>
    vtrans k' st' = unmap_range (fst (used_range u)) (snd (used_range u)) (vtrans k st) \<and>
    ps_mappings st = pre @ u # post \<and> ps_mappings st' = pre @ post \<and> k' = k\<lparr>k_mem := k_mem k'\<rparr>"
proof -
  let ?r = "used_range u"
  obtain pre post where s: "used_split (pu_start u) (ps_mappings st) = Some (pre, u, post)" using used_split_self [OF inv(2) u] by blast
  have us: "ps_mappings st = pre @ u # post" using used_split_Some [OF s] by blast
  have ui: "unat (pu_start u) mod 4096 = 0" "snd ?r \<le> 2 ^ 32" "pu_size u \<noteq> 0" using inv(2) u by (auto simp: space_inv_def)
  obtain k' st' a where m: "paging_unmap env k st (pu_start u) = Ok (k', st')" "vspace_inv k' st'" "k' = k\<lparr>k_mem := k_mem k'\<rparr>"
    "vtrans k' st' = unmap_range (fst ?r) (snd ?r) (vtrans k st)" "ps_mappings st' = pre @ post"
    "free_vspace st' = hd (free_vspace st) # \<lparr>pf_addr = a, pf_base = pu_start u, pf_size = pu_size u\<rparr> # tl (free_vspace st)"
    using paging_unmap_ok [OF inv(1) climb s ui(3), of env] by (auto simp: used_range_def)
  let ?n = "\<lparr>pf_addr = a, pf_base = pu_start u, pf_size = pu_size u\<rparr>"
  obtain h hs where h: "free_vspace st = h # hs" using inv(1) by (cases "free_vspace st") (auto simp: vspace_inv_def nodes_ok_def)
  note ap = used_apart [OF inv(2) us]
  have n: "free_range ?n = ?r" by (simp add: free_range_def used_range_def)
  have R: "ps_ranges st' = (map used_range (pre @ post) @ [free_range h]) @ ?r # map free_range hs"
    by (simp add: ps_ranges_def m(5,6) h n)
  have "sorted_wrt apart (ps_ranges st')"
    unfolding R sorted_apart_insert using ap h by auto
  moreover have "vtrans k' st' va = None" if "f \<in> set (free_vspace st')" "in_range va (free_range f)" for f va
  proof (cases "f = ?n")
    case True
    then show ?thesis using that(2) n unfolding m(4) by (intro unmap_range_in) simp
  next
    case False
    then have f: "f \<in> set (free_vspace st)" using that(1) m(6) h by auto
    then have "vtrans k st va = None" using inv(2) that(2) unfolding space_inv_def by blast
    then show ?thesis using unmap_range_out [of "fst ?r" "snd ?r"] ap(2) [OF f] that(2) unfolding m(4) by simp
  qed
  moreover have "translated k' st' w" if "w \<in> set (pre @ post)" for w
  proof (rule translated_same)
    show "translated k st w" using inv(2) us that by (auto simp: space_inv_def)
    show "vtrans k' st' va = vtrans k st va" if "in_range va (used_range w)" for va
      using unmap_range_out [of "fst ?r" "snd ?r"] ap(1) [OF \<open>w \<in> set (pre @ post)\<close>] that unfolding m(4) by simp
  qed
  ultimately have "space_inv k' st'"
    using inv(2) ui n unfolding space_inv_def m(5) us by (auto simp: m(6) h)
  then show ?thesis using m us by blast
qed

section \<open>Page faults\<close>

text \<open>What the handler relies on: \<open>frame_alloc\<close> returns a page in a slot that was empty, and leaves the rest alone.\<close>

definition frame_supply ::
    "'z kernel_scheme vs_env \<Rightarrow> (nat \<Rightarrow> 'z kernel_scheme \<Rightarrow> bool) \<Rightarrow> bool" where
  "frame_supply env ready \<longleftrightarrow>
     (\<forall>n k st. ready (Suc n) k \<longrightarrow> (\<exists>f k'. vs_frame_alloc env PAGE_BYTES k st = Ok ((f, PAGE_BYTES), k', st) \<and>
        keeps k k' \<and> ready n k' \<and> ktype k f = 0 \<and> frame_ok k' f 4096))"

lemma frame_supplyD:
  assumes "frame_supply env ready" "ready (Suc n) k"
  shows "\<exists>f k'. vs_frame_alloc env PAGE_BYTES k st = Ok ((f, PAGE_BYTES), k', st) \<and> keeps k k' \<and> ready n k' \<and>
    ktype k f = 0 \<and> frame_ok k' f 4096"
  using assms unfolding frame_supply_def by blast

lemma keeps_space:
  assumes "keeps k k'" "vspace_inv k st" "space_inv k st"
  shows "vspace_inv k' st" "space_inv k' st" "vtrans k' st = vtrans k st"
proof -
  have tok: "tables_ok k st" using assms(2) by (simp add: vspace_inv_def)
  note t = keeps_tables [OF assms(1) tok]
  show v: "vtrans k' st = vtrans k st" by (rule t(2))
  have "region_ok k' st u" if "region_ok k st u" for u
    using that covers_kept [OF tok keeps_caps [OF assms(1)], of st] by (simp add: region_ok_def tables_grow_def)
  then show "vspace_inv k' st" using assms(2) t(1) by (simp add: vspace_inv_def)
  show "space_inv k' st" using assms(3) v by (simp add: space_inv_def translated_def)
qed

lemma fault_page:
  fixes addr :: u32
  defines "v \<equiv> addr - addr mod PAGE_BYTES"
  assumes "addr < MEMORY_OFFSET"
  shows "unat v = unat addr div 4096 * 4096" "unat v mod 4096 = 0" "unat v + 4096 \<le> 2 ^ 31" "windows (unat v) 4096 = 1"
proof -
  have m: "unat (addr mod PAGE_BYTES) = unat addr mod 4096" by (simp add: unat_mod_distrib)
  then have "addr mod PAGE_BYTES \<le> addr" by (simp add: word_le_nat_alt)
  then have e: "unat v = unat addr - unat addr mod 4096" using unat_minus_le [of "addr mod PAGE_BYTES" addr] m unfolding v_def by simp
  then show d: "unat v = unat addr div 4096 * 4096" by (simp add: minus_mod_eq_div_mult)
  then show al: "unat v mod 4096 = 0" by simp
  have lt: "unat v < 2 ^ 31" using assms(2) e by (simp add: word_less_nat_alt)
  then show "unat v + 4096 \<le> 2 ^ 31" using aligned_apart [of "unat v" 4096 "2 ^ 31"] al by simp
  define q r where "q = unat v div 2 ^ 20" and "r = unat v mod 2 ^ 20"
  have qr: "unat v = 2 ^ 20 * q + r" "r < 2 ^ 20" by (simp_all add: q_def r_def)
  have "r mod 4096 = 0" using al mod_mod_cancel [of 4096 "2 ^ 20" "unat v"] by (simp add: r_def)
  then have "r + 4096 \<le> 2 ^ 20" using aligned_apart [of r 4096 "2 ^ 20"] qr(2) by simp
  then have "(unat v + 4096 - 1) div 2 ^ 20 = q" using qr by (intro div_nat_eqI) simp_all
  then show "windows (unat v) 4096 = 1" by (simp add: windows_def q_def)
qed

lemma pagefault_ok:
  assumes sup: "supply_ok env ready fresh" "frame_supply env ready" and inv: "vspace_inv k st" "space_inv k st"
    and rdy: "ready (5 + n) k" and blocks: "2 \<le> slab_freecount (ps_slabs st)"
    and addr: "addr \<noteq> 0" "addr < MEMORY_OFFSET" "stack \<le> sp" "sp \<le> stack_top"
  defines "v \<equiv> addr - addr mod PAGE_BYTES"
  assumes new: "\<And>r. r \<in> set (ps_ranges st) \<Longrightarrow> apart (unat v, unat v + 4096) r"
    "\<And>va. in_range va (unat v, unat v + 4096) \<Longrightarrow> vtrans k st va = None"
  shows "\<exists>k' st' f. pagefault_handler env k st sp stack stack_top addr = Ok (Resumed, k', st') \<and> ready n k' \<and>
    vspace_inv k' st' \<and> space_inv k' st' \<and> ktype k f = 0 \<and> ktype k' f \<in> {ObjType_Frame, ObjType_DevFrame} \<and>
    vtrans k' st' = map_range v 4096 (tb k' f) 3 (vtrans k st)"
proof -
  note p = fault_page [OF addr(2), folded v_def]
  obtain f k1 where f: "vs_frame_alloc env PAGE_BYTES k st = Ok ((f, PAGE_BYTES), k1, st)" "keeps k k1" "ready (4 + n) k1"
    "ktype k f = 0" "frame_ok k1 f 4096"
    using frame_supplyD [OF sup(2), of "4 + n" k st] rdy by auto
  note k1 = keeps_space [OF f(2) inv]
  have rw: "VREGION_FLAGS_READ_WRITE AND NOT KPI_PAGING_FLAGS_MASK = 0" "kpi_ap10 VREGION_FLAGS_READ_WRITE = 3" by (simp_all add: kpi_ap10_def)
  have w: "ready (4 * windows (unat v) (unat PAGE_BYTES) + n) k1" "windows (unat v) (unat PAGE_BYTES) < slab_freecount (ps_slabs st)"
    "frame_ok k1 f (unat PAGE_BYTES)" "unat PAGE_BYTES mod 4096 = 0" "unat v + unat PAGE_BYTES \<le> 2 ^ 31" using f(3,5) blocks p by simp_all
  have none: "vtrans k1 st va = None" if "unat v \<le> unat va" "unat va < unat v + unat PAGE_BYTES" for va
    using new(2) [of va] that unfolding k1(3) by (simp add: in_range_def)
  obtain k' st' ms a where m: "paging_map_fixed_attr env k1 st v f PAGE_BYTES VREGION_FLAGS_READ_WRITE = Ok (k', st')" "ready n k'"
    "vspace_inv k' st'" "vtrans k' st' = map_range v 4096 (tb k1 f) 3 (vtrans k st)" "caps_kept k1 k'" "tables_grow st st'"
    "ps_mappings st' = \<lparr>pu_addr = a, pu_start = v, pu_size = PAGE_BYTES, pu_map_list = ms\<rparr> # ps_mappings st"
    using paging_map_fixed_attr_ok [OF sup(1) rw(1) k1(1) w(1,2,3) p(2) w(4,5) none] rw(2) k1(3) by auto
  have "sorted_wrt apart ((unat v, unat v + unat PAGE_BYTES) # ps_ranges st)" using new(1) inv(2) by (simp add: space_inv_def)
  then have "space_inv k' st'"
    using map_fixed_space [OF k1(2) _ p(2) _ w(5) _ _ m(7), of k' "tb k1 f" 3] m(4,6) k1(3) by (simp add: tables_grow_def)
  moreover have "ktype k' f = ktype k1 f" "tb k' f = tb k1 f" "ktype k1 f \<in> {ObjType_Frame, ObjType_DevFrame}"
    using caps_kept_slot [OF m(5), of f] f(5) by (auto simp: frame_ok_def)
  moreover have "pagefault_handler env k st sp stack stack_top addr = Ok (Resumed, k', st')"
    using addr(1) f(1) m(1) leD [OF addr(3)] leD [OF addr(4)] less_not_sym [OF addr(2)]
    by (simp add: pagefault_handler_def Let_def vs_check_def v_def [symmetric])
  ultimately show ?thesis using m(2,3,4) f(4) by auto
qed

section \<open>Sessions\<close>

text \<open>
  The uses of an address space: mapping a frame where the free list says, when the environment
  and the slab allocator have what it takes, and unmapping a region.
\<close>

inductive vs_step ::
    "'z kernel_scheme vs_env \<Rightarrow> (nat \<Rightarrow> 'z kernel_scheme \<Rightarrow> bool) \<Rightarrow>
     'z kernel_scheme \<times> paging_state \<Rightarrow> 'z kernel_scheme \<times> paging_state \<Rightarrow> bool"
  for env ready where
  step_map: "vs_step env ready (k, st) (k', st')"
    if "vspace_take bytes (free_vspace st) = Some (buf, fs)" "unat buf + unat bytes \<le> 2 ^ 31"
      "unat bytes mod 4096 = 0" "bytes \<noteq> 0" "flags AND NOT KPI_PAGING_FLAGS_MASK = 0" "frame_ok k frame (unat bytes)"
      "ready (4 * windows (unat buf) (unat bytes)) k" "windows (unat buf) (unat bytes) < slab_freecount (ps_slabs st)"
      "paging_map_frame_attr env k st bytes frame flags = Ok (buf, k', st')"
| step_unmap: "vs_step env ready (k, st) (k', st')"
    if "u \<in> set (ps_mappings st)" "climb_db k st" "paging_unmap env k st (pu_start u) = Ok (k', st')"

lemma vs_step_inv:
  assumes "supply_ok env ready fresh"
  shows "vs_step env ready s t \<Longrightarrow> vspace_inv (fst s) (snd s) \<and> space_inv (fst s) (snd s) \<Longrightarrow>
    vspace_inv (fst t) (snd t) \<and> space_inv (fst t) (snd t)"
proof (induction rule: vs_step.induct)
  case (step_map bytes st buf fs flags k frame k' st')
  then have i: "vspace_inv k st" "space_inv k st" by simp_all
  show ?case
    using paging_map_frame_attr_ok [OF assms step_map(5) i step_map(1), of 0 frame] step_map by auto
next
  case (step_unmap u st k k' st')
  then show ?case using paging_unmap_space [OF _ _ climb_db_ok, of k st u env] by auto
qed

lemma vs_session_inv:
  assumes "supply_ok env ready fresh" "(vs_step env ready)\<^sup>*\<^sup>* (k, st) (k', st')" "vspace_inv k st" "space_inv k st"
  shows "vspace_inv k' st' \<and> space_inv k' st'"
proof -
  have "vspace_inv (fst s) (snd s) \<and> space_inv (fst s) (snd s)" if "(vs_step env ready)\<^sup>*\<^sup>* (k, st) s" for s
    using that
  proof (induction rule: rtranclp_induct)
    case base
    then show ?case using assms(3,4) by simp
  next
    case (step s t)
    then show ?case using vs_step_inv [OF assms(1)] by blast
  qed
  then show ?thesis using assms(2) by fastforce
qed

end
