(* ===== verification/Vspace_Supply.thy ===== *)
theory Vspace_Supply
  imports Vspace_Space
begin

text \<open>
  An environment of the paging code that fulfils its contract: the slots, the memory for page
  tables and the frames that the allocators will hand out are lists in the state.
\<close>

record stock = kernel +
  sup_slots :: "u32 list"
  sup_tables :: "u32 list"
  sup_frames :: "u32 list"

definition sup_vnode :: "u32 \<Rightarrow> kcap" where
  "sup_vnode a = null_cap\<lparr>cap_type := ObjType_VNode_ARM_l2, cap_base := ucast a, cap_bytes := 1024\<rparr>"

definition sup_frame :: "u32 \<Rightarrow> kcap" where
  "sup_frame a = null_cap\<lparr>cap_type := ObjType_Frame, cap_base := ucast a, cap_bytes := 4096\<rparr>"

definition sup_add :: "stock \<Rightarrow> u32 \<Rightarrow> kcap \<Rightarrow> stock outcome" where
  "sup_add k s c =
     bind_outcome (mdb_insert (kpreds ((k_ctes k)(s := c))) (k_mdb k)
         (new_cte \<lparr>cap = s, remote_copies = False, remote_ancs = False, remote_descs = False\<rparr>))
       (\<lambda>t. Ok (k\<lparr>k_ctes := (k_ctes k)(s := c), k_mdb := t\<rparr>))"

definition sup_slot_alloc :: "stock \<Rightarrow> paging_state \<Rightarrow> (u32 \<times> stock \<times> paging_state) outcome" where
  "sup_slot_alloc k st =
     (case sup_slots k of
        [] \<Rightarrow> Err LIB_ERR_SLOT_ALLOC
      | s # ss \<Rightarrow> Ok (s, k\<lparr>sup_slots := ss\<rparr>, st))"

definition sup_vnode_create :: "u32 \<Rightarrow> stock \<Rightarrow> paging_state \<Rightarrow> (stock \<times> paging_state) outcome" where
  "sup_vnode_create s k st =
     (case sup_tables k of
        [] \<Rightarrow> Err LIB_ERR_RAM_ALLOC
      | a # as \<Rightarrow>
          bind_outcome (sup_add (k\<lparr>k_mem := fill_entries (\<lambda>_. 0) (k_mem k) (a + 4 * 0) 0 256, sup_tables := as\<rparr>) s (sup_vnode a))
            (\<lambda>k. Ok (k, st)))"

definition sup_frame_alloc :: "u32 \<Rightarrow> stock \<Rightarrow> paging_state \<Rightarrow> ((u32 \<times> u32) \<times> stock \<times> paging_state) outcome" where
  "sup_frame_alloc bytes k st =
     (case (sup_slots k, sup_frames k) of
        (s # ss, a # as) \<Rightarrow>
          bind_outcome (sup_add (k\<lparr>sup_slots := ss, sup_frames := as\<rparr>) s (sup_frame a)) (\<lambda>k. Ok ((s, PAGE_BYTES), k, st))
      | _ \<Rightarrow> Err LIB_ERR_RAM_ALLOC)"

definition sup_env :: "stock vs_env" where
  "sup_env = \<lparr>vs_slot_alloc = sup_slot_alloc, vs_vnode_create = sup_vnode_create, vs_frame_alloc = sup_frame_alloc,
     vs_slab_refill = (\<lambda>_ _. Err LIB_ERR_SLAB_ALLOC_FAIL)\<rparr>"

definition sup_ready :: "nat \<Rightarrow> stock \<Rightarrow> bool" where
  "sup_ready n k \<longleftrightarrow> mdb_wf (kpreds (k_ctes k)) (k_mdb k) \<and> n \<le> length (sup_slots k) \<and> n \<le> length (sup_tables k) \<and>
     n \<le> length (sup_frames k) \<and> (\<forall>a \<in> set (sup_frames k). unat a mod 4096 = 0) \<and>
     distinct (sup_slots k) \<and> (\<forall>s \<in> set (sup_slots k). ktype k s = 0) \<and> distinct (sup_tables k) \<and>
     (\<forall>a \<in> set (sup_tables k). unat a mod 1024 = 0 \<and>
        (\<forall>p. type_is_vnode (ktype k p) \<longrightarrow> unat a + 1024 \<le> unat (tb k p) \<or> unat (tb k p) + unat (ksize k p) \<le> unat a))"

definition sup_fresh :: "stock \<Rightarrow> u32 \<Rightarrow> bool" where
  "sup_fresh k s \<longleftrightarrow> s \<notin> set (sup_slots k)"

lemma sup_add_ok:
  assumes "mdb_wf (kpreds (k_ctes k)) (k_mdb k)" "ktype k s = 0" "cap_type c \<noteq> 0"
  shows "\<exists>t. sup_add k s c = Ok (k\<lparr>k_ctes := (k_ctes k)(s := c), k_mdb := t\<rparr>) \<and> mdb_wf (kpreds ((k_ctes k)(s := c))) t"
  using insert_mapping_ok [OF assms(1) _ assms(3), of s] assms(2) by (auto simp: sup_add_def ktype_def)

text \<open>Adding a capability to a slot outside the stock that overlaps nothing keeps the stock usable.\<close>

lemma sup_ready_fill:
  assumes "sup_ready n k" "sup_fresh k s" "mdb_wf (kpreds ((k_ctes k)(s := c))) t"
    "k' = k\<lparr>k_mem := mem, k_ctes := (k_ctes k)(s := c), k_mdb := t\<rparr>"
    "type_is_vnode (cap_type c) \<Longrightarrow>
      (\<forall>a \<in> set (sup_tables k). unat a + 1024 \<le> unat (tb k' s) \<or> unat (tb k' s) + unat (ksize k' s) \<le> unat a)"
  shows "sup_ready n k'"
proof -
  have other: "ktype k' p = ktype k p" "tb k' p = tb k p" "ksize k' p = ksize k p" if "p \<noteq> s" for p
    using that by (simp_all add: assms(4) ktype_def tb_def ksize_def kaddress_def)
  have s: "ktype k' s = cap_type c" by (simp add: assms(4) ktype_def)
  have "ktype k' x = 0" if "x \<in> set (sup_slots k)" for x
    using assms(1,2) other(1) [of x] that by (auto simp: sup_ready_def sup_fresh_def)
  moreover have "unat a + 1024 \<le> unat (tb k' p) \<or> unat (tb k' p) + unat (ksize k' p) \<le> unat a"
    if "a \<in> set (sup_tables k)" "type_is_vnode (ktype k' p)" for a p
    using assms(1,5) other [of p] s that by (cases "p = s") (auto simp: sup_ready_def)
  moreover have "sup_slots k' = sup_slots k" "sup_tables k' = sup_tables k" "sup_frames k' = sup_frames k" by (simp_all add: assms(4))
  ultimately show ?thesis using assms(1,3) by (auto simp: sup_ready_def assms(4))
qed

lemma sup_ready_less:
  assumes "sup_ready (Suc n) k"
  shows "sup_ready n k" "sup_slots k = s # ss \<Longrightarrow> sup_ready n (k\<lparr>sup_slots := ss\<rparr>)"
    "sup_slots k = s # ss \<Longrightarrow> sup_frames k = a # as \<Longrightarrow> sup_ready n (k\<lparr>sup_slots := ss, sup_frames := as\<rparr>)"
    "sup_tables k = a # as \<Longrightarrow> sup_ready n (k\<lparr>k_mem := mem, sup_tables := as\<rparr>)"
  using assms by (auto simp: sup_ready_def ktype_def tb_def ksize_def kaddress_def)

lemma sup_vnode_ok:
  assumes "sup_ready (Suc n) k" "sup_fresh k s" "ktype k s = 0"
  shows "\<exists>k'. sup_vnode_create s k st = Ok (k', st) \<and> new_table k s k' \<and> sup_ready n k'"
proof -
  obtain a as where as: "sup_tables k = a # as" using assms(1) by (cases "sup_tables k") (auto simp: sup_ready_def)
  let ?k = "k\<lparr>k_mem := fill_entries (\<lambda>_. 0) (k_mem k) (a + 4 * 0) 0 256, sup_tables := as\<rparr>"
  have r: "sup_ready n ?k" "sup_fresh ?k s" using sup_ready_less(4) [OF assms(1) as] assms(2) by (simp_all add: sup_fresh_def)
  obtain t where t: "sup_add ?k s (sup_vnode a) = Ok (?k\<lparr>k_ctes := (k_ctes k)(s := sup_vnode a), k_mdb := t\<rparr>)"
    "mdb_wf (kpreds ((k_ctes k)(s := sup_vnode a))) t"
    using sup_add_ok [of ?k s "sup_vnode a"] r(1) assms(3) by (auto simp: sup_ready_def sup_vnode_def ktype_def)
  let ?k' = "?k\<lparr>k_ctes := (k_ctes k)(s := sup_vnode a), k_mdb := t\<rparr>"
  have s: "ktype ?k' s = ObjType_VNode_ARM_l2" "ksize ?k' s = 1024" "tb ?k' s = a"
    using memory_types [of ?k' s] by (simp_all add: ktype_def tb_def sup_vnode_def null_cap_def)
  have apart: "unat a + 1024 \<le> unat (tb k p) \<or> unat (tb k p) + unat (ksize k p) \<le> unat a" if "type_is_vnode (ktype k p)" for p
    using assms(1) as that by (simp add: sup_ready_def)
  have al: "unat a mod 1024 = 0" "\<forall>b \<in> set as. unat b mod 1024 = 0 \<and> b \<noteq> a" using assms(1) as by (auto simp: sup_ready_def)
  have "keeps k ?k'"
    unfolding keeps_def
  proof (intro conjI allI impI)
    show "k_ctes ?k' p = k_ctes k p" if "ktype k p \<noteq> 0" for p using that assms(3) by auto
    fix p b :: u32 assume p: "type_is_vnode (ktype k p)" "unat (tb k p) \<le> unat b" "unat b < unat (tb k p) + unat (ksize k p)"
    have "b \<noteq> a + 4 * y" if "unat y < 256" for y
      using table_address [of a 1024 y] al(1) that apart [OF p(1)] p(2,3) by auto
    then show "k_mem ?k' b = k_mem k b" using fill_table_other [of 0 256 b a] by simp
  qed
  moreover have "k_mem ?k' (a + 4 * y) = 0" if "unat y < 256" for y
    using fill_table_at [of 0 256 y "\<lambda>_. 0" "k_mem k" a] that by simp
  moreover have "table_apart ?k' s p" if p: "type_is_vnode (ktype k p)" for p
  proof -
    have "p \<noteq> s" using p assms(3) by (auto simp: type_is_vnode_def)
    then have "tb ?k' p = tb k p" "ksize ?k' p = ksize k p" by (simp_all add: tb_def ksize_def kaddress_def)
    then show ?thesis using apart [OF p] s by (simp add: table_apart_def)
  qed
  moreover have "sup_ready n ?k'"
  proof (rule sup_ready_fill [OF r, of "sup_vnode a" t])
    show "mdb_wf (kpreds ((k_ctes ?k)(s := sup_vnode a))) t" using t(2) by simp
    show "?k' = ?k\<lparr>k_mem := k_mem ?k, k_ctes := (k_ctes ?k)(s := sup_vnode a), k_mdb := t\<rparr>" by simp
    show "\<forall>b \<in> set (sup_tables ?k). unat b + 1024 \<le> unat (tb ?k' s) \<or> unat (tb ?k' s) + unat (ksize ?k' s) \<le> unat b"
      using s al aligned_apart [of _ 1024 "unat a"] by (simp add: word_unat_eq_iff)
  qed
  ultimately show ?thesis using as t(1) s al(1) by (simp add: sup_vnode_create_def new_table_def)
qed

text \<open>The environment fulfils the contract.\<close>

lemma sup_slot_ok:
  assumes "sup_ready (Suc n) k"
  shows "\<exists>s k'. sup_slot_alloc k st = Ok (s, k', st) \<and> sup_fresh k' s \<and> ktype k' s = 0 \<and> keeps k k' \<and> sup_ready n k'"
proof -
  obtain s ss where ss: "sup_slots k = s # ss" using assms by (cases "sup_slots k") (auto simp: sup_ready_def)
  let ?k = "k\<lparr>sup_slots := ss\<rparr>"
  have "sup_slot_alloc k st = Ok (s, ?k, st)" using ss by (simp add: sup_slot_alloc_def)
  moreover have "sup_fresh ?k s" "ktype ?k s = 0" using assms ss by (auto simp: sup_ready_def sup_fresh_def ktype_def)
  moreover have "keeps k ?k" by (simp add: keeps_def)
  ultimately show ?thesis using sup_ready_less(2) [OF assms ss] by blast
qed

lemma sup_supply_ok: "supply_ok sup_env sup_ready sup_fresh"
  unfolding supply_ok_def
proof (intro conjI allI impI)
  show "mdb_wf (kpreds (k_ctes k)) (k_mdb k)" if "sup_ready n k" for n k using that by (simp add: sup_ready_def)
  show "sup_ready n k" if "sup_ready (Suc n) k" for n k by (rule sup_ready_less(1) [OF that])
  show "\<exists>s k'. vs_slot_alloc sup_env k st = Ok (s, k', st) \<and> sup_fresh k' s \<and> ktype k' s = 0 \<and> keeps k k' \<and> sup_ready n k'"
    if "sup_ready (Suc n) k" for n k st using sup_slot_ok [OF that] by (simp add: sup_env_def)
  show "\<exists>k'. vs_vnode_create sup_env s k st = Ok (k', st) \<and> new_table k s k' \<and> sup_ready n k'"
    if "sup_ready (Suc n) k" "sup_fresh k s" "ktype k s = 0" for n k st s
    using sup_vnode_ok [OF that] by (simp add: sup_env_def)
  fix n s x mem t and k :: stock
  assume a: "sup_ready n k" "sup_fresh k s" "ktype k s = 0" "type_is_mapping (cap_type x)" "mdb_wf (kpreds ((k_ctes k)(s := x))) t"
  have "\<not> type_is_vnode (cap_type x)" using a(4) by (auto simp: type_is_mapping_def type_is_vnode_def)
  then show "sup_ready n (k\<lparr>k_mem := mem, k_ctes := (k_ctes k)(s := x), k_mdb := t\<rparr>)"
    using sup_ready_fill [OF a(1,2,5), where mem = mem] by simp
qed

lemma sup_frame_supply: "frame_supply sup_env sup_ready"
  unfolding frame_supply_def
proof (intro allI impI)
  fix n st and k :: stock assume r: "sup_ready (Suc n) k"
  obtain s ss a as where ss: "sup_slots k = s # ss" "sup_frames k = a # as"
    using r by (cases "sup_slots k"; cases "sup_frames k") (auto simp: sup_ready_def)
  have a: "unat a mod 4096 = 0" "ktype k s = 0" "s \<notin> set ss" "mdb_wf (kpreds (k_ctes k)) (k_mdb k)"
    using r ss by (auto simp: sup_ready_def)
  let ?k = "k\<lparr>sup_slots := ss, sup_frames := as\<rparr>"
  have r1: "sup_ready n ?k" "sup_fresh ?k s" using sup_ready_less(3) [OF r ss] a(3) by (simp_all add: sup_fresh_def)
  obtain t where t: "sup_add ?k s (sup_frame a) = Ok (?k\<lparr>k_ctes := (k_ctes ?k)(s := sup_frame a), k_mdb := t\<rparr>)"
    "mdb_wf (kpreds ((k_ctes ?k)(s := sup_frame a))) t"
    using sup_add_ok [of ?k s "sup_frame a"] a(2,4) by (auto simp: sup_frame_def ktype_def)
  let ?k' = "?k\<lparr>k_ctes := (k_ctes ?k)(s := sup_frame a), k_mdb := t\<rparr>"
  have "\<not> type_is_vnode (cap_type (sup_frame a))" by (simp add: sup_frame_def type_is_vnode_def)
  then have "sup_ready n ?k'" using sup_ready_fill [OF r1 t(2), of ?k' "k_mem ?k"] by simp
  moreover have "keeps k ?k'" using a(2) by (auto simp: keeps_def)
  moreover have "ktype ?k' s = ObjType_Frame" "ksize ?k' s = 4096" "kaddress ?k' s = ucast a"
    using memory_types [of ?k' s] by (simp_all add: ktype_def sup_frame_def)
  then have "frame_ok ?k' s 4096" using a(1) by (simp add: frame_ok_def unat_ucast_64)
  moreover have "vs_frame_alloc sup_env PAGE_BYTES k st = Ok ((s, PAGE_BYTES), ?k', st)"
    using t(1) ss by (simp add: sup_env_def sup_frame_alloc_def)
  ultimately show "\<exists>f k'. vs_frame_alloc sup_env PAGE_BYTES k st = Ok ((f, PAGE_BYTES), k', st) \<and> keeps k k' \<and> sup_ready n k' \<and>
      ktype k f = 0 \<and> frame_ok k' f 4096" using a(2) by blast
qed

end
