(* ===== verification/Vspace_Examples.thy ===== *)
theory Vspace_Examples
  imports Vspace_Supply
begin

text \<open>
  Two small systems: one right after the start, with a level 1 table and a frame, and one with
  one page of the frame mapped.
\<close>

section \<open>An empty address space\<close>

definition vm_cap :: "nat \<Rightarrow> u64 \<Rightarrow> u64 \<Rightarrow> kcap" where
  "vm_cap ty base bytes = null_cap\<lparr>cap_type := ty, cap_base := base, cap_bytes := bytes\<rparr>"

definition vm_slots :: "u32 \<Rightarrow> kcap" where
  "vm_slots p =
     (if p = 1 then vm_cap ObjType_VNode_ARM_l1 0x80000000 0x4000
      else if p = 2 then vm_cap ObjType_Frame 0x90000000 0x200000
      else null_cap)"

definition vm_kernel :: stock where
  "vm_kernel = \<lparr>k_mem = (\<lambda>_. 0), k_ctes = vm_slots, k_mdb = Null,
     sup_slots = [16, 17, 18, 19, 20, 21, 22, 23],
     sup_tables = [0x80010000, 0x80010400, 0x80010800, 0x80010C00, 0x80011000, 0x80011400, 0x80011800, 0x80011C00],
     sup_frames = [0xA0000000, 0xA0001000, 0xA0002000, 0xA0003000, 0xA0004000, 0xA0005000, 0xA0006000, 0xA0007000]\<rparr>"

definition vm_slab :: "nat list \<Rightarrow> slab_allocator" where
  "vm_slab bs = \<lparr>slabs = [\<lparr>sh_addr = 4096, sh_total = 4, sh_free = length bs, sh_blocks = bs\<rparr>], blocksize = 36\<rparr>"

definition vm_space :: paging_state where
  "vm_space = (paging_init_state 0x400000 1 [])\<lparr>ps_slabs := vm_slab [4112, 4148, 4184, 4220]\<rparr>"

lemma vm_slab_ok:
  assumes "set bs \<subseteq> {4112, 4148, 4184, 4220}" "distinct bs"
  shows "slab_inv (vm_slab bs)" "slab_freecount (vm_slab bs) = length bs" "slab_used (vm_slab bs) = {4112, 4148, 4184, 4220} - set bs"
proof -
  have u: "[0..<4] = [0, 1, 2, 3 :: nat]" by (simp add: upt_conv_Cons)
  have b: "set (slab_block_list 36 \<lparr>sh_addr = 4096, sh_total = 4, sh_free = length bs, sh_blocks = bs\<rparr>) = {4112, 4148, 4184, 4220}"
    by (simp add: slab_block_list_def SLAB_HEAD_SIZE_def u)
  then show "slab_inv (vm_slab bs)" using assms by (simp add: slab_inv_def slab_ok_def vm_slab_def)
  show "slab_freecount (vm_slab bs) = length bs" by (simp add: freecount_sum vm_slab_def)
  show "slab_used (vm_slab bs) = {4112, 4148, 4184, 4220} - set bs" using b by (simp add: slab_used_def vm_slab_def)
qed

lemma vm_fields [simp]:
  "k_mem vm_kernel a = 0" "k_mdb vm_kernel = Null" "k_ctes vm_kernel = vm_slots" "sup_slots vm_kernel = [16, 17, 18, 19, 20, 21, 22, 23]"
  "sup_tables vm_kernel = [0x80010000, 0x80010400, 0x80010800, 0x80010C00, 0x80011000, 0x80011400, 0x80011800, 0x80011C00]"
  "sup_frames vm_kernel = [0xA0000000, 0xA0001000, 0xA0002000, 0xA0003000, 0xA0004000, 0xA0005000, 0xA0006000, 0xA0007000]"
  "ps_slabs vm_space = vm_slab [4112, 4148, 4184, 4220]" "ps_mappings vm_space = []" "l1_page_table vm_space = 1"
  "l2_page_tables vm_space i = None" "free_vspace vm_space = [\<lparr>pf_addr = 0, pf_base = 0x400000, pf_size = 0xFFBFFFFF\<rparr>]"
  by (simp_all add: vm_kernel_def vm_space_def paging_init_state_def)

lemma vm_slot_simps [simp]:
  "ktype vm_kernel p = (if p = 1 then ObjType_VNode_ARM_l1 else if p = 2 then ObjType_Frame else 0)"
  "kaddress vm_kernel 1 = 0x80000000" "kaddress vm_kernel 2 = 0x90000000" "ksize vm_kernel 1 = 0x4000" "ksize vm_kernel 2 = 0x200000"
  "tb vm_kernel 1 = 0x80000000" "tb vm_kernel 2 = 0x90000000"
  by (simp_all add: ktype_def kaddress_def ksize_def tb_def vm_slots_def vm_cap_def null_cap_def capability.truncate_def
      hamlet_address_def hamlet_size_def hamlet_type_root_def)

lemma vm_ready: "sup_ready 8 vm_kernel"
proof -
  have v: "type_is_vnode (ktype vm_kernel p) \<longleftrightarrow> p = 1" for p by (simp add: type_is_vnode_def)
  show ?thesis
    unfolding sup_ready_def v by (simp add: wf_Null)
qed

lemma vm_vtrans [simp]: "vtrans vm_kernel vm_space va = None"
  by (simp add: vtrans_def arm_walk_def L1_TYPE_def)

lemma vm_inv: "vspace_inv vm_kernel vm_space" "space_inv vm_kernel vm_space"
proof -
  have "l1_ok vm_kernel vm_space"
    by (simp add: l1_ok_def L1_TYPE_def)
  then have "tables_ok vm_kernel vm_space" by (simp add: tables_ok_def)
  moreover have "nodes_ok vm_space"
    using vm_slab_ok(1) [of "[4112, 4148, 4184, 4220]"] by (simp add: nodes_ok_def ps_blocks_def)
  ultimately show "vspace_inv vm_kernel vm_space" by (simp add: vspace_inv_def)
  show "space_inv vm_kernel vm_space"
    unfolding space_inv_def by (simp add: ps_ranges_def free_range_def)
qed

section \<open>An address space with one page\<close>

definition vm_mapping :: "nat \<Rightarrow> u64 \<Rightarrow> u32 \<Rightarrow> u32 \<Rightarrow> kcap" where
  "vm_mapping ty base src pte =
     \<lparr>cap_type = ty, cap_base = base, cap_bytes = objsize_mapping, cap_eq_fields = unat pte,
      fm_cap = src, fm_pte = pte, fm_offset = 0, fm_pte_count = 1\<rparr>"

definition vm_used_slots :: "u32 \<Rightarrow> kcap" where
  "vm_used_slots p =
     (if p = 1 then vm_cap ObjType_VNode_ARM_l1 0x80000000 0x4000
      else if p = 2 then vm_cap ObjType_Frame 0x90000000 0x200000
      else if p = 3 then vm_cap ObjType_VNode_ARM_l2 0x80010000 0x400
      else if p = 4 then vm_mapping 30 0x80010000 3 0x80000010
      else if p = 5 then vm_mapping ObjType_Frame_Mapping 0x90000000 2 0x800103FC
      else null_cap)"

definition vm_cte :: "u32 \<Rightarrow> u32 cte" where
  "vm_cte p = \<lparr>cap = p, remote_copies = False, remote_ancs = False, remote_descs = False\<rparr>"

definition vm_mdb :: "u32 mdb" where
  "vm_mdb = (case set_init_mapping (kpreds vm_used_slots) Null (map vm_cte [1, 2, 3, 4, 5]) of Ok t \<Rightarrow> t | _ \<Rightarrow> Null)"

definition vm_used_kernel :: stock where
  "vm_used_kernel =
     \<lparr>k_mem = (\<lambda>_. 0)(0x80000010 := page_table_entry 0x80010000, 0x800103FC := small_page_entry 3 0x90000000),
      k_ctes = vm_used_slots,
      k_mdb = vm_mdb,
      sup_slots = [], sup_tables = [], sup_frames = []\<rparr>"

definition vm_region :: paging_used_node where
  "vm_region = \<lparr>pu_addr = 4112, pu_start = 0x4FF000, pu_size = 4096,
     pu_map_list = [\<lparr>pm_addr = 4148, pm_table = 3, pm_mapping = 5\<rparr>]\<rparr>"

definition vm_used_space :: paging_state where
  "vm_used_space =
     \<lparr>ps_slabs = vm_slab [4184, 4220], free_vspace = [\<lparr>pf_addr = 0, pf_base = 0x500000, pf_size = 0xFFAFFFFF\<rparr>],
      ps_mappings = [vm_region], l1_page_table = 1, l2_page_tables = [4 \<mapsto> 3]\<rparr>"

lemma vm_used_fields [simp]:
  "k_mem vm_used_kernel = (\<lambda>_. 0)(0x80000010 := page_table_entry 0x80010000, 0x800103FC := small_page_entry 3 0x90000000)"
  "k_ctes vm_used_kernel = vm_used_slots" "k_mdb vm_used_kernel = vm_mdb" "ps_slabs vm_used_space = vm_slab [4184, 4220]" "ps_mappings vm_used_space = [vm_region]"
  "l1_page_table vm_used_space = 1" "l2_page_tables vm_used_space = [4 \<mapsto> 3]"
  "free_vspace vm_used_space = [\<lparr>pf_addr = 0, pf_base = 0x500000, pf_size = 0xFFAFFFFF\<rparr>]"
  by (simp_all add: vm_used_kernel_def vm_used_space_def)

lemma cap_vm_cte [simp]: "cap (vm_cte p) = p"
  by (simp add: vm_cte_def)

lemmas vm_eval = vm_used_slots_def vm_cap_def vm_mapping_def null_cap_def capability.truncate_def
  hamlet_address_def hamlet_size_def hamlet_type_root_def

lemma vm_used_mdb: "mdb_wf (kpreds vm_used_slots) vm_mdb" "entries vm_mdb = vm_cte ` {1, 2, 3, 4, 5}"
proof -
  have c: "vm_cte p = vm_cte q \<longleftrightarrow> p = q" for p q by (metis cap_vm_cte)
  obtain t where t: "set_init_mapping (kpreds vm_used_slots) Null (map vm_cte [1, 2, 3, 4, 5]) = Ok t"
    "mdb_wf (kpreds vm_used_slots) t" "entries t = fold slots_insert (map vm_cte [1, 2, 3, 4, 5]) (entries Null)"
    using set_init_mapping_slots [OF kpreds_order wf_Null, of "map vm_cte [1, 2, 3, 4, 5]" vm_used_slots]
    by (force simp: vm_eval simp del: set_init_mapping.simps)
  have "vm_mdb = t" unfolding vm_mdb_def t(1) by simp
  moreover have "fold slots_insert (map vm_cte [1, 2, 3, 4, 5]) (entries Null) = vm_cte ` {1, 2, 3, 4, 5}"
    by (auto simp: slots_insert_def c)
  ultimately show "mdb_wf (kpreds vm_used_slots) vm_mdb" "entries vm_mdb = vm_cte ` {1, 2, 3, 4, 5}" using t(2,3) by simp_all
qed

lemma vm_used_climb: "climb_db vm_used_kernel vm_used_space"
proof -
  have "root_found vm_used_kernel 0x80000010"
    unfolding root_found_def vm_used_fields vm_used_mdb(2)
    by (simp add: range_pre_def covers_byte_def cap_root_def cap_end_def ktype_def vm_eval hamlet_compare_caps_def mkCmp_def)
  then show ?thesis
    unfolding climb_db_def vm_used_fields vm_used_mdb(2)
    using vm_used_mdb(1) by (auto simp: ktype_def vm_eval get_mapping_type_def type_is_vnode_def split: if_splits)
qed

lemma vm_used_slot_simps:
  "ktype vm_used_kernel 1 = ObjType_VNode_ARM_l1" "ktype vm_used_kernel 3 = ObjType_VNode_ARM_l2" "ktype vm_used_kernel 5 = ObjType_Frame_Mapping"
  "ksize vm_used_kernel 1 = 0x4000" "ksize vm_used_kernel 3 = 0x400" "tb vm_used_kernel 1 = 0x80000000" "tb vm_used_kernel 3 = 0x80010000"
  by (simp_all add: ktype_def kaddress_def ksize_def tb_def vm_eval)

lemma vm_used_tables: "tables_ok vm_used_kernel vm_used_space"
proof -
  have "L1_TYPE (k_mem vm_used_kernel (0x80000000 + 4 * i)) = 0" if i: "unat i < 2048" "i \<noteq> 4" for i :: u32
  proof -
    have e: "unat (0x80000000 + 4 * i) = unat (0x80000000 :: u32) + 4 * unat i"
      using i(1) by (intro table_address [of _ 16384]) simp_all
    have "0x80000000 + 4 * i \<noteq> 0x80000010" using table_address_inj [of "0x80000000" 16384 i 4] i by auto
    moreover have "0x80000000 + 4 * i \<noteq> 0x800103FC"
    proof
      assume "0x80000000 + 4 * i = 0x800103FC"
      then have "unat (0x80000000 + 4 * i) = unat (0x800103FC :: u32)" by (rule arg_cong)
      then show False using e i(1) by simp
    qed
    ultimately show ?thesis by (simp add: L1_TYPE_def)
  qed
  then have "l1_ok vm_used_kernel vm_used_space" by (simp add: l1_ok_def vm_used_slot_simps del: vm_used_fields(1))
  moreover have "l2_ok vm_used_kernel vm_used_space 4 3" by (simp add: l2_ok_def vm_used_slot_simps)
  ultimately show ?thesis by (simp add: tables_ok_def split: if_splits)
qed

lemma vm_page_offsets: "ARM_L1_OFFSET 0x4FF000 = 4" "ARM_L2_OFFSET 0x4FF000 = 0xFF"
  by (simp_all add: word_unat_eq_iff unat_offsets)

lemma vm_used_entry:
  assumes "unat y < 256"
  shows "k_mem vm_used_kernel (0x80010000 + 4 * y) = (if y = 0xFF then small_page_entry 3 0x90000000 else 0)"
proof -
  have e: "unat (0x80010000 + 4 * y) = unat (0x80010000 :: u32) + 4 * unat y" using assms by (intro table_address [of _ 1024]) simp_all
  have "0x80010000 + 4 * y \<noteq> 0x80000010"
  proof
    assume "0x80010000 + 4 * y = 0x80000010"
    then have "unat (0x80010000 + 4 * y) = unat (0x80000010 :: u32)" by (rule arg_cong)
    then show False using e by simp
  qed
  moreover have "0x80010000 + 4 * y = 0x800103FC \<longleftrightarrow> y = 0xFF"
  proof
    assume "0x80010000 + 4 * y = 0x800103FC"
    then show "y = 0xFF" using table_address_inj [of "0x80010000" 1024 y "0xFF"] assms by simp
  qed simp
  ultimately show ?thesis unfolding vm_used_fields(1) fun_upd_apply by (simp only: if_False)
qed

lemma vm_used_vtrans: "vtrans vm_used_kernel vm_used_space = map_range 0x4FF000 4096 0x90000000 3 (\<lambda>_. None)"
proof
  fix va
  let ?y = "ARM_L2_OFFSET va"
  have w: "walk_l2 (k_mem vm_used_kernel (0x80010000 + 4 * ?y)) va = (if ?y = 0xFF then Some (0x90000000 + ARM_PAGE_OFFSET va, 3) else None)"
    unfolding vm_used_entry [OF unat_L2_OFFSET] using walk_l2_small_page [of "0x90000000" 3 va] by (simp add: kpi_ap10_def)
  have v: "vtrans vm_used_kernel vm_used_space va =
      (if ARM_L1_OFFSET va = 4 \<and> ?y = 0xFF then Some (0x90000000 + ARM_PAGE_OFFSET va, 3) else None)"
    unfolding vtrans_cases [OF vm_used_tables]
    by (cases "ARM_L1_OFFSET va = 4") (simp_all add: w vm_used_slot_simps del: vm_used_fields(1))
  have p: "unat (0x4FF000 :: u32) mod 4096 = 0" "unat (ARM_L2_OFFSET 0x4FF000) + 1 \<le> 256" by (simp_all add: vm_page_offsets)
  have "unat ?y < 256" by (rule unat_L2_OFFSET)
  then have y: "?y = 0xFF \<longleftrightarrow> 0xFF \<le> unat ?y" by (auto simp: word_unat_eq_iff)
  have r: "ARM_L1_OFFSET va = 4 \<and> ?y = 0xFF \<longleftrightarrow> unat (0x4FF000 :: u32) \<le> unat va \<and> unat va < unat (0x4FF000 :: u32) + 4096"
    using page_range [OF p, of va] y \<open>unat ?y < 256\<close> by (simp add: vm_page_offsets)
  have "ARM_PAGE_OFFSET va = va - 0x4FF000" if "ARM_L1_OFFSET va = 4" "?y = 0xFF"
    using va_minus_page [OF p(1), of va] that by (simp add: vm_page_offsets)
  then show "vtrans vm_used_kernel vm_used_space va = map_range 0x4FF000 4096 0x90000000 3 (\<lambda>_. None) va"
    unfolding v map_range_def using r by auto
qed

lemma vm_used_inv: "vspace_inv vm_used_kernel vm_used_space" "space_inv vm_used_kernel vm_used_space"
proof -
  have "piece_of vm_used_kernel vm_used_space 0x4FF000 3 5" "piece_len vm_used_kernel 5 = 4096"
    by (simp_all add: piece_of_def piece_len_def vm_used_slot_simps vm_page_offsets type_is_mapping_def vm_eval)
  then have "region_ok vm_used_kernel vm_used_space vm_region"
    by (auto simp: region_ok_def vm_region_def intro!: exI [of _ "0x4FF000"])
  moreover have "nodes_ok vm_used_space"
    using vm_slab_ok [of "[4184, 4220]"] by (simp add: nodes_ok_def ps_blocks_def region_blocks_def vm_region_def)
  ultimately show "vspace_inv vm_used_kernel vm_used_space" using vm_used_tables by (simp add: vspace_inv_def)
  show "space_inv vm_used_kernel vm_used_space"
    unfolding space_inv_def vm_used_vtrans translated_def
    by (auto simp: ps_ranges_def free_range_def used_range_def vm_region_def apart_def in_range_def map_range_def)
qed

end
