(* ===== verification/Vspace_Properties.thy ===== *)
theory Vspace_Properties
  imports Vspace_Examples
begin

text \<open>
  The properties of virtual memory: the page table operations of the kernel, the mapping and
  unmapping of frames by a process, the page fault handler, and the use of the address space
  over any sequence of operations. They are applied to the two systems of \<open>Vspace_Examples\<close>.
\<close>

section \<open>The kernel\<close>

lemma caps_map_l2_cases:
  assumes "caps_map_l2 k dest slot src flags offset pte_count m = Ok k'"
  shows "\<not> 256 \<le> slot" "\<not> ksize k src < ucast (offset + pte_count * PAGE_BYTES)" "\<not> 256 < slot + pte_count"
    "k_mem k' = fill_entries (\<lambda>i. small_page_entry flags (tb k src + offset + of_nat i * PAGE_BYTES)) (k_mem k) (tb k dest + 4 * slot) 0 (unat pte_count)"
    "k_ctes k' = (k_ctes k)(m := k_ctes k' m)" "k_mdb k' = k_mdb k"
  using assms
  by (auto simp: caps_map_l2_def create_mapping_cap_def Let_def tb_def ucast_add_offset split: if_splits)

text \<open>
  C17: A level 2 map operation whose arguments do not wrap (\<open>offset + pte_count * BASE_PAGE_SIZE\<close> is
  below \<open>2^32\<close>) and that succeeds stays inside its table and its frame: it writes exactly the
  \<open>pte_count\<close> entries from \<open>slot\<close> on, each with a page of the frame, and changes no capability but
  the new mapping.
\<close>

theorem caps_map_l2_confined:
  assumes "caps_map_l2 k dest slot src flags offset pte_count m = Ok k'"
    and "unat offset + unat pte_count * 4096 < 2 ^ 32"
  shows "unat slot + unat pte_count \<le> 256 \<and> unat offset + unat pte_count * 4096 \<le> unat (ksize k src) \<and>
    (\<forall>i < unat pte_count. k_mem k' (tb k dest + 4 * (slot + of_nat i)) =
       small_page_entry flags (tb k src + offset + of_nat i * PAGE_BYTES)) \<and>
    (\<forall>a. (\<forall>i < unat pte_count. a \<noteq> tb k dest + 4 * (slot + of_nat i)) \<longrightarrow> k_mem k' a = k_mem k a) \<and>
    (\<forall>p. p \<noteq> m \<longrightarrow> k_ctes k' p = k_ctes k p) \<and> k_mdb k' = k_mdb k"
proof -
  note c = caps_map_l2_cases [OF assms(1)]
  have s: "unat slot < 256" using c(1) by (simp add: word_le_nat_alt)
  have n: "unat pte_count < 2 ^ 20" using assms(2) by simp
  have mul: "unat (pte_count * PAGE_BYTES) = unat pte_count * 4096" using unat_times_less [of pte_count PAGE_BYTES] assms(2) by simp
  then have "unat (offset + pte_count * PAGE_BYTES) = unat offset + unat pte_count * 4096"
    using unat_plus_less [of offset "pte_count * PAGE_BYTES"] assms(2) by simp
  then have "unat offset + unat pte_count * 4096 \<le> unat (ksize k src)"
    using c(2) by (simp add: word_less_nat_alt unat_ucast_64)
  moreover have "unat slot + unat pte_count \<le> 256"
    using c(3) unat_plus_less [of slot pte_count] s n by (simp add: word_less_nat_alt)
  moreover have e: "tb k dest + 4 * (slot + of_nat i) = tb k dest + 4 * slot + 4 * of_nat i" for i by (simp add: algebra_simps)
  have "k_mem k' (tb k dest + 4 * (slot + of_nat i)) = small_page_entry flags (tb k src + offset + of_nat i * PAGE_BYTES)"
    if "i < unat pte_count" for i
    unfolding c(4) e using fill_entries_at [OF that] n by simp
  moreover have "k_mem k' a = k_mem k a" if "\<forall>i < unat pte_count. a \<noteq> tb k dest + 4 * (slot + of_nat i)" for a
    unfolding c(4) by (rule fill_entries_other) (use that e in auto)
  moreover have "k_ctes k' p = k_ctes k p" if "p \<noteq> m" for p using c(5) that by (metis fun_upd_other)
  ultimately show ?thesis using c(6) by blast
qed

lemma vm_map_l2: "\<exists>k'. caps_map_l2 vm_used_kernel 3 0 2 3 0x1000 2 9 = Ok k'"
proof -
  have "ktype vm_used_kernel 2 = 8" "ktype vm_used_kernel 9 = 0" "kaddress vm_used_kernel 3 = 0x80010000" "kaddress vm_used_kernel 2 = 0x90000000"
    "ksize vm_used_kernel 2 = 0x200000" by (simp_all add: ktype_def kaddress_def ksize_def vm_eval)
  then show ?thesis using mask42 [of "0x1000"] by (simp add: caps_map_l2_def create_mapping_cap_def L2_TYPE_def)
qed

theorem caps_map_l2_confined_witness:
  "\<exists>k'. caps_map_l2 vm_used_kernel 3 0 2 3 0x1000 2 9 = Ok k' \<and> k_mem k' (tb vm_used_kernel 3 + 4 * (0 + of_nat 1)) =
     small_page_entry 3 (tb vm_used_kernel 2 + 0x1000 + of_nat 1 * PAGE_BYTES)"
proof -
  obtain k' where k: "caps_map_l2 vm_used_kernel 3 0 2 3 0x1000 2 9 = Ok k'" using vm_map_l2 by blast
  have "unat (0x1000 :: u32) + unat (2 :: u32) * 4096 < 2 ^ 32" "1 < unat (2 :: u32)" by simp_all
  then show ?thesis using caps_map_l2_confined [OF k] k by blast
qed

text \<open>
  C18: The test that a mapping stays inside its frame is made in 32 bits. With the offset \<open>2^32 - 4096\<close>
  and one page it passes for every frame, and the system call maps the page below the frame, which the capability does not cover.
\<close>

theorem vnode_map_below_frame:
  assumes "mdb_wf (kpreds (k_ctes k)) (k_mdb k)" and "ktype k m = 0" and "ktype k t = ObjType_VNode_ARM_l2"
    and "ktype k src \<in> {ObjType_Frame, ObjType_DevFrame}" and "unat (tb k src) mod 4096 = 0"
    and "flags AND NOT KPI_PAGING_FLAGS_MASK = 0" and "slot < 256" and "L2_TYPE (k_mem k (tb k t + 4 * slot)) = 0"
  shows "\<exists>k'. vnode_map k t src slot flags 0xFFFFF000 1 m = Ok k' \<and>
    k_mem k' = (k_mem k)(tb k t + 4 * slot := small_page_entry flags (tb k src - 4096))"
proof -
  let ?f = "\<lambda>i. small_page_entry flags (tb k src + 0xFFFFF000 + of_nat i * PAGE_BYTES)"
  have s: "unat slot < 256" using assms(7) by (simp add: word_less_nat_alt)
  have "\<not> 256 < slot + 1" using unat_plus_less [of slot 1] s by (simp add: word_less_nat_alt)
  moreover have "unat (tb k src + 0xFFFFF000) mod 4096 = 0" using assms(5) by (intro aligned_add) simp_all
  then have "(ucast (kaddress k src + ucast (0xFFFFF000 :: u32)) :: u32) AND 4095 = 0"
    unfolding ucast_add_offset tb_def [symmetric] page_aligned_and .
  moreover have "(ucast (kaddress k src + 0xFFFFF000) :: u32) = ucast (kaddress k src) + 0xFFFFF000"
    using ucast_add_offset [of "kaddress k src" "0xFFFFF000"] by simp
  ultimately have op: "caps_map_l2 k t slot src flags 0xFFFFF000 (of_nat 1) m =
      bind_outcome (create_mapping_cap k m src (ucast (kaddress k t) + slot * 4) 0xFFFFF000 (of_nat 1)) (\<lambda>k1.
        Ok (k1\<lparr>k_mem := fill_entries ?f (k_mem k1) (ucast (kaddress k t) + 4 * slot) 0 1\<rparr>))"
    using assms(4,6,7,8)
    by (auto simp: caps_map_l2_def Let_def tb_def not_le)
  have "ktype k src \<in> {8, 10, 27, 29}" using assms(4) by auto
  then obtain k' where "vnode_map k t src slot flags 0xFFFFF000 (of_nat 1) m = Ok k'" "mapped k t slot src 0xFFFFF000 1 m ?f k'"
    using vnode_map_ok [OF assms(1,2), of src slot 1 t flags "0xFFFFF000" ?f] assms(3) op s by auto
  moreover have below: "x - 4096 = x + 0xFFFFF000" for x :: u32 by (simp add: diff_conv_add_uminus del: add_uminus_conv_diff)
  ultimately show ?thesis by (intro exI [of _ k']) (simp add: mapped_def tb_def below)
qed

theorem vnode_map_below_frame_witness:
  "\<exists>k'. vnode_map vm_used_kernel 3 2 0 3 0xFFFFF000 1 9 = Ok k' \<and> k_mem k' 0x80010000 = small_page_entry 3 0x8FFFF000"
proof -
  have c: "ktype vm_used_kernel 2 = 8" "ktype vm_used_kernel 9 = 0" "tb vm_used_kernel 2 = 0x90000000"
    by (simp_all add: ktype_def kaddress_def tb_def vm_eval)
  show ?thesis
    using vnode_map_below_frame [of vm_used_kernel 9 3 2 3 0] vm_used_mdb(1) c vm_used_slot_simps
    by (auto simp: L2_TYPE_def)
qed

section \<open>Mapping and unmapping\<close>

text \<open>
  C4: \<open>paging_map_fixed_attr\<close> on a range of untranslated user addresses and a frame that is large enough returns,
  and afterwards the processor translates every address of the range to the corresponding
  address of the frame with the requested permissions and all other addresses as before. No capability changes, the tables and the
  records of the process stay consistent, and the new region is recorded. The environment needs four requests for each megabyte
  window that the range touches, and the slab allocator one block for each and one for the region.
\<close>

theorem paging_map_fixed_attr_correct:
  assumes "supply_ok env ready fresh" and "flags AND NOT KPI_PAGING_FLAGS_MASK = 0" and "vspace_inv k st"
    and "ready (4 * windows (unat v) (unat bytes) + n) k"
    and "windows (unat v) (unat bytes) < slab_freecount (ps_slabs st)" and "frame_ok k frame (unat bytes)"
    and "unat v mod 4096 = 0" and "unat bytes mod 4096 = 0" and "unat v + unat bytes \<le> 2 ^ 31"
    and "\<forall>va. unat v \<le> unat va \<and> unat va < unat v + unat bytes \<longrightarrow> vtrans k st va = None"
  shows "\<exists>k' st' ms a. paging_map_fixed_attr env k st v frame bytes flags = Ok (k', st') \<and> ready n k' \<and> vspace_inv k' st' \<and>
    vtrans k' st' = map_range v (unat bytes) (tb k frame) (kpi_ap10 flags) (vtrans k st) \<and> caps_kept k k' \<and>
    ps_mappings st' = \<lparr>pu_addr = a, pu_start = v, pu_size = bytes, pu_map_list = ms\<rparr> # ps_mappings st \<and>
    free_vspace st' = free_vspace st"
  using paging_map_fixed_attr_ok [OF assms(1-9)] assms(10) by (fastforce simp: tables_grow_def)

theorem paging_map_fixed_attr_correct_witness:
  "\<exists>k' st'. paging_map_fixed_attr sup_env vm_kernel vm_space 0x4FF000 2 0x2000 1 = Ok (k', st') \<and>
     vtrans k' st' 0x4FF004 = Some (0x90000004, 2) \<and> vtrans k' st' 0x500008 = Some (0x90001008, 2) \<and> vtrans k' st' 0x501000 = None"
proof -
  have w: "windows (unat (0x4FF000 :: u32)) (unat (0x2000 :: u32)) = 2" by (simp add: windows_def)
  have f: "frame_ok vm_kernel 2 (unat (0x2000 :: u32))" by (simp add: frame_ok_def)
  have r: "sup_ready (4 * windows (unat (0x4FF000 :: u32)) (unat (0x2000 :: u32)) + 0) vm_kernel" unfolding w using vm_ready by simp
  have s: "windows (unat (0x4FF000 :: u32)) (unat (0x2000 :: u32)) < slab_freecount (ps_slabs vm_space)"
    unfolding w using vm_slab_ok(2) [of "[4112, 4148, 4184, 4220]"] by simp
  obtain k' st' where k: "paging_map_fixed_attr sup_env vm_kernel vm_space 0x4FF000 2 0x2000 1 = Ok (k', st')"
    "vtrans k' st' = map_range 0x4FF000 (unat (0x2000 :: u32)) (tb vm_kernel 2) (kpi_ap10 1) (vtrans vm_kernel vm_space)"
    using paging_map_fixed_attr_correct [OF sup_supply_ok _ vm_inv(1) r s f, of 1] by auto
  then show ?thesis by (intro exI [of _ k'] exI [of _ st']) (simp add: map_range_def kpi_ap10_def)
qed





section \<open>Page faults\<close>



end
