(* ===== verification/Sched.thy ===== *)
theory Sched
  imports Prelude
begin

text \<open>
  The scheduler of the kernel, \<^verbatim>\<open>kernel/schedule_rbed.c\<close> (rate-based earliest deadline), which the
  default configuration selects, and the queue of timeouts, \<^verbatim>\<open>kernel/wakeup.c\<close>. Dispatcher
  control blocks are linked by pointers: the state has a block for every address, and a
  pointer is an address or null (\<open>None\<close>). Time is read from a clock, a sequence of readings.
  Without \<open>CONFIG_ONESHOT_TIMER\<close> no timer is programmed.
\<close>

section \<open>The state\<close>

datatype task_type = TASK_TYPE_BEST_EFFORT | TASK_TYPE_SOFT_REALTIME | TASK_TYPE_HARD_REALTIME

record dcb =
  d_next :: "u32 option"
  wakeup_time :: u64
  wakeup_prev :: "u32 option"
  wakeup_next :: "u32 option"
  release_time :: u64
  etime :: u64
  last_dispatch :: u64
  wcet :: u64
  period :: u64
  rel_deadline :: u64
  weight :: u16
  task :: task_type

text \<open>\<open>lastdisp\<close>, \<open>dcb_current\<close> and \<open>kernel_timeslice\<close> are global variables of the kernel.\<close>

record kcb =
  dcbs :: "u32 \<Rightarrow> dcb"
  queue_head :: "u32 option"
  queue_tail :: "u32 option"
  u_hrt :: u32
  u_srt :: u32
  w_be :: u32
  n_be :: u32
  wakeup_queue_head :: "u32 option"
  lastdisp :: "u32 option"
  dcb_current :: "u32 option"
  kernel_timeslice :: u64
  clock :: "nat \<Rightarrow> u64"
  readings :: nat

definition systime_now :: "kcb \<Rightarrow> u64 \<times> kcb" where
  "systime_now s = (clock s (readings s), s\<lparr>readings := Suc (readings s)\<rparr>)"

definition upd :: "u32 \<Rightarrow> (dcb \<Rightarrow> dcb) \<Rightarrow> kcb \<Rightarrow> kcb" where
  "upd p f s = s\<lparr>dcbs := (dcbs s)(p := f (dcbs s p))\<rparr>"

text \<open>Recursion under a case distinction, for the loops defined as partial functions.\<close>

lemma case_option_monotone [partial_function_mono]:
  "monotone orda ordb B \<Longrightarrow> (\<And>y. monotone orda ordb (C y)) \<Longrightarrow>
   monotone orda ordb (\<lambda>f. case x of None \<Rightarrow> B f | Some y \<Rightarrow> C y f)"
  by (cases x) simp_all

lemma case_outcome_monotone [partial_function_mono]:
  "(\<And>y. monotone orda ordb (A y)) \<Longrightarrow> (\<And>e. monotone orda ordb (B e)) \<Longrightarrow> monotone orda ordb C \<Longrightarrow>
   monotone orda ordb (\<lambda>f. case x of Ok y \<Rightarrow> A y f | Err e \<Rightarrow> B e f | Abort \<Rightarrow> C f)"
  by (cases x) simp_all

text \<open>The result of a loop over a linked list: one that does not end counts as a failure.\<close>

definition loop_result :: "'a outcome option \<Rightarrow> 'a outcome" where
  "loop_result r = (case r of None \<Rightarrow> Abort | Some x \<Rightarrow> x)"

section \<open>The run queue\<close>

abbreviation (input) SPECTRUM :: u32 where "SPECTRUM \<equiv> 1000000"
abbreviation (input) BETA :: u32 where "BETA \<equiv> 100000"

definition in_queue :: "kcb \<Rightarrow> u32 \<Rightarrow> bool" where
  "in_queue s d \<longleftrightarrow> d_next (dcbs s d) \<noteq> None \<or> queue_tail s = Some d"

text \<open>The product has 64 bits and the result 32; a period of 0 is a division by zero.\<close>

definition u_target :: "dcb \<Rightarrow> u32 outcome" where
  "u_target d = (if period d = 0 then Abort else Ok (ucast (wcet d * 1000000 div period d)))"

definition u_actual_srt :: "kcb \<Rightarrow> dcb \<Rightarrow> u32 outcome" where
  "u_actual_srt s d =
     bind_outcome (u_target d) (\<lambda>u.
       if u = 0 then Ok 0
       else if u_srt s div u = 0 then Abort
       else Ok (min u ((1 - BETA - u_hrt s) div (u_srt s div u))))"

definition deadline :: "dcb \<Rightarrow> u64" where
  "deadline d = release_time d + rel_deadline d"

definition skips :: "dcb \<Rightarrow> dcb \<Rightarrow> bool" where
  "skips d i \<longleftrightarrow> task d = TASK_TYPE_BEST_EFFORT \<and> release_time i \<le> release_time d \<or> deadline i \<le> deadline d"

definition queue_link :: "kcb \<Rightarrow> u32 \<Rightarrow> u32 option \<Rightarrow> u32 \<Rightarrow> kcb" where
  "queue_link s d prev i =
     (let s = upd d (\<lambda>x. x\<lparr>d_next := Some i\<rparr>) s in
      case prev of
        None \<Rightarrow> s\<lparr>queue_head := Some d\<rparr>
      | Some p \<Rightarrow> upd p (\<lambda>x. x\<lparr>d_next := Some d\<rparr>) s)"

definition queue_append :: "kcb \<Rightarrow> u32 \<Rightarrow> kcb outcome" where
  "queue_append s d =
     (case queue_tail s of
        None \<Rightarrow> Abort
      | Some t \<Rightarrow> Ok ((upd t (\<lambda>x. x\<lparr>d_next := Some d\<rparr>) s)\<lparr>queue_tail := Some d\<rparr>))"

partial_function (option) queue_place :: "kcb \<Rightarrow> u32 \<Rightarrow> u32 option \<Rightarrow> u32 option \<Rightarrow> kcb outcome option" where
  "queue_place s d prev i =
     (case i of
        None \<Rightarrow> Some (queue_append s d)
      | Some j \<Rightarrow>
          if skips (dcbs s d) (dcbs s j) then queue_place s d (Some j) (d_next (dcbs s j))
          else Some (Ok (queue_link s d prev j)))"

definition queue_insert :: "kcb \<Rightarrow> u32 \<Rightarrow> kcb outcome" where
  "queue_insert s d =
     (if queue_head s = None
      then if queue_tail s \<noteq> None then Abort else Ok (s\<lparr>queue_head := Some d, queue_tail := Some d\<rparr>)
      else loop_result (queue_place s d None (queue_head s)))"

partial_function (option) queue_unlink :: "kcb \<Rightarrow> u32 \<Rightarrow> u32 option \<Rightarrow> kcb outcome option" where
  "queue_unlink s d i =
     (case i of
        None \<Rightarrow> Some (Ok s)
      | Some i \<Rightarrow>
          if d_next (dcbs s i) = Some d then
            let s = upd i (\<lambda>x. x\<lparr>d_next := d_next (dcbs s d)\<rparr>) s in
            Some (Ok (if queue_tail s = Some d then s\<lparr>queue_tail := Some i\<rparr> else s))
          else queue_unlink s d (d_next (dcbs s i)))"

definition queue_remove :: "kcb \<Rightarrow> u32 \<Rightarrow> kcb outcome" where
  "queue_remove s d =
     (if \<not> in_queue s d then Ok s
      else
        bind_outcome
          (if queue_head s = Some d then
             let s = s\<lparr>queue_head := d_next (dcbs s d)\<rparr> in
             Ok (if queue_head s = None then s\<lparr>queue_tail := None\<rparr> else s)
           else loop_result (queue_unlink s d (queue_head s)))
          (\<lambda>s. Ok (upd d (\<lambda>x. x\<lparr>d_next := None\<rparr>) s)))"

section \<open>Resource allocation\<close>

abbreviation (input) UINT_MAX_SPECTRUM :: nat where "UINT_MAX_SPECTRUM \<equiv> 4294"

definition do_resource_allocation :: "kcb \<Rightarrow> u32 \<Rightarrow> (u32 \<times> kcb) outcome" where
  "do_resource_allocation s d =
     (let x = dcbs s d in
      case task x of
        TASK_TYPE_HARD_REALTIME \<Rightarrow> bind_outcome (u_target x) (\<lambda>u. Ok (u, s))
      | TASK_TYPE_SOFT_REALTIME \<Rightarrow> bind_outcome (u_actual_srt s x) (\<lambda>u. Ok (u, s))
      | TASK_TYPE_BEST_EFFORT \<Rightarrow>
          if \<not> (0 < w_be s \<and> 0 < n_be s) then Abort
          else if \<not> unat (weight x) < UINT_MAX_SPECTRUM then Abort
          else
            let u = (max BETA (SPECTRUM - u_hrt s - u_srt s) * ucast (weight x)) div w_be s;
                t = ucast (n_be s) * kernel_timeslice s
            in Ok (u, upd d (\<lambda>x. x\<lparr>rel_deadline := t, period := t\<rparr>) s))"

definition set_best_effort_wcet :: "kcb \<Rightarrow> u32 \<Rightarrow> kcb outcome" where
  "set_best_effort_wcet s d =
     bind_outcome (do_resource_allocation s d) (\<lambda>(u_actual, s).
       let wcet_undiv = ucast (n_be s) * kernel_timeslice s * ucast u_actual in
       if \<not> u_hrt s + u_srt s + u_actual \<le> SPECTRUM then Abort
       else Ok (upd d (\<lambda>x. x\<lparr>wcet := (wcet_undiv + 500000) div 1000000\<rparr>) s))"

section \<open>The scheduler\<close>

partial_function (option) skip_unreleased :: "kcb \<Rightarrow> u64 \<Rightarrow> u32 option \<Rightarrow> u32 option option" where
  "skip_unreleased s now i =
     (case i of
        None \<Rightarrow> Some None
      | Some t \<Rightarrow>
          if now < release_time (dcbs s t) then skip_unreleased s now (d_next (dcbs s t)) else Some (Some t))"

definition lazy_allocation :: "kcb \<Rightarrow> u64 \<Rightarrow> u32 \<Rightarrow> kcb outcome" where
  "lazy_allocation s now t =
     (if task (dcbs s t) = TASK_TYPE_BEST_EFFORT then
        bind_outcome (set_best_effort_wcet s t) (\<lambda>s.
          Ok (if deadline (dcbs s t) < now then upd t (\<lambda>x. x\<lparr>release_time := now\<rparr>) s else s))
      else Ok s)"

definition update_periodic :: "kcb \<Rightarrow> u64 \<Rightarrow> u32 \<Rightarrow> kcb" where
  "update_periodic s now d =
     (let s = (if task (dcbs s d) \<noteq> TASK_TYPE_BEST_EFFORT
               then if release_time (dcbs s d) < now
                    then upd d (\<lambda>x. x\<lparr>release_time := release_time x + period x\<rparr>) s
                    else s
               else upd d (\<lambda>x. x\<lparr>release_time := now\<rparr>) s)
      in upd d (\<lambda>x. x\<lparr>etime := 0\<rparr>) s)"

text \<open>
  One attempt with the first released task: \<open>Some r\<close> is the task to run, \<open>None\<close> means that the task
  was over its budget and went back into the queue.
\<close>

definition schedule_task :: "kcb \<Rightarrow> u64 \<Rightarrow> u32 \<Rightarrow> (u32 option \<times> kcb) outcome" where
  "schedule_task s now t =
     bind_outcome (lazy_allocation s now t) (\<lambda>s.
       if task (dcbs s t) = TASK_TYPE_HARD_REALTIME \<and> deadline (dcbs s t) < now then Abort
       else if \<not> now \<le> deadline (dcbs s t) then Abort
       else if etime (dcbs s t) < wcet (dcbs s t) then
         let s = upd t (\<lambda>x. x\<lparr>last_dispatch := now\<rparr>) s in
         Ok (case dcb_current s of
               Some c \<Rightarrow> if lastdisp s = Some t \<and> in_queue s c then (Some c, s) else (Some t, s\<lparr>lastdisp := Some t\<rparr>)
             | None \<Rightarrow> (Some t, s\<lparr>lastdisp := Some t\<rparr>))
       else
         bind_outcome (queue_remove s t) (\<lambda>s.
         bind_outcome (queue_insert (update_periodic s now t) t) (\<lambda>s.
         Ok (None, s\<lparr>lastdisp := None\<rparr>))))"

partial_function (option) schedule_loop :: "kcb \<Rightarrow> u64 \<Rightarrow> (u32 option \<times> kcb) outcome option" where
  "schedule_loop s now =
     (case skip_unreleased s now (queue_head s) of
        None \<Rightarrow> None
      | Some None \<Rightarrow> Some (Ok (None, s\<lparr>lastdisp := None\<rparr>))
      | Some (Some t) \<Rightarrow>
          (case schedule_task s now t of
             Ok (Some r, s) \<Rightarrow> Some (Ok (Some r, s))
           | Ok (None, s) \<Rightarrow> schedule_loop s now
           | Err e \<Rightarrow> Some (Err e)
           | Abort \<Rightarrow> Some Abort))"

definition account :: "kcb \<Rightarrow> u64 \<Rightarrow> kcb outcome" where
  "account s now =
     (case lastdisp s of
        None \<Rightarrow> Ok s
      | Some l \<Rightarrow>
          if \<not> last_dispatch (dcbs s l) \<le> now then Abort
          else if release_time (dcbs s l) \<le> now
          then Ok (upd l (\<lambda>x. x\<lparr>etime := etime x + (now - max (last_dispatch x) (release_time x))\<rparr>) s)
          else Ok s)"

definition schedule :: "kcb \<Rightarrow> (u32 option \<times> kcb) outcome" where
  "schedule s =
     (let (now, s) = systime_now s in
      if \<not> u_hrt s + u_srt s + BETA \<le> SPECTRUM then Abort
      else bind_outcome (account s now) (\<lambda>s. loop_result (schedule_loop s now)))"

definition schedule_now :: "kcb \<Rightarrow> u32 \<Rightarrow> kcb" where
  "schedule_now s d =
     (let (now, s) = systime_now s in
      upd d (\<lambda>x. x\<lparr>release_time := (if now \<le> release_time x then now else release_time x), rel_deadline := 1\<rparr>) s)"

definition make_runnable :: "kcb \<Rightarrow> u32 \<Rightarrow> kcb outcome" where
  "make_runnable s d =
     (let (now, s) = systime_now s in
      if in_queue s d then Ok s
      else
        bind_outcome
          (case task (dcbs s d) of
             TASK_TYPE_BEST_EFFORT \<Rightarrow>
               let s = upd d (\<lambda>x. x\<lparr>weight := (if weight x = 0 then 1 else weight x)\<rparr>) s;
                   s = s\<lparr>w_be := w_be s + ucast (weight (dcbs s d)), n_be := n_be s + 1\<rparr>;
                   t = ucast (n_be s) * kernel_timeslice s
               in Ok (upd d (\<lambda>x. x\<lparr>rel_deadline := t, period := t, release_time := now\<rparr>) s)
           | TASK_TYPE_SOFT_REALTIME \<Rightarrow> Abort
           | TASK_TYPE_HARD_REALTIME \<Rightarrow>
               bind_outcome (u_target (dcbs s d)) (\<lambda>u. Ok (s\<lparr>u_hrt := u_hrt s + u\<rparr>)))
          (\<lambda>s.
             if SPECTRUM < u_hrt s + u_srt s + BETA then Abort
             else if release_time (dcbs s d) < now then Abort
             else queue_insert (upd d (\<lambda>x. x\<lparr>etime := 0\<rparr>) s) d))"

definition scheduler_remove :: "kcb \<Rightarrow> u32 \<Rightarrow> kcb outcome" where
  "scheduler_remove s d =
     (if \<not> in_queue s d then Ok s
      else
        bind_outcome (queue_remove s d) (\<lambda>s.
          case task (dcbs s d) of
            TASK_TYPE_BEST_EFFORT \<Rightarrow> Ok (s\<lparr>w_be := w_be s - ucast (weight (dcbs s d)), n_be := n_be s - 1\<rparr>)
          | TASK_TYPE_SOFT_REALTIME \<Rightarrow> Abort
          | TASK_TYPE_HARD_REALTIME \<Rightarrow>
              bind_outcome (u_target (dcbs s d)) (\<lambda>u. Ok (s\<lparr>u_hrt := u_hrt s - u\<rparr>))))"

definition scheduler_yield :: "kcb \<Rightarrow> u32 \<Rightarrow> kcb outcome" where
  "scheduler_yield s d =
     (let (now, s) = systime_now s in
      if \<not> in_queue s d \<or> now < release_time (dcbs s d) then Ok s
      else
        bind_outcome (queue_remove s d) (\<lambda>s.
          let s = upd d (\<lambda>x. x\<lparr>release_time := (if task x = TASK_TYPE_BEST_EFFORT then now else release_time x + period x)\<rparr>) s;
              s = (upd d (\<lambda>x. x\<lparr>etime := 0\<rparr>) s)\<lparr>lastdisp := None\<rparr>
          in queue_insert s d))"

text \<open>The part of \<open>sys_dispatcher_properties\<close> that changes the scheduler; the assertions check the arguments.\<close>

definition sys_dispatcher_properties ::
    "kcb \<Rightarrow> u32 \<Rightarrow> task_type \<Rightarrow> u32 \<Rightarrow> u32 \<Rightarrow> u32 \<Rightarrow> u32 \<Rightarrow> u16 \<Rightarrow> kcb outcome" where
  "sys_dispatcher_properties s d ty dl wc per release wt =
     (if \<not> wc \<le> dl \<or> \<not> wc \<le> per \<or> (ty = TASK_TYPE_BEST_EFFORT \<and> wt = 0) then Abort
      else
        bind_outcome (scheduler_remove s d) (\<lambda>s.
          let (rel, s) = (if release = 0 then systime_now s else (ucast release, s)) in
          make_runnable
            (upd d (\<lambda>x. x\<lparr>task := ty, rel_deadline := ucast dl, wcet := ucast wc, period := ucast per,
                          release_time := rel, weight := wt\<rparr>) s) d))"

section \<open>Timeouts\<close>

text \<open>The link from a block to its successor is followed at the head of the queue when there is no block.\<close>

definition set_wakeup_next :: "u32 option \<Rightarrow> u32 option \<Rightarrow> kcb \<Rightarrow> kcb" where
  "set_wakeup_next p v s =
     (case p of None \<Rightarrow> s\<lparr>wakeup_queue_head := v\<rparr> | Some p \<Rightarrow> upd p (\<lambda>x. x\<lparr>wakeup_next := v\<rparr>) s)"

definition set_wakeup_prev :: "u32 option \<Rightarrow> u32 option \<Rightarrow> kcb \<Rightarrow> kcb" where
  "set_wakeup_prev n v s = (case n of None \<Rightarrow> s | Some n \<Rightarrow> upd n (\<lambda>x. x\<lparr>wakeup_prev := v\<rparr>) s)"

definition wakeup_next_of :: "kcb \<Rightarrow> u32 option \<Rightarrow> u32 option" where
  "wakeup_next_of s p = (case p of None \<Rightarrow> wakeup_queue_head s | Some p \<Rightarrow> wakeup_next (dcbs s p))"

definition wakeup_remove :: "kcb \<Rightarrow> u32 \<Rightarrow> kcb outcome" where
  "wakeup_remove s d =
     (if wakeup_time (dcbs s d) = 0 then Ok s
      else
        let p = wakeup_prev (dcbs s d); n = wakeup_next (dcbs s d) in
        if wakeup_next_of s p \<noteq> Some d then Abort
        else
          let s = set_wakeup_next p n s in
          case n of
            Some m \<Rightarrow>
              if wakeup_prev (dcbs s m) \<noteq> Some d then Abort
              else Ok (upd d (\<lambda>x. x\<lparr>wakeup_prev := None, wakeup_next := None\<rparr>) (set_wakeup_prev n p s))
          | None \<Rightarrow> Ok (upd d (\<lambda>x. x\<lparr>wakeup_prev := None, wakeup_next := None\<rparr>) s))"

definition wakeup_link :: "kcb \<Rightarrow> u32 \<Rightarrow> u32 option \<Rightarrow> u32 option \<Rightarrow> kcb outcome" where
  "wakeup_link s dcb p d =
     (case p of
        None \<Rightarrow>
          if d \<noteq> wakeup_queue_head s then Abort
          else Ok ((set_wakeup_prev d (Some dcb) (upd dcb (\<lambda>x. x\<lparr>wakeup_prev := None, wakeup_next := d\<rparr>) s))
                     \<lparr>wakeup_queue_head := Some dcb\<rparr>)
      | Some q \<Rightarrow>
          Ok (set_wakeup_prev d (Some dcb)
            (upd q (\<lambda>x. x\<lparr>wakeup_next := Some dcb\<rparr>)
              (upd dcb (\<lambda>x. x\<lparr>wakeup_next := d, wakeup_prev := Some q\<rparr>) s))))"

partial_function (option) wakeup_place :: "kcb \<Rightarrow> u32 \<Rightarrow> u64 \<Rightarrow> u32 option \<Rightarrow> u32 option \<Rightarrow> kcb outcome option" where
  "wakeup_place s dcb waketime p d =
     (case d of
        None \<Rightarrow> Some (wakeup_link s dcb p None)
      | Some e \<Rightarrow>
          if waketime < wakeup_time (dcbs s e) then Some (wakeup_link s dcb p (Some e))
          else wakeup_place s dcb waketime (Some e) (wakeup_next (dcbs s e)))"

definition wakeup_set :: "kcb \<Rightarrow> u32 \<Rightarrow> u64 \<Rightarrow> kcb outcome" where
  "wakeup_set s dcb waketime =
     bind_outcome (wakeup_remove s dcb) (\<lambda>s.
       let s = upd dcb (\<lambda>x. x\<lparr>wakeup_time := waketime\<rparr>) s in
       loop_result (wakeup_place s dcb waketime None (wakeup_queue_head s)))"

partial_function (option) wakeup_loop :: "kcb \<Rightarrow> u64 \<Rightarrow> u32 option \<Rightarrow> (u32 option \<times> kcb) outcome option" where
  "wakeup_loop s now d =
     (case d of
        None \<Rightarrow> Some (Ok (None, s))
      | Some d \<Rightarrow>
          if wakeup_time (dcbs s d) \<le> now then
            let nxt = wakeup_next (dcbs s d);
                s = upd d (\<lambda>x. x\<lparr>wakeup_time := 0, wakeup_prev := None, wakeup_next := None\<rparr>) s
            in (case make_runnable s d of
                  Ok s \<Rightarrow> wakeup_loop (schedule_now s d) now nxt
                | Err e \<Rightarrow> Some (Err e)
                | Abort \<Rightarrow> Some Abort)
          else Some (Ok (Some d, s)))"

definition wakeup_check :: "kcb \<Rightarrow> u64 \<Rightarrow> kcb outcome" where
  "wakeup_check s now =
     bind_outcome (loop_result (wakeup_loop s now (wakeup_queue_head s))) (\<lambda>(d, s).
       Ok ((set_wakeup_prev d None s)\<lparr>wakeup_queue_head := d\<rparr>))"

end
