(* ===== verification/Sched_Queue.thy ===== *)
theory Sched_Queue
  imports Sched
begin

text \<open>
  The run queue as a list of dispatchers: what the links between the control blocks say about
  the list, and the queue operations as operations on the list.
\<close>

section \<open>Successors in a list\<close>

fun succ_in :: "'a list \<Rightarrow> 'a \<Rightarrow> 'a option" where
  "succ_in [] p = None"
| "succ_in (x # xs) p = (if p = x then hd_opt xs else succ_in xs p)"

lemma succ_in_notin: "p \<notin> set xs \<Longrightarrow> succ_in xs p = None"
  by (induction xs) auto

lemma succ_in_append:
  "distinct (xs @ ys) \<Longrightarrow>
   succ_in (xs @ ys) p = (if p \<in> set xs then if last_opt xs = Some p then hd_opt ys else succ_in xs p else succ_in ys p)"
  by (induction xs) (auto simp: last_opt_eq_Some)

lemma succ_in_middle: "distinct (xs @ x # ys) \<Longrightarrow> succ_in (xs @ x # ys) x = hd_opt ys"
  by (simp add: succ_in_append)

lemma succ_in_last: "distinct xs \<Longrightarrow> last_opt xs = Some p \<Longrightarrow> succ_in xs p = None"
  by (auto simp: last_opt_eq_Some succ_in_middle)

lemma succ_in_eq_None: "distinct xs \<Longrightarrow> succ_in xs p = None \<longleftrightarrow> p \<notin> set xs \<or> last_opt xs = Some p"
  by (induction xs) (auto simp: hd_opt_eq_Some last_opt_eq_Some)

lemma succ_in_eq_Some:
  "distinct xs \<Longrightarrow> succ_in xs p = Some q \<longleftrightarrow> (\<exists>us vs. xs = us @ p # q # vs)"
proof
  assume d: "distinct xs" and q: "succ_in xs p = Some q"
  then have "p \<in> set xs" using succ_in_notin [of p xs] by force
  then obtain us ys where xs: "xs = us @ p # ys" by (auto simp: in_set_conv_decomp)
  with d q have "hd_opt ys = Some q" by (simp add: succ_in_middle)
  with xs show "\<exists>us vs. xs = us @ p # q # vs" by (auto simp: hd_opt_eq_Some)
qed (auto simp: succ_in_append)

section \<open>The queue\<close>

definition queue_ok :: "kcb \<Rightarrow> u32 list \<Rightarrow> bool" where
  "queue_ok s xs \<longleftrightarrow>
     distinct xs \<and> queue_head s = hd_opt xs \<and> queue_tail s = last_opt xs \<and>
     (\<forall>p. d_next (dcbs s p) = succ_in xs p)"

definition set_queue :: "u32 list \<Rightarrow> kcb \<Rightarrow> kcb" where
  "set_queue xs s =
     s\<lparr>dcbs := (\<lambda>p. (dcbs s p)\<lparr>d_next := succ_in xs p\<rparr>), queue_head := hd_opt xs, queue_tail := last_opt xs\<rparr>"

lemma set_queue_simps [simp]:
  "dcbs (set_queue xs s) p = (dcbs s p)\<lparr>d_next := succ_in xs p\<rparr>"
  "queue_head (set_queue xs s) = hd_opt xs" "queue_tail (set_queue xs s) = last_opt xs"
  "u_hrt (set_queue xs s) = u_hrt s" "u_srt (set_queue xs s) = u_srt s"
  "w_be (set_queue xs s) = w_be s" "n_be (set_queue xs s) = n_be s"
  "wakeup_queue_head (set_queue xs s) = wakeup_queue_head s" "lastdisp (set_queue xs s) = lastdisp s"
  "dcb_current (set_queue xs s) = dcb_current s" "kernel_timeslice (set_queue xs s) = kernel_timeslice s"
  "clock (set_queue xs s) = clock s" "readings (set_queue xs s) = readings s"
  by (simp_all add: set_queue_def)

lemma upd_simps [simp]:
  "dcbs (upd p f s) q = (if q = p then f (dcbs s p) else dcbs s q)"
  "queue_head (upd p f s) = queue_head s" "queue_tail (upd p f s) = queue_tail s"
  "u_hrt (upd p f s) = u_hrt s" "u_srt (upd p f s) = u_srt s"
  "w_be (upd p f s) = w_be s" "n_be (upd p f s) = n_be s"
  "wakeup_queue_head (upd p f s) = wakeup_queue_head s" "lastdisp (upd p f s) = lastdisp s"
  "dcb_current (upd p f s) = dcb_current s" "kernel_timeslice (upd p f s) = kernel_timeslice s"
  "clock (upd p f s) = clock s" "readings (upd p f s) = readings s"
  by (simp_all add: upd_def)

lemma kcb_eqI:
  assumes "\<And>p. dcbs s p = dcbs t p" "queue_head s = queue_head t" "queue_tail s = queue_tail t"
    "u_hrt s = u_hrt t" "u_srt s = u_srt t" "w_be s = w_be t" "n_be s = n_be t"
    "wakeup_queue_head s = wakeup_queue_head t" "lastdisp s = lastdisp t" "dcb_current s = dcb_current t"
    "kernel_timeslice s = kernel_timeslice t" "clock s = clock t" "readings s = readings t"
  shows "s = (t :: kcb)"
  using assms by (simp add: kcb.equality fun_eq_iff)

lemma queue_ok_set_queue [simp]: "queue_ok (set_queue xs s) xs \<longleftrightarrow> distinct xs"
  by (simp add: queue_ok_def)

lemma set_queue_idem: "queue_ok s xs \<Longrightarrow> set_queue xs s = s"
  by (auto intro!: kcb_eqI dcb.equality simp: queue_ok_def)

lemma set_queue_set_queue [simp]: "set_queue ys (set_queue xs s) = set_queue ys s"
  by (auto intro!: kcb_eqI)

lemma queue_ok_upd:
  "queue_ok s xs \<Longrightarrow> d_next (f (dcbs s p)) = d_next (dcbs s p) \<Longrightarrow> queue_ok (upd p f s) xs"
  by (simp add: queue_ok_def)

lemma queue_ok_distinct: "queue_ok s xs \<Longrightarrow> distinct xs"
  by (simp add: queue_ok_def)

lemma queue_ok_next: "queue_ok s (us @ p # vs) \<Longrightarrow> d_next (dcbs s p) = hd_opt vs"
  by (simp add: queue_ok_def succ_in_middle)

lemma in_queue_iff: "queue_ok s xs \<Longrightarrow> in_queue s d \<longleftrightarrow> d \<in> set xs"
  unfolding in_queue_def queue_ok_def using succ_in_eq_None [of xs d] succ_in_notin [of d xs]
  by (auto simp: last_opt_eq_Some)

section \<open>Insertion\<close>

definition place :: "kcb \<Rightarrow> u32 \<Rightarrow> u32 list \<Rightarrow> u32 list" where
  "place s d xs =
     takeWhile (\<lambda>i. skips (dcbs s d) (dcbs s i)) xs @ d # dropWhile (\<lambda>i. skips (dcbs s d) (dcbs s i)) xs"

lemma set_insert_between: "set (us @ d # vs) = insert d (set (us @ vs))"
  by simp

lemma distinct_insert_between: "distinct (us @ d # vs) \<longleftrightarrow> d \<notin> set (us @ vs) \<and> distinct (us @ vs)"
  by auto

lemma set_place [simp]: "set (place s d xs) = insert d (set xs)"
  unfolding place_def set_insert_between takeWhile_dropWhile_id ..

lemma distinct_place: "distinct (place s d xs) \<longleftrightarrow> d \<notin> set xs \<and> distinct xs"
  unfolding place_def distinct_insert_between takeWhile_dropWhile_id ..

lemma queue_link_ok:
  assumes "queue_ok s (xs @ i # ys)" "d \<notin> set (xs @ i # ys)"
  shows "queue_link s d (last_opt xs) i = set_queue (xs @ d # i # ys) s"
proof (cases xs rule: rev_cases)
  case Nil
  with assms show ?thesis
    by (auto intro!: kcb_eqI dcb.equality simp: queue_link_def queue_ok_def)
next
  case (snoc us p)
  have next_of: "\<And>q. d_next (dcbs s q) = succ_in (us @ p # i # ys) q" "distinct (us @ p # i # ys)"
    using assms snoc by (auto simp: queue_ok_def)
  have "succ_in (us @ p # d # i # ys) q = (if q = p then Some d else if q = d then Some i else d_next (dcbs s q))" for q
    using next_of assms(2) snoc by (auto simp: succ_in_append)
  moreover have "queue_head s = hd_opt (us @ [p])" "queue_tail s = last_opt (i # ys)"
    using assms(1) snoc by (auto simp: queue_ok_def)
  ultimately show ?thesis
    using snoc assms(2) by (auto intro!: kcb_eqI dcb.equality simp: queue_link_def)
qed

lemma queue_append_ok:
  assumes "queue_ok s xs" "d \<notin> set xs" "xs \<noteq> []"
  shows "queue_append s d = Ok (set_queue (xs @ [d]) s)"
proof -
  obtain us p where xs: "xs = us @ [p]" using assms(3) by (cases xs rule: rev_cases) auto
  have next_of: "\<And>q. d_next (dcbs s q) = succ_in (us @ [p]) q" "distinct (us @ [p])"
    using assms xs by (auto simp: queue_ok_def)
  have "succ_in (us @ [p, d]) q = (if q = p then Some d else d_next (dcbs s q))" for q
    using next_of assms(2) xs by (auto simp: succ_in_append)
  moreover have "queue_head s = hd_opt xs" "queue_tail s = Some p"
    using assms(1) xs by (auto simp: queue_ok_def)
  ultimately show ?thesis
    using xs by (auto intro!: kcb_eqI dcb.equality simp: queue_append_def)
qed

lemma queue_place_ok:
  assumes "queue_ok s (xs @ ys)" "d \<notin> set (xs @ ys)" "xs @ ys \<noteq> []"
  shows "queue_place s d (last_opt xs) (hd_opt ys) = Some (Ok (set_queue (xs @ place s d ys) s))"
  using assms
proof (induction ys arbitrary: xs)
  case Nil
  then show ?case by (simp add: queue_place.simps queue_append_ok place_def)
next
  case (Cons i ys)
  have "queue_place s d (last_opt (xs @ [i])) (hd_opt ys) = Some (Ok (set_queue ((xs @ [i]) @ place s d ys) s))"
    using Cons.IH [of "xs @ [i]"] Cons.prems by simp
  then show ?case
    using Cons.prems queue_link_ok [of s xs i ys d] queue_ok_next [of s xs i ys]
    by (auto simp: queue_place.simps [of s d "last_opt xs"] place_def)
qed

lemma queue_insert_ok:
  assumes "queue_ok s xs" "d \<notin> set xs"
  shows "queue_insert s d = Ok (set_queue (place s d xs) s)"
proof (cases xs)
  case Nil
  with assms show ?thesis
    by (auto intro!: kcb_eqI dcb.equality simp: queue_insert_def queue_ok_def place_def)
next
  case (Cons y ys)
  with assms queue_place_ok [of s "[]" xs d] show ?thesis
    by (simp add: queue_insert_def loop_result_def queue_ok_def)
qed

section \<open>Removal\<close>

lemma queue_unlink_ok:
  assumes "queue_ok s (xs @ ys @ p # d # zs)"
  shows "\<exists>t. queue_unlink s d (hd_opt (ys @ p # d # zs)) = Some (Ok t) \<and>
             upd d (\<lambda>x. x\<lparr>d_next := None\<rparr>) t = set_queue (xs @ ys @ p # zs) s"
  using assms
proof (induction ys arbitrary: xs)
  case Nil
  have next_of: "\<And>q. d_next (dcbs s q) = succ_in (xs @ p # d # zs) q" and dist: "distinct (xs @ p # d # zs)"
    using Nil.prems by (auto simp: queue_ok_def)
  have "succ_in (xs @ p # zs) q = (if q = p then d_next (dcbs s d) else if q = d then None else d_next (dcbs s q))" for q
    using next_of dist by (auto simp: succ_in_append succ_in_notin)
  moreover have "d_next (dcbs s p) = Some d" "queue_head s = hd_opt (xs @ [p])" "queue_tail s = last_opt (d # zs)"
    using Nil.prems by (auto simp: queue_ok_def succ_in_append)
  ultimately show ?case
    using dist by (auto intro!: kcb_eqI dcb.equality simp: queue_unlink.simps last_opt_eq_Some Let_def)
next
  case (Cons y ys)
  have "d_next (dcbs s y) = hd_opt (ys @ p # d # zs)"
    using Cons.prems queue_ok_next [of s xs y "ys @ p # d # zs"] by simp
  moreover have "hd_opt (ys @ p # d # zs) \<noteq> Some d"
    using queue_ok_distinct [OF Cons.prems] by (cases ys) auto
  ultimately show ?case
    using Cons.IH [of "xs @ [y]"] Cons.prems by (simp add: queue_unlink.simps [of s d "Some y"])
qed

lemma queue_remove_ok:
  assumes "queue_ok s xs"
  shows "queue_remove s d = Ok (set_queue (remove1 d xs) s)"
proof (cases "d \<in> set xs")
  case False
  with assms show ?thesis by (simp add: queue_remove_def in_queue_iff remove1_idem set_queue_idem)
next
  case True
  then obtain us zs where xs: "xs = us @ d # zs" and "d \<notin> set us" by (meson split_list_first)
  show ?thesis
  proof (cases us rule: rev_cases)
    case Nil
    then show ?thesis
      using assms xs True
      by (auto intro!: kcb_eqI dcb.equality simp: queue_remove_def in_queue_iff Let_def)
        (auto simp: queue_ok_def succ_in_notin)
  next
    case (snoc ys p)
    then obtain t where t: "queue_unlink s d (hd_opt (ys @ p # d # zs)) = Some (Ok t)"
        "upd d (\<lambda>x. x\<lparr>d_next := None\<rparr>) t = set_queue (ys @ p # zs) s"
      using queue_unlink_ok [of s "[]" ys p d zs] assms xs by auto
    have "queue_head s = hd_opt (ys @ p # d # zs)" "hd_opt (ys @ p # d # zs) \<noteq> Some d"
      using assms xs snoc queue_ok_distinct [OF assms] by (auto simp: queue_ok_def hd_opt_eq_Some)
    with t True assms xs snoc \<open>d \<notin> set us\<close> show ?thesis
      by (auto simp: queue_remove_def in_queue_iff loop_result_def remove1_append)
  qed
qed

end
