(* ===== verification/Sched_Inv.thy ===== *)
theory Sched_Inv
  imports Sched_Queue
begin

text \<open>
  The invariant of the scheduler: the run queue is well formed, the counters of the kernel control
  block are the sums over the queued tasks, and the load of the hard real-time tasks leaves the
  reserve for best-effort tasks.
\<close>

section \<open>Counters\<close>

definition demand :: "dcb \<Rightarrow> u32" where
  "demand x = ucast (wcet x * 1000000 div period x)"

definition be_count :: "dcb \<Rightarrow> nat" where
  "be_count x = (if task x = TASK_TYPE_BEST_EFFORT then 1 else 0)"

definition be_weight :: "dcb \<Rightarrow> nat" where
  "be_weight x = (if task x = TASK_TYPE_BEST_EFFORT then unat (weight x) else 0)"

definition hrt_load :: "dcb \<Rightarrow> nat" where
  "hrt_load x = (if task x = TASK_TYPE_HARD_REALTIME then unat (demand x) else 0)"

definition counted :: "kcb \<Rightarrow> u32 set \<Rightarrow> bool" where
  "counted s X \<longleftrightarrow>
     n_be s = of_nat (\<Sum>p\<in>X. be_count (dcbs s p)) \<and>
     w_be s = of_nat (\<Sum>p\<in>X. be_weight (dcbs s p)) \<and>
     unat (u_hrt s) = (\<Sum>p\<in>X. hrt_load (dcbs s p)) \<and>
     u_hrt s \<le> 900000 \<and> u_srt s = 0 \<and>
     (\<forall>p\<in>X. task (dcbs s p) \<noteq> TASK_TYPE_SOFT_REALTIME \<and>
            (task (dcbs s p) = TASK_TYPE_BEST_EFFORT \<longrightarrow> weight (dcbs s p) \<noteq> 0))"

text \<open>The parameters that \<open>sys_dispatcher_properties\<close> lets a hard real-time task have.\<close>

definition valid_task :: "dcb \<Rightarrow> bool" where
  "valid_task x \<longleftrightarrow>
     (task x = TASK_TYPE_HARD_REALTIME \<longrightarrow> period x \<noteq> 0 \<and> wcet x \<le> period x \<and> unat (wcet x) < 2 ^ 32)"

definition sched_ok :: "kcb \<Rightarrow> u32 list \<Rightarrow> bool" where
  "sched_ok s xs \<longleftrightarrow> queue_ok s xs \<and> counted s (set xs) \<and> (\<forall>p. valid_task (dcbs s p))"

lemma sched_okD:
  assumes "sched_ok s xs"
  shows "queue_ok s xs" "counted s (set xs)" "valid_task (dcbs s p)" "distinct xs"
  using assms by (auto simp: sched_ok_def queue_ok_def)

text \<open>What the counters depend on.\<close>

definition profile :: "dcb \<Rightarrow> task_type \<times> u16 \<times> u32" where
  "profile x = (task x, weight x, if task x = TASK_TYPE_HARD_REALTIME then demand x else 0)"

lemma profile_cong:
  assumes "profile x = profile y"
  shows "be_count x = be_count y" "be_weight x = be_weight y" "hrt_load x = hrt_load y"
    "task x = task y" "weight x = weight y"
  using assms by (auto simp: profile_def be_count_def be_weight_def hrt_load_def split: if_splits)

lemma counted_cong:
  assumes "counted s X" "\<And>p. p \<in> X \<Longrightarrow> profile (dcbs t p) = profile (dcbs s p)"
    "n_be t = n_be s" "w_be t = w_be s" "u_hrt t = u_hrt s" "u_srt t = u_srt s"
  shows "counted t X"
proof -
  note same = profile_cong [OF assms(2)]
  have "(\<Sum>p\<in>X. be_count (dcbs t p)) = (\<Sum>p\<in>X. be_count (dcbs s p))"
      "(\<Sum>p\<in>X. be_weight (dcbs t p)) = (\<Sum>p\<in>X. be_weight (dcbs s p))"
      "(\<Sum>p\<in>X. hrt_load (dcbs t p)) = (\<Sum>p\<in>X. hrt_load (dcbs s p))"
    using same by (auto intro: sum.cong)
  with assms same show ?thesis by (simp add: counted_def)
qed

text \<open>Updates that leave the counters alone.\<close>

lemma profile_updates [simp]:
  "profile (x\<lparr>d_next := n\<rparr>) = profile x" "profile (x\<lparr>etime := t\<rparr>) = profile x"
  "profile (x\<lparr>release_time := t\<rparr>) = profile x" "profile (x\<lparr>last_dispatch := t\<rparr>) = profile x"
  "profile (x\<lparr>rel_deadline := t\<rparr>) = profile x" "profile (x\<lparr>wakeup_time := t\<rparr>) = profile x"
  "profile (x\<lparr>wakeup_prev := n\<rparr>) = profile x" "profile (x\<lparr>wakeup_next := n\<rparr>) = profile x"
  by (simp_all add: profile_def demand_def)

lemma valid_task_updates [simp]:
  "valid_task (x\<lparr>d_next := n\<rparr>) = valid_task x" "valid_task (x\<lparr>etime := t\<rparr>) = valid_task x"
  "valid_task (x\<lparr>release_time := t\<rparr>) = valid_task x" "valid_task (x\<lparr>last_dispatch := t\<rparr>) = valid_task x"
  "valid_task (x\<lparr>rel_deadline := t\<rparr>) = valid_task x" "valid_task (x\<lparr>wakeup_time := t\<rparr>) = valid_task x"
  "valid_task (x\<lparr>wakeup_prev := n\<rparr>) = valid_task x" "valid_task (x\<lparr>wakeup_next := n\<rparr>) = valid_task x"
  by (simp_all add: valid_task_def)

lemma queue_ok_updates [simp]:
  "queue_ok (s\<lparr>readings := r\<rparr>) xs = queue_ok s xs" "queue_ok (s\<lparr>n_be := n\<rparr>) xs = queue_ok s xs"
  "queue_ok (s\<lparr>w_be := w\<rparr>) xs = queue_ok s xs" "queue_ok (s\<lparr>u_hrt := u\<rparr>) xs = queue_ok s xs"
  "queue_ok (s\<lparr>lastdisp := l\<rparr>) xs = queue_ok s xs" "queue_ok (s\<lparr>dcb_current := l\<rparr>) xs = queue_ok s xs"
  "queue_ok (s\<lparr>wakeup_queue_head := l\<rparr>) xs = queue_ok s xs"
  by (simp_all add: queue_ok_def)

lemma counted_updates [simp]:
  "counted (s\<lparr>readings := r\<rparr>) X = counted s X" "counted (s\<lparr>lastdisp := l\<rparr>) X = counted s X"
  "counted (s\<lparr>dcb_current := l\<rparr>) X = counted s X" "counted (s\<lparr>wakeup_queue_head := l\<rparr>) X = counted s X"
  by (simp_all add: counted_def)

lemma counted_set_queue [simp]: "counted (set_queue ys s) X = counted s X"
  by (auto intro: counted_cong)

lemma counted_upd: "counted s X \<Longrightarrow> profile (f (dcbs s p)) = profile (dcbs s p) \<Longrightarrow> counted (upd p f s) X"
  by (auto intro: counted_cong)

lemma sched_ok_updates [simp]:
  "sched_ok (s\<lparr>readings := r\<rparr>) xs = sched_ok s xs" "sched_ok (s\<lparr>lastdisp := l\<rparr>) xs = sched_ok s xs"
  "sched_ok (s\<lparr>dcb_current := l\<rparr>) xs = sched_ok s xs" "sched_ok (s\<lparr>wakeup_queue_head := l\<rparr>) xs = sched_ok s xs"
  by (simp_all add: sched_ok_def)

lemma sched_ok_upd:
  assumes "sched_ok s xs" "d_next (f (dcbs s p)) = d_next (dcbs s p)"
    "profile (f (dcbs s p)) = profile (dcbs s p)" "valid_task (f (dcbs s p))"
  shows "sched_ok (upd p f s) xs"
  using assms by (simp add: sched_ok_def queue_ok_upd counted_upd)

lemma sched_ok_requeue:
  "sched_ok s xs \<Longrightarrow> distinct ys \<Longrightarrow> set ys = set xs \<Longrightarrow> sched_ok (set_queue ys s) ys"
  by (simp add: sched_ok_def)

section \<open>Entering and leaving the queue\<close>

lemma demand_le:
  assumes "valid_task x" "task x = TASK_TYPE_HARD_REALTIME"
  shows "u_target x = Ok (demand x)" "unat (demand x) \<le> 1000000"
proof -
  show "u_target x = Ok (demand x)" using assms by (simp add: u_target_def demand_def valid_task_def)
  have le: "wcet x \<le> period x" "period x \<noteq> 0" "unat (wcet x) < 2 ^ 32" using assms by (auto simp: valid_task_def)
  then have "unat (wcet x * 1000000) = unat (wcet x) * 1000000"
    using unat_times_less [of "wcet x" 1000000] by simp
  moreover have "unat (wcet x) * 1000000 div unat (period x) \<le> 1000000"
  proof -
    have "unat (wcet x) * 1000000 div unat (period x) \<le> unat (period x) * 1000000 div unat (period x)"
      using le(1) by (intro div_le_mono) (simp add: word_le_nat_alt)
    then show ?thesis by (auto intro: order_trans)
  qed
  ultimately have "unat (wcet x * 1000000 div period x) \<le> 1000000"
    by (simp add: unat_div)
  then show "unat (demand x) \<le> 1000000"
    unfolding demand_def unat_ucast_32 by (simp add: le_less_trans)
qed

lemma counted_enter_be:
  assumes "counted s X" "finite X" "d \<notin> X" "\<And>p. p \<in> X \<Longrightarrow> profile (dcbs t p) = profile (dcbs s p)"
    "task (dcbs t d) = TASK_TYPE_BEST_EFFORT" "weight (dcbs t d) \<noteq> 0"
    "n_be t = n_be s + 1" "w_be t = w_be s + ucast (weight (dcbs t d))" "u_hrt t = u_hrt s" "u_srt t = u_srt s"
  shows "counted t (insert d X)"
proof -
  have "counted (t\<lparr>n_be := n_be s, w_be := w_be s\<rparr>) X"
    by (rule counted_cong [OF assms(1)]) (use assms in auto)
  moreover have "(of_nat (unat (weight (dcbs t d))) :: u32) = ucast (weight (dcbs t d))"
    by simp
  ultimately show ?thesis
    using assms by (auto simp: counted_def be_count_def be_weight_def hrt_load_def)
qed

lemma counted_enter_hrt:
  assumes "counted s X" "finite X" "d \<notin> X" "\<And>p. p \<in> X \<Longrightarrow> profile (dcbs t p) = profile (dcbs s p)"
    "task (dcbs t d) = TASK_TYPE_HARD_REALTIME" "valid_task (dcbs t d)"
    "n_be t = n_be s" "w_be t = w_be s" "u_hrt t = u_hrt s + demand (dcbs t d)" "u_srt t = u_srt s"
    "u_hrt t + u_srt t + 100000 \<le> 1000000"
  shows "counted t (insert d X)"
proof -
  have *: "counted (t\<lparr>u_hrt := u_hrt s\<rparr>) X"
    by (rule counted_cong [OF assms(1)]) (use assms in auto)
  have "unat (u_hrt s) \<le> 900000" using assms(1) by (simp add: counted_def word_le_nat_alt)
  moreover have "unat (demand (dcbs t d)) \<le> 1000000" using demand_le assms by blast
  ultimately have sum: "unat (u_hrt t) = unat (u_hrt s) + unat (demand (dcbs t d))"
    unfolding assms(9) by (intro unat_plus_less) simp
  then have "unat (u_hrt t + 100000) = unat (u_hrt t) + 100000"
    using \<open>unat (u_hrt s) \<le> 900000\<close> \<open>unat (demand (dcbs t d)) \<le> 1000000\<close> unat_plus_less [of "u_hrt t" 100000] by simp
  moreover have "u_srt t = 0" using assms(1,10) by (simp add: counted_def)
  ultimately have "u_hrt t \<le> 900000"
    using assms(11) by (simp add: word_le_nat_alt)
  with * sum assms show ?thesis
    by (auto simp: counted_def be_count_def be_weight_def hrt_load_def)
qed

lemma counted_leave:
  assumes "counted s X" "finite X" "d \<in> X" "\<And>p. p \<in> X \<Longrightarrow> profile (dcbs t p) = profile (dcbs s p)"
    "n_be t = n_be s - of_nat (be_count (dcbs s d))" "w_be t = w_be s - of_nat (be_weight (dcbs s d))"
    "u_hrt t = u_hrt s - of_nat (hrt_load (dcbs s d))" "u_srt t = u_srt s"
  shows "counted t (X - {d})"
proof -
  have *: "counted (t\<lparr>n_be := n_be s, w_be := w_be s, u_hrt := u_hrt s\<rparr>) X"
    by (rule counted_cong [OF assms(1)]) (use assms in auto)
  note same = profile_cong [OF assms(4) [OF assms(3)]]
  have "hrt_load (dcbs t d) \<le> unat (u_hrt s)"
    using * assms(2,3) by (simp add: counted_def sum.remove [of X d])
  moreover have "hrt_load (dcbs t d) < 2 ^ 32"
    using calculation unat_exp_less [of "u_hrt s"] by simp
  ultimately have "unat (u_hrt t) = unat (u_hrt s) - hrt_load (dcbs t d)"
    using assms(7) same unat_minus_le [of "of_nat (hrt_load (dcbs t d))" "u_hrt s"]
    by (simp add: word_le_nat_alt unat_of_nat_less)
  moreover have "u_hrt t \<le> u_hrt s"
    unfolding word_le_nat_alt using calculation by simp
  ultimately show ?thesis
    using * assms same by (auto simp: counted_def sum.remove [of X d])
qed

end
