(* ===== verification/Sched_Ops.thy ===== *)
theory Sched_Ops
  imports Sched_Inv
begin

text \<open>
  The operations on single tasks: entering and leaving the run queue, yielding, changing the
  parameters. Each keeps the invariant of the scheduler and does not touch the queue of timeouts.
\<close>

section \<open>What the scheduler leaves alone\<close>

definition wake_frame :: "kcb \<Rightarrow> kcb \<Rightarrow> bool" where
  "wake_frame s t \<longleftrightarrow>
     wakeup_queue_head t = wakeup_queue_head s \<and> clock t = clock s \<and> kernel_timeslice t = kernel_timeslice s \<and>
     (\<forall>p. wakeup_time (dcbs t p) = wakeup_time (dcbs s p) \<and> wakeup_prev (dcbs t p) = wakeup_prev (dcbs s p) \<and>
          wakeup_next (dcbs t p) = wakeup_next (dcbs s p))"

lemma wake_frame_refl [simp]: "wake_frame s s"
  by (simp add: wake_frame_def)

lemma wake_frame_trans: "wake_frame s t \<Longrightarrow> wake_frame t u \<Longrightarrow> wake_frame s u"
  by (simp add: wake_frame_def)

lemma wake_frame_set_queue [simp]: "wake_frame s (set_queue xs t) = wake_frame s t"
  by (simp add: wake_frame_def)

lemma wake_frame_updates [simp]:
  "wake_frame s (t\<lparr>readings := r\<rparr>) = wake_frame s t" "wake_frame s (t\<lparr>lastdisp := l\<rparr>) = wake_frame s t"
  "wake_frame s (t\<lparr>w_be := w\<rparr>) = wake_frame s t" "wake_frame s (t\<lparr>n_be := n\<rparr>) = wake_frame s t"
  "wake_frame s (t\<lparr>u_hrt := u\<rparr>) = wake_frame s t" "wake_frame s (t\<lparr>dcb_current := l\<rparr>) = wake_frame s t"
  by (simp_all add: wake_frame_def)

lemma wake_frame_upd:
  assumes "wake_frame s t" "wakeup_time (f (dcbs t p)) = wakeup_time (dcbs t p)"
    "wakeup_prev (f (dcbs t p)) = wakeup_prev (dcbs t p)" "wakeup_next (f (dcbs t p)) = wakeup_next (dcbs t p)"
  shows "wake_frame s (upd p f t)"
  using assms by (simp add: wake_frame_def)

lemma place_updates [simp]:
  "place (s\<lparr>readings := r\<rparr>) = place s" "place (s\<lparr>lastdisp := l\<rparr>) = place s" "place (s\<lparr>w_be := w\<rparr>) = place s"
  "place (s\<lparr>n_be := n\<rparr>) = place s" "place (s\<lparr>u_hrt := u\<rparr>) = place s"
  by (simp_all add: place_def fun_eq_iff)

lemma in_queue_updates [simp]: "in_queue (s\<lparr>readings := r\<rparr>) d = in_queue s d"
  by (simp add: in_queue_def)

section \<open>Entering the queue\<close>

text \<open>What \<open>make_runnable\<close> does to a best-effort task and the counters before it queues the task.\<close>

definition admit_be :: "u64 \<Rightarrow> u32 \<Rightarrow> kcb \<Rightarrow> kcb" where
  "admit_be now d s =
     (let w = (if weight (dcbs s d) = 0 then 1 else weight (dcbs s d));
          t = ucast (n_be s + 1) * kernel_timeslice s
      in (upd d (\<lambda>x. x\<lparr>weight := (if weight x = 0 then 1 else weight x), rel_deadline := t, period := t,
                            release_time := now, etime := 0\<rparr>) s)
           \<lparr>readings := Suc (readings s), w_be := w_be s + ucast w, n_be := n_be s + 1\<rparr>)"

lemma upd_collapse:
  "upd d f (upd d g s) = upd d (f \<circ> g) s"
  "upd d f (s\<lparr>w_be := w, n_be := n\<rparr>) = (upd d f s)\<lparr>w_be := w, n_be := n\<rparr>"
  "upd d f (s\<lparr>readings := r\<rparr>) = (upd d f s)\<lparr>readings := r\<rparr>"
  "upd d f (s\<lparr>u_hrt := u\<rparr>) = (upd d f s)\<lparr>u_hrt := u\<rparr>"
  by (auto intro!: kcb_eqI)

lemma no_overload: "counted s X \<Longrightarrow> \<not> 1000000 < u_hrt s + u_srt s + 100000"
proof -
  assume "counted s X"
  then have "u_srt s = 0" "unat (u_hrt s) \<le> 900000" by (auto simp: counted_def word_le_nat_alt)
  then show ?thesis
    using unat_plus_less [of "u_hrt s" 100000] by (simp add: word_less_nat_alt)
qed

lemma admit_be_ok:
  assumes "sched_ok s xs" "d \<notin> set xs" "task (dcbs s d) = TASK_TYPE_BEST_EFFORT"
  shows "queue_ok (admit_be now d s) xs" "counted (admit_be now d s) (insert d (set xs))"
    "valid_task (dcbs (admit_be now d s) p)" "wake_frame s (admit_be now d s)"
proof -
  have ok: "queue_ok s xs" "counted s (set xs)" "\<And>p. valid_task (dcbs s p)"
    using assms(1) by (auto simp: sched_ok_def)
  show "queue_ok (admit_be now d s) xs"
    unfolding admit_be_def Let_def using ok(1) by (simp add: queue_ok_upd)
  show "counted (admit_be now d s) (insert d (set xs))"
    by (rule counted_enter_be [OF ok(2)]) (use assms in \<open>auto simp: admit_be_def Let_def\<close>)
  show "valid_task (dcbs (admit_be now d s) p)"
    using ok(3) [of p] assms(3) by (auto simp: admit_be_def Let_def valid_task_def)
  show "wake_frame s (admit_be now d s)"
    unfolding admit_be_def Let_def by (simp add: wake_frame_upd)
qed

lemma make_runnable_be:
  assumes "sched_ok s xs" "d \<notin> set xs" "task (dcbs s d) = TASK_TYPE_BEST_EFFORT"
  defines "t \<equiv> admit_be (clock s (readings s)) d s"
  shows "make_runnable s d = Ok (set_queue (place t d xs) t)"
proof -
  have ok: "queue_ok s xs" "counted s (set xs)" using assms(1) by (auto simp: sched_ok_def)
  have "u_hrt t = u_hrt s" "u_srt t = u_srt s" "\<not> release_time (dcbs t d) < clock s (readings s)"
    by (simp_all add: t_def admit_be_def Let_def)
  then have "make_runnable s d = queue_insert t d"
    using no_overload [OF ok(2)] assms(2,3) in_queue_iff [OF ok(1)]
    by (simp add: make_runnable_def systime_now_def Let_def t_def admit_be_def upd_collapse comp_def)
  moreover have "queue_ok t xs" unfolding t_def using assms(1-3) by (rule admit_be_ok)
  ultimately show ?thesis using assms(2) by (simp add: queue_insert_ok)
qed

lemma make_runnable_hrt:
  assumes "sched_ok s xs" "d \<notin> set xs" "task (dcbs s d) = TASK_TYPE_HARD_REALTIME"
  defines "t \<equiv> (upd d (\<lambda>x. x\<lparr>etime := 0\<rparr>) s)\<lparr>readings := Suc (readings s), u_hrt := u_hrt s + demand (dcbs s d)\<rparr>"
  shows "make_runnable s d =
           (if 1000000 < u_hrt t + u_srt t + 100000 \<or> release_time (dcbs s d) < clock s (readings s) then Abort
            else Ok (set_queue (place t d xs) t))"
proof -
  have ok: "queue_ok s xs" using assms(1) by (auto simp: sched_ok_def)
  have "u_target (dcbs s d) = Ok (demand (dcbs s d))"
    using assms(1,3) demand_le(1) by (auto simp: sched_ok_def)
  then have "make_runnable s d =
      (if 1000000 < u_hrt t + u_srt t + 100000 \<or> release_time (dcbs s d) < clock s (readings s) then Abort
       else queue_insert t d)"
    using assms(2,3) in_queue_iff [OF ok]
    by (simp add: make_runnable_def systime_now_def Let_def t_def upd_collapse comp_def)
  moreover have "queue_ok t xs" unfolding t_def using ok by (simp add: queue_ok_upd)
  ultimately show ?thesis using assms(2) by (simp add: queue_insert_ok)
qed

lemma make_runnable_queued:
  "queue_ok s xs \<Longrightarrow> d \<in> set xs \<Longrightarrow> make_runnable s d = Ok (s\<lparr>readings := Suc (readings s)\<rparr>)"
  by (simp add: make_runnable_def systime_now_def in_queue_iff)

lemma make_runnable_srt:
  "queue_ok s xs \<Longrightarrow> d \<notin> set xs \<Longrightarrow> task (dcbs s d) = TASK_TYPE_SOFT_REALTIME \<Longrightarrow> make_runnable s d = Abort"
  by (simp add: make_runnable_def systime_now_def in_queue_iff)

lemma make_runnable_ok:
  assumes "sched_ok s xs" "make_runnable s d = Ok s'"
  shows "\<exists>xs'. sched_ok s' xs' \<and> set xs' = insert d (set xs) \<and> wake_frame s s'"
proof (cases "d \<in> set xs")
  case True
  with assms show ?thesis
    using make_runnable_queued [of s xs d]
    by (intro exI [of _ xs]) (auto simp: sched_okD)
next
  case False
  have ok: "queue_ok s xs" "counted s (set xs)" "\<And>p. valid_task (dcbs s p)" "distinct xs"
    using assms(1) by (auto simp: sched_ok_def queue_ok_def)
  show ?thesis
  proof (cases "task (dcbs s d)")
    case TASK_TYPE_BEST_EFFORT
    let ?t = "admit_be (clock s (readings s)) d s"
    have "s' = set_queue (place ?t d xs) ?t"
      using assms(2) make_runnable_be [OF assms(1) False TASK_TYPE_BEST_EFFORT] by simp
    with admit_be_ok [OF assms(1) False TASK_TYPE_BEST_EFFORT] False ok show ?thesis
      by (intro exI [of _ "place ?t d xs"]) (simp add: sched_ok_def distinct_place)
  next
    case TASK_TYPE_SOFT_REALTIME
    with assms False ok show ?thesis by (simp add: make_runnable_srt)
  next
    case TASK_TYPE_HARD_REALTIME
    define t where "t = (upd d (\<lambda>x. x\<lparr>etime := 0\<rparr>) s)\<lparr>readings := Suc (readings s), u_hrt := u_hrt s + demand (dcbs s d)\<rparr>"
    have s': "s' = set_queue (place t d xs) t" and le: "u_hrt t + u_srt t + 100000 \<le> 1000000"
      using assms(2) make_runnable_hrt [OF assms(1) False TASK_TYPE_HARD_REALTIME, folded t_def]
      by (auto split: if_splits)
    have "counted t (insert d (set xs))"
      by (rule counted_enter_hrt [OF ok(2)])
        (use False TASK_TYPE_HARD_REALTIME ok(3) le in \<open>auto simp: t_def demand_def\<close>)
    moreover have "queue_ok t xs" "wake_frame s t" "\<forall>p. valid_task (dcbs t p)"
      unfolding t_def using ok by (auto simp: queue_ok_upd wake_frame_upd)
    ultimately show ?thesis
      unfolding s' using False ok(4)
      by (intro exI [of _ "place t d xs"]) (simp add: sched_ok_def distinct_place)
  qed
qed

section \<open>Leaving the queue\<close>

lemma scheduler_remove_ok:
  assumes "sched_ok s xs"
  shows "\<exists>s'. scheduler_remove s d = Ok s' \<and> sched_ok s' (remove1 d xs) \<and> wake_frame s s' \<and>
              readings s' = readings s \<and> (\<forall>p. dcbs s' p = (dcbs s p)\<lparr>d_next := succ_in (remove1 d xs) p\<rparr>)"
proof (cases "d \<in> set xs")
  case False
  have "dcbs s p = dcbs (set_queue xs s) p" for p
    using set_queue_idem [OF sched_okD(1) [OF assms]] by simp
  moreover have "scheduler_remove s d = Ok s"
    using False sched_okD(1) [OF assms] by (simp add: scheduler_remove_def in_queue_iff)
  ultimately show ?thesis using assms False by (simp add: remove1_idem)
next
  case True
  have ok: "queue_ok s xs" "counted s (set xs)" "\<And>p. valid_task (dcbs s p)" "distinct xs"
    using assms by (auto simp: sched_ok_def queue_ok_def)
  let ?q = "set_queue (remove1 d xs) s"
  define t where "t = ?q\<lparr>n_be := n_be s - of_nat (be_count (dcbs s d)),
      w_be := w_be s - of_nat (be_weight (dcbs s d)), u_hrt := u_hrt s - of_nat (hrt_load (dcbs s d))\<rparr>"
  have "task (dcbs s d) \<noteq> TASK_TYPE_SOFT_REALTIME" using True ok(2) by (simp add: counted_def)
  moreover have "u_target ((dcbs s d)\<lparr>d_next := n\<rparr>) = Ok (demand (dcbs s d))"
    if "task (dcbs s d) = TASK_TYPE_HARD_REALTIME" for n
    using demand_le(1) [OF ok(3) that] by (auto simp: u_target_def split: if_splits)
  ultimately have "scheduler_remove s d = Ok t"
    using True ok(1) by (cases "task (dcbs s d)")
      (auto simp: scheduler_remove_def in_queue_iff queue_remove_ok t_def be_count_def be_weight_def hrt_load_def
        intro!: kcb_eqI)
  moreover have "counted t (set xs - {d})"
    by (rule counted_leave [OF ok(2)]) (use True in \<open>auto simp: t_def\<close>)
  moreover have "queue_ok t (remove1 d xs)" "wake_frame s t" "\<forall>p. valid_task (dcbs t p)"
    unfolding t_def using ok by auto
  ultimately show ?thesis
    using ok(4) by (auto simp: sched_ok_def t_def)
qed

section \<open>Yielding and parameters\<close>

text \<open>Taking a task out, changing it and putting it back.\<close>

definition requeue :: "u32 list \<Rightarrow> u32 \<Rightarrow> (dcb \<Rightarrow> dcb) \<Rightarrow> kcb \<Rightarrow> kcb" where
  "requeue xs d f s = (let t = upd d f s in (set_queue (place t d (remove1 d xs)) t)\<lparr>lastdisp := None\<rparr>)"

lemma place_set_queue [simp]: "place (set_queue ys s) = place s"
  by (simp add: place_def skips_def deadline_def fun_eq_iff)

lemma place_cong:
  "(\<And>p. skips (dcbs t d) (dcbs t p) = skips (dcbs s d) (dcbs s p)) \<Longrightarrow> place t d xs = place s d xs"
  by (simp add: place_def)

lemma requeue_eq:
  assumes "queue_ok s xs" "d \<in> set xs" "\<And>x n. f (x\<lparr>d_next := n\<rparr>) = (f x)\<lparr>d_next := n\<rparr>"
  shows "bind_outcome (queue_remove s d) (\<lambda>s. bind_outcome (queue_insert (upd d f s) d) (\<lambda>s. Ok (s\<lparr>lastdisp := None\<rparr>))) =
         Ok (requeue xs d f s)"
proof -
  let ?u = "upd d f (set_queue (remove1 d xs) s)"
  have "queue_ok ?u (remove1 d xs)"
    using queue_ok_distinct [OF assms(1)] assms(3) [of _ "dcbs s d"] by (simp add: queue_ok_upd)
  then have "queue_insert ?u d = Ok (set_queue (place ?u d (remove1 d xs)) ?u)"
    using queue_ok_distinct [OF assms(1)] by (simp add: queue_insert_ok)
  moreover have "place ?u d (remove1 d xs) = place (upd d f s) d (remove1 d xs)"
    by (rule place_cong) (auto simp: assms(3) skips_def deadline_def)
  moreover have "set_queue ys ?u = set_queue ys (upd d f s)" for ys
    by (auto intro!: kcb_eqI simp: assms(3))
  ultimately show ?thesis
    by (simp add: queue_remove_ok [OF assms(1)] requeue_def Let_def)
qed

lemma requeue_ok:
  assumes "sched_ok s xs" "d \<in> set xs" "profile (f (dcbs s d)) = profile (dcbs s d)" "valid_task (f (dcbs s d))"
  shows "sched_ok (requeue xs d f s) (place (upd d f s) d (remove1 d xs))"
proof -
  have "counted (upd d f s) (set xs)" using assms(3) sched_okD(2) [OF assms(1)] by (rule counted_upd [rotated])
  with assms sched_okD [OF assms(1)] show ?thesis
    by (simp add: sched_ok_def requeue_def Let_def distinct_place insert_absorb)
qed

definition yield_update :: "u64 \<Rightarrow> dcb \<Rightarrow> dcb" where
  "yield_update now x =
     x\<lparr>release_time := (if task x = TASK_TYPE_BEST_EFFORT then now else release_time x + period x), etime := 0\<rparr>"

lemma yield_update_simps [simp]:
  "yield_update now (x\<lparr>d_next := n\<rparr>) = (yield_update now x)\<lparr>d_next := n\<rparr>"
  "profile (yield_update now x) = profile x" "valid_task (yield_update now x) = valid_task x"
  "wakeup_time (yield_update now x) = wakeup_time x" "wakeup_prev (yield_update now x) = wakeup_prev x"
  "wakeup_next (yield_update now x) = wakeup_next x"
  by (simp_all add: yield_update_def)

lemma queue_insert_lastdisp:
  assumes "queue_ok s xs" "d \<notin> set xs"
  shows "queue_insert (s\<lparr>lastdisp := l\<rparr>) d = bind_outcome (queue_insert s d) (\<lambda>s. Ok (s\<lparr>lastdisp := l\<rparr>))"
  using queue_insert_ok [OF assms] queue_insert_ok [of "s\<lparr>lastdisp := l\<rparr>" xs d] assms
  by (simp add: set_queue_def)

lemma scheduler_yield_eq:
  assumes "queue_ok s xs"
  defines "now \<equiv> clock s (readings s)"
  shows "scheduler_yield s d =
           Ok (if d \<notin> set xs \<or> now < release_time (dcbs s d) then s\<lparr>readings := Suc (readings s)\<rparr>
               else requeue xs d (yield_update now) (s\<lparr>readings := Suc (readings s)\<rparr>))"
proof (cases "d \<notin> set xs \<or> now < release_time (dcbs s d)")
  case True
  with assms show ?thesis by (auto simp: scheduler_yield_def systime_now_def in_queue_iff)
next
  case False
  define t where "t = s\<lparr>readings := Suc (readings s)\<rparr>"
  have t: "queue_ok t xs" "d \<in> set xs" "distinct xs" using assms False by (auto simp: t_def queue_ok_def)
  let ?u = "upd d (yield_update now) (set_queue (remove1 d xs) t)"
  have "scheduler_yield s d = bind_outcome (queue_remove t d) (\<lambda>s. queue_insert ((upd d (yield_update now) s)\<lparr>lastdisp := None\<rparr>) d)"
    using False assms t
    by (simp add: scheduler_yield_def systime_now_def in_queue_iff t_def now_def upd_collapse comp_def yield_update_def [abs_def] Let_def)
  also have "\<dots> = bind_outcome (queue_remove t d)
      (\<lambda>s. bind_outcome (queue_insert (upd d (yield_update now) s) d) (\<lambda>s. Ok (s\<lparr>lastdisp := None\<rparr>)))"
    using queue_insert_lastdisp [of ?u "remove1 d xs" d None] t
    by (simp add: queue_remove_ok [OF t(1)] queue_ok_upd)
  also have "\<dots> = Ok (requeue xs d (yield_update now) t)"
    by (rule requeue_eq [OF t(1,2)]) simp
  finally show ?thesis using False by (simp add: t_def)
qed

lemma wake_frame_requeue:
  assumes "\<And>x. wakeup_time (f x) = wakeup_time x \<and> wakeup_prev (f x) = wakeup_prev x \<and> wakeup_next (f x) = wakeup_next x"
  shows "wake_frame s (requeue xs d f s)"
  using assms by (simp add: requeue_def Let_def wake_frame_upd)

lemma scheduler_yield_ok:
  assumes "sched_ok s xs"
  shows "\<exists>s' xs'. scheduler_yield s d = Ok s' \<and> sched_ok s' xs' \<and> set xs' = set xs \<and> wake_frame s s'"
proof -
  let ?t = "s\<lparr>readings := Suc (readings s)\<rparr>" and ?f = "yield_update (clock s (readings s))"
  note eq = scheduler_yield_eq [OF sched_okD(1) [OF assms], of d]
  show ?thesis
  proof (cases "d \<notin> set xs \<or> clock s (readings s) < release_time (dcbs s d)")
    case True
    with eq assms show ?thesis by (auto intro!: exI [of _ xs])
  next
    case False
    then have "sched_ok (requeue xs d ?f ?t) (place (upd d ?f ?t) d (remove1 d xs))"
      using assms sched_okD(3) [OF assms] by (intro requeue_ok) auto
    moreover have "wake_frame s (requeue xs d ?f ?t)"
      using wake_frame_requeue [of ?f ?t xs d] wake_frame_trans [of s ?t] by simp
    moreover have "set (place (upd d ?f ?t) d (remove1 d xs)) = set xs"
      using False sched_okD(4) [OF assms] by (auto simp: insert_absorb)
    ultimately show ?thesis using eq False by auto
  qed
qed

lemma schedule_now_ok:
  "sched_ok s xs \<Longrightarrow> sched_ok (schedule_now s d) xs" "wake_frame s (schedule_now s d)"
  by (auto simp: schedule_now_def systime_now_def sched_okD intro!: sched_ok_upd wake_frame_upd)

text \<open>
  A queue without the task whose parameters change: the parameters do not matter for the counters.
  A hard real-time task with an invalid period never becomes runnable.
\<close>

lemma sys_dispatcher_properties_ok:
  assumes "sched_ok s xs" "sys_dispatcher_properties s d ty dl wc per release wt = Ok s'"
  shows "\<exists>xs'. sched_ok s' xs' \<and> set xs' = insert d (set xs) \<and> wake_frame s s'"
proof -
  define f where "f rel x = x\<lparr>task := ty, rel_deadline := ucast dl, wcet := ucast wc, period := ucast per,
      release_time := rel, weight := wt\<rparr>" for rel and x :: dcb
  obtain t where t: "scheduler_remove s d = Ok t" "sched_ok t (remove1 d xs)" "wake_frame s t"
    using scheduler_remove_ok [OF assms(1)] by blast
  define u where "u = snd (if release = 0 then systime_now t else (ucast release, t))"
  define rel where "rel = fst (if release = 0 then systime_now t else (ucast release, t))"
  have run: "make_runnable (upd d (f rel) u) d = Ok s'" and le: "wc \<le> per"
    using assms(2) t(1) by (auto simp: sys_dispatcher_properties_def f_def [abs_def] u_def rel_def split_beta Let_def split: if_splits)
  have notin: "d \<notin> set (remove1 d xs)" using sched_okD(4) [OF assms(1)] by simp
  have u: "sched_ok u (remove1 d xs)" "wake_frame s u"
    using t(2,3) by (auto simp: u_def systime_now_def)
  have q: "queue_ok (upd d (f rel) u) (remove1 d xs)"
    using sched_okD(1) [OF u(1)] by (simp add: queue_ok_upd f_def)
  have per: "valid_task (f rel x)" for x
  proof -
    have "per \<noteq> 0" if "ty = TASK_TYPE_HARD_REALTIME"
      using run that in_queue_iff [OF q, of d] notin
      by (auto simp: make_runnable_def systime_now_def in_queue_def f_def u_target_def)
    then show ?thesis
      using le unat_exp_less [of wc]
      by (auto simp: valid_task_def f_def word_le_nat_alt unat_ucast_64 unat_eq_zero [symmetric] simp del: unat_eq_zero)
  qed
  have "counted (upd d (f rel) u) (set (remove1 d xs))"
    using sched_okD(2) [OF u(1)] by (rule counted_cong) (use notin in auto)
  then have "sched_ok (upd d (f rel) u) (remove1 d xs)"
    using q per sched_okD(3) [OF u(1)] by (simp add: sched_ok_def)
  from make_runnable_ok [OF this run] obtain xs' where xs': "sched_ok s' xs'" "set xs' = insert d (set (remove1 d xs))"
      "wake_frame (upd d (f rel) u) s'"
    by blast
  moreover have "wake_frame s (upd d (f rel) u)" using u(2) by (simp add: wake_frame_upd f_def)
  ultimately show ?thesis
    using sched_okD(4) [OF assms(1)] wake_frame_trans by (intro exI [of _ xs']) auto
qed

end
