(* ===== verification/Sched_Loop.thy ===== *)
theory Sched_Loop
  imports Sched_Ops
begin

text \<open>
  The scheduling decision: the budget of a best-effort task, one attempt with the first released
  task, and the loop that puts tasks over their budget back until a task can run. The loop ends
  because every task it puts back has its execution time reset.
\<close>

section \<open>Budgets of best-effort tasks\<close>

definition be_share :: "kcb \<Rightarrow> u16 \<Rightarrow> u32" where
  "be_share s w = (max 100000 (1000000 - u_hrt s - u_srt s) * ucast w) div w_be s"

definition be_period :: "kcb \<Rightarrow> u64" where
  "be_period s = ucast (n_be s) * kernel_timeslice s"

definition be_wcet :: "kcb \<Rightarrow> u16 \<Rightarrow> u64" where
  "be_wcet s w = (be_period s * ucast (be_share s w) + 500000) div 1000000"

lemma unat_ucast_16_32: "unat (ucast (w :: u16) :: u32) = unat w"
  unfolding unsigned_ucast_eq using unat_exp_less [of w] by (simp add: take_bit_eq_mod)

lemma member_le_sum_nat: "finite X \<Longrightarrow> p \<in> X \<Longrightarrow> f p \<le> (\<Sum>q\<in>X. f q :: nat)"
  by (simp add: sum.remove)

lemma counted_exact:
  assumes "counted s X"
  shows "(\<Sum>p\<in>X. be_count (dcbs s p)) < 2 ^ 32 \<Longrightarrow> unat (n_be s) = (\<Sum>p\<in>X. be_count (dcbs s p))"
    "(\<Sum>p\<in>X. be_weight (dcbs s p)) < 2 ^ 32 \<Longrightarrow> unat (w_be s) = (\<Sum>p\<in>X. be_weight (dcbs s p))"
  using assms unat_of_nat_less [where 'a = 32] by (auto simp: counted_def simp del: of_nat_sum)

lemma be_counters:
  assumes "counted s X" "finite X" "p \<in> X" "task (dcbs s p) = TASK_TYPE_BEST_EFFORT"
    "(\<Sum>q\<in>X. be_weight (dcbs s q)) < 2 ^ 32"
  shows "0 < n_be s" "0 < w_be s" "unat (weight (dcbs s p)) \<le> unat (w_be s)"
proof -
  have w: "unat (w_be s) = (\<Sum>q\<in>X. be_weight (dcbs s q))"
    using assms(5) by (rule counted_exact(2) [OF assms(1)])
  moreover have "unat (weight (dcbs s p)) = be_weight (dcbs s p)" using assms(4) by (simp add: be_weight_def)
  ultimately show le: "unat (weight (dcbs s p)) \<le> unat (w_be s)"
    using member_le_sum_nat [OF assms(2,3), of "\<lambda>q. be_weight (dcbs s q)"] by simp
  have "0 < unat (weight (dcbs s p))" using assms(1,3,4) by (simp add: counted_def unat_gt_0)
  with le show "0 < w_be s" by (simp add: word_less_nat_alt)
  have "be_count (dcbs s q) \<le> be_weight (dcbs s q)" if "q \<in> X" for q
  proof -
    have "0 < unat (weight (dcbs s q))" if "task (dcbs s q) = TASK_TYPE_BEST_EFFORT"
      using assms(1) \<open>q \<in> X\<close> that by (simp add: counted_def unat_gt_0)
    then show ?thesis by (simp add: be_count_def be_weight_def Suc_le_eq)
  qed
  then have "(\<Sum>q\<in>X. be_count (dcbs s q)) < 2 ^ 32"
    using sum_mono [of X "\<lambda>q. be_count (dcbs s q)" "\<lambda>q. be_weight (dcbs s q)"] assms(5) by simp
  then have "unat (n_be s) = (\<Sum>q\<in>X. be_count (dcbs s q))"
    by (rule counted_exact(1) [OF assms(1)])
  moreover have "1 \<le> (\<Sum>q\<in>X. be_count (dcbs s q))"
    using member_le_sum_nat [OF assms(2,3), of "\<lambda>q. be_count (dcbs s q)"] assms(4) by (simp add: be_count_def)
  ultimately show "0 < n_be s" by (simp add: word_less_nat_alt)
qed

text \<open>The shares handed out never exceed what the real-time tasks leave.\<close>

lemma be_share_bound:
  assumes "unat (u_hrt s) \<le> 900000" "u_srt s = 0" "unat w < 4294" "unat w \<le> unat (w_be s)" "0 < w_be s"
  shows "unat (be_share s w) \<le> 1000000 - unat (u_hrt s)"
    "u_hrt s + u_srt s + be_share s w \<le> 1000000"
proof -
  have rest: "unat (1000000 - u_hrt s) = 1000000 - unat (u_hrt s)"
    using assms(1) unat_minus_le [of "u_hrt s" 1000000] by (simp add: word_le_nat_alt)
  then have "100000 \<le> 1000000 - u_hrt s" unfolding word_le_nat_alt using assms(1) by simp
  then have m: "max 100000 (1000000 - u_hrt s - u_srt s) = 1000000 - u_hrt s"
    using assms(2) by (simp only: diff_zero max.absorb2)
  have "unat (1000000 - u_hrt s) * unat w \<le> 1000000 * 4293"
    using assms(3) rest by (intro mult_le_mono) auto
  then have prod: "unat ((1000000 - u_hrt s) * ucast w) = (1000000 - unat (u_hrt s)) * unat w"
    using unat_times_less [of "1000000 - u_hrt s" "ucast w"] rest by (simp add: unat_ucast_16_32)
  have "unat (be_share s w) = (1000000 - unat (u_hrt s)) * unat w div unat (w_be s)"
    by (simp only: be_share_def m unat_div prod)
  also have "\<dots> \<le> (1000000 - unat (u_hrt s)) * unat (w_be s) div unat (w_be s)"
    using assms(4) by (intro div_le_mono mult_le_mono2)
  also have "\<dots> = 1000000 - unat (u_hrt s)" using assms(5) by (simp add: word_less_nat_alt)
  finally show *: "unat (be_share s w) \<le> 1000000 - unat (u_hrt s)" .
  then have "unat (u_hrt s + be_share s w) = unat (u_hrt s) + unat (be_share s w)"
    using assms(1) by (intro unat_plus_less) simp
  with * assms(1,2) show "u_hrt s + u_srt s + be_share s w \<le> 1000000" by (simp add: word_le_nat_alt)
qed

definition allot :: "kcb \<Rightarrow> dcb \<Rightarrow> dcb" where
  "allot s x = x\<lparr>rel_deadline := be_period s, period := be_period s, wcet := be_wcet s (weight x)\<rparr>"

lemma upd_cong: "f (dcbs s p) = g (dcbs s p) \<Longrightarrow> upd p f s = upd p g s"
  by (simp add: upd_def)

lemma set_best_effort_wcet_ok:
  assumes "sched_ok s xs" "p \<in> set xs" "task (dcbs s p) = TASK_TYPE_BEST_EFFORT"
    "unat (weight (dcbs s p)) < 4294" "(\<Sum>q\<in>set xs. be_weight (dcbs s q)) < 2 ^ 32"
  shows "set_best_effort_wcet s p = Ok (upd p (allot s) s)"
proof -
  have c: "counted s (set xs)" using assms(1) by (rule sched_okD)
  note pos = be_counters [OF c _ assms(2,3,5), simplified]
  have "unat (u_hrt s) \<le> 900000" "u_srt s = 0" using c by (auto simp: counted_def word_le_nat_alt)
  from be_share_bound(2) [OF this assms(4) pos(3,2)] pos(1,2) assms(3,4)
  have "do_resource_allocation s p =
          Ok (be_share s (weight (dcbs s p)), upd p (\<lambda>x. x\<lparr>rel_deadline := be_period s, period := be_period s\<rparr>) s)"
      "u_hrt s + u_srt s + be_share s (weight (dcbs s p)) \<le> 1000000"
    by (simp_all add: do_resource_allocation_def be_share_def be_period_def Let_def)
  then show ?thesis
    by (simp add: set_best_effort_wcet_def upd_collapse comp_def allot_def be_wcet_def be_period_def cong: upd_cong)
qed

section \<open>One attempt\<close>

definition released :: "kcb \<Rightarrow> u64 \<Rightarrow> u32 \<Rightarrow> bool" where
  "released s now p \<longleftrightarrow> release_time (dcbs s p) \<le> now"

lemma skip_unreleased_ok:
  "queue_ok s (us @ ys) \<Longrightarrow> skip_unreleased s now (hd_opt ys) = Some (find (released s now) ys)"
proof (induction ys arbitrary: us)
  case Nil
  then show ?case by (simp add: skip_unreleased.simps)
next
  case (Cons y ys)
  then show ?case
    using Cons.IH [of "us @ [y]"] queue_ok_next [of s us y ys]
    by (auto simp: skip_unreleased.simps [of s now "Some y"] released_def)
qed

text \<open>
  The tasks for which no assertion of the scheduler fails. A best-effort task has a positive budget;
  a hard real-time task has not missed its deadline, and the next one can be computed without overflow.
\<close>

definition task_ready :: "kcb \<Rightarrow> u64 \<Rightarrow> dcb \<Rightarrow> bool" where
  "task_ready s now x =
     (case task x of
        TASK_TYPE_BEST_EFFORT \<Rightarrow> unat (weight x) < 4294 \<and> 0 < be_wcet s (weight x)
      | TASK_TYPE_SOFT_REALTIME \<Rightarrow> False
      | TASK_TYPE_HARD_REALTIME \<Rightarrow>
          now \<le> deadline x \<and> 0 < wcet x \<and>
          (etime x < wcet x \<or> unat (release_time x) + unat (period x) + unat (rel_deadline x) < 2 ^ 64))"

definition schedulable :: "kcb \<Rightarrow> u64 \<Rightarrow> u32 list \<Rightarrow> bool" where
  "schedulable s now xs \<longleftrightarrow>
     sched_ok s xs \<and> (\<Sum>p\<in>set xs. be_weight (dcbs s p)) < 2 ^ 32 \<and> now \<le> now + be_period s \<and>
     (\<forall>p\<in>set xs. task_ready s now (dcbs s p))"

text \<open>The lazy allocation for a best-effort task, and the bookkeeping for a task over its budget.\<close>

definition prepare :: "kcb \<Rightarrow> u64 \<Rightarrow> dcb \<Rightarrow> dcb" where
  "prepare s now x =
     (if task x = TASK_TYPE_BEST_EFFORT
      then (allot s x)\<lparr>release_time := (if deadline (allot s x) < now then now else release_time x)\<rparr>
      else x)"

definition renew :: "u64 \<Rightarrow> dcb \<Rightarrow> dcb" where
  "renew now x =
     x\<lparr>release_time := (if task x = TASK_TYPE_BEST_EFFORT then now
                         else if release_time x < now then release_time x + period x else release_time x),
       etime := 0\<rparr>"

lemma prepare_simps [simp]:
  "d_next (prepare s now x) = d_next x" "task (prepare s now x) = task x" "weight (prepare s now x) = weight x"
  "etime (prepare s now x) = etime x" "profile (prepare s now x) = profile x"
  "wakeup_time (prepare s now x) = wakeup_time x" "wakeup_prev (prepare s now x) = wakeup_prev x"
  "wakeup_next (prepare s now x) = wakeup_next x" "valid_task x \<Longrightarrow> valid_task (prepare s now x)"
  by (simp_all add: prepare_def allot_def profile_def valid_task_def)

lemma renew_simps [simp]:
  "renew now (x\<lparr>d_next := n\<rparr>) = (renew now x)\<lparr>d_next := n\<rparr>"
  "d_next (renew now x) = d_next x" "task (renew now x) = task x" "weight (renew now x) = weight x"
  "etime (renew now x) = 0" "profile (renew now x) = profile x" "valid_task (renew now x) = valid_task x"
  "wcet (renew now x) = wcet x" "period (renew now x) = period x" "rel_deadline (renew now x) = rel_deadline x"
  "wakeup_time (renew now x) = wakeup_time x" "wakeup_prev (renew now x) = wakeup_prev x"
  "wakeup_next (renew now x) = wakeup_next x"
  by (simp_all add: renew_def)

lemma prepared_deadline:
  assumes "task_ready s now x" "now \<le> now + be_period s"
  shows "now \<le> deadline (prepare s now x)" "0 < wcet (prepare s now x)"
  using assms
  by (auto simp: prepare_def task_ready_def deadline_def allot_def split: task_type.splits)

lemma update_periodic_eq: "update_periodic s now p = upd p (renew now) s"
  by (auto intro!: kcb_eqI dcb.equality simp: update_periodic_def renew_def Let_def)

text \<open>The first released task runs, or it goes back into the queue.\<close>

lemma schedule_task_ok:
  assumes "schedulable s now xs" "p \<in> set xs"
  defines "t \<equiv> upd p (prepare s now) s"
  shows "schedule_task s now p =
           Ok (if etime (dcbs s p) < wcet (dcbs t p)
               then (case dcb_current s of
                       Some c \<Rightarrow> if lastdisp s = Some p \<and> c \<in> set xs then Some c else Some p
                     | None \<Rightarrow> Some p,
                     (upd p (\<lambda>x. x\<lparr>last_dispatch := now\<rparr>) t)\<lparr>lastdisp := Some p\<rparr>)
               else (None, requeue xs p (renew now) t))"
proof -
  have ok: "sched_ok s xs" "now \<le> now + be_period s" "(\<Sum>q\<in>set xs. be_weight (dcbs s q)) < 2 ^ 32"
      "task_ready s now (dcbs s p)"
    using assms(1,2) by (auto simp: schedulable_def)
  note dl = prepared_deadline [OF ok(4,2)]
  have t: "queue_ok t xs" "in_queue (upd p (\<lambda>x. x\<lparr>last_dispatch := now\<rparr>) t) c \<longleftrightarrow> c \<in> set xs" for c
    unfolding t_def using sched_okD(1) [OF ok(1)]
    by (auto simp: queue_ok_upd intro!: in_queue_iff)
  have lazy: "lazy_allocation s now p = Ok t"
  proof (cases "task (dcbs s p) = TASK_TYPE_BEST_EFFORT")
    case True
    then have "set_best_effort_wcet s p = Ok (upd p (allot s) s)"
      using set_best_effort_wcet_ok [OF ok(1) assms(2) True _ ok(3)] ok(4) by (simp add: task_ready_def)
    with True show ?thesis
      by (auto simp: lazy_allocation_def t_def prepare_def upd_collapse comp_def allot_def intro!: upd_cong)
  qed (simp add: lazy_allocation_def t_def prepare_def upd_def)
  have now: "now \<le> deadline (dcbs t p)" using dl by (simp add: t_def)
  show ?thesis
  proof (cases "etime (dcbs s p) < wcet (dcbs t p)")
    case True
    let ?u = "upd p (\<lambda>x. x\<lparr>last_dispatch := now\<rparr>) t"
    have "?u\<lparr>lastdisp := Some p\<rparr> = ?u" if "lastdisp s = Some p"
      using that by (simp add: t_def upd_def)
    moreover have "etime (dcbs t p) < wcet (dcbs t p)" "dcb_current t = dcb_current s" "lastdisp t = lastdisp s"
      using True by (simp_all add: t_def)
    ultimately show ?thesis
      using lazy now t(2) True by (auto simp: schedule_task_def Let_def not_less split: option.splits)
  next
    case False
    have "schedule_task s now p = bind_outcome (queue_remove t p) (\<lambda>s. bind_outcome (queue_insert (upd p (renew now) s) p)
              (\<lambda>s. Ok (None, s\<lparr>lastdisp := None\<rparr>)))"
      using lazy False leD [OF now] now by (auto simp: schedule_task_def update_periodic_eq t_def)
    also have "\<dots> = bind_outcome (Ok (requeue xs p (renew now) t)) (\<lambda>s. Ok (None, s))"
      unfolding requeue_eq [OF t(1) assms(2) renew_simps(1), symmetric] by (simp add: bind_outcome_assoc)
    finally show ?thesis using False by simp
  qed
qed

section \<open>Order of the queue\<close>

definition edf :: "kcb \<Rightarrow> u32 list \<Rightarrow> bool" where
  "edf s xs \<longleftrightarrow>
     sorted (map (\<lambda>p. deadline (dcbs s p)) xs) \<and> (\<forall>p\<in>set xs. task (dcbs s p) = TASK_TYPE_HARD_REALTIME)"

lemma sorted_place:
  "sorted (map f xs) \<Longrightarrow>
   sorted (map f (takeWhile (\<lambda>i. f i \<le> (f d :: 'b :: linorder)) xs @ d # dropWhile (\<lambda>i. f i \<le> f d) xs))"
  by (induction xs) (auto dest: set_takeWhileD set_dropWhileD)

lemma place_edf:
  assumes "edf s xs" "task (dcbs s d) = TASK_TYPE_HARD_REALTIME"
  shows "edf s (place s d xs)"
proof -
  have "skips (dcbs s d) (dcbs s i) \<longleftrightarrow> deadline (dcbs s i) \<le> deadline (dcbs s d)" for i
    using assms(2) by (simp add: skips_def)
  then have "place s d xs = takeWhile (\<lambda>i. deadline (dcbs s i) \<le> deadline (dcbs s d)) xs @ d #
      dropWhile (\<lambda>i. deadline (dcbs s i) \<le> deadline (dcbs s d)) xs"
    by (simp add: place_def)
  then have "sorted (map (\<lambda>p. deadline (dcbs s p)) (place s d xs))"
    using assms(1) sorted_place [of "\<lambda>p. deadline (dcbs s p)" xs d] by (simp add: edf_def)
  moreover have "\<forall>p\<in>set (place s d xs). task (dcbs s p) = TASK_TYPE_HARD_REALTIME"
    using assms by (simp add: edf_def)
  ultimately show ?thesis by (simp add: edf_def)
qed

lemma edf_cong:
  assumes "\<And>p. p \<in> set xs \<Longrightarrow> deadline (dcbs t p) = deadline (dcbs s p) \<and> task (dcbs t p) = task (dcbs s p)"
  shows "edf t xs = edf s xs"
proof -
  have "map (\<lambda>p. deadline (dcbs t p)) xs = map (\<lambda>p. deadline (dcbs s p)) xs" using assms by simp
  moreover have "(\<forall>p\<in>set xs. task (dcbs t p) = TASK_TYPE_HARD_REALTIME) \<longleftrightarrow>
      (\<forall>p\<in>set xs. task (dcbs s p) = TASK_TYPE_HARD_REALTIME)"
    using assms by auto
  ultimately show ?thesis by (simp only: edf_def)
qed

lemma edf_remove1: "edf s xs \<Longrightarrow> edf s (remove1 d xs)"
  using set_remove1_subset [of d xs] by (auto simp: edf_def sorted_map_remove1)

lemma requeue_edf:
  assumes "edf s xs" "distinct xs" "d \<in> set xs" "\<And>x. task (f x) = task x"
  shows "edf (requeue xs d f s) (place (upd d f s) d (remove1 d xs))"
proof -
  have "edf (upd d f s) (remove1 d xs)"
    using edf_remove1 [OF assms(1), of d] assms(2)
      edf_cong [of "remove1 d xs" "upd d f s" s] by auto
  then have "edf (upd d f s) (place (upd d f s) d (remove1 d xs))"
    using assms(1,3,4) by (intro place_edf) (auto simp: edf_def)
  moreover have "edf (requeue xs d f s) ys = edf (upd d f s) ys" for ys
    by (rule edf_cong) (simp add: requeue_def Let_def deadline_def)
  ultimately show ?thesis by simp
qed

section \<open>The loop\<close>

text \<open>What the scheduler promises of its decision \<open>r\<close>, with the queue \<open>xs\<close> before and \<open>ys\<close> after.\<close>

definition decides :: "kcb \<Rightarrow> u64 \<Rightarrow> u32 list \<Rightarrow> u32 option \<Rightarrow> kcb \<Rightarrow> u32 list \<Rightarrow> bool" where
  "decides s now xs r t ys \<longleftrightarrow>
     sched_ok t ys \<and> set ys = set xs \<and> wake_frame s t \<and> dcb_current t = dcb_current s \<and>
     (edf s xs \<longrightarrow> edf t ys) \<and> lastdisp t = find (released t now) ys \<and>
     (case lastdisp t of
        None \<Rightarrow> r = None
      | Some p \<Rightarrow>
          etime (dcbs t p) < wcet (dcbs t p) \<and> now \<le> deadline (dcbs t p) \<and> last_dispatch (dcbs t p) = now \<and>
          (r = Some p \<or> (\<exists>c\<in>set xs. r = Some c \<and> dcb_current s = Some c \<and> lastdisp s = Some p)))"

lemma be_budget_frame:
  assumes "u_hrt t = u_hrt s" "u_srt t = u_srt s" "w_be t = w_be s" "n_be t = n_be s" "kernel_timeslice t = kernel_timeslice s"
  shows "be_wcet t w = be_wcet s w" "be_period t = be_period s"
  using assms by (simp_all add: be_wcet_def be_period_def be_share_def)

lemma renewed_ready:
  assumes "task_ready s now x" "now \<le> now + be_period s" "\<not> etime x < wcet (prepare s now x)"
  shows "task_ready s now (renew now (prepare s now x))"
proof (cases "task x")
  case TASK_TYPE_HARD_REALTIME
  then have x: "prepare s now x = x" "now \<le> deadline x" "0 < wcet x"
      "unat (release_time x) + unat (period x) + unat (rel_deadline x) < 2 ^ 64"
    using assms(1,3) by (auto simp: task_ready_def prepare_def)
  have "unat (release_time x + rel_deadline x) = unat (release_time x) + unat (rel_deadline x)"
      "unat (release_time x + period x + rel_deadline x) = unat (release_time x) + unat (period x) + unat (rel_deadline x)"
    using x(4) unat_plus_less [of "release_time x" "rel_deadline x"] unat_plus_less [of "release_time x" "period x"]
      unat_plus_less [of "release_time x + period x" "rel_deadline x"] by simp_all
  with x have "now \<le> deadline (renew now x)"
    by (auto simp: deadline_def renew_def word_le_nat_alt TASK_TYPE_HARD_REALTIME)
  with x TASK_TYPE_HARD_REALTIME show ?thesis by (simp add: task_ready_def)
qed (use assms in \<open>auto simp: task_ready_def\<close>)

lemma find_unchanged:
  assumes "find P xs = Some p" "Q p" "\<And>q. q \<noteq> p \<Longrightarrow> Q q = P q"
  shows "find Q xs = Some p"
  using assms by (induction xs) (auto split: if_splits)

lemma find_SomeD: "find P xs = Some p \<Longrightarrow> p \<in> set xs \<and> P p"
  by (induction xs) (auto split: if_splits)

lemma find_first_least:
  "find P ys = Some p \<Longrightarrow> sorted (map f ys) \<Longrightarrow> q \<in> set ys \<Longrightarrow> P q \<Longrightarrow> f p \<le> (f q :: 'b :: linorder)"
  by (induction ys) (auto split: if_splits dest: find_SomeD)

lemma schedule_loop_run:
  assumes "schedulable s now xs" "find (released s now) xs = Some p"
    "etime (dcbs s p) < wcet (prepare s now (dcbs s p))"
  shows "\<exists>r t. schedule_loop s now = Some (Ok (r, t)) \<and> decides s now xs r t xs"
proof -
  have p: "p \<in> set xs" "released s now p" using find_SomeD [OF assms(2)] by auto
  have ok: "sched_ok s xs" "now \<le> now + be_period s" "task_ready s now (dcbs s p)"
    using assms(1) p by (auto simp: schedulable_def)
  define t where "t = (upd p (\<lambda>x. x\<lparr>last_dispatch := now\<rparr>) (upd p (prepare s now) s))\<lparr>lastdisp := Some p\<rparr>"
  define r where "r = (case dcb_current s of
      Some c \<Rightarrow> if lastdisp s = Some p \<and> c \<in> set xs then Some c else Some p | None \<Rightarrow> Some p)"
  have "schedule_task s now p = Ok (r, t)"
    using schedule_task_ok [OF assms(1) p(1)] assms(3) by (simp add: t_def r_def)
  moreover have "skip_unreleased s now (queue_head s) = Some (Some p)" "r \<noteq> None"
    using skip_unreleased_ok [of s "[]" xs now] assms(2) sched_okD(1) [OF ok(1)]
    by (auto simp: queue_ok_def r_def split: option.splits)
  ultimately have "schedule_loop s now = Some (Ok (r, t))"
    by (auto simp: schedule_loop.simps [of s])
  moreover have "sched_ok t xs"
    unfolding t_def using ok(1) sched_okD(3) [OF ok(1), of p]
    by (auto intro!: sched_ok_upd)
  moreover have "find (released t now) xs = Some p"
    by (rule find_unchanged [OF assms(2)]) (use p in \<open>auto simp: released_def t_def prepare_def allot_def\<close>)
  moreover have "edf s xs \<Longrightarrow> edf t xs"
    using p(1) edf_cong [of xs t s] by (auto simp: edf_def t_def prepare_def deadline_def)
  moreover have "wake_frame s t" unfolding t_def by (simp add: wake_frame_upd)
  moreover have "etime (dcbs t p) < wcet (dcbs t p)" "now \<le> deadline (dcbs t p)"
    using assms(3) prepared_deadline(1) [OF ok(3,2)] by (simp_all add: t_def deadline_def)
  ultimately show ?thesis
    by (auto simp: decides_def t_def r_def split: option.splits intro!: exI [of _ r] exI [of _ t])
qed

text \<open>A task over its budget goes back into the queue with its execution time reset.\<close>

definition put_back :: "kcb \<Rightarrow> u64 \<Rightarrow> u32 list \<Rightarrow> u32 \<Rightarrow> kcb" where
  "put_back s now xs p = requeue xs p (renew now) (upd p (prepare s now) s)"

definition put_back_queue :: "kcb \<Rightarrow> u64 \<Rightarrow> u32 list \<Rightarrow> u32 \<Rightarrow> u32 list" where
  "put_back_queue s now xs p = place (upd p (renew now) (upd p (prepare s now) s)) p (remove1 p xs)"

lemma task_ready_next [simp]: "task_ready s now (x\<lparr>d_next := n\<rparr>) = task_ready s now x"
  by (simp add: task_ready_def deadline_def split: task_type.splits)

lemma put_back_simps [simp]:
  "dcbs (put_back s now xs p) q =
     (if q = p then renew now (prepare s now (dcbs s p)) else dcbs s q)\<lparr>d_next := succ_in (put_back_queue s now xs p) q\<rparr>"
  "lastdisp (put_back s now xs p) = None" "dcb_current (put_back s now xs p) = dcb_current s"
  "u_hrt (put_back s now xs p) = u_hrt s" "u_srt (put_back s now xs p) = u_srt s"
  "w_be (put_back s now xs p) = w_be s" "n_be (put_back s now xs p) = n_be s"
  "kernel_timeslice (put_back s now xs p) = kernel_timeslice s"
  by (simp_all add: put_back_def requeue_def put_back_queue_def Let_def)

lemma set_put_back_queue [simp]: "distinct xs \<Longrightarrow> p \<in> set xs \<Longrightarrow> set (put_back_queue s now xs p) = set xs"
  by (auto simp: put_back_queue_def)

lemma put_back_ok:
  assumes "schedulable s now xs" "p \<in> set xs" "\<not> etime (dcbs s p) < wcet (prepare s now (dcbs s p))"
  shows "schedulable (put_back s now xs p) now (put_back_queue s now xs p)"
proof -
  have ok: "sched_ok s xs" "now \<le> now + be_period s" "(\<Sum>q\<in>set xs. be_weight (dcbs s q)) < 2 ^ 32"
      "\<And>q. q \<in> set xs \<Longrightarrow> task_ready s now (dcbs s q)"
    using assms(1) by (auto simp: schedulable_def)
  let ?t = "put_back s now xs p" and ?ys = "put_back_queue s now xs p"
  note frame = be_budget_frame [of ?t s, simplified]
  have "sched_ok (upd p (prepare s now) s) xs"
    using ok(1) sched_okD(3) [OF ok(1), of p] by (intro sched_ok_upd) auto
  then have t: "sched_ok ?t ?ys"
    unfolding put_back_def put_back_queue_def
    using assms(2) sched_okD(3) [OF ok(1), of p] by (intro requeue_ok) auto
  have same: "task_ready ?t now x = task_ready s now x" for x
    by (simp add: task_ready_def frame split: task_type.splits)
  have "task_ready ?t now (dcbs ?t q)" if "q \<in> set xs" for q
    using ok(4) [OF that] renewed_ready [OF ok(4) [OF assms(2)] ok(2) assms(3)] unfolding same by simp
  moreover have "(\<Sum>q\<in>set xs. be_weight (dcbs ?t q)) = (\<Sum>q\<in>set xs. be_weight (dcbs s q))"
    by (intro sum.cong) (auto simp: be_weight_def)
  ultimately show ?thesis
    using t ok(2,3) assms(2) sched_okD(4) [OF ok(1)] by (simp add: schedulable_def frame)
qed

lemma put_back_edf:
  assumes "edf s xs" "distinct xs" "p \<in> set xs"
  shows "edf (put_back s now xs p) (put_back_queue s now xs p)"
proof -
  have "upd p (prepare s now) s = s"
    using assms(1,3) by (auto simp: edf_def prepare_def upd_def)
  then show ?thesis
    unfolding put_back_def put_back_queue_def using requeue_edf [OF assms, of "renew now"] by simp
qed

lemma put_back_progress:
  assumes "distinct xs" "p \<in> set xs" "etime (dcbs s p) \<noteq> 0"
  shows "card {q \<in> set (put_back_queue s now xs p). etime (dcbs (put_back s now xs p) q) \<noteq> 0} <
         card {q \<in> set xs. etime (dcbs s q) \<noteq> 0}"
  by (rule psubset_card_mono) (use assms in \<open>auto split: if_splits\<close>)

lemma wake_frame_put_back: "wake_frame s (put_back s now xs p)"
proof -
  have "wake_frame s (upd p (prepare s now) s)" by (simp add: wake_frame_upd)
  then show ?thesis
    unfolding put_back_def using wake_frame_requeue [of "renew now"] wake_frame_trans by simp
qed

lemma decides_put_back:
  assumes "decides (put_back s now xs p) now (put_back_queue s now xs p) r t ys" "distinct xs" "p \<in> set xs"
  shows "decides s now xs r t ys"
  using assms wake_frame_trans [OF wake_frame_put_back, of s now xs p t] put_back_edf [of s xs p now]
  by (auto simp: decides_def split: option.splits)

text \<open>The loop ends with a decision, for every queue of ready tasks.\<close>

lemma schedule_loop_ok:
  assumes "schedulable s now xs"
  shows "\<exists>r t ys. schedule_loop s now = Some (Ok (r, t)) \<and> decides s now xs r t ys"
  using assms
proof (induction "card {q \<in> set xs. etime (dcbs s q) \<noteq> 0}" arbitrary: s xs rule: less_induct)
  case less
  have ok: "sched_ok s xs" and ready: "\<And>q. q \<in> set xs \<Longrightarrow> task_ready s now (dcbs s q)" "now \<le> now + be_period s"
    using less.prems by (auto simp: schedulable_def)
  have skip: "skip_unreleased s now (queue_head s) = Some (find (released s now) xs)"
    using skip_unreleased_ok [of s "[]" xs now] sched_okD(1) [OF ok] by (simp add: queue_ok_def)
  show ?case
  proof (cases "find (released s now) xs")
    case None
    let ?t = "s\<lparr>lastdisp := None\<rparr>"
    have "released ?t now = released s now" "edf ?t xs = edf s xs" by (auto simp: released_def edf_def fun_eq_iff)
    with None skip ok show ?thesis
      by (intro exI [of _ None] exI [of _ ?t] exI [of _ xs]) (simp add: schedule_loop.simps [of s] decides_def)
  next
    case (Some p)
    then have p: "p \<in> set xs" by (simp add: find_SomeD)
    show ?thesis
    proof (cases "etime (dcbs s p) < wcet (prepare s now (dcbs s p))")
      case True
      with schedule_loop_run [OF less.prems Some] show ?thesis by blast
    next
      case False
      let ?t = "put_back s now xs p" and ?ys = "put_back_queue s now xs p"
      have "etime (dcbs s p) \<noteq> 0"
        using False prepared_deadline(2) [OF ready(1) [OF p] ready(2)] by auto
      then obtain r t zs where "schedule_loop ?t now = Some (Ok (r, t))" "decides ?t now ?ys r t zs"
        using less.hyps [OF put_back_progress put_back_ok [OF less.prems p False]] p sched_okD(4) [OF ok] by blast
      moreover have "schedule_loop s now = schedule_loop ?t now"
        using schedule_task_ok [OF less.prems p] False skip Some
        by (simp add: schedule_loop.simps [of s] put_back_def)
      ultimately show ?thesis using decides_put_back [OF _ sched_okD(4) [OF ok] p] by fastforce
    qed
  qed
qed

section \<open>The scheduler\<close>

definition charge :: "u64 \<Rightarrow> dcb \<Rightarrow> dcb" where
  "charge now x =
     (if release_time x \<le> now then x\<lparr>etime := etime x + (now - max (last_dispatch x) (release_time x))\<rparr> else x)"

definition charged :: "kcb \<Rightarrow> u64 \<Rightarrow> kcb" where
  "charged s now = (case lastdisp s of None \<Rightarrow> s | Some l \<Rightarrow> upd l (charge now) s)"

lemma account_eq:
  "account s now =
     (if (case lastdisp s of None \<Rightarrow> True | Some l \<Rightarrow> last_dispatch (dcbs s l) \<le> now) then Ok (charged s now) else Abort)"
  by (auto simp: account_def charged_def charge_def upd_def split: option.splits)

lemma charged_ok: "sched_ok s xs \<Longrightarrow> sched_ok (charged s now) xs" "wake_frame s (charged s now)"
  by (auto simp: charged_def charge_def sched_okD intro!: sched_ok_upd wake_frame_upd split: option.splits)

lemma charged_same [simp]: "dcb_current (charged s now) = dcb_current s" "lastdisp (charged s now) = lastdisp s"
  by (simp_all add: charged_def split: option.splits)

lemma charged_edf: "edf (charged s now) xs = edf s xs"
  by (rule edf_cong) (simp add: charged_def charge_def deadline_def split: option.splits)

lemma schedule_ok:
  fixes s :: kcb
  defines "now \<equiv> clock s (readings s)"
  defines "t \<equiv> s\<lparr>readings := Suc (readings s)\<rparr>"
  assumes "schedulable (charged t now) now xs"
    "case lastdisp s of None \<Rightarrow> True | Some l \<Rightarrow> last_dispatch (dcbs s l) \<le> now"
  shows "\<exists>r s' ys. schedule s = Ok (r, s') \<and> decides (charged t now) now xs r s' ys"
proof -
  have "counted (charged t now) (set xs)" using assms(3) by (simp add: schedulable_def sched_ok_def)
  from no_overload [OF this] have le: "u_hrt s + u_srt s + 100000 \<le> 1000000"
    by (simp add: charged_def t_def not_less split: option.splits)
  obtain r s' ys where loop: "schedule_loop (charged t now) now = Some (Ok (r, s'))" "decides (charged t now) now xs r s' ys"
    using schedule_loop_ok [OF assms(3)] by blast
  have "schedule s = loop_result (schedule_loop (charged t now) now)"
    using le assms(4) by (auto simp: schedule_def systime_now_def account_eq t_def now_def split: option.splits)
  with loop show ?thesis by (auto simp: loop_result_def)
qed

end
