(* ===== verification/Sched_Wakeup.thy ===== *)
theory Sched_Wakeup
  imports Sched_Loop
begin

text \<open>
  The queue of timeouts: a doubly linked list sorted by the time of the wakeup. The operations are
  related to operations on the list of the dispatchers that wait.
\<close>

section \<open>Links in both directions\<close>

lemma hd_opt_rev [simp]: "hd_opt (rev xs) = last_opt xs"
  by (cases xs rule: rev_cases) auto

lemma last_opt_rev [simp]: "last_opt (rev xs) = hd_opt xs"
  by (cases xs) auto

lemma succ_in_insert:
  assumes "distinct (us @ vs)" "d \<notin> set (us @ vs)"
  shows "succ_in (us @ d # vs) q =
           (if q = d then hd_opt vs else if last_opt us = Some q then Some d else succ_in (us @ vs) q)"
  using assms by (auto simp: succ_in_append last_opt_eq_Some)

lemma succ_in_delete:
  assumes "distinct (us @ d # vs)"
  shows "succ_in (us @ vs) q =
           (if q = d then None else if last_opt us = Some q then hd_opt vs else succ_in (us @ d # vs) q)"
  using assms by (auto simp: succ_in_append last_opt_eq_Some succ_in_notin)

definition wakeup_links :: "kcb \<Rightarrow> u32 list \<Rightarrow> bool" where
  "wakeup_links s ws \<longleftrightarrow>
     distinct ws \<and> wakeup_queue_head s = hd_opt ws \<and>
     (\<forall>p. wakeup_next (dcbs s p) = succ_in ws p \<and> wakeup_prev (dcbs s p) = succ_in (rev ws) p)"

definition set_wakeup_queue :: "u32 list \<Rightarrow> kcb \<Rightarrow> kcb" where
  "set_wakeup_queue ws s =
     s\<lparr>dcbs := (\<lambda>p. (dcbs s p)\<lparr>wakeup_prev := succ_in (rev ws) p, wakeup_next := succ_in ws p\<rparr>),
       wakeup_queue_head := hd_opt ws\<rparr>"

lemma set_wakeup_queue_simps [simp]:
  "dcbs (set_wakeup_queue ws s) p = (dcbs s p)\<lparr>wakeup_prev := succ_in (rev ws) p, wakeup_next := succ_in ws p\<rparr>"
  "queue_head (set_wakeup_queue ws s) = queue_head s" "queue_tail (set_wakeup_queue ws s) = queue_tail s"
  "u_hrt (set_wakeup_queue ws s) = u_hrt s" "u_srt (set_wakeup_queue ws s) = u_srt s"
  "w_be (set_wakeup_queue ws s) = w_be s" "n_be (set_wakeup_queue ws s) = n_be s"
  "wakeup_queue_head (set_wakeup_queue ws s) = hd_opt ws" "lastdisp (set_wakeup_queue ws s) = lastdisp s"
  "dcb_current (set_wakeup_queue ws s) = dcb_current s"
  "kernel_timeslice (set_wakeup_queue ws s) = kernel_timeslice s"
  "clock (set_wakeup_queue ws s) = clock s" "readings (set_wakeup_queue ws s) = readings s"
  by (simp_all add: set_wakeup_queue_def)

lemma sched_ok_set_wakeup_queue [simp]: "sched_ok (set_wakeup_queue ws s) xs = sched_ok s xs"
proof -
  have "counted (set_wakeup_queue ws s) (set xs) = counted s (set xs)"
    by (auto elim!: counted_cong)
  then show ?thesis by (simp add: sched_ok_def queue_ok_def)
qed

text \<open>The blocks before and after a place of the list.\<close>

lemma wakeup_links_middle:
  assumes "wakeup_links s (us @ d # vs)"
  shows "wakeup_prev (dcbs s d) = last_opt us" "wakeup_next (dcbs s d) = hd_opt vs"
proof -
  have "distinct (us @ d # vs)" "distinct (rev vs @ d # rev us)" using assms by (auto simp: wakeup_links_def)
  then have "succ_in (us @ d # vs) d = hd_opt vs" "succ_in (rev vs @ d # rev us) d = hd_opt (rev us)"
    using succ_in_middle by fast+
  with assms show "wakeup_prev (dcbs s d) = last_opt us" "wakeup_next (dcbs s d) = hd_opt vs"
    by (simp_all add: wakeup_links_def)
qed

section \<open>Removal and insertion\<close>

lemma wakeup_same [simp]:
  "x\<lparr>wakeup_prev := wakeup_prev x\<rparr> = x" "x\<lparr>wakeup_next := wakeup_next x\<rparr> = x"
  by simp_all

text \<open>The state after unlinking a block between \<open>p\<close> and \<open>n\<close>, and after linking a block between them.\<close>

lemma wakeup_unlink_state:
  assumes "p \<noteq> Some d" "n \<noteq> Some d"
  shows "upd d (\<lambda>x. x\<lparr>wakeup_prev := None, wakeup_next := None\<rparr>) (set_wakeup_prev n p (set_wakeup_next p n s)) =
         s\<lparr>dcbs := (\<lambda>q. (dcbs s q)\<lparr>
               wakeup_prev := (if q = d then None else if n = Some q then p else wakeup_prev (dcbs s q)),
               wakeup_next := (if q = d then None else if p = Some q then n else wakeup_next (dcbs s q))\<rparr>),
           wakeup_queue_head := (if p = None then n else wakeup_queue_head s)\<rparr>"
  by (cases p; cases n) (use assms in \<open>auto intro!: kcb_eqI simp: set_wakeup_prev_def set_wakeup_next_def\<close>)

lemma wakeup_link_state:
  assumes "p \<noteq> Some d" "n \<noteq> Some d" "p = None \<Longrightarrow> wakeup_queue_head s = n"
  shows "wakeup_link s d p n =
         Ok (s\<lparr>dcbs := (\<lambda>q. (dcbs s q)\<lparr>
                 wakeup_prev := (if q = d then p else if n = Some q then Some d else wakeup_prev (dcbs s q)),
                 wakeup_next := (if q = d then n else if p = Some q then Some d else wakeup_next (dcbs s q))\<rparr>),
               wakeup_queue_head := (if p = None then Some d else wakeup_queue_head s)\<rparr>)"
  by (cases p; cases n) (use assms in \<open>auto intro!: kcb_eqI simp: wakeup_link_def set_wakeup_prev_def\<close>)

lemma wakeup_unlink_eq:
  assumes "wakeup_links s (us @ d # vs)"
  shows "upd d (\<lambda>x. x\<lparr>wakeup_prev := None, wakeup_next := None\<rparr>)
           (set_wakeup_prev (hd_opt vs) (last_opt us) (set_wakeup_next (last_opt us) (hd_opt vs) s)) =
         set_wakeup_queue (us @ vs) s"
proof -
  have d: "distinct (us @ d # vs)" "distinct (rev vs @ d # rev us)" using assms by (auto simp: wakeup_links_def)
  have nxt: "succ_in (us @ vs) q =
      (if q = d then None else if last_opt us = Some q then hd_opt vs else wakeup_next (dcbs s q))" for q
    using assms succ_in_delete [OF d(1), of q] by (simp add: wakeup_links_def)
  have prv: "succ_in (rev vs @ rev us) q =
      (if q = d then None else if hd_opt vs = Some q then last_opt us else wakeup_prev (dcbs s q))" for q
    using assms succ_in_delete [OF d(2), of q] by (simp add: wakeup_links_def)
  have ends: "last_opt us \<noteq> Some d" "hd_opt vs \<noteq> Some d" using d(1) by (auto simp: last_opt_eq_Some hd_opt_eq_Some)
  have head: "hd_opt (us @ vs) = (if last_opt us = None then hd_opt vs else wakeup_queue_head s)"
    using assms by (simp add: wakeup_links_def)
  show ?thesis
    unfolding wakeup_unlink_state [OF ends(1,2)] set_wakeup_queue_def by (simp only: nxt prv head rev_append)
qed

lemma wakeup_remove_ok:
  assumes "wakeup_links s ws" "wakeup_time (dcbs s d) \<noteq> 0 \<longleftrightarrow> d \<in> set ws"
  shows "wakeup_remove s d = Ok (set_wakeup_queue (remove1 d ws) s)"
proof (cases "d \<in> set ws")
  case False
  have "set_wakeup_queue ws s = s"
    using assms(1) by (auto intro!: kcb_eqI dcb.equality simp: wakeup_links_def)
  with False assms(2) show ?thesis by (simp add: wakeup_remove_def remove1_idem)
next
  case True
  then obtain us vs where ws: "ws = us @ d # vs" "d \<notin> set us" by (meson split_list_first)
  note l = assms(1) [unfolded ws(1)]
  have "wakeup_next_of s (last_opt us) = Some d"
    using l by (cases us rule: rev_cases) (auto simp: wakeup_next_of_def wakeup_links_def succ_in_append)
  moreover have "wakeup_prev (dcbs (set_wakeup_next (last_opt us) n s) m) = Some d" if "hd_opt vs = Some m" for n m
    using that l wakeup_links_middle(1) [of s "us @ [d]" m]
    by (auto simp: set_wakeup_next_def hd_opt_eq_Some split: option.splits)
  ultimately show ?thesis
    using True assms(2) wakeup_links_middle [OF l] wakeup_unlink_eq [OF l] ws
    by (auto simp: wakeup_remove_def Let_def remove1_append set_wakeup_prev_def split: option.splits)
qed

lemma wakeup_link_ok:
  assumes "wakeup_links s (us @ vs)" "d \<notin> set (us @ vs)"
  shows "wakeup_link s d (last_opt us) (hd_opt vs) = Ok (set_wakeup_queue (us @ d # vs) s)"
proof -
  have d: "distinct (us @ vs)" "distinct (rev vs @ rev us)" "d \<notin> set (rev vs @ rev us)"
    using assms by (auto simp: wakeup_links_def)
  have nxt: "succ_in (us @ d # vs) q =
      (if q = d then hd_opt vs else if last_opt us = Some q then Some d else wakeup_next (dcbs s q))" for q
    using assms(1) succ_in_insert [OF d(1) assms(2), of q] by (simp add: wakeup_links_def)
  have prv: "succ_in (rev vs @ d # rev us) q =
      (if q = d then last_opt us else if hd_opt vs = Some q then Some d else wakeup_prev (dcbs s q))" for q
    using assms(1) succ_in_insert [OF d(2,3), of q] by (simp add: wakeup_links_def)
  have ends: "last_opt us \<noteq> Some d" "hd_opt vs \<noteq> Some d" using assms(2) by (auto simp: last_opt_eq_Some hd_opt_eq_Some)
  have head: "hd_opt (us @ d # vs) = (if last_opt us = None then Some d else wakeup_queue_head s)"
      "last_opt us = None \<Longrightarrow> wakeup_queue_head s = hd_opt vs"
    using assms(1) by (simp_all add: wakeup_links_def)
  show ?thesis
    unfolding set_wakeup_queue_def
    by (simp only: nxt prv head(1) rev_append rev.simps append_assoc append_Cons append_Nil)
      (rule wakeup_link_state; use ends head(2) in blast)
qed

definition wakeup_order :: "kcb \<Rightarrow> u32 \<Rightarrow> u64 \<Rightarrow> u32 list \<Rightarrow> u32 list" where
  "wakeup_order s d w ws =
     takeWhile (\<lambda>p. wakeup_time (dcbs s p) \<le> w) ws @ d # dropWhile (\<lambda>p. wakeup_time (dcbs s p) \<le> w) ws"

lemma set_wakeup_order [simp]: "set (wakeup_order s d w ws) = insert d (set ws)"
  unfolding wakeup_order_def set_insert_between takeWhile_dropWhile_id ..

lemma distinct_wakeup_order: "distinct (wakeup_order s d w ws) \<longleftrightarrow> d \<notin> set ws \<and> distinct ws"
  unfolding wakeup_order_def distinct_insert_between takeWhile_dropWhile_id ..

lemma wakeup_place_ok:
  assumes "wakeup_links s (us @ vs)" "d \<notin> set (us @ vs)"
  shows "wakeup_place s d w (last_opt us) (hd_opt vs) = Some (Ok (set_wakeup_queue (us @ wakeup_order s d w vs) s))"
  using assms
proof (induction vs arbitrary: us)
  case Nil
  then show ?case using wakeup_link_ok [of s us "[]" d] by (simp add: wakeup_place.simps wakeup_order_def)
next
  case (Cons v vs)
  have "wakeup_place s d w (last_opt (us @ [v])) (hd_opt vs) = Some (Ok (set_wakeup_queue ((us @ [v]) @ wakeup_order s d w vs) s))"
    using Cons.IH [of "us @ [v]"] Cons.prems by simp
  then show ?case
    using Cons.prems wakeup_link_ok [of s us "v # vs" d] wakeup_links_middle(2) [of s us v vs]
    by (auto simp: wakeup_place.simps [of s d w "last_opt us"] wakeup_order_def not_le)
qed

section \<open>The invariant of the queue\<close>

definition wakeup_ok :: "kcb \<Rightarrow> u32 list \<Rightarrow> bool" where
  "wakeup_ok s ws \<longleftrightarrow>
     wakeup_links s ws \<and> sorted (map (\<lambda>p. wakeup_time (dcbs s p)) ws) \<and>
     (\<forall>p. wakeup_time (dcbs s p) \<noteq> 0 \<longleftrightarrow> p \<in> set ws)"

lemma wakeup_ok_frame: "wakeup_ok s ws \<Longrightarrow> wake_frame s t \<Longrightarrow> wakeup_ok t ws"
  by (simp add: wakeup_ok_def wakeup_links_def wake_frame_def)

lemma set_wakeup_queue_again: "set_wakeup_queue ws (upd d (\<lambda>x. x\<lparr>wakeup_time := w\<rparr>) (set_wakeup_queue vs s)) =
    set_wakeup_queue ws (upd d (\<lambda>x. x\<lparr>wakeup_time := w\<rparr>) s)"
  by (auto intro!: kcb_eqI)

lemma wakeup_set_eq:
  assumes "wakeup_ok s ws"
  shows "wakeup_set s d w =
           Ok (set_wakeup_queue (wakeup_order s d w (remove1 d ws)) (upd d (\<lambda>x. x\<lparr>wakeup_time := w\<rparr>) s))"
proof -
  have ok: "wakeup_links s ws" "\<And>p. wakeup_time (dcbs s p) \<noteq> 0 \<longleftrightarrow> p \<in> set ws" "distinct ws"
    using assms by (auto simp: wakeup_ok_def wakeup_links_def)
  define u where "u = upd d (\<lambda>x. x\<lparr>wakeup_time := w\<rparr>) (set_wakeup_queue (remove1 d ws) s)"
  let ?vs = "remove1 d ws"
  have u: "wakeup_links u ?vs" "d \<notin> set ?vs" using ok(3) by (auto simp: u_def wakeup_links_def)
  have "wakeup_set s d w = Ok (set_wakeup_queue (wakeup_order u d w ?vs) u)"
    using wakeup_place_ok [of u "[]" ?vs d w] u
    by (simp add: wakeup_set_def wakeup_remove_ok [OF ok(1,2)] u_def [symmetric] loop_result_def wakeup_links_def)
  moreover have "wakeup_order u d w ?vs = wakeup_order s d w ?vs"
    unfolding wakeup_order_def u_def using u(2)
    by (intro arg_cong2 [where f = append] arg_cong2 [where f = Cons] takeWhile_cong dropWhile_cong) auto
  ultimately show ?thesis by (simp add: u_def set_wakeup_queue_again)
qed

lemma wakeup_set_ok:
  fixes d :: u32
  assumes "wakeup_ok s ws" "w \<noteq> 0"
  defines "t \<equiv> set_wakeup_queue (wakeup_order s d w (remove1 d ws)) (upd d (\<lambda>x. x\<lparr>wakeup_time := w\<rparr>) s)"
  shows "wakeup_ok t (wakeup_order s d w (remove1 d ws))" "sched_ok s xs \<Longrightarrow> sched_ok t xs"
proof -
  let ?vs = "remove1 d ws" and ?f = "\<lambda>p. wakeup_time (dcbs t p)"
  have ok: "distinct ws" "sorted (map (\<lambda>p. wakeup_time (dcbs s p)) ws)" "\<And>p. wakeup_time (dcbs s p) \<noteq> 0 \<longleftrightarrow> p \<in> set ws"
    using assms(1) by (auto simp: wakeup_ok_def wakeup_links_def)
  have same: "map ?f ?vs = map (\<lambda>p. wakeup_time (dcbs s p)) ?vs" using ok(1) by (auto simp: t_def)
  then have "sorted (map ?f ?vs)" using sorted_map_remove1 [OF ok(2), of d] by (simp only:)
  moreover have "?f d = w" by (simp add: t_def)
  moreover have "wakeup_order s d w ?vs = wakeup_order t d w ?vs"
    unfolding wakeup_order_def t_def using ok(1)
    by (intro arg_cong2 [where f = append] arg_cong2 [where f = Cons] takeWhile_cong dropWhile_cong) auto
  ultimately have "sorted (map ?f (wakeup_order s d w ?vs))"
    using sorted_place [of ?f ?vs d] by (simp add: wakeup_order_def)
  moreover have "wakeup_links t (wakeup_order s d w ?vs)"
    using ok(1) by (simp add: wakeup_links_def distinct_wakeup_order t_def)
  ultimately show "wakeup_ok t (wakeup_order s d w ?vs)"
    using ok assms(2) by (auto simp: wakeup_ok_def t_def)
  show "sched_ok t xs" if "sched_ok s xs"
    unfolding t_def using that sched_okD(3) [OF that, of d] by (auto intro!: sched_ok_upd)
qed

section \<open>Waking up\<close>

text \<open>The list while its front is taken off: the link back from the first block is not yet cleared.\<close>

definition wakeup_mid :: "kcb \<Rightarrow> u32 list \<Rightarrow> bool" where
  "wakeup_mid s ws \<longleftrightarrow>
     distinct ws \<and> sorted (map (\<lambda>p. wakeup_time (dcbs s p)) ws) \<and>
     (\<forall>p. wakeup_next (dcbs s p) = succ_in ws p \<and> (wakeup_time (dcbs s p) \<noteq> 0 \<longleftrightarrow> p \<in> set ws) \<and>
          (hd_opt ws \<noteq> Some p \<longrightarrow> wakeup_prev (dcbs s p) = succ_in (rev ws) p))"

lemma wakeup_mid_frame: "wakeup_mid s ws \<Longrightarrow> wake_frame s t \<Longrightarrow> wakeup_mid t ws"
  by (simp add: wakeup_mid_def wake_frame_def)

lemma wakeup_ok_mid: "wakeup_ok s ws \<Longrightarrow> wakeup_mid s ws"
  by (simp add: wakeup_ok_def wakeup_links_def wakeup_mid_def)

definition wakeup_clear :: "dcb \<Rightarrow> dcb" where
  "wakeup_clear x = x\<lparr>wakeup_time := 0, wakeup_prev := None, wakeup_next := None\<rparr>"

lemma wakeup_mid_step:
  assumes "wakeup_mid s (d # ws)"
  shows "wakeup_mid (upd d wakeup_clear s) ws"
proof -
  have "succ_in (rev ws @ [d]) q = (if last_opt (rev ws) = Some q then Some d else succ_in (rev ws) q)" if "q \<noteq> d" for q
    using assms that by (auto simp: wakeup_mid_def succ_in_append succ_in_notin last_opt_eq_Some hd_opt_eq_Some)
  moreover have same: "map (\<lambda>p. wakeup_time (dcbs (upd d wakeup_clear s) p)) ws = map (\<lambda>p. wakeup_time (dcbs s p)) ws"
    using assms by (auto simp: wakeup_mid_def)
  moreover have "sorted (map (\<lambda>p. wakeup_time (dcbs (upd d wakeup_clear s) p)) ws)"
    unfolding same using assms by (simp add: wakeup_mid_def)
  ultimately show ?thesis
    using assms by (auto simp: wakeup_mid_def wakeup_clear_def succ_in_notin)
qed

lemma wakeup_mid_finish:
  assumes "wakeup_mid s ws"
  shows "wakeup_ok ((set_wakeup_prev (hd_opt ws) None s)\<lparr>wakeup_queue_head := hd_opt ws\<rparr>) ws"
  using assms
proof (cases ws)
  case (Cons w vs)
  then have "succ_in (rev vs @ [w]) w = None"
    using assms by (intro succ_in_last) (auto simp: wakeup_mid_def)
  moreover have "(\<lambda>p. wakeup_time (if p = w then (dcbs s w)\<lparr>wakeup_prev := None\<rparr> else dcbs s p)) = (\<lambda>p. wakeup_time (dcbs s p))"
    by auto
  ultimately show ?thesis
    using assms Cons by (auto simp: wakeup_ok_def wakeup_links_def wakeup_mid_def set_wakeup_prev_def)
qed (auto simp: wakeup_ok_def wakeup_links_def wakeup_mid_def set_wakeup_prev_def)

lemma sched_ok_clear: "sched_ok s xs \<Longrightarrow> sched_ok (upd d wakeup_clear s) xs"
  by (rule sched_ok_upd) (auto simp: wakeup_clear_def sched_okD)

text \<open>Every dispatcher whose time has come leaves the queue and becomes runnable.\<close>

lemma wakeup_loop_ok:
  assumes "sched_ok s xs" "wakeup_mid s ws" "\<And>p. p \<in> set ws \<Longrightarrow> wakeup_time (dcbs s p) = tm p"
    "wakeup_loop s now (hd_opt ws) = Some (Ok (d, t))"
  shows "d = hd_opt (dropWhile (\<lambda>p. tm p \<le> now) ws) \<and> wakeup_mid t (dropWhile (\<lambda>p. tm p \<le> now) ws) \<and>
         (\<forall>p\<in>set (dropWhile (\<lambda>p. tm p \<le> now) ws). wakeup_time (dcbs t p) = tm p) \<and>
         (\<exists>ys. sched_ok t ys \<and> set ys = set xs \<union> set (takeWhile (\<lambda>p. tm p \<le> now) ws))"
  using assms
proof (induction ws arbitrary: s xs)
  case Nil
  then show ?case by (auto simp: wakeup_loop.simps)
next
  case (Cons w ws)
  show ?case
  proof (cases "tm w \<le> now")
    case False
    with Cons.prems have "d = Some w" "t = s" by (auto simp: wakeup_loop.simps)
    with False Cons.prems show ?thesis by auto
  next
    case True
    let ?u = "upd w wakeup_clear s"
    have time: "wakeup_time (dcbs s w) \<le> now" and nxt: "wakeup_next (dcbs s w) = hd_opt ws" and notin: "w \<notin> set ws"
      using True Cons.prems(2,3) by (auto simp: wakeup_mid_def)
    obtain v where v: "make_runnable ?u w = Ok v" "wakeup_loop (schedule_now v w) now (hd_opt ws) = Some (Ok (d, t))"
      using Cons.prems(4) time nxt
      by (auto simp: wakeup_loop.simps [of s now "Some w"] wakeup_clear_def [abs_def] Let_def split: outcome.splits)
    obtain ys where ys: "sched_ok v ys" "set ys = insert w (set xs)" "wake_frame ?u v"
      using make_runnable_ok [OF sched_ok_clear [OF Cons.prems(1)] v(1)] by blast
    have frame: "wake_frame ?u (schedule_now v w)" using wake_frame_trans [OF ys(3) schedule_now_ok(2)] .
    have "wakeup_time (dcbs (schedule_now v w) p) = tm p" if "p \<in> set ws" for p
      using frame that notin Cons.prems(3) [of p] by (auto simp: wake_frame_def)
    with Cons.IH [OF schedule_now_ok(1) [OF ys(1)] wakeup_mid_frame [OF wakeup_mid_step [OF Cons.prems(2)] frame] _ v(2)]
    show ?thesis using True ys(2) by auto
  qed
qed

lemma wakeup_check_ok:
  assumes "sched_ok s xs" "wakeup_ok s ws" "wakeup_check s now = Ok t"
  defines "due \<equiv> \<lambda>p. wakeup_time (dcbs s p) \<le> now"
  shows "wakeup_ok t (dropWhile due ws) \<and> (\<exists>ys. sched_ok t ys \<and> set ys = set xs \<union> set (takeWhile due ws))"
proof -
  have "wakeup_queue_head s = hd_opt ws" using assms(2) by (simp add: wakeup_ok_def wakeup_links_def)
  then obtain d u where u: "wakeup_loop s now (hd_opt ws) = Some (Ok (d, u))"
      "t = (set_wakeup_prev d None u)\<lparr>wakeup_queue_head := d\<rparr>"
    using assms(3) by (auto simp: wakeup_check_def loop_result_def split: option.splits)
  then obtain ys where ys: "d = hd_opt (dropWhile due ws)" "wakeup_mid u (dropWhile due ws)"
      "sched_ok u ys" "set ys = set xs \<union> set (takeWhile due ws)"
    using wakeup_loop_ok [OF assms(1) wakeup_ok_mid [OF assms(2)] refl u(1)] unfolding due_def by blast
  have "sched_ok t ys"
    unfolding u(2) using ys(3) sched_okD(3) [OF ys(3)]
    by (auto simp: set_wakeup_prev_def intro!: sched_ok_upd split: option.splits)
  moreover have "wakeup_ok t (dropWhile due ws)"
    unfolding u(2) ys(1) by (rule wakeup_mid_finish [OF ys(2)])
  ultimately show ?thesis using ys(4) by blast
qed

text \<open>Waking up best-effort tasks never fails.\<close>

lemma make_runnable_total:
  assumes "sched_ok s xs" "d \<in> set xs \<or> task (dcbs s d) = TASK_TYPE_BEST_EFFORT"
  shows "\<exists>t. make_runnable s d = Ok t \<and> (\<forall>p. task (dcbs t p) = task (dcbs s p))"
proof (cases "d \<in> set xs")
  case True
  with make_runnable_queued [OF sched_okD(1) [OF assms(1)]] show ?thesis by simp
next
  case False
  with make_runnable_be [OF assms(1) False] assms(2) show ?thesis by (simp add: admit_be_def Let_def)
qed

lemma wakeup_loop_total:
  assumes "sched_ok s xs" "wakeup_mid s ws" "\<And>p. p \<in> set ws \<Longrightarrow> task (dcbs s p) = TASK_TYPE_BEST_EFFORT"
  shows "\<exists>d t. wakeup_loop s now (hd_opt ws) = Some (Ok (d, t))"
  using assms
proof (induction ws arbitrary: s xs)
  case Nil
  then show ?case by (simp add: wakeup_loop.simps)
next
  case (Cons w ws)
  let ?u = "upd w wakeup_clear s"
  have task: "task (dcbs ?u p) = task (dcbs s p)" for p by (simp add: wakeup_clear_def)
  have nxt: "wakeup_next (dcbs s w) = hd_opt ws" using Cons.prems(2) by (simp add: wakeup_mid_def)
  have "\<exists>v. make_runnable ?u w = Ok v \<and> (\<forall>p. task (dcbs v p) = task (dcbs ?u p))"
    by (rule make_runnable_total [OF sched_ok_clear [OF Cons.prems(1)]]) (simp only: task, simp add: Cons.prems(3))
  then obtain v where v: "make_runnable ?u w = Ok v" "\<And>p. task (dcbs v p) = task (dcbs s p)"
    unfolding task by blast
  obtain ys where ys: "sched_ok v ys" "wake_frame ?u v"
    using make_runnable_ok [OF sched_ok_clear [OF Cons.prems(1)] v(1)] by blast
  have "wakeup_mid (schedule_now v w) ws"
    by (rule wakeup_mid_frame [OF wakeup_mid_step [OF Cons.prems(2)]]) (rule wake_frame_trans [OF ys(2) schedule_now_ok(2)])
  moreover have "task (dcbs (schedule_now v w) p) = task (dcbs s p)" for p
    using v(2) by (simp add: schedule_now_def systime_now_def)
  ultimately obtain d t where "wakeup_loop (schedule_now v w) now (hd_opt ws) = Some (Ok (d, t))"
    using Cons.IH [OF schedule_now_ok(1) [OF ys(1), of w]] Cons.prems(3) by auto
  then show ?case
    using v(1) nxt by (auto simp: wakeup_loop.simps [of s now "Some w"] wakeup_clear_def [abs_def] Let_def)
qed

lemma wakeup_check_total:
  assumes "sched_ok s xs" "wakeup_ok s ws" "\<And>p. p \<in> set ws \<Longrightarrow> task (dcbs s p) = TASK_TYPE_BEST_EFFORT"
  shows "\<exists>t. wakeup_check s now = Ok t"
proof -
  obtain d t where "wakeup_loop s now (hd_opt ws) = Some (Ok (d, t))"
    using wakeup_loop_total [OF assms(1) wakeup_ok_mid [OF assms(2)] assms(3)] by blast
  with assms(2) show ?thesis by (simp add: wakeup_check_def loop_result_def wakeup_ok_def wakeup_links_def)
qed

lemma sorted_split:
  assumes "sorted (map f ws)"
  shows "takeWhile (\<lambda>p. f p \<le> (w :: 'a :: linorder)) ws = filter (\<lambda>p. f p \<le> w) ws"
    "dropWhile (\<lambda>p. f p \<le> w) ws = filter (\<lambda>p. w < f p) ws"
  using assms by (induction ws) (fastforce simp: not_le intro!: filter_True [symmetric] filter_False [symmetric])+

end
