(* ===== verification/Sched_Run.thy ===== *)
theory Sched_Run
  imports Sched_Wakeup
begin

text \<open>
  Runs of the scheduler: any sequence of its operations and of the operations on timeouts, with
  the clock and the parameters of the tasks arbitrary. The invariants of both queues hold at
  every point where no assertion has failed.
\<close>

section \<open>Scheduling without assumptions on the tasks\<close>

lemma set_best_effort_wcet_keeps:
  assumes "set_best_effort_wcet s p = Ok t" "task (dcbs s p) = TASK_TYPE_BEST_EFFORT" "sched_ok s xs"
  shows "sched_ok t xs \<and> wake_frame s t"
proof -
  obtain f where "t = upd p f s" "f = (\<lambda>x. x\<lparr>rel_deadline := rel_deadline (f x), period := period (f x), wcet := wcet (f x)\<rparr>)"
    using assms(1,2)
    by (fastforce simp: set_best_effort_wcet_def do_resource_allocation_def upd_collapse comp_def Let_def split: if_splits)
  then have "dcbs t p = (dcbs s p)\<lparr>rel_deadline := rel_deadline (dcbs t p), period := period (dcbs t p), wcet := wcet (dcbs t p)\<rparr>"
      and t: "t = upd p (\<lambda>x. dcbs t p) s"
    by (auto intro: upd_cong dest: fun_cong [where x = "dcbs s p"])
  note x = this(1)
  have "sched_ok (upd p (\<lambda>_. dcbs t p) s) xs"
    by (rule sched_ok_upd [OF assms(3)]; subst x) (use assms(2) in \<open>auto simp: profile_def valid_task_def\<close>)
  moreover have "wake_frame s (upd p (\<lambda>_. dcbs t p) s)"
    by (rule wake_frame_upd; (subst x)?) auto
  ultimately show ?thesis using t by simp
qed

lemma lazy_allocation_keeps:
  assumes "lazy_allocation s now p = Ok t" "sched_ok s xs"
  shows "sched_ok t xs \<and> wake_frame s t"
proof (cases "task (dcbs s p) = TASK_TYPE_BEST_EFFORT")
  case True
  then obtain u where u: "set_best_effort_wcet s p = Ok u"
      "t = (if deadline (dcbs u p) < now then upd p (\<lambda>x. x\<lparr>release_time := now\<rparr>) u else u)"
    using assms(1) by (auto simp: lazy_allocation_def)
  have "sched_ok u xs" "wake_frame s u" using set_best_effort_wcet_keeps [OF u(1) True assms(2)] by auto
  then show ?thesis
    unfolding u(2) using sched_okD(3) [of u xs p] by (auto intro!: sched_ok_upd wake_frame_upd)
qed (use assms in \<open>auto simp: lazy_allocation_def\<close>)

lemma schedule_task_keeps:
  assumes "schedule_task s now p = Ok (r, t)" "sched_ok s xs" "p \<in> set xs"
  shows "\<exists>ys. sched_ok t ys \<and> set ys = set xs \<and> wake_frame s t"
proof -
  obtain u where u: "lazy_allocation s now p = Ok u" using assms(1) by (auto simp: schedule_task_def)
  have ok: "sched_ok u xs" "wake_frame s u" using lazy_allocation_keeps [OF u assms(2)] by auto
  show ?thesis
  proof (cases "etime (dcbs u p) < wcet (dcbs u p)")
    case True
    let ?v = "upd p (\<lambda>x. x\<lparr>last_dispatch := now\<rparr>) u"
    have "t = ?v \<or> t = ?v\<lparr>lastdisp := Some p\<rparr>"
      using assms(1) u True by (auto simp: schedule_task_def Let_def split: if_splits option.splits)
    moreover have "sched_ok ?v xs" "wake_frame s ?v"
      using ok sched_okD(3) [OF ok(1), of p] by (auto intro!: sched_ok_upd wake_frame_upd)
    ultimately show ?thesis by auto
  next
    case False
    have "bind_outcome (Ok (requeue xs p (renew now) u)) (\<lambda>s. Ok (None, s)) = Ok (r, t)"
      unfolding requeue_eq [OF sched_okD(1) [OF ok(1)] assms(3) renew_simps(1), symmetric]
      using assms(1) u False
      by (auto simp: schedule_task_def bind_outcome_assoc update_periodic_eq split: if_splits)
    then have t: "t = requeue xs p (renew now) u" by simp
    have "sched_ok t (place (upd p (renew now) u) p (remove1 p xs))"
      unfolding t using assms(3) sched_okD(3) [OF ok(1), of p] ok(1) by (intro requeue_ok) auto
    moreover have "wake_frame s t"
      unfolding t using wake_frame_trans [OF ok(2) wake_frame_requeue [of "renew now"]] by simp
    ultimately show ?thesis using sched_okD(4) [OF ok(1)] assms(3) by (auto simp: insert_absorb)
  qed
qed

lemma schedule_loop_keeps:
  assumes "schedule_loop s now = Some res"
  shows "\<forall>r t xs. res = Ok (r, t) \<longrightarrow> sched_ok s xs \<longrightarrow> (\<exists>ys. sched_ok t ys \<and> set ys = set xs \<and> wake_frame s t)"
proof (rule schedule_loop.raw_induct [OF _ assms])
  fix loop s now res
  assume IH: "\<And>s now res. loop s now = Some res \<Longrightarrow>
      \<forall>r t xs. res = Ok (r, t) \<longrightarrow> sched_ok s xs \<longrightarrow> (\<exists>ys. sched_ok t ys \<and> set ys = set xs \<and> wake_frame s t)"
    and body: "(case skip_unreleased s now (queue_head s) of
        None \<Rightarrow> None
      | Some None \<Rightarrow> Some (Ok (None, s\<lparr>lastdisp := None\<rparr>))
      | Some (Some t) \<Rightarrow>
          (case schedule_task s now t of
             Ok (Some r, s) \<Rightarrow> Some (Ok (Some r, s))
           | Ok (None, s) \<Rightarrow> loop s now
           | Err e \<Rightarrow> Some (Err e)
           | Abort \<Rightarrow> Some Abort)) = Some res"
  show "\<forall>r t xs. res = Ok (r, t) \<longrightarrow> sched_ok s xs \<longrightarrow> (\<exists>ys. sched_ok t ys \<and> set ys = set xs \<and> wake_frame s t)"
  proof (intro allI impI)
    fix r t xs assume res: "res = Ok (r, t)" and ok: "sched_ok s xs"
    have skip: "skip_unreleased s now (queue_head s) = Some (find (released s now) xs)"
      using skip_unreleased_ok [of s "[]" xs now] sched_okD(1) [OF ok] by (simp add: queue_ok_def)
    show "\<exists>ys. sched_ok t ys \<and> set ys = set xs \<and> wake_frame s t"
    proof (cases "find (released s now) xs")
      case None
      with body skip res have "t = s\<lparr>lastdisp := None\<rparr>" by simp
      with ok show ?thesis by auto
    next
      case (Some p)
      then have p: "p \<in> set xs" by (simp add: find_SomeD)
      obtain q u where u: "schedule_task s now p = Ok (q, u)"
        using body skip res Some by (auto split: outcome.splits option.splits prod.splits)
      obtain ys where ys: "sched_ok u ys" "set ys = set xs" "wake_frame s u"
        using schedule_task_keeps [OF u ok p] by blast
      show ?thesis
      proof (cases q)
        case None
        with body skip Some u have "loop u now = Some res" by simp
        from IH [OF this] res ys wake_frame_trans [OF ys(3)] show ?thesis by metis
      next
        case (Some c)
        with body skip \<open>find (released s now) xs = Some p\<close> u res have "t = u" by simp
        with ys show ?thesis by auto
      qed
    qed
  qed
qed

lemma schedule_keeps:
  assumes "schedule s = Ok (r, t)" "sched_ok s xs"
  shows "\<exists>ys. sched_ok t ys \<and> set ys = set xs \<and> wake_frame s t"
proof -
  let ?now = "clock s (readings s)" and ?s = "s\<lparr>readings := Suc (readings s)\<rparr>"
  have loop: "schedule_loop (charged ?s ?now) ?now = Some (Ok (r, t))"
    using assms(1) by (auto simp: schedule_def systime_now_def account_eq loop_result_def split: if_splits option.splits)
  have "sched_ok (charged ?s ?now) xs" "wake_frame s (charged ?s ?now)"
    using assms(2) charged_ok [of ?s] wake_frame_trans [of s ?s] by auto
  with schedule_loop_keeps [OF loop] show ?thesis using wake_frame_trans by blast
qed

section \<open>Runs\<close>

inductive sched_step :: "kcb \<Rightarrow> kcb \<Rightarrow> bool" where
  schedule_step: "schedule s = Ok (r, t) \<Longrightarrow> sched_step s (t\<lparr>dcb_current := r\<rparr>)"
| runnable_step: "make_runnable s d = Ok t \<Longrightarrow> sched_step s t"
| remove_step: "scheduler_remove s d = Ok t \<Longrightarrow> sched_step s t"
| yield_step: "scheduler_yield s d = Ok t \<Longrightarrow> sched_step s t"
| properties_step: "sys_dispatcher_properties s d ty dl wc per rel wt = Ok t \<Longrightarrow> sched_step s t"
| now_step: "sched_step s (schedule_now s d)"
| timeout_step: "w \<noteq> 0 \<Longrightarrow> wakeup_set s d w = Ok t \<Longrightarrow> sched_step s t"
| wakeup_step: "wakeup_check s now = Ok t \<Longrightarrow> sched_step s t"

definition sched_inv :: "kcb \<Rightarrow> bool" where
  "sched_inv s \<longleftrightarrow> (\<exists>xs. sched_ok s xs) \<and> (\<exists>ws. wakeup_ok s ws)"

lemma sched_step_inv:
  assumes "sched_step s t" "sched_inv s"
  shows "sched_inv t"
proof -
  obtain xs ws where ok: "sched_ok s xs" "wakeup_ok s ws" using assms(2) by (auto simp: sched_inv_def)
  have keep: "sched_inv u" if "\<exists>ys. sched_ok u ys \<and> wake_frame s u" for u
    using that wakeup_ok_frame [OF ok(2)] by (auto simp: sched_inv_def)
  show ?thesis
    using assms(1)
  proof cases
    case (schedule_step r u)
    obtain ys where "sched_ok u ys" "wake_frame s u" using schedule_keeps [OF schedule_step(2) ok(1)] by blast
    with schedule_step(1) show ?thesis by (intro keep) auto
  next
    case (runnable_step d)
    then show ?thesis using make_runnable_ok [OF ok(1)] by (intro keep) blast
  next
    case (remove_step d)
    then show ?thesis using scheduler_remove_ok [OF ok(1), of d] by (intro keep) auto
  next
    case (yield_step d)
    then show ?thesis using scheduler_yield_ok [OF ok(1), of d] by (intro keep) auto
  next
    case (properties_step d ty dl wc per rel wt)
    then show ?thesis using sys_dispatcher_properties_ok [OF ok(1)] by (intro keep) blast
  next
    case (now_step d)
    then show ?thesis using schedule_now_ok ok(1) by (intro keep) blast
  next
    case (timeout_step w d)
    then have "t = set_wakeup_queue (wakeup_order s d w (remove1 d ws)) (upd d (\<lambda>x. x\<lparr>wakeup_time := w\<rparr>) s)"
      using wakeup_set_eq [OF ok(2), of d w] by simp
    then show ?thesis
      unfolding sched_inv_def using wakeup_set_ok [OF ok(2) timeout_step(1)] ok(1) by blast
  next
    case (wakeup_step now)
    then show ?thesis using wakeup_check_ok [OF ok wakeup_step] by (auto simp: sched_inv_def)
  qed
qed

lemma sched_run_inv: "sched_step\<^sup>*\<^sup>* s t \<Longrightarrow> sched_inv s \<Longrightarrow> sched_inv t"
  by (induction rule: rtranclp_induct) (auto intro: sched_step_inv)

end
