(* ===== verification/Sched_Examples.thy ===== *)
theory Sched_Examples
  imports Sched_Run
begin

text \<open>Concrete states of the scheduler: the cleared control block, and queues of tasks of both kinds.\<close>

definition dcb_zero :: dcb where
  "dcb_zero =
     \<lparr>d_next = None, wakeup_time = 0, wakeup_prev = None, wakeup_next = None, release_time = 0, etime = 0,
      last_dispatch = 0, wcet = 0, period = 0, rel_deadline = 0, weight = 0, task = TASK_TYPE_BEST_EFFORT\<rparr>"

definition kcb_zero :: "u64 \<Rightarrow> (nat \<Rightarrow> u64) \<Rightarrow> kcb" where
  "kcb_zero ts clk =
     \<lparr>dcbs = (\<lambda>_. dcb_zero), queue_head = None, queue_tail = None, u_hrt = 0, u_srt = 0, w_be = 0, n_be = 0,
      wakeup_queue_head = None, lastdisp = None, dcb_current = None, kernel_timeslice = ts, clock = clk, readings = 0\<rparr>"

lemma dcb_zero_simps [simp]:
  "d_next dcb_zero = None" "wakeup_time dcb_zero = 0" "wakeup_prev dcb_zero = None" "wakeup_next dcb_zero = None"
  "release_time dcb_zero = 0" "etime dcb_zero = 0" "last_dispatch dcb_zero = 0" "wcet dcb_zero = 0"
  "period dcb_zero = 0" "rel_deadline dcb_zero = 0" "weight dcb_zero = 0" "task dcb_zero = TASK_TYPE_BEST_EFFORT"
  by (simp_all add: dcb_zero_def)

lemma kcb_zero_simps [simp]:
  "dcbs (kcb_zero ts clk) p = dcb_zero" "queue_head (kcb_zero ts clk) = None" "queue_tail (kcb_zero ts clk) = None"
  "u_hrt (kcb_zero ts clk) = 0" "u_srt (kcb_zero ts clk) = 0" "w_be (kcb_zero ts clk) = 0" "n_be (kcb_zero ts clk) = 0"
  "wakeup_queue_head (kcb_zero ts clk) = None" "lastdisp (kcb_zero ts clk) = None"
  "dcb_current (kcb_zero ts clk) = None" "kernel_timeslice (kcb_zero ts clk) = ts" "clock (kcb_zero ts clk) = clk"
  "readings (kcb_zero ts clk) = 0"
  by (simp_all add: kcb_zero_def)

lemma sched_ok_zero: "sched_ok (kcb_zero ts clk) []"
  by (simp add: sched_ok_def queue_ok_def counted_def valid_task_def)

lemma wakeup_ok_zero: "wakeup_ok (kcb_zero ts clk) []"
  by (simp add: wakeup_ok_def wakeup_links_def)

lemma sched_inv_zero: "sched_inv (kcb_zero ts clk)"
  unfolding sched_inv_def using sched_ok_zero wakeup_ok_zero by blast

text \<open>A tasks's block from what the queue holds of it, and a state with a given queue and given tasks.\<close>

definition be_dcb :: "u64 \<Rightarrow> dcb" where
  "be_dcb rel = dcb_zero\<lparr>weight := 1, release_time := rel\<rparr>"

definition hrt_dcb :: "u64 \<Rightarrow> u64 \<Rightarrow> dcb" where
  "hrt_dcb rel dl = dcb_zero\<lparr>task := TASK_TYPE_HARD_REALTIME, release_time := rel, rel_deadline := dl, wcet := 10, period := 100\<rparr>"

text \<open>Two best-effort tasks at time 1000; the one at the front has run for its whole budget.\<close>

definition be_kcb :: kcb where
  "be_kcb =
     set_queue [1, 2]
       ((kcb_zero 1000000 (\<lambda>n. 1000 + of_nat n))\<lparr>
          dcbs := (\<lambda>p. if p = 1 then (be_dcb 500)\<lparr>etime := 2000000\<rparr> else if p = 2 then be_dcb 600 else dcb_zero),
          w_be := 2, n_be := 2\<rparr>)"

text \<open>Two hard real-time tasks in the order of their deadlines at time 1000; the first one is over its budget.\<close>

definition hrt_kcb :: kcb where
  "hrt_kcb =
     set_queue [1, 2]
       ((kcb_zero 1000000 (\<lambda>n. 1000 + of_nat n))\<lparr>
          dcbs := (\<lambda>p. if p = 1 then (hrt_dcb 990 20)\<lparr>etime := 10\<rparr> else if p = 2 then hrt_dcb 995 50 else dcb_zero),
          u_hrt := 200000\<rparr>)"

lemma be_kcb_sched_ok: "sched_ok be_kcb [1, 2]"
  by (simp add: be_kcb_def sched_ok_def counted_def be_count_def be_weight_def hrt_load_def be_dcb_def valid_task_def)

lemma hrt_kcb_sched_ok: "sched_ok hrt_kcb [1, 2]"
  by (simp add: hrt_kcb_def sched_ok_def counted_def be_count_def be_weight_def hrt_load_def hrt_dcb_def valid_task_def demand_def)

lemma kcb_clock [simp]: "clock be_kcb n = 1000 + of_nat n" "clock hrt_kcb n = 1000 + of_nat n"
  "readings be_kcb = 0" "readings hrt_kcb = 0" "lastdisp be_kcb = None" "lastdisp hrt_kcb = None"
  by (simp_all add: be_kcb_def hrt_kcb_def)

lemma charged_None [simp]: "lastdisp s = None \<Longrightarrow> charged s now = s"
  by (simp add: charged_def)

lemma be_kcb_schedulable: "schedulable (be_kcb\<lparr>readings := Suc 0\<rparr>) 1000 [1, 2]"
  unfolding schedulable_def using be_kcb_sched_ok
  by (simp add: be_kcb_def be_weight_def be_dcb_def task_ready_def be_wcet_def be_period_def be_share_def)

lemma hrt_kcb_schedulable: "schedulable (hrt_kcb\<lparr>readings := Suc 0\<rparr>) 1000 [1, 2]"
  unfolding schedulable_def using hrt_kcb_sched_ok
  by (simp add: hrt_kcb_def be_weight_def hrt_dcb_def task_ready_def be_period_def deadline_def)

lemma hrt_kcb_edf: "edf hrt_kcb [1, 2]"
  by (simp add: edf_def hrt_kcb_def hrt_dcb_def deadline_def)

end
