(* ===== verification/Sched_Properties.thy ===== *)
theory Sched_Properties
  imports Sched_Examples
begin

text \<open>
  The properties of the scheduler and of the timeouts: the invariant of every run, the scheduling
  decision, the order in which tasks run, wakeups, and two ways in which the parameters of a hard
  real-time task stop the kernel.
\<close>

section \<open>Runs\<close>

text \<open>
  C20: Whatever sequence of scheduling operations the kernel performs, with any readings of the clock
  and any task parameters from user space: as long as no assertion fails, the run queue and the queue
  of timeouts are well-formed lists without duplicates, the counters of best-effort tasks and their
  weights are exact, and the load of the hard real-time tasks is the sum of their shares and leaves
  a tenth of the processor.
\<close>

theorem sched_run_invariant:
  assumes "sched_step\<^sup>*\<^sup>* s t" "sched_inv s"
  shows "\<exists>xs ws. queue_ok t xs \<and> wakeup_ok t ws \<and>
           n_be t = of_nat (card {p \<in> set xs. task (dcbs t p) = TASK_TYPE_BEST_EFFORT}) \<and>
           w_be t = of_nat (\<Sum>p\<in>set xs. be_weight (dcbs t p)) \<and>
           unat (u_hrt t) = (\<Sum>p\<in>set xs. hrt_load (dcbs t p)) \<and> unat (u_hrt t) \<le> 900000"
proof -
  obtain xs ws where ok: "sched_ok t xs" "wakeup_ok t ws"
    using sched_run_inv [OF assms] by (auto simp: sched_inv_def)
  have "(\<Sum>p\<in>set xs. be_count (dcbs t p)) = card {p \<in> set xs. task (dcbs t p) = TASK_TYPE_BEST_EFFORT}"
    by (simp add: be_count_def sum.If_cases Int_def)
  with ok show ?thesis
    by (intro exI [of _ xs] exI [of _ ws]) (auto simp: sched_ok_def counted_def word_le_nat_alt simp del: of_nat_sum)
qed

theorem sched_run_invariant_witness:
  "\<exists>t xs ws. make_runnable (kcb_zero 5 (\<lambda>_. 7)) 1 = Ok t \<and> queue_ok t xs \<and> wakeup_ok t ws \<and> unat (u_hrt t) \<le> 900000"
proof -
  obtain t where t: "make_runnable (kcb_zero 5 (\<lambda>_. 7)) 1 = Ok t"
    using make_runnable_total [OF sched_ok_zero] by fastforce
  then have "sched_step\<^sup>*\<^sup>* (kcb_zero 5 (\<lambda>_. 7)) t" by (intro r_into_rtranclp runnable_step)
  from sched_run_invariant [OF this sched_inv_zero] t show ?thesis by blast
qed

section \<open>The decision\<close>

text \<open>
  C19: When every queued task is ready (a positive budget, a deadline that is not missed, parameters
  that do not overflow), \<open>schedule\<close> ends without a failed assertion although it retries: it keeps
  the set of queued tasks and charges the first released task, which is within its budget and before its
  deadline. That task runs, or the current one when nothing changed since the last decision; without a
  released task none runs. A queue of hard real-time tasks sorted by deadline stays sorted, and the task that is
  charged has the earliest deadline of all released tasks.
\<close>

theorem schedule_correct:
  assumes "schedulable (charged (s\<lparr>readings := Suc (readings s)\<rparr>) (clock s (readings s))) (clock s (readings s)) xs"
    "case lastdisp s of None \<Rightarrow> True | Some l \<Rightarrow> last_dispatch (dcbs s l) \<le> clock s (readings s)"
  shows "\<exists>r t ys. schedule s = Ok (r, t) \<and> sched_ok t ys \<and> set ys = set xs \<and>
           lastdisp t = find (\<lambda>p. release_time (dcbs t p) \<le> clock s (readings s)) ys \<and>
           (case lastdisp t of
              None \<Rightarrow> r = None
            | Some p \<Rightarrow>
                etime (dcbs t p) < wcet (dcbs t p) \<and> clock s (readings s) \<le> deadline (dcbs t p) \<and>
                (r = Some p \<or> (\<exists>c\<in>set xs. r = Some c \<and> dcb_current s = Some c \<and> lastdisp s = Some p))) \<and>
           (edf s xs \<longrightarrow>
              edf t ys \<and>
              (\<forall>p q. lastdisp t = Some p \<longrightarrow> q \<in> set xs \<longrightarrow> release_time (dcbs t q) \<le> clock s (readings s) \<longrightarrow>
                     deadline (dcbs t p) \<le> deadline (dcbs t q)))"
proof -
  let ?now = "clock s (readings s)" and ?v = "s\<lparr>readings := Suc (readings s)\<rparr>"
  obtain r t ys where *: "schedule s = Ok (r, t)" "decides (charged ?v ?now) ?now xs r t ys"
    using schedule_ok [OF assms] by blast
  have rel: "released t ?now = (\<lambda>p. release_time (dcbs t p) \<le> ?now)" by (simp add: released_def fun_eq_iff)
  have "edf (charged ?v ?now) xs = edf s xs" using edf_cong [of xs ?v s] by (simp add: charged_edf)
  with *(2) have t: "edf s xs \<Longrightarrow> edf t ys" "lastdisp t = find (released t ?now) ys" "set ys = set xs"
    by (auto simp: decides_def)
  have "deadline (dcbs t p) \<le> deadline (dcbs t q)"
    if "edf s xs" "lastdisp t = Some p" "q \<in> set xs" "release_time (dcbs t q) \<le> ?now" for p q
    using find_first_least [of "released t ?now" ys p "\<lambda>p. deadline (dcbs t p)" q] t that by (simp add: edf_def rel)
  with * t(1) show ?thesis
    by (intro exI [of _ r] exI [of _ t] exI [of _ ys]) (auto simp: decides_def rel split: option.splits)
qed

theorem schedule_correct_witness:
  "(\<exists>r t ys. schedule be_kcb = Ok (r, t) \<and> sched_ok t ys \<and> set ys = {1, 2}) \<and>
   (\<exists>r t ys. schedule hrt_kcb = Ok (r, t) \<and> sched_ok t ys \<and> set ys = {1, 2} \<and> edf t ys)"
proof -
  have "schedulable (charged (be_kcb\<lparr>readings := Suc (readings be_kcb)\<rparr>) (clock be_kcb (readings be_kcb)))
      (clock be_kcb (readings be_kcb)) [1, 2]"
      "schedulable (charged (hrt_kcb\<lparr>readings := Suc (readings hrt_kcb)\<rparr>) (clock hrt_kcb (readings hrt_kcb)))
      (clock hrt_kcb (readings hrt_kcb)) [1, 2]"
    using be_kcb_schedulable hrt_kcb_schedulable by simp_all
  from schedule_correct [OF this(1)] schedule_correct [OF this(2)] hrt_kcb_edf show ?thesis by fastforce
qed

section \<open>Round robin\<close>

text \<open>The dispatcher at the front of the queue yields, \<open>n\<close> times in a row.\<close>

fun yield_front :: "nat \<Rightarrow> kcb \<Rightarrow> kcb outcome" where
  "yield_front 0 s = Ok s"
| "yield_front (Suc n) s =
     (case queue_head s of None \<Rightarrow> Ok s | Some d \<Rightarrow> bind_outcome (scheduler_yield s d) (yield_front n))"

lemma place_behind:
  "task (dcbs s d) = TASK_TYPE_BEST_EFFORT \<Longrightarrow> \<forall>p\<in>set xs. release_time (dcbs s p) \<le> release_time (dcbs s d) \<Longrightarrow>
   place s d xs = xs @ [d]"
  by (simp add: place_def skips_def)

definition be_queue :: "kcb \<Rightarrow> u32 list \<Rightarrow> bool" where
  "be_queue s xs \<longleftrightarrow>
     queue_ok s xs \<and>
     (\<forall>p\<in>set xs. task (dcbs s p) = TASK_TYPE_BEST_EFFORT \<and> release_time (dcbs s p) \<le> clock s (readings s))"

lemma yield_rotates:
  assumes "be_queue s (d # xs)" "mono (clock s)"
  shows "\<exists>t. scheduler_yield s d = Ok t \<and> be_queue t (xs @ [d]) \<and> clock t = clock s"
proof -
  let ?now = "clock s (readings s)"
  define v where "v = s\<lparr>readings := Suc (readings s)\<rparr>"
  define u where "u = upd d (yield_update ?now) v"
  have d: "d \<notin> set xs" "distinct xs" "queue_ok s (d # xs)" using assms(1) by (auto simp: be_queue_def queue_ok_def)
  have later: "?now \<le> clock s (Suc (readings s))" using assms(2) by (simp add: monoD)
  have "place u d xs = xs @ [d]"
    using assms(1) d(1) by (intro place_behind) (auto simp: be_queue_def u_def v_def yield_update_def)
  then have "scheduler_yield s d = Ok ((set_queue (xs @ [d]) u)\<lparr>lastdisp := None\<rparr>)"
    using scheduler_yield_eq [OF d(3), of d] assms(1) by (auto simp: be_queue_def requeue_def Let_def u_def v_def)
  moreover have "be_queue ((set_queue (xs @ [d]) u)\<lparr>lastdisp := None\<rparr>) (xs @ [d])"
    using assms(1) d later by (auto simp: be_queue_def u_def v_def yield_update_def intro: order_trans)
  ultimately show ?thesis by (simp add: u_def v_def)
qed



section \<open>Timeouts\<close>

text \<open>
  C21: Setting a timeout puts the dispatcher into the queue of timeouts, in the place of its time and with
  at most one entry, and changes nothing for the others. A later check at time \<open>now\<close>, when the waiting tasks are
  best-effort tasks, fails no assertion, makes exactly the dispatchers runnable whose time has come, and
  leaves exactly the others waiting.
\<close>

theorem wakeup_correct:
  assumes "sched_ok s xs" "wakeup_ok s ws" "w \<noteq> 0"
    "\<forall>p. wakeup_time (dcbs s p) \<noteq> 0 \<or> p = d \<longrightarrow> task (dcbs s p) = TASK_TYPE_BEST_EFFORT"
  shows "\<exists>t ws'. wakeup_set s d w = Ok t \<and> sched_ok t xs \<and> wakeup_ok t ws' \<and>
           (\<forall>p. wakeup_time (dcbs t p) = (if p = d then w else wakeup_time (dcbs s p))) \<and>
           (\<exists>u ys. wakeup_check t now = Ok u \<and> wakeup_ok u (filter (\<lambda>p. now < wakeup_time (dcbs t p)) ws') \<and>
              sched_ok u ys \<and> set ys = set xs \<union> {p. wakeup_time (dcbs t p) \<noteq> 0 \<and> wakeup_time (dcbs t p) \<le> now})"
proof -
  let ?ws = "wakeup_order s d w (remove1 d ws)"
  define t where "t = set_wakeup_queue ?ws (upd d (\<lambda>x. x\<lparr>wakeup_time := w\<rparr>) s)"
  let ?tm = "\<lambda>p. wakeup_time (dcbs t p)"
  have set: "wakeup_set s d w = Ok t" using wakeup_set_eq [OF assms(2)] by (simp add: t_def)
  have ok: "sched_ok t xs" "wakeup_ok t ?ws"
    unfolding t_def using wakeup_set_ok [OF assms(2,3)] assms(1) by blast+
  have tm: "?tm p = (if p = d then w else wakeup_time (dcbs s p))" for p by (simp add: t_def)
  have members: "p \<in> set ?ws \<longleftrightarrow> ?tm p \<noteq> 0" and sorted: "sorted (map ?tm ?ws)" for p
    using ok(2) by (auto simp: wakeup_ok_def)
  have "task (dcbs t p) = TASK_TYPE_BEST_EFFORT" if "p \<in> set ?ws" for p
    using that members [of p] tm [of p] assms(4) by (auto simp: t_def split: if_splits)
  then obtain u where u: "wakeup_check t now = Ok u" using wakeup_check_total [OF ok] by blast
  note split = sorted_split [OF sorted, of now]
  obtain ys where "wakeup_ok u (filter (\<lambda>p. now < ?tm p) ?ws)" "sched_ok u ys"
      "set ys = set xs \<union> set (filter (\<lambda>p. ?tm p \<le> now) ?ws)"
    using wakeup_check_ok [OF ok u] unfolding split by blast
  moreover have "set (filter (\<lambda>p. ?tm p \<le> now) ?ws) = {p. ?tm p \<noteq> 0 \<and> ?tm p \<le> now}"
    using members by auto
  ultimately show ?thesis using set ok tm u by blast
qed

theorem wakeup_correct_witness:
  "\<exists>t ws. wakeup_set (kcb_zero 5 (\<lambda>_. 7)) 1 10 = Ok t \<and> wakeup_ok t ws \<and>
     (\<exists>u ys. wakeup_check t 20 = Ok u \<and> sched_ok u ys \<and> set ys = {p. wakeup_time (dcbs t p) \<noteq> 0 \<and> wakeup_time (dcbs t p) \<le> 20})"
proof -
  have "\<forall>p. wakeup_time (dcbs (kcb_zero 5 (\<lambda>_. 7)) p) \<noteq> 0 \<or> p = 1 \<longrightarrow>
      task (dcbs (kcb_zero 5 (\<lambda>_. 7)) p) = TASK_TYPE_BEST_EFFORT"
    by simp
  from wakeup_correct [OF sched_ok_zero wakeup_ok_zero _ this, of 10 20]
  obtain t ws u ys where "wakeup_set (kcb_zero 5 (\<lambda>_. 7)) 1 10 = Ok t" "wakeup_ok t ws" "wakeup_check t 20 = Ok u"
      "sched_ok u ys" "set ys = set [] \<union> {p. wakeup_time (dcbs t p) \<noteq> 0 \<and> wakeup_time (dcbs t p) \<le> 20}"
    by auto
  then show ?thesis by (intro exI conjI) (assumption | simp)+
qed

section \<open>Hard real-time tasks that stop the kernel\<close>

text \<open>
  C23: A hard real-time task that waits for a timeout stops the kernel. Its release time is not moved while
  it waits, so when the timeout is due and the clock has passed the release time, making the task
  runnable panics, although waiting itself succeeds.
\<close>

theorem hard_realtime_timeout_panics:
  assumes "sched_ok s xs" "wakeup_ok s []" "d \<in> set xs" "task (dcbs s d) = TASK_TYPE_HARD_REALTIME"
    "w \<noteq> 0" "w \<le> now" "release_time (dcbs s d) < clock s r"
  shows "\<exists>t u. scheduler_remove s d = Ok t \<and> wakeup_set t d w = Ok u \<and> wakeup_check (u\<lparr>readings := r\<rparr>) now = Abort"
proof -
  obtain t where t: "scheduler_remove s d = Ok t" "sched_ok t (remove1 d xs)" "wake_frame s t"
      "\<And>p. dcbs t p = (dcbs s p)\<lparr>d_next := succ_in (remove1 d xs) p\<rparr>"
    using scheduler_remove_ok [OF assms(1), of d] by blast
  have w: "wakeup_ok t []" using assms(2) t(3) by (rule wakeup_ok_frame)
  define u where "u = set_wakeup_queue [d] (upd d (\<lambda>x. x\<lparr>wakeup_time := w\<rparr>) t)"
  have set: "wakeup_set t d w = Ok u" using wakeup_set_eq [OF w] by (simp add: u_def wakeup_order_def)
  define v where "v = upd d wakeup_clear (u\<lparr>readings := r\<rparr>)"
  have "sched_ok u (remove1 d xs)"
    using wakeup_set_ok(2) [OF w assms(5) t(2), of d] by (simp add: u_def wakeup_order_def)
  then have v: "sched_ok v (remove1 d xs)" unfolding v_def by (simp add: sched_ok_clear)
  have "task (dcbs v d) = TASK_TYPE_HARD_REALTIME" "release_time (dcbs v d) < clock v (readings v)"
    using assms(4,7) t(3,4) by (auto simp: v_def u_def wakeup_clear_def wake_frame_def)
  then have "make_runnable v d = Abort"
    using make_runnable_hrt [OF v] sched_okD(4) [OF assms(1)] by simp
  then have "wakeup_loop (u\<lparr>readings := r\<rparr>) now (Some d) = Some Abort"
    using assms(6) by (simp add: wakeup_loop.simps Let_def v_def wakeup_clear_def [abs_def]) (simp add: u_def)
  then have "wakeup_check (u\<lparr>readings := r\<rparr>) now = Abort"
    by (simp add: wakeup_check_def loop_result_def u_def)
  with t(1) set show ?thesis by blast
qed

theorem hard_realtime_timeout_panics_witness:
  "\<exists>t u. scheduler_remove hrt_kcb 2 = Ok t \<and> wakeup_set t 2 2000 = Ok u \<and> wakeup_check (u\<lparr>readings := 1000\<rparr>) 2000 = Abort"
proof -
  have "wakeup_ok hrt_kcb []"
    by (auto simp: wakeup_ok_def wakeup_links_def hrt_kcb_def hrt_dcb_def)
  moreover have "task (dcbs hrt_kcb 2) = TASK_TYPE_HARD_REALTIME" "release_time (dcbs hrt_kcb 2) < clock hrt_kcb 1000"
    by (simp_all add: hrt_kcb_def hrt_dcb_def)
  ultimately show ?thesis
    using hard_realtime_timeout_panics [OF hrt_kcb_sched_ok, of 2 2000 2000 1000] by simp
qed

text \<open>A task without a budget that is scheduled at the time of its release.\<close>

definition stuck :: "kcb \<Rightarrow> u64 \<Rightarrow> u32 \<Rightarrow> bool" where
  "stuck s now p \<longleftrightarrow>
     queue_ok s [p] \<and> task (dcbs s p) = TASK_TYPE_HARD_REALTIME \<and> wcet (dcbs s p) = 0 \<and>
     release_time (dcbs s p) = now \<and> now \<le> deadline (dcbs s p)"

lemma stuck_step:
  assumes "stuck s now p"
  shows "\<exists>t. schedule_task s now p = Ok (None, t) \<and> stuck t now p"
proof -
  have q: "queue_ok s [p]" "p \<in> set [p]" using assms by (auto simp: stuck_def)
  have "schedule_task s now p = bind_outcome (Ok (requeue [p] p (renew now) s)) (\<lambda>s. Ok (None, s))"
    unfolding requeue_eq [OF q renew_simps(1), symmetric]
    using assms by (auto simp: schedule_task_def lazy_allocation_def stuck_def bind_outcome_assoc update_periodic_eq)
  moreover have "stuck (requeue [p] p (renew now) s) now p"
    using assms by (auto simp: stuck_def requeue_def Let_def place_def renew_def deadline_def)
  ultimately show ?thesis by simp
qed

lemma stuck_loops: "stuck s now p \<Longrightarrow> schedule_loop s now = None"
proof (rule ccontr)
  assume stuck: "stuck s now p" and "schedule_loop s now \<noteq> None"
  then obtain res where res: "schedule_loop s now = Some res" by auto
  have "\<not> stuck s now p"
  proof (rule schedule_loop.raw_induct [OF _ res, of "\<lambda>s now _. \<not> stuck s now p"], rule notI)
    fix loop s now res
    assume IH: "\<And>s now res. loop s now = Some res \<Longrightarrow> \<not> stuck s now p" and st: "stuck s now p"
      and body: "(case skip_unreleased s now (queue_head s) of
          None \<Rightarrow> None
        | Some None \<Rightarrow> Some (Ok (None, s\<lparr>lastdisp := None\<rparr>))
        | Some (Some t) \<Rightarrow>
            (case schedule_task s now t of
               Ok (Some r, s) \<Rightarrow> Some (Ok (Some r, s))
             | Ok (None, s) \<Rightarrow> loop s now
             | Err e \<Rightarrow> Some (Err e)
             | Abort \<Rightarrow> Some Abort)) = Some res"
    obtain t where t: "schedule_task s now p = Ok (None, t)" "stuck t now p" using stuck_step [OF st] by blast
    have "skip_unreleased s now (queue_head s) = Some (Some p)"
      using skip_unreleased_ok [of s "[]" "[p]" now] st by (simp add: stuck_def queue_ok_def released_def)
    with body t(1) have "loop t now = Some res" by simp
    from IH [OF this] t(2) show False by contradiction
  qed
  with stuck show False by contradiction
qed

text \<open>
  C24: The kernel accepts a hard real-time task with a budget of zero, and a decision at exactly its release
  time never ends: the task is over its budget, goes back into the queue with the same release time, and is selected again.
\<close>

theorem zero_budget_never_returns:
  assumes "sched_ok s []" "per \<noteq> 0" "release \<noteq> 0" "clock s (readings s) \<le> ucast release"
    "unat release + unat dl < 2 ^ 64"
  shows "\<exists>t. sys_dispatcher_properties s d TASK_TYPE_HARD_REALTIME dl 0 per release wt = Ok t \<and>
             schedule_loop (t\<lparr>readings := r\<rparr>) (ucast release) = None"
proof -
  define v where "v = upd d (\<lambda>x. x\<lparr>task := TASK_TYPE_HARD_REALTIME, rel_deadline := ucast dl, wcet := 0, period := ucast per,
      release_time := ucast release, weight := wt\<rparr>) s"
  have "scheduler_remove s d = Ok s"
    using in_queue_iff [OF sched_okD(1) [OF assms(1)]] by (simp add: scheduler_remove_def)
  then have run: "sys_dispatcher_properties s d TASK_TYPE_HARD_REALTIME dl 0 per release wt = make_runnable v d"
    using assms(3) by (simp add: sys_dispatcher_properties_def v_def)
  have "ucast per \<noteq> (0 :: u64)" using assms(2) unat_ucast_64 [of per] by (auto simp: unat_eq_zero [symmetric] simp del: unat_eq_zero)
  then have v: "sched_ok v []"
    using assms(1) by (auto simp: sched_ok_def v_def counted_def valid_task_def queue_ok_def)
  have "demand (dcbs v d) = 0" by (simp add: demand_def v_def)
  then obtain t where t: "make_runnable v d = Ok t" "queue_ok t [d]" "dcbs t d = (dcbs v d)\<lparr>etime := 0, d_next := None\<rparr>"
    using make_runnable_hrt [OF v] no_overload [OF sched_okD(2) [OF v]] assms(4)
    by (auto simp: v_def place_def not_less)
  have "unat (ucast release + ucast dl :: u64) = unat release + unat dl"
    using assms(5) unat_plus_less [of "ucast release :: u64" "ucast dl"] by (simp add: unat_ucast_64)
  then have "stuck (t\<lparr>readings := r\<rparr>) (ucast release) d"
    using t(2,3) by (simp add: stuck_def v_def deadline_def word_le_nat_alt unat_ucast_64)
  with run t(1) show ?thesis by (auto dest: stuck_loops)
qed

theorem zero_budget_never_returns_witness:
  "\<exists>t. sys_dispatcher_properties (kcb_zero 5 (\<lambda>_. 7)) 1 TASK_TYPE_HARD_REALTIME 10 0 20 100 0 = Ok t \<and>
       schedule_loop (t\<lparr>readings := 3\<rparr>) 100 = None"
  using zero_budget_never_returns [OF sched_ok_zero, of 20 100 5 "\<lambda>_. 7" 10 1 0 3] by simp

end
