(* ===== verification/Urpc.thy ===== *)
theory Urpc
  imports Prelude
begin

text \<open>
  Messages between the two cores, \<^verbatim>\<open>usr/init/lib_urpc2.c\<close>: a message is cut into entries of a ring in
  shared memory, and a flag of every entry says to which core the entry belongs. The two cores run
  at the same time: the step relation of a channel interleaves their accesses to the ring. The memory
  barriers make the accesses take effect in the order of the program.
\<close>

section \<open>Data\<close>

abbreviation (input) MSG_WAITING :: u8 where "MSG_WAITING \<equiv> 1"
abbreviation (input) MSG_BEGIN_BLOCK :: u8 where "MSG_BEGIN_BLOCK \<equiv> 2"
abbreviation (input) MSG_END_BLOCK :: u8 where "MSG_END_BLOCK \<equiv> 4"
abbreviation (input) MSG_HAS_SIZE_INT32 :: u8 where "MSG_HAS_SIZE_INT32 \<equiv> 8"
abbreviation (input) MSG_HAS_SIZE_INT64 :: u8 where "MSG_HAS_SIZE_INT64 \<equiv> 16"

abbreviation (input) RINGSIZE :: nat where "RINGSIZE \<equiv> 32"

record ringbuffer_entry =
  flags :: u8
  body :: "u8 list"

text \<open>The data are the bytes of the buffer that the pointer points to.\<close>

record urpc2_data =
  msg_type :: u8
  msg_id :: u8
  size_in_bytes :: u64
  index :: u64
  bytes :: "u8 list"

datatype urpc2_states = BUFFER_FULL | BUFFER_EMPTY | DONE_WITH_TASK

definition init_urpc2_data :: "u8 \<Rightarrow> u8 \<Rightarrow> u32 \<Rightarrow> u8 list \<Rightarrow> urpc2_data" where
  "init_urpc2_data ty i sz data =
     \<lparr>msg_type = ty, msg_id = i, size_in_bytes = ucast sz, index = 0, bytes = data\<rparr>"

text \<open>Copies between buffers; an access outside a buffer is undefined.\<close>

definition peek :: "u8 list \<Rightarrow> nat \<Rightarrow> nat \<Rightarrow> u8 list outcome" where
  "peek xs i n = (if i + n \<le> length xs then Ok (take n (drop i xs)) else Abort)"

definition poke :: "u8 list \<Rightarrow> nat \<Rightarrow> u8 list \<Rightarrow> u8 list outcome" where
  "poke xs i ys = (if i + length ys \<le> length xs then Ok (take i xs @ ys @ drop (i + length ys) xs) else Abort)"

definition le_bytes32 :: "u32 \<Rightarrow> u8 list" where
  "le_bytes32 w = map (\<lambda>k. ucast (drop_bit (8 * k) w)) [0..<4]"

definition le_bytes64 :: "u64 \<Rightarrow> u8 list" where
  "le_bytes64 w = map (\<lambda>k. ucast (drop_bit (8 * k) w)) [0..<8]"

fun of_le_bytes :: "u8 list \<Rightarrow> u64" where
  "of_le_bytes [] = 0"
| "of_le_bytes (b # bs) = ucast b + 256 * of_le_bytes bs"

text \<open>The test whether the rest of a message fits into one entry, the same on both sides.\<close>

definition small_rem :: "urpc2_data \<Rightarrow> bool" where
  "small_rem d \<longleftrightarrow> size_in_bytes d \<le> index d + 63 \<and> (0 < index d \<or> size_in_bytes d \<le> 61)"

definition piece_length :: "urpc2_data \<Rightarrow> nat \<Rightarrow> nat" where
  "piece_length d used = (if small_rem d then unat (ucast (size_in_bytes d - index d) :: u8) else 63 - used)"

section \<open>Sending an entry\<close>

definition send_flags :: "urpc2_data \<Rightarrow> u8" where
  "send_flags d =
     (if small_rem d then MSG_END_BLOCK else 0) OR
     (if index d = 0
      then MSG_BEGIN_BLOCK OR
           (if 61 < size_in_bytes d \<and> size_in_bytes d < 2 ^ 32 then MSG_HAS_SIZE_INT32
            else if 2 ^ 32 \<le> size_in_bytes d then MSG_HAS_SIZE_INT64 else 0)
      else 0)"

definition send_header :: "urpc2_data \<Rightarrow> u8 list" where
  "send_header d =
     (if index d = 0
      then (if 61 < size_in_bytes d \<and> size_in_bytes d < 2 ^ 32 then le_bytes32 (ucast (size_in_bytes d))
            else if 2 ^ 32 \<le> size_in_bytes d then le_bytes64 (size_in_bytes d) else []) @ [msg_type d, msg_id d]
      else [])"

text \<open>The entry before its flag is set, and the message with the index of the next entry.\<close>

definition send_fill :: "urpc2_data \<Rightarrow> ringbuffer_entry \<Rightarrow> (ringbuffer_entry \<times> urpc2_data) outcome" where
  "send_fill d e =
     (let hdr = send_header d; n = piece_length d (length hdr) in
      bind_outcome (poke (body e) 0 hdr) (\<lambda>b.
      bind_outcome (peek (bytes d) (unat (index d)) n) (\<lambda>piece.
      bind_outcome (poke b (length hdr) piece) (\<lambda>b.
      Ok (\<lparr>flags = send_flags d, body = b\<rparr>, d\<lparr>index := index d + of_nat n\<rparr>)))))"

definition waiting :: "ringbuffer_entry \<Rightarrow> bool" where
  "waiting e \<longleftrightarrow> flags e AND MSG_WAITING \<noteq> 0"

definition publish :: "ringbuffer_entry \<Rightarrow> ringbuffer_entry" where
  "publish e = e\<lparr>flags := flags e OR MSG_WAITING\<rparr>"

definition release :: "ringbuffer_entry \<Rightarrow> ringbuffer_entry" where
  "release e = e\<lparr>flags := flags e AND NOT MSG_WAITING\<rparr>"

section \<open>Receiving an entry\<close>

text \<open>
  The start of a message of several entries. Only four bytes of the size are written for a 32-bit
  size. \<open>fill\<close> are the contents of new memory; the argument of \<open>malloc\<close> has 32 bits.
\<close>

definition recv_begin :: "(nat \<Rightarrow> u8) \<Rightarrow> urpc2_data \<Rightarrow> ringbuffer_entry \<Rightarrow> (urpc2_data \<times> nat) outcome" where
  "recv_begin fill d e =
     bind_outcome
       (if flags e AND MSG_HAS_SIZE_INT32 \<noteq> 0 then
          bind_outcome (peek (body e) 0 4) (\<lambda>bs.
            Ok (push_bit 32 (drop_bit 32 (size_in_bytes d)) OR of_le_bytes bs, 4))
        else if flags e AND MSG_HAS_SIZE_INT64 \<noteq> 0 then
          bind_outcome (peek (body e) 0 8) (\<lambda>bs. Ok (of_le_bytes bs, 8))
        else Abort)
       (\<lambda>(sz, i).
          bind_outcome (peek (body e) i 2) (\<lambda>h.
            Ok (d\<lparr>size_in_bytes := sz, bytes := map fill [0..<unat (ucast sz :: u32)],
                  msg_type := h ! 0, msg_id := h ! 1\<rparr>, i + 2)))"

definition recv_piece :: "urpc2_data \<Rightarrow> nat \<Rightarrow> ringbuffer_entry \<Rightarrow> urpc2_data outcome" where
  "recv_piece d i e =
     (let n = piece_length d i in
      bind_outcome (peek (body e) i n) (\<lambda>piece.
      bind_outcome (poke (bytes d) (unat (index d)) piece) (\<lambda>b.
      Ok (d\<lparr>bytes := b, index := index d + of_nat n\<rparr>))))"

text \<open>The message after an entry, and whether it is complete.\<close>

definition recv_entry :: "(nat \<Rightarrow> u8) \<Rightarrow> urpc2_data \<Rightarrow> ringbuffer_entry \<Rightarrow> (urpc2_data \<times> bool) outcome" where
  "recv_entry fill d e =
     (if index d = 0 \<and> flags e AND MSG_END_BLOCK \<noteq> 0 then
        bind_outcome (peek (body e) 0 2) (\<lambda>h.
        bind_outcome (peek (body e) 2 61) (\<lambda>b.
        Ok (d\<lparr>size_in_bytes := 61, msg_type := h ! 0, msg_id := h ! 1, bytes := b\<rparr>, True)))
      else
        bind_outcome (if index d = 0 then recv_begin fill d e else Ok (d, 0)) (\<lambda>(d, i).
        bind_outcome (recv_piece d i e) (\<lambda>d.
        Ok (d, size_in_bytes d \<le> index d))))"

section \<open>A channel\<close>

text \<open>
  One direction of the connection. The functions in the queue of the sender stand for the messages
  that they return. \<open>usd_store\<close> is the message that is being received, when there is one
  (\<open>usd_store_used\<close>), and \<open>delivered\<close> are the arguments of the calls of the receive handler.
\<close>

record chan =
  ring :: "nat \<Rightarrow> ringbuffer_entry"
  current_send :: nat
  current_receive :: nat
  send_queue :: "urpc2_data list"
  sendobj :: "urpc2_data option"
  usd_store :: "urpc2_data option"
  delivered :: "urpc2_data list"

definition enqueue :: "urpc2_data \<Rightarrow> chan \<Rightarrow> chan" where
  "enqueue m c = c\<lparr>send_queue := send_queue c @ [m]\<rparr>"

definition queue_empty :: "chan \<Rightarrow> bool" where
  "queue_empty c \<longleftrightarrow> send_queue c = []"

definition dequeue :: "chan \<Rightarrow> (urpc2_data \<times> chan) outcome" where
  "dequeue c = (case send_queue c of [] \<Rightarrow> Abort | m # ms \<Rightarrow> Ok (m, c\<lparr>send_queue := ms\<rparr>))"

definition put_entry :: "nat \<Rightarrow> ringbuffer_entry \<Rightarrow> chan \<Rightarrow> chan" where
  "put_entry i e c = c\<lparr>ring := (ring c)(i := e)\<rparr>"

text \<open>The two halves of a core, each with an entry to itself.\<close>

definition send_step :: "urpc2_data \<Rightarrow> chan \<Rightarrow> (urpc2_data \<times> chan) outcome" where
  "send_step d c =
     bind_outcome (send_fill d (ring c (current_send c))) (\<lambda>(e, d).
     Ok (d, (put_entry (current_send c) (publish e) c)\<lparr>current_send := (current_send c + 1) mod RINGSIZE\<rparr>))"

definition recv_step :: "(nat \<Rightarrow> u8) \<Rightarrow> urpc2_data \<Rightarrow> chan \<Rightarrow> (urpc2_data \<times> bool \<times> chan) outcome" where
  "recv_step fill d c =
     (let e = ring c (current_receive c) in
      bind_outcome (recv_entry fill d e) (\<lambda>(d, ready).
      Ok (d, ready, (put_entry (current_receive c) (release e) c)
            \<lparr>current_receive := (current_receive c + 1) mod RINGSIZE,
             delivered := (if ready then delivered c @ [d] else delivered c)\<rparr>)))"

partial_function (option) core_send_loop :: "urpc2_data \<Rightarrow> chan \<Rightarrow> (urpc2_states \<times> urpc2_data \<times> chan) outcome option" where
  "core_send_loop d c =
     (if waiting (ring c (current_send c)) then Some (Ok (BUFFER_FULL, d, c))
      else
        (case send_step d c of
           Ok r \<Rightarrow>
             if size_in_bytes (fst r) \<le> index (fst r) then Some (Ok (DONE_WITH_TASK, fst r, snd r))
             else core_send_loop (fst r) (snd r)
         | Err e \<Rightarrow> Some (Err e)
         | Abort \<Rightarrow> Some Abort))"

definition core_send :: "urpc2_data \<Rightarrow> chan \<Rightarrow> (urpc2_states \<times> urpc2_data \<times> chan) outcome option" where
  "core_send d c = (if size_in_bytes d < 2 ^ 63 then core_send_loop d c else Some Abort)"

partial_function (option) core_recv ::
    "(nat \<Rightarrow> u8) \<Rightarrow> urpc2_data \<Rightarrow> chan \<Rightarrow> (urpc2_states \<times> urpc2_data \<times> chan) outcome option" where
  "core_recv fill d c =
     (if \<not> waiting (ring c (current_receive c)) then Some (Ok (BUFFER_EMPTY, d, c))
      else
        (case recv_step fill d c of
           Ok r \<Rightarrow>
             if fst (snd r) then Some (Ok (DONE_WITH_TASK, fst r, snd (snd r)))
             else core_recv fill (fst r) (snd (snd r))
         | Err e \<Rightarrow> Some (Err e)
         | Abort \<Rightarrow> Some Abort))"

text \<open>
  One iteration of the loop of \<open>urpc2_internal\<close> on a core with an outgoing and an incoming channel. \<open>usd\<close> is the local variable
  of the loop: only its index is initialised.
\<close>

definition receive_round :: "(nat \<Rightarrow> u8) \<Rightarrow> urpc2_data \<Rightarrow> chan \<Rightarrow> chan outcome option" where
  "receive_round fill usd inc =
     map_option (\<lambda>r. bind_outcome r (\<lambda>(st, d, inc).
         Ok (inc\<lparr>usd_store := (if st = DONE_WITH_TASK then None else Some d)\<rparr>)))
       (core_recv fill (case usd_store inc of None \<Rightarrow> usd\<lparr>index := 0\<rparr> | Some d \<Rightarrow> d) inc)"

definition send_round :: "chan \<Rightarrow> chan outcome option" where
  "send_round out =
     (case (case sendobj out of None \<Rightarrow> dequeue out | Some d \<Rightarrow> Ok (d, out)) of
        Ok r \<Rightarrow>
          map_option (\<lambda>r. bind_outcome r (\<lambda>(st, d, out).
              Ok (out\<lparr>sendobj := (if st = DONE_WITH_TASK then None else Some d)\<rparr>)))
            (core_send (fst r) (snd r))
      | Err e \<Rightarrow> Some (Err e)
      | Abort \<Rightarrow> Some Abort)"

definition urpc2_round :: "(nat \<Rightarrow> u8) \<Rightarrow> urpc2_data \<Rightarrow> chan \<times> chan \<Rightarrow> (chan \<times> chan) outcome option" where
  "urpc2_round fill usd = (\<lambda>(out, inc).
     if \<not> waiting (ring inc (current_receive inc)) \<and>
        (sendobj out = None \<and> queue_empty out \<or> waiting (ring out (current_send out)))
     then Some (Ok (out, inc))
     else if waiting (ring inc (current_receive inc))
     then map_option (\<lambda>r. bind_outcome r (\<lambda>inc. Ok (out, inc))) (receive_round fill usd inc)
     else map_option (\<lambda>r. bind_outcome r (\<lambda>out. Ok (out, inc))) (send_round out))"

section \<open>Both cores at once\<close>

text \<open>
  The accesses of the two cores to an entry, interleaved in any way: the sender tests the flag and clears it,
  fills the entry and then sets the flag; the receiver tests the flag, reads the entry and then clears the flag.
  Messages can be queued at any time; a step is labelled with the messages that it queues. \<open>usd\<close> may have any contents whenever a new message starts.
\<close>

datatype send_pc = S_Test | S_Fill | S_Publish
datatype recv_pc = R_Test | R_Read | R_Release urpc2_data bool

inductive chan_step :: "(nat \<Rightarrow> u8) \<Rightarrow> (urpc2_data \<Rightarrow> bool) \<Rightarrow>
    chan \<times> send_pc \<times> recv_pc \<Rightarrow> urpc2_data list \<Rightarrow> chan \<times> send_pc \<times> recv_pc \<Rightarrow> bool"
  for fill :: "nat \<Rightarrow> u8" and stack :: "urpc2_data \<Rightarrow> bool" where
  step_enqueue: "chan_step fill stack (c, sp, rp) [m] (enqueue m c, sp, rp)"
    if "m = init_urpc2_data ty i (of_nat (length data)) data" "length data < 2 ^ 32"
| step_dequeue: "chan_step fill stack (c, S_Test, rp) [] (c'\<lparr>sendobj := Some m\<rparr>, S_Test, rp)"
    if "sendobj c = None" "dequeue c = Ok (m, c')"
| step_test: "chan_step fill stack (c, S_Test, rp) [] (put_entry (current_send c) ((ring c (current_send c))\<lparr>flags := 0\<rparr>) c, S_Fill, rp)"
    if "sendobj c \<noteq> None" "\<not> waiting (ring c (current_send c))"
| step_fill: "chan_step fill stack (c, S_Fill, rp) [] ((put_entry (current_send c) e c)\<lparr>sendobj := Some d'\<rparr>, S_Publish, rp)"
    if "sendobj c = Some d" "send_fill d (ring c (current_send c)) = Ok (e, d')"
| step_publish: "chan_step fill stack (c, S_Publish, rp) []
      ((put_entry (current_send c) (publish (ring c (current_send c))) c)
         \<lparr>current_send := (current_send c + 1) mod RINGSIZE,
          sendobj := (if size_in_bytes d \<le> index d then None else Some d)\<rparr>, S_Test, rp)"
    if "sendobj c = Some d"
| step_poll: "chan_step fill stack (c, sp, R_Test) [] (c, sp, R_Read)"
    if "waiting (ring c (current_receive c))"
| step_read: "chan_step fill stack (c, sp, R_Read) [] (c, sp, R_Release d ready)"
    if "stack usd" "recv_entry fill (case usd_store c of None \<Rightarrow> usd\<lparr>index := 0\<rparr> | Some d \<Rightarrow> d) (ring c (current_receive c)) = Ok (d, ready)"
| step_release: "chan_step fill stack (c, sp, R_Release d ready) []
      ((put_entry (current_receive c) (release (ring c (current_receive c))) c)
         \<lparr>current_receive := (current_receive c + 1) mod RINGSIZE,
          usd_store := (if ready then None else Some d),
          delivered := (if ready then delivered c @ [d] else delivered c)\<rparr>, sp, R_Test)"

end
