(* ===== verification/Urpc_Frames.thy ===== *)
theory Urpc_Frames
  imports Urpc
begin

text \<open>
  Cutting a message into entries and putting it together again. A piece is what an entry carries:
  the flags and the bytes at its start. The rest of an entry are old bytes.
\<close>

section \<open>Bytes of a size\<close>

fun le_nat :: "u8 list \<Rightarrow> nat" where
  "le_nat [] = 0"
| "le_nat (b # bs) = unat b + 256 * le_nat bs"

lemma le_nat_bound: "le_nat bs < 256 ^ length bs"
proof (induction bs)
  case (Cons b bs)
  have "x + 256 * r < 256 * p" if "x < 256" "r < p" for x r p :: nat
    using that by auto
  then show ?case using Cons unat_exp_less [of b] by simp
qed simp

lemma of_le_bytes_nat: "length bs \<le> 8 \<Longrightarrow> unat (of_le_bytes bs) = le_nat bs"
proof (induction bs)
  case (Cons b bs)
  have IH: "unat (of_le_bytes bs) = le_nat bs" using Cons by simp
  have "le_nat bs < 256 ^ 7"
    using le_nat_bound [of bs] Cons.prems power_increasing [of "length bs" 7 "256::nat"] by simp
  then have "unat (256 * of_le_bytes bs) = 256 * le_nat bs"
    using unat_times_less [of 256 "of_le_bytes bs"] IH by simp
  moreover have "unat (ucast b :: u64) = unat b"
    unfolding unsigned_ucast_eq using unat_exp_less [of b] by (simp add: take_bit_eq_mod)
  ultimately show ?case
    using unat_plus_less [of "ucast b :: u64" "256 * of_le_bytes bs"] \<open>le_nat bs < 256 ^ 7\<close> unat_exp_less [of b] by simp
qed simp

lemma base_256: "n < 2 ^ 32 \<Longrightarrow>
  n mod 256 + 256 * (n div 256 mod 256 + 256 * (n div 65536 mod 256 + 256 * (n div 16777216 mod 256))) = (n :: nat)"
proof -
  assume "n < 2 ^ 32"
  then have top: "n div 16777216 < 256" by (simp add: div_less_iff_less_mult)
  have "n div 256 div 256 = n div 65536" "n div 65536 div 256 = n div 16777216"
    by (simp_all add: div_mult2_eq [symmetric])
  then have e: "n = 256 * (n div 256) + n mod 256" "n div 256 = 256 * (n div 65536) + n div 256 mod 256"
      "n div 65536 = 256 * (n div 16777216) + n div 65536 mod 256"
    using mult_div_mod_eq [of 256 n] mult_div_mod_eq [of 256 "n div 256"] mult_div_mod_eq [of 256 "n div 65536"] by simp_all
  have "x + 256 * (y + 256 * (z + 256 * c)) = n" if "n = 256 * a + x" "a = 256 * b + y" "b = 256 * c + z"
    for a b c x y z :: nat
    using that by simp
  from this [OF e] show ?thesis unfolding mod_less [OF top] .
qed

lemma le_bytes32_inverse: "of_le_bytes (le_bytes32 w) = ucast w"
proof -
  have byte: "unat (ucast (drop_bit i w) :: u8) = unat w div 2 ^ i mod 256" for i
  proof -
    have "unat (ucast (drop_bit i w) :: u8) = unat (drop_bit i w) mod 256"
      unfolding unsigned_ucast_eq by (simp add: take_bit_eq_mod)
    then show ?thesis unfolding unat_drop_bit_eq by (simp add: drop_bit_eq_div)
  qed
  have "[0..<4] = [0, 1, 2, 3]" by (simp add: upt_conv_Cons)
  then have "le_nat (le_bytes32 w) = unat w"
    using base_256 [of "unat w"] unat_exp_less [of w] byte [of 0] byte [of 8] byte [of 16] byte [of 24]
    by (simp add: le_bytes32_def)
  then have "unat (of_le_bytes (le_bytes32 w)) = unat w"
    by (subst of_le_bytes_nat) (simp_all add: le_bytes32_def)
  then have "unat (of_le_bytes (le_bytes32 w)) = unat (ucast w :: u64)" by (simp add: unat_ucast_64)
  then show ?thesis by (rule word_unat_eq_iff [THEN iffD2])
qed

lemma length_le_bytes [simp]: "length (le_bytes32 w) = 4" "length (le_bytes64 v) = 8"
  by (simp_all add: le_bytes32_def le_bytes64_def)

section \<open>Pieces\<close>

definition msg_ok :: "urpc2_data \<Rightarrow> bool" where
  "msg_ok m \<longleftrightarrow> index m = 0 \<and> unat (size_in_bytes m) = length (bytes m) \<and> length (bytes m) < 2 ^ 32"

definition at_index :: "urpc2_data \<Rightarrow> nat \<Rightarrow> urpc2_data" where
  "at_index m k = m\<lparr>index := of_nat k\<rparr>"

lemma at_index_simps [simp]:
  "size_in_bytes (at_index m k) = size_in_bytes m" "msg_type (at_index m k) = msg_type m"
  "msg_id (at_index m k) = msg_id m" "bytes (at_index m k) = bytes m"
  by (simp_all add: at_index_def)

lemma at_index_advance: "(at_index m k)\<lparr>index := index (at_index m k) + of_nat j\<rparr> = at_index m (k + j)"
  by (simp add: at_index_def)

type_synonym piece = "u8 \<times> u8 list"

definition is_last :: "nat \<Rightarrow> nat \<Rightarrow> bool" where
  "is_last n k \<longleftrightarrow> n \<le> k + 63 \<and> (0 < k \<or> n \<le> 61)"

definition piece_len :: "nat \<Rightarrow> nat \<Rightarrow> nat" where
  "piece_len n k = (if is_last n k then n - k else if k = 0 then 57 else 63)"

definition piece_header :: "urpc2_data \<Rightarrow> nat \<Rightarrow> u8 list" where
  "piece_header m k =
     (if k = 0 then (if length (bytes m) \<le> 61 then [] else le_bytes32 (of_nat (length (bytes m)))) @ [msg_type m, msg_id m]
      else [])"

definition piece_flags :: "nat \<Rightarrow> nat \<Rightarrow> u8" where
  "piece_flags n k =
     (if is_last n k then 4 else 0) OR (if k = 0 then if n \<le> 61 then 2 else 10 else 0)"

definition piece :: "urpc2_data \<Rightarrow> nat \<Rightarrow> piece" where
  "piece m k =
     (piece_flags (length (bytes m)) k,
      piece_header m k @ take (piece_len (length (bytes m)) k) (drop k (bytes m)))"

function pieces :: "urpc2_data \<Rightarrow> nat \<Rightarrow> piece list" where
  "pieces m k =
     piece m k #
     (let k' = k + piece_len (length (bytes m)) k in if length (bytes m) \<le> k' then [] else pieces m k')"
  by auto

termination
  by (relation "measure (\<lambda>(m, k). length (bytes m) - k)") (auto simp: piece_len_def is_last_def split: if_splits)

declare pieces.simps [simp del]

text \<open>An entry that carries a piece.\<close>

definition carries :: "ringbuffer_entry \<Rightarrow> piece \<Rightarrow> bool" where
  "carries e p \<longleftrightarrow> flags e = fst p \<and> length (body e) = 63 \<and> take (length (snd p)) (body e) = snd p"

section \<open>Sending\<close>

lemma size_word:
  assumes "msg_ok m"
  shows "size_in_bytes m = of_nat (length (bytes m))"
  using assms by (metis msg_ok_def of_nat_unat ucast_id)

lemma ucast_of_nat_32: "n < 2 ^ 32 \<Longrightarrow> ucast (of_nat n :: u64) = (of_nat n :: u32)"
  unfolding word_unat_eq_iff unat_ucast_32 by (simp add: unat_of_nat)

lemma at_index_conds:
  assumes "msg_ok m" "k \<le> length (bytes m)"
  shows "unat (index (at_index m k)) = k" "index (at_index m k) = 0 \<longleftrightarrow> k = 0"
    "61 < size_in_bytes m \<longleftrightarrow> 61 < length (bytes m)" "size_in_bytes m < 2 ^ 32" "size_in_bytes m < 2 ^ 63"
    "small_rem (at_index m k) \<longleftrightarrow> is_last (length (bytes m)) k"
    "piece_length (at_index m k) used =
       (if is_last (length (bytes m)) k then length (bytes m) - k else 63 - used)"
proof -
  let ?n = "length (bytes m)"
  have n: "unat (size_in_bytes m) = ?n" "?n < 2 ^ 32" using assms(1) by (auto simp: msg_ok_def)
  have k: "unat (of_nat k :: u64) = k" using assms(2) n(2) by (intro unat_of_nat_less) simp
  show "unat (index (at_index m k)) = k" using k by (simp add: at_index_def)
  show zero: "index (at_index m k) = 0 \<longleftrightarrow> k = 0" using k by (simp add: at_index_def unat_eq_zero [symmetric] del: unat_eq_zero)
  show "61 < size_in_bytes m \<longleftrightarrow> 61 < ?n" "size_in_bytes m < 2 ^ 32" "size_in_bytes m < 2 ^ 63"
    using n by (simp_all add: word_less_nat_alt)
  have "unat (of_nat k + 63 :: u64) = k + 63"
    using k assms(2) n(2) unat_plus_less [of "of_nat k :: u64" 63] by simp
  then show small: "small_rem (at_index m k) \<longleftrightarrow> is_last ?n k"
    using k n by (auto simp: small_rem_def is_last_def at_index_def word_le_nat_alt word_less_nat_alt)
  have "unat (size_in_bytes m - of_nat k) = ?n - k"
    using k n assms(2) unat_minus_le [of "of_nat k" "size_in_bytes m"] by (simp add: word_le_nat_alt)
  then have "unat (ucast (size_in_bytes m - of_nat k) :: u8) = (?n - k) mod 256"
    unfolding unsigned_ucast_eq by (simp add: take_bit_eq_mod)
  then show "piece_length (at_index m k) used = (if is_last ?n k then ?n - k else 63 - used)"
    unfolding piece_length_def small by (auto simp: at_index_def is_last_def)
qed

lemma piece_bounds:
  assumes "k \<le> length (bytes m)"
  shows "length (piece_header m k) + piece_len (length (bytes m)) k \<le> 63"
    "k + piece_len (length (bytes m)) k \<le> length (bytes m)"
    "\<not> is_last (length (bytes m)) k \<Longrightarrow> piece_len (length (bytes m)) k = 63 - length (piece_header m k)"
  using assms by (auto simp: piece_header_def piece_len_def is_last_def)

lemma send_fill_ok:
  assumes "msg_ok m" "k \<le> length (bytes m)" "length (body e) = 63"
  shows "\<exists>e'. send_fill (at_index m k) e = Ok (e', at_index m (k + piece_len (length (bytes m)) k)) \<and> carries e' (piece m k)"
proof -
  let ?n = "length (bytes m)" and ?d = "at_index m k"
  note c = at_index_conds [OF assms(1,2)] and b = piece_bounds [OF assms(2)]
  have hdr: "send_header ?d = piece_header m k"
    using c(2-4) size_word [OF assms(1)] assms(1) by (auto simp: msg_ok_def send_header_def piece_header_def not_le ucast_of_nat_32)
  have len: "piece_length ?d (length (piece_header m k)) = piece_len ?n k"
    unfolding c(7) using b(3) by (auto simp: piece_len_def)
  have flags: "send_flags ?d = piece_flags ?n k"
    using c(2-4,6) by (auto simp: send_flags_def piece_flags_def not_le)
  show ?thesis
    using b(1,2) assms(3)
    by (auto simp: send_fill_def hdr len flags c(1) peek_def poke_def Let_def carries_def piece_def at_index_advance)
qed

section \<open>Receiving\<close>

text \<open>
  What the handler gets for a message: the message itself, or, when the message has at most 61 bytes, a block
  of 61 bytes that starts with it.
\<close>

definition arrives :: "urpc2_data \<Rightarrow> urpc2_data \<Rightarrow> bool" where
  "arrives m d \<longleftrightarrow>
     msg_type d = msg_type m \<and> msg_id d = msg_id m \<and>
     (if length (bytes m) \<le> 61
      then size_in_bytes d = 61 \<and> length (bytes d) = 61 \<and> take (length (bytes m)) (bytes d) = bytes m
      else size_in_bytes d = size_in_bytes m \<and> bytes d = bytes m)"

text \<open>A message of which the first \<open>k\<close> bytes are here.\<close>

definition partly :: "urpc2_data \<Rightarrow> nat \<Rightarrow> urpc2_data \<Rightarrow> bool" where
  "partly m k d \<longleftrightarrow>
     msg_type d = msg_type m \<and> msg_id d = msg_id m \<and> size_in_bytes d = size_in_bytes m \<and> index d = of_nat k \<and>
     length (bytes d) = length (bytes m) \<and> take k (bytes d) = take k (bytes m)"

definition holds :: "ringbuffer_entry \<Rightarrow> piece \<Rightarrow> bool" where
  "holds e p \<longleftrightarrow> (\<exists>e0. e = publish e0 \<and> carries e0 p)"

lemma holdsD:
  assumes "holds e p"
  shows "flags e = fst p OR 1" "length (body e) = 63" "take (length (snd p)) (body e) = snd p"
  using assms by (auto simp: holds_def carries_def publish_def)

lemma length_piece: "k \<le> length (bytes m) \<Longrightarrow>
  length (snd (piece m k)) = length (piece_header m k) + piece_len (length (bytes m)) k"
  using piece_bounds(2) [of k m] by (simp add: piece_def)

text \<open>The header and the payload of an entry.\<close>

lemma holds_peek:
  assumes "holds e (piece m k)" "k \<le> length (bytes m)"
  shows "take (length (piece_header m k)) (body e) = piece_header m k"
    "take (piece_len (length (bytes m)) k) (drop (length (piece_header m k)) (body e)) =
       take (piece_len (length (bytes m)) k) (drop k (bytes m))"
proof -
  let ?h = "piece_header m k" and ?n = "piece_len (length (bytes m)) k"
  have t: "take (length ?h + ?n) (body e) = ?h @ take ?n (drop k (bytes m))"
    using holdsD(3) [OF assms(1)] length_piece [OF assms(2)] by (simp add: piece_def)
  have "take (length ?h) (take (length ?h + ?n) (body e)) = ?h" unfolding t by simp
  then show "take (length ?h) (body e) = ?h" by (simp add: min_def)
  have "drop (length ?h) (take (length ?h + ?n) (body e)) = take ?n (drop k (bytes m))" unfolding t by simp
  then show "take ?n (drop (length ?h) (body e)) = take ?n (drop k (bytes m))" by (simp add: drop_take)
qed

lemma recv_small:
  assumes "msg_ok m" "length (bytes m) \<le> 61" "holds e (piece m 0)" "index d = 0"
  shows "\<exists>d'. recv_entry fill d e = Ok (d', True) \<and> arrives m d'"
proof -
  have last: "is_last (length (bytes m)) 0" "piece_len (length (bytes m)) 0 = length (bytes m)"
    using assms(2) by (auto simp: is_last_def piece_len_def)
  have hdr: "piece_header m 0 = [msg_type m, msg_id m]" using assms(2) by (simp add: piece_header_def)
  have "flags e AND 4 \<noteq> 0"
    using holdsD(1) [OF assms(3)] last(1) assms(2) by (simp add: piece_def piece_flags_def)
  moreover have "take 2 (body e) = [msg_type m, msg_id m]" "take (length (bytes m)) (drop 2 (body e)) = bytes m"
    using holds_peek [OF assms(3)] hdr last(2) by (auto simp: numeral_2_eq_2)
  moreover have "take (length (bytes m)) (take 61 (drop 2 (body e))) = take (length (bytes m)) (drop 2 (body e))"
    using assms(2) by (simp add: min_def)
  ultimately show ?thesis
    using holdsD(2) [OF assms(3)] assms(2,4) by (auto simp: recv_entry_def peek_def arrives_def)
qed

lemma recv_piece_ok:
  assumes "msg_ok m" "partly m k d" "k < length (bytes m)" "holds e (piece m k)" "i = length (piece_header m k)"
  shows "\<exists>d'. recv_piece d i e = Ok d' \<and> partly m (k + piece_len (length (bytes m)) k) d'"
proof -
  let ?n = "length (bytes m)" and ?l = "piece_len (length (bytes m)) k"
  note c = at_index_conds [OF assms(1) less_imp_le [OF assms(3)]] and b = piece_bounds [OF less_imp_le [OF assms(3)]]
  have same: "index d = index (at_index m k)" "size_in_bytes d = size_in_bytes (at_index m k)"
    using assms(2) by (auto simp: partly_def at_index_def)
  have "piece_length d i = piece_length (at_index m k) i"
    by (auto simp: piece_length_def small_rem_def same)
  then have len: "piece_length d i = ?l"
    unfolding c(7) using b(3) assms(5) by (auto simp: piece_len_def)
  have idx: "unat (index d) = k" using same(1) c(1) by simp
  have pc: "take ?l (drop i (body e)) = take ?l (drop k (bytes m))" "i + ?l \<le> length (body e)"
    using holds_peek(2) [OF assms(4)] holdsD(2) [OF assms(4)] b(1) assms(3,5) by auto
  have lp: "length (take ?l (drop k (bytes m))) = ?l" using b(2) by simp
  have "take (k + ?l) (take k (bytes d) @ take ?l (drop k (bytes m)) @ drop (k + ?l) (bytes d)) = take (k + ?l) (bytes m)"
    using assms(2,3) b(2) by (auto simp: partly_def take_add min_def)
  moreover have ld: "length (bytes d) = ?n" using assms(2) by (simp add: partly_def)
  moreover have "recv_piece d i e = Ok (d\<lparr>bytes := take k (bytes d) @ take ?l (drop k (bytes m)) @ drop (k + ?l) (bytes d),
      index := index d + of_nat ?l\<rparr>)"
    using b(2) lp pc(2) ld by (simp add: recv_piece_def len peek_def poke_def idx pc(1) Let_def)
  ultimately show ?thesis
    using assms(2) b(2) lp by (auto simp: partly_def)
qed

text \<open>The first entry of a message of several entries.\<close>

lemma first_entry:
  assumes "61 < length (bytes m)" "holds e (piece m 0)"
  shows "flags e = 11" "take 4 (body e) = le_bytes32 (of_nat (length (bytes m)))"
    "take 2 (drop 4 (body e)) = [msg_type m, msg_id m]"
proof -
  let ?n = "length (bytes m)"
  have hdr: "piece_header m 0 = le_bytes32 (of_nat ?n) @ [msg_type m, msg_id m]"
    using assms(1) by (simp add: piece_header_def)
  show "flags e = 11" using holdsD(1) [OF assms(2)] assms(1) by (simp add: piece_def piece_flags_def is_last_def)
  have six: "take 6 (body e) = le_bytes32 (of_nat ?n) @ [msg_type m, msg_id m]"
    using holds_peek(1) [OF assms(2)] hdr by simp
  have "take 4 (take 6 (body e)) = le_bytes32 (of_nat ?n)" "drop 4 (take 6 (body e)) = [msg_type m, msg_id m]"
    unfolding six by simp_all
  then show "take 4 (body e) = le_bytes32 (of_nat ?n)" "take 2 (drop 4 (body e)) = [msg_type m, msg_id m]"
    by (simp_all add: drop_take)
qed

lemma recv_first:
  assumes "msg_ok m" "61 < length (bytes m)" "holds e (piece m 0)" "index d = 0" "drop_bit 32 (size_in_bytes d) = 0"
  shows "\<exists>d'. recv_entry fill d e = Ok (d', False) \<and> partly m 57 d'"
proof -
  let ?n = "length (bytes m)"
  have nl: "piece_len ?n 0 = 57" using assms(2) by (auto simp: is_last_def piece_len_def)
  have hdr: "length (piece_header m 0) = 6" using assms(2) by (simp add: piece_header_def)
  note f = first_entry(1) [OF assms(2,3)] and pk = first_entry(2,3) [OF assms(2,3)]
  have "ucast (of_nat ?n :: u32) = size_in_bytes m"
    unfolding word_unat_eq_iff unat_ucast_64 using assms(1) by (simp add: msg_ok_def unat_of_nat_less)
  then have sz: "of_le_bytes (le_bytes32 (of_nat ?n)) = size_in_bytes m" by (simp add: le_bytes32_inverse)
  have "unat (ucast (size_in_bytes m) :: u32) = ?n" using assms(1) by (simp add: unat_ucast_32 msg_ok_def)
  then obtain d0 where d0: "recv_begin fill d e = Ok (d0, 6)" "partly m 0 d0"
    using pk sz assms(4,5) holdsD(2) [OF assms(3)] f by (auto simp: recv_begin_def peek_def partly_def)
  have "0 < ?n" using assms(2) by linarith
  then obtain d' where d': "recv_piece d0 6 e = Ok d'" "partly m 57 d'"
    using recv_piece_ok [OF assms(1) d0(2) _ assms(3), of 6] hdr nl by auto
  have "\<not> size_in_bytes d' \<le> index d'"
    using d'(2) assms(1,2) by (simp add: partly_def msg_ok_def word_le_nat_alt)
  with d0(1) d'(1,2) f assms(4) show ?thesis by (auto simp: recv_entry_def)
qed

lemma recv_more:
  assumes "msg_ok m" "partly m k d" "0 < k" "k < length (bytes m)" "holds e (piece m k)"
  defines "k' \<equiv> k + piece_len (length (bytes m)) k"
  shows "\<exists>d'. recv_entry fill d e = Ok (d', length (bytes m) \<le> k') \<and> partly m k' d'"
proof -
  have k: "index d \<noteq> 0"
    using assms(2) at_index_conds(2) [OF assms(1) less_imp_le [OF assms(4)]] assms(3) by (simp add: partly_def at_index_def)
  obtain d' where d': "recv_piece d 0 e = Ok d'" "partly m k' d'"
    using recv_piece_ok [OF assms(1,2,4,5), of 0] assms(3) by (auto simp: piece_header_def k'_def)
  have "k' \<le> length (bytes m)" unfolding k'_def using piece_bounds(2) assms(4) by simp
  then have "unat (index d') = k'"
    using d'(2) at_index_conds(1) [OF assms(1)] by (simp add: partly_def at_index_def)
  then have "size_in_bytes d' \<le> index d' \<longleftrightarrow> length (bytes m) \<le> k'"
    using d'(2) assms(1) by (simp add: partly_def msg_ok_def word_le_nat_alt)
  with k d' show ?thesis by (auto simp: recv_entry_def)
qed

lemma partly_arrives:
  assumes "partly m k d" "length (bytes m) \<le> k" "61 < length (bytes m)"
  shows "arrives m d"
  using assms by (auto simp: partly_def arrives_def)

end
