(* ===== verification/Urpc_Channel.thy ===== *)
theory Urpc_Channel
  imports Urpc_Frames
begin

text \<open>
  The ring as a queue of pieces with one sender and one receiver, and the invariant of a channel:
  what has been delivered, the pieces in the ring and what is left to send are together the messages that were queued, in order.
\<close>

section \<open>The ring\<close>

definition ring_ok :: "chan \<Rightarrow> piece list \<Rightarrow> bool" where
  "ring_ok c ps \<longleftrightarrow>
     current_receive c < 32 \<and> length ps \<le> 32 \<and> current_send c = (current_receive c + length ps) mod 32 \<and>
     (\<forall>i<32. length (body (ring c i)) = 63) \<and>
     (\<forall>i<length ps. holds (ring c ((current_receive c + i) mod 32)) (ps ! i)) \<and>
     (\<forall>i. length ps \<le> i \<longrightarrow> i < 32 \<longrightarrow> \<not> waiting (ring c ((current_receive c + i) mod 32)))"

lemma slot_eq: "r < 32 \<Longrightarrow> i < 32 \<Longrightarrow> j < 32 \<Longrightarrow> (r + i) mod 32 = (r + j) mod (32::nat) \<longleftrightarrow> i = j"
  by (auto simp: mod_if split: if_splits)

lemma waiting_bit: "waiting e \<longleftrightarrow> bit (flags e) 0"
  by (simp add: waiting_def and_one_eq bit_0 odd_iff_mod_2_eq_one)

lemma waiting_simps [simp]: "waiting (publish e)" "\<not> waiting (release e)"
  by (simp_all add: waiting_bit publish_def release_def bit_simps)

lemma holds_waiting: "holds e p \<Longrightarrow> waiting e"
  by (auto simp: holds_def)

lemma ring_ok_send:
  assumes "ring_ok c ps"
  shows "waiting (ring c (current_send c)) \<longleftrightarrow> length ps = 32" "length (body (ring c (current_send c))) = 63"
    "current_send c < 32"
proof -
  show "current_send c < 32" using assms by (simp add: ring_ok_def)
  show "waiting (ring c (current_send c)) \<longleftrightarrow> length ps = 32"
  proof (cases "length ps = 32")
    case True
    then have "current_send c = (current_receive c + 0) mod 32" "0 < length ps" using assms by (auto simp: ring_ok_def)
    then have "holds (ring c (current_send c)) (ps ! 0)" using assms unfolding ring_ok_def by metis
    with True show ?thesis by (simp add: holds_waiting)
  qed (use assms in \<open>auto simp: ring_ok_def\<close>)
  show "length (body (ring c (current_send c))) = 63" using assms by (simp add: ring_ok_def)
qed

lemma ring_ok_receive:
  assumes "ring_ok c ps"
  shows "waiting (ring c (current_receive c)) \<longleftrightarrow> ps \<noteq> []" "ps = p # ps' \<Longrightarrow> holds (ring c (current_receive c)) p"
proof -
  have r: "current_receive c = (current_receive c + 0) mod 32" using assms by (simp add: ring_ok_def)
  show h: "holds (ring c (current_receive c)) p" if "ps = p # ps'" for p ps'
    using assms that r unfolding ring_ok_def by fastforce
  show "waiting (ring c (current_receive c)) \<longleftrightarrow> ps \<noteq> []"
  proof (cases ps)
    case Nil
    with assms r show ?thesis unfolding ring_ok_def by (metis le_zero_eq list.size(3) zero_less_numeral)
  qed (use h in \<open>auto simp: holds_waiting\<close>)
qed

lemma put_entry_simps [simp]:
  "ring (put_entry i e c) j = (if j = i then e else ring c j)" "current_send (put_entry i e c) = current_send c"
  "current_receive (put_entry i e c) = current_receive c" "send_queue (put_entry i e c) = send_queue c"
  "sendobj (put_entry i e c) = sendobj c" "usd_store (put_entry i e c) = usd_store c"
  "delivered (put_entry i e c) = delivered c"
  by (simp_all add: put_entry_def)

lemma ring_ok_cong:
  "ring_ok c ps \<Longrightarrow> ring c' = ring c \<Longrightarrow> current_send c' = current_send c \<Longrightarrow> current_receive c' = current_receive c \<Longrightarrow>
   ring_ok c' ps"
  by (simp add: ring_ok_def)

text \<open>The sender works on an entry that is not in the queue, publishes it, and the receiver takes it off.\<close>

lemma ring_ok_scratch:
  assumes "ring_ok c ps" "length ps < 32" "\<not> waiting e" "length (body e) = 63"
  shows "ring_ok (put_entry (current_send c) e c) ps"
proof -
  have "current_send c = (current_receive c + length ps) mod 32" "current_receive c < 32" using assms(1) by (auto simp: ring_ok_def)
  then have "(current_receive c + i) mod 32 = current_send c \<longleftrightarrow> i = length ps" if "i < 32" for i
    using slot_eq that assms(2) by simp
  with assms show ?thesis by (auto simp: ring_ok_def)
qed

lemma ring_ok_publish:
  assumes "ring_ok c ps" "length ps < 32" "holds e p"
  shows "ring_ok ((put_entry (current_send c) e c)\<lparr>current_send := (current_send c + 1) mod 32\<rparr>) (ps @ [p])"
proof -
  have cs: "current_send c = (current_receive c + length ps) mod 32" "current_receive c < 32" using assms(1) by (auto simp: ring_ok_def)
  then have "(current_receive c + i) mod 32 = current_send c \<longleftrightarrow> i = length ps" if "i < 32" for i
    using slot_eq that assms(2) by simp
  moreover have "(current_send c + 1) mod 32 = (current_receive c + (length ps + 1)) mod 32" unfolding cs(1) by (simp add: mod_simps)
  moreover have "length (body e) = 63" using holdsD(2) [OF assms(3)] .
  ultimately show ?thesis using assms by (auto simp: ring_ok_def nth_append less_Suc_eq)
qed

lemma ring_ok_release:
  assumes "ring_ok c (p # ps)"
  shows "ring_ok ((put_entry (current_receive c) (release (ring c (current_receive c))) c)
           \<lparr>current_receive := (current_receive c + 1) mod 32\<rparr>) ps"
proof -
  let ?r = "current_receive c"
  have r: "?r < 32" "?r mod 32 = ?r" "length ps < 32" using assms by (auto simp: ring_ok_def)
  have slot: "((?r + 1) mod 32 + i) mod 32 = (?r + Suc i) mod 32" for i by (simp add: mod_simps)
  have own: "(?r + Suc i) mod 32 = ?r \<longleftrightarrow> i = 31" if "i < 32" for i
    using that r(1) by (auto simp: mod_if split: if_splits)
  have "length (body (release e)) = length (body e)" for e by (simp add: release_def)
  moreover have "holds (ring c ((?r + Suc i) mod 32)) (ps ! i)" if "i < length ps" for i
    using assms that by (auto simp: ring_ok_def)
  moreover have "\<not> waiting (ring c ((?r + Suc i) mod 32))" if "length ps \<le> i" "i < 31" for i
    using assms that by (auto simp: ring_ok_def)
  ultimately show ?thesis
    using assms own r by (auto simp: ring_ok_def slot mod_simps less_Suc_eq)
qed

section \<open>What is left to send and to receive\<close>

definition queue_pieces :: "urpc2_data list \<Rightarrow> piece list" where
  "queue_pieces ms = concat (map (\<lambda>m. pieces m 0) ms)"

lemma queue_pieces_simps [simp]:
  "queue_pieces [] = []" "queue_pieces (m # ms) = pieces m 0 @ queue_pieces ms"
  "queue_pieces (ms @ ns) = queue_pieces ms @ queue_pieces ns"
  by (simp_all add: queue_pieces_def)

lemma at_index_0: "msg_ok m \<Longrightarrow> at_index m 0 = m"
  by (simp add: msg_ok_def at_index_def)

lemma carries_not_waiting: "carries e (piece m k) \<Longrightarrow> \<not> waiting e"
  by (auto simp: carries_def piece_def waiting_bit piece_flags_def bit_simps bit_0)

text \<open>The pieces that the sender has not published, and its state while it works on the first one.\<close>

definition sending :: "urpc2_data \<Rightarrow> nat \<Rightarrow> send_pc \<Rightarrow> ringbuffer_entry \<Rightarrow> urpc2_data \<Rightarrow> bool" where
  "sending m k sp e d \<longleftrightarrow>
     msg_ok m \<and> (k = 0 \<or> k < length (bytes m)) \<and>
     (if sp = S_Publish then d = at_index m (k + piece_len (length (bytes m)) k) \<and> carries e (piece m k)
      else d = at_index m k)"

lemma sending_entry: "sp \<noteq> S_Publish \<Longrightarrow> sp' \<noteq> S_Publish \<Longrightarrow> sending m k sp e d \<Longrightarrow> sending m k sp' e' d"
  by (simp add: sending_def)

definition send_rel :: "chan \<Rightarrow> send_pc \<Rightarrow> piece list \<Rightarrow> bool" where
  "send_rel c sp rest \<longleftrightarrow>
     (\<forall>m\<in>set (send_queue c). msg_ok m) \<and>
     (case sendobj c of
        None \<Rightarrow> sp = S_Test \<and> rest = queue_pieces (send_queue c)
      | Some d \<Rightarrow>
          \<exists>m k. sending m k sp (ring c (current_send c)) d \<and> rest = pieces m k @ queue_pieces (send_queue c))"

text \<open>The messages that the pieces that are not yet received give, with the message that is being received.\<close>

definition stream_rel :: "urpc2_data option \<Rightarrow> piece list \<Rightarrow> urpc2_data list \<Rightarrow> bool" where
  "stream_rel st str ms \<longleftrightarrow>
     (\<forall>m\<in>set ms. msg_ok m) \<and>
     (case st of
        None \<Rightarrow> str = queue_pieces ms
      | Some d \<Rightarrow>
          \<exists>m k ms'. ms = m # ms' \<and> 61 < length (bytes m) \<and> 0 < k \<and> k < length (bytes m) \<and> partly m k d \<and>
            str = pieces m k @ queue_pieces ms')"

definition recv_next :: "urpc2_data \<Rightarrow> bool \<Rightarrow> piece list \<Rightarrow> urpc2_data list \<Rightarrow> bool" where
  "recv_next d ready str ms \<longleftrightarrow>
     (if ready then \<exists>m ms'. ms = m # ms' \<and> arrives m d \<and> stream_rel None str ms' else stream_rel (Some d) str ms)"

lemma stream_rel_extend:
  "stream_rel st str ms \<Longrightarrow> msg_ok m \<Longrightarrow> stream_rel st (str @ pieces m 0) (ms @ [m])"
  by (auto simp: stream_rel_def split: option.splits)

lemma recv_next_extend:
  "recv_next d ready str ms \<Longrightarrow> msg_ok m \<Longrightarrow> recv_next d ready (str @ pieces m 0) (ms @ [m])"
  using stream_rel_extend [of _ str] by (auto simp: recv_next_def split: if_splits)

lemma recv_ok:
  assumes "stream_rel st (p # str) ms" "holds e p" "drop_bit 32 (size_in_bytes usd) = 0"
  shows "\<exists>d ready. recv_entry fill (case st of None \<Rightarrow> usd\<lparr>index := 0\<rparr> | Some d \<Rightarrow> d) e = Ok (d, ready) \<and> recv_next d ready str ms"
proof (cases st)
  case None
  with assms(1) obtain m ms' where ms: "ms = m # ms'" by (cases ms) (auto simp: stream_rel_def)
  then have m: "msg_ok m" "\<forall>m\<in>set ms'. msg_ok m" "p # str = pieces m 0 @ queue_pieces ms'"
    using assms(1) None by (auto simp: stream_rel_def)
  let ?n = "length (bytes m)"
  show ?thesis
  proof (cases "?n \<le> 61")
    case True
    then have "piece_len ?n 0 = ?n" by (simp add: piece_len_def is_last_def)
    then have "p = piece m 0" "str = queue_pieces ms'" using m(3) by (simp_all add: pieces.simps [of m])
    with recv_small [OF m(1) True, of e "usd\<lparr>index := 0\<rparr>" fill] assms(2) m(2) ms None show ?thesis
      by (fastforce simp: recv_next_def stream_rel_def)
  next
    case False
    then have "piece_len ?n 0 = 57" by (simp add: piece_len_def is_last_def)
    then have str: "p = piece m 0" "str = pieces m 57 @ queue_pieces ms'" using m(3) False by (simp_all add: pieces.simps [of m 0])
    obtain d where "recv_entry fill (usd\<lparr>index := 0\<rparr>) e = Ok (d, False)" "partly m 57 d"
      using recv_first [OF m(1) _ _, of e "usd\<lparr>index := 0\<rparr>" fill] False assms(2,3) str(1) by auto
    moreover have "stream_rel (Some d) str ms"
      using \<open>partly m 57 d\<close> False m(1,2) ms str(2)
      unfolding stream_rel_def by (simp, intro exI [of _ "57 :: nat"]) auto
    ultimately show ?thesis using None by (auto simp: recv_next_def)
  qed
next
  case (Some d)
  then obtain m k ms' where m: "ms = m # ms'" "61 < length (bytes m)" "0 < k" "k < length (bytes m)" "partly m k d"
      "p # str = pieces m k @ queue_pieces ms'" "msg_ok m" "\<forall>m\<in>set ms'. msg_ok m"
    using assms(1) by (auto simp: stream_rel_def)
  let ?n = "length (bytes m)" and ?k = "k + piece_len (length (bytes m)) k"
  have str: "p = piece m k" "str = (if ?n \<le> ?k then [] else pieces m ?k) @ queue_pieces ms'"
    using m(6) by (auto simp: pieces.simps [of m k] Let_def)
  obtain d' where d': "recv_entry fill d e = Ok (d', ?n \<le> ?k)" "partly m ?k d'"
    using recv_more [OF m(7,5,3,4), of e fill] assms(2) str(1) by blast
  have "recv_next d' (?n \<le> ?k) str ms"
  proof (cases "?n \<le> ?k")
    case True
    then show ?thesis using m str(2) partly_arrives [OF d'(2) True m(2)] by (auto simp: recv_next_def stream_rel_def)
  next
    case False
    then show ?thesis
      using m str(2) d'(2) unfolding recv_next_def stream_rel_def by (simp, intro exI [of _ ?k]) auto
  qed
  with d'(1) Some show ?thesis by auto
qed

section \<open>The invariant\<close>

definition chan_parts :: "urpc2_data list \<Rightarrow> chan \<Rightarrow> send_pc \<Rightarrow> recv_pc \<Rightarrow> piece list \<Rightarrow> piece list \<Rightarrow>
    urpc2_data list \<Rightarrow> urpc2_data list \<Rightarrow> bool" where
  "chan_parts sent c sp rp ps rest old new \<longleftrightarrow>
     sent = old @ new \<and> list_all2 arrives old (delivered c) \<and>
     ring_ok c ps \<and> (sp \<noteq> S_Test \<longrightarrow> length ps < 32) \<and> send_rel c sp rest \<and> stream_rel (usd_store c) (ps @ rest) new \<and>
     (rp \<noteq> R_Test \<longrightarrow> ps \<noteq> []) \<and> (\<forall>d ready. rp = R_Release d ready \<longrightarrow> recv_next d ready (tl ps @ rest) new)"

definition chan_inv :: "urpc2_data list \<Rightarrow> chan \<times> send_pc \<times> recv_pc \<Rightarrow> bool" where
  "chan_inv sent = (\<lambda>(c, sp, rp). \<exists>ps rest old new. chan_parts sent c sp rp ps rest old new)"

lemma chan_partsD:
  assumes "chan_parts sent c sp rp ps rest old new"
  shows "sent = old @ new" "list_all2 arrives old (delivered c)" "ring_ok c ps" "sp \<noteq> S_Test \<Longrightarrow> length ps < 32"
    "send_rel c sp rest" "stream_rel (usd_store c) (ps @ rest) new" "rp \<noteq> R_Test \<Longrightarrow> ps \<noteq> []"
    "rp = R_Release d ready \<Longrightarrow> recv_next d ready (tl ps @ rest) new"
  using assms by (auto simp: chan_parts_def)

lemma chan_invI:
  assumes "list_all2 arrives old (delivered c)" "ring_ok c ps" "sp \<noteq> S_Test \<Longrightarrow> length ps < 32" "send_rel c sp rest"
    "stream_rel (usd_store c) (ps @ rest) new" "rp \<noteq> R_Test \<Longrightarrow> ps \<noteq> []"
    "\<And>d ready. rp = R_Release d ready \<Longrightarrow> recv_next d ready (tl ps @ rest) new"
  shows "chan_inv (old @ new) (c, sp, rp)"
  using assms unfolding chan_inv_def chan_parts_def by blast

lemma msg_ok_init:
  "length data < 2 ^ 32 \<Longrightarrow> msg_ok (init_urpc2_data ty i (of_nat (length data)) data)"
  by (simp add: msg_ok_def init_urpc2_data_def unat_ucast_64 unat_of_nat_less)

lemma at_index_done:
  "msg_ok m \<Longrightarrow> k \<le> length (bytes m) \<Longrightarrow> size_in_bytes (at_index m k) \<le> index (at_index m k) \<longleftrightarrow> length (bytes m) \<le> k"
  using at_index_conds(1) by (auto simp: word_le_nat_alt msg_ok_def)

text \<open>The sender at its entry.\<close>

lemma send_rel_obj:
  assumes "send_rel c sp rest" "sendobj c = Some d" "sp \<noteq> S_Publish"
  obtains m k where "msg_ok m" "k = 0 \<or> k < length (bytes m)" "k \<le> length (bytes m)" "d = at_index m k"
    "rest = pieces m k @ queue_pieces (send_queue c)" "\<forall>m\<in>set (send_queue c). msg_ok m"
proof -
  obtain m k where m: "msg_ok m" "k = 0 \<or> k < length (bytes m)" "d = at_index m k"
      "rest = pieces m k @ queue_pieces (send_queue c)" "\<forall>m\<in>set (send_queue c). msg_ok m"
    using assms by (auto simp: send_rel_def sending_def)
  then have "k \<le> length (bytes m)" by auto
  from that [OF m(1,2) this m(3-5)] show thesis .
qed

lemma send_rel_publish:
  assumes "send_rel c S_Publish rest" "sendobj c = Some d" "ring c' = r" "send_queue c' = send_queue c"
    "sendobj c' = (if size_in_bytes d \<le> index d then None else Some d)"
  shows "\<exists>p rest'. rest = p # rest' \<and> holds (publish (ring c (current_send c))) p \<and> send_rel c' S_Test rest'"
proof -
  obtain m k where m: "msg_ok m" "k = 0 \<or> k < length (bytes m)" "rest = pieces m k @ queue_pieces (send_queue c)"
      "d = at_index m (k + piece_len (length (bytes m)) k)" "carries (ring c (current_send c)) (piece m k)"
      "\<forall>m\<in>set (send_queue c). msg_ok m"
    using assms(1,2) by (auto simp: send_rel_def sending_def)
  let ?k = "k + piece_len (length (bytes m)) k"
  have k: "?k \<le> length (bytes m)" using m(2) piece_bounds(2) by auto
  have finished: "size_in_bytes d \<le> index d \<longleftrightarrow> length (bytes m) \<le> ?k"
    unfolding m(4) by (rule at_index_done [OF m(1) k])
  have "send_rel c' S_Test ((if length (bytes m) \<le> ?k then [] else pieces m ?k) @ queue_pieces (send_queue c))"
  proof (cases "length (bytes m) \<le> ?k")
    case True
    then show ?thesis using m(6) finished assms(4,5) by (simp add: send_rel_def)
  next
    case False
    then have "sendobj c' = Some (at_index m ?k)" using finished assms(5) m(4) by simp
    with False m(1,6) assms(4) show ?thesis
      unfolding send_rel_def by (simp, intro exI [of _ m] exI [of _ ?k]) (simp add: sending_def)
  qed
  then show ?thesis using m(3,5) by (auto simp: pieces.simps [of m k] Let_def holds_def)
qed

end
