(* ===== verification/Urpc_Run.thy ===== *)
theory Urpc_Run
  imports Urpc_Channel
begin

text \<open>
  Runs of a channel: every interleaving of the sender, the receiver and the threads that queue
  messages keeps the invariant, and no access of either side leaves its buffers.
\<close>

definition size_clear :: "urpc2_data \<Rightarrow> bool" where
  "size_clear usd \<longleftrightarrow> drop_bit 32 (size_in_bytes usd) = 0"

inductive chan_run :: "(nat \<Rightarrow> u8) \<Rightarrow> (urpc2_data \<Rightarrow> bool) \<Rightarrow> chan \<times> send_pc \<times> recv_pc \<Rightarrow> urpc2_data list \<Rightarrow>
    chan \<times> send_pc \<times> recv_pc \<Rightarrow> bool"
  for fill stack s where
  run_start: "chan_run fill stack s [] s"
| run_step: "chan_run fill stack s ms t \<Longrightarrow> chan_step fill stack t ns u \<Longrightarrow> chan_run fill stack s (ms @ ns) u"

text \<open>A channel at the start: empty rings and queues.\<close>

definition chan_start :: "chan \<Rightarrow> bool" where
  "chan_start c \<longleftrightarrow>
     (\<forall>i<32. \<not> waiting (ring c i) \<and> length (body (ring c i)) = 63) \<and> current_send c = 0 \<and> current_receive c = 0 \<and>
     send_queue c = [] \<and> sendobj c = None \<and> usd_store c = None \<and> delivered c = []"

lemma chan_start_inv: "chan_start c \<Longrightarrow> chan_inv [] (c, S_Test, R_Test)"
  using chan_invI [of "[]" c "[]" S_Test "[]" "[]" R_Test]
  by (simp add: chan_start_def ring_ok_def send_rel_def stream_rel_def)

text \<open>The receiver does not touch the entry of the sender.\<close>

lemma send_rel_receive:
  assumes "send_rel c sp rest" "ring_ok c ps" "ps \<noteq> []" "sp \<noteq> S_Test \<Longrightarrow> length ps < 32"
    "ring c' = (ring c)(current_receive c := e)" "current_send c' = current_send c" "send_queue c' = send_queue c"
    "sendobj c' = sendobj c"
  shows "send_rel c' sp rest"
proof (cases "sp = S_Publish")
  case True
  then have "length ps < 32" "0 < length ps" using assms(3,4) by auto
  then have "current_send c \<noteq> current_receive c"
    using assms(2) slot_eq [of "current_receive c" "length ps" 0] by (simp add: ring_ok_def)
  with assms(1,5-8) show ?thesis by (simp add: send_rel_def split: option.splits)
next
  case False
  then have "sending m k sp (ring c' (current_send c')) d" if "sending m k sp (ring c (current_send c)) d" for m k d
    using sending_entry that by blast
  with assms(1,7,8) show ?thesis by (fastforce simp: send_rel_def split: option.splits)
qed

lemma inv_enqueue:
  assumes "chan_inv sent (c, sp, rp)" "msg_ok m"
  shows "chan_inv (sent @ [m]) (enqueue m c, sp, rp)"
proof -
  obtain ps rest old new where "chan_parts sent c sp rp ps rest old new" using assms(1) by (auto simp: chan_inv_def)
  note i = chan_partsD [OF this]
  have "send_rel (enqueue m c) sp (rest @ pieces m 0)"
    using i(5) assms(2) by (auto simp: send_rel_def enqueue_def split: option.splits)
  moreover have "ring_ok (enqueue m c) ps" using i(3) by (rule ring_ok_cong) (simp_all add: enqueue_def)
  ultimately have "chan_inv (old @ (new @ [m])) (enqueue m c, sp, rp)"
    using i stream_rel_extend [OF i(6) assms(2)] recv_next_extend [OF i(8) assms(2)]
    by (intro chan_invI) (auto simp: enqueue_def)
  then show ?thesis using i(1) by simp
qed

lemma inv_dequeue:
  assumes "chan_inv sent (c, S_Test, rp)" "sendobj c = None" "dequeue c = Ok (m, c')"
  shows "chan_inv sent (c'\<lparr>sendobj := Some m\<rparr>, S_Test, rp)"
proof -
  obtain ps rest old new where "chan_parts sent c S_Test rp ps rest old new" using assms(1) by (auto simp: chan_inv_def)
  note i = chan_partsD [OF this]
  obtain ms where ms: "send_queue c = m # ms" "c' = c\<lparr>send_queue := ms\<rparr>"
    using assms(3) by (auto simp: dequeue_def split: list.splits)
  let ?c = "c\<lparr>send_queue := ms, sendobj := Some m\<rparr>"
  have m: "msg_ok m" "\<forall>m\<in>set ms. msg_ok m" "rest = pieces m 0 @ queue_pieces ms"
    using i(5) assms(2) ms(1) by (auto simp: send_rel_def)
  then have "send_rel ?c S_Test rest"
    unfolding send_rel_def by (simp, intro exI [of _ m] exI [of _ "0 :: nat"]) (simp add: sending_def at_index_0)
  moreover have "ring_ok ?c ps" using i(3) by (rule ring_ok_cong) simp_all
  ultimately show ?thesis
    unfolding i(1) ms(2) using i by (intro chan_invI) auto
qed

lemma inv_test:
  assumes "chan_inv sent (c, S_Test, rp)" "sendobj c \<noteq> None" "\<not> waiting (ring c (current_send c))"
  shows "chan_inv sent (put_entry (current_send c) ((ring c (current_send c))\<lparr>flags := 0\<rparr>) c, S_Fill, rp)"
proof -
  obtain ps rest old new where "chan_parts sent c S_Test rp ps rest old new" using assms(1) by (auto simp: chan_inv_def)
  note i = chan_partsD [OF this]
  let ?e = "(ring c (current_send c))\<lparr>flags := 0\<rparr>"
  have len: "length ps < 32" using ring_ok_send(1) [OF i(3)] assms(3) i(3) by (auto simp: ring_ok_def)
  have "ring_ok (put_entry (current_send c) ?e c) ps"
    using i(3) len ring_ok_send(2) [OF i(3)] by (intro ring_ok_scratch) (auto simp: waiting_def)
  moreover have "send_rel (put_entry (current_send c) ?e c) S_Fill rest"
    using i(5) assms(2) sending_entry [of S_Test S_Fill] by (fastforce simp: send_rel_def)
  ultimately show ?thesis unfolding i(1) using i len by (intro chan_invI) auto
qed

lemma inv_fill:
  assumes "chan_inv sent (c, S_Fill, rp)" "sendobj c = Some d"
  shows "\<exists>e d'. send_fill d (ring c (current_send c)) = Ok (e, d') \<and>
           chan_inv sent ((put_entry (current_send c) e c)\<lparr>sendobj := Some d'\<rparr>, S_Publish, rp)"
proof -
  obtain ps rest old new where "chan_parts sent c S_Fill rp ps rest old new" using assms(1) by (auto simp: chan_inv_def)
  note i = chan_partsD [OF this]
  obtain m k where m: "msg_ok m" "k = 0 \<or> k < length (bytes m)" "k \<le> length (bytes m)" "d = at_index m k"
      "rest = pieces m k @ queue_pieces (send_queue c)" "\<forall>m\<in>set (send_queue c). msg_ok m"
    using send_rel_obj [OF i(5) assms(2)] by blast
  obtain e where e: "send_fill d (ring c (current_send c)) = Ok (e, at_index m (k + piece_len (length (bytes m)) k))"
      "carries e (piece m k)"
    using send_fill_ok [OF m(1,3) ring_ok_send(2) [OF i(3)]] m(4) by blast
  let ?c = "(put_entry (current_send c) e c)\<lparr>sendobj := Some (at_index m (k + piece_len (length (bytes m)) k))\<rparr>"
  have len: "length ps < 32" using i(4) by simp
  have "ring_ok (put_entry (current_send c) e c) ps"
    using i(3) len e(2) carries_not_waiting [OF e(2)] by (intro ring_ok_scratch) (auto simp: carries_def)
  then have "ring_ok ?c ps" by (rule ring_ok_cong) simp_all
  moreover have "send_rel ?c S_Publish rest"
    using m e(2) unfolding send_rel_def by (simp, intro exI [of _ m] exI [of _ k]) (simp add: sending_def)
  ultimately have "chan_inv sent (?c, S_Publish, rp)"
    unfolding i(1) using i len by (intro chan_invI) auto
  with e(1) show ?thesis by blast
qed

lemma inv_publish:
  assumes "chan_inv sent (c, S_Publish, rp)" "sendobj c = Some d"
  shows "chan_inv sent ((put_entry (current_send c) (publish (ring c (current_send c))) c)
           \<lparr>current_send := (current_send c + 1) mod 32,
            sendobj := (if size_in_bytes d \<le> index d then None else Some d)\<rparr>, S_Test, rp)" (is "chan_inv sent (?c, _)")
proof -
  obtain ps rest old new where "chan_parts sent c S_Publish rp ps rest old new" using assms(1) by (auto simp: chan_inv_def)
  note i = chan_partsD [OF this]
  obtain p rest' where p: "rest = p # rest'" "holds (publish (ring c (current_send c))) p" "send_rel ?c S_Test rest'"
    using send_rel_publish [OF i(5) assms(2), of ?c] by auto
  have "ring_ok ((put_entry (current_send c) (publish (ring c (current_send c))) c)
      \<lparr>current_send := (current_send c + 1) mod 32\<rparr>) (ps @ [p])"
    using i(3,4) p(2) by (intro ring_ok_publish) auto
  then have "ring_ok ?c (ps @ [p])" by (rule ring_ok_cong) simp_all
  moreover have "tl (ps @ [p]) @ rest' = tl ps @ rest" if "ps \<noteq> []" using that p(1) by (simp add: tl_append2)
  ultimately show ?thesis
    unfolding i(1) using i p by (intro chan_invI [where ps = "ps @ [p]" and rest = rest']) auto
qed

lemma inv_read:
  assumes "chan_inv sent (c, sp, R_Read)" "size_clear usd"
  shows "\<exists>d ready. recv_entry fill (case usd_store c of None \<Rightarrow> usd\<lparr>index := 0\<rparr> | Some d \<Rightarrow> d) (ring c (current_receive c)) = Ok (d, ready) \<and>
           chan_inv sent (c, sp, R_Release d ready)"
proof -
  obtain ps rest old new where "chan_parts sent c sp R_Read ps rest old new" using assms(1) by (auto simp: chan_inv_def)
  note i = chan_partsD [OF this]
  obtain p ps' where ps: "ps = p # ps'" using i(7) by (cases ps) auto
  obtain d ready where d: "recv_entry fill (case usd_store c of None \<Rightarrow> usd\<lparr>index := 0\<rparr> | Some d \<Rightarrow> d) (ring c (current_receive c)) = Ok (d, ready)"
      "recv_next d ready (ps' @ rest) new"
    using recv_ok [of "usd_store c" p "ps' @ rest" new "ring c (current_receive c)" usd fill] i(6) ps assms(2)
      ring_ok_receive(2) [OF i(3) ps] by (auto simp: size_clear_def)
  moreover have "chan_inv sent (c, sp, R_Release d ready)"
    unfolding i(1) using i d(2) ps by (intro chan_invI) auto
  ultimately show ?thesis by blast
qed

lemma inv_release:
  assumes "chan_inv sent (c, sp, R_Release d ready)"
  shows "chan_inv sent ((put_entry (current_receive c) (release (ring c (current_receive c))) c)
           \<lparr>current_receive := (current_receive c + 1) mod 32,
            usd_store := (if ready then None else Some d),
            delivered := (if ready then delivered c @ [d] else delivered c)\<rparr>, sp, R_Test)" (is "chan_inv sent (?c, _)")
proof -
  obtain ps rest old new where "chan_parts sent c sp (R_Release d ready) ps rest old new" using assms by (auto simp: chan_inv_def)
  note i = chan_partsD [OF this]
  obtain p ps' where ps: "ps = p # ps'" using i(7) by (cases ps) auto
  have next_ok: "recv_next d ready (ps' @ rest) new" using i(8) ps by simp
  have "ring_ok ?c ps'" using ring_ok_release [OF i(3) [unfolded ps]] by (rule ring_ok_cong) simp_all
  moreover have "send_rel ?c sp rest"
    by (rule send_rel_receive [OF i(5,3)]) (use i(4) ps in \<open>auto simp: fun_eq_iff\<close>)
  moreover have "length ps' < 32" if "sp \<noteq> S_Test" using i(4) [OF that] ps by simp
  ultimately show ?thesis
  proof (cases ready)
    case True
    then obtain m new' where m: "new = m # new'" "arrives m d" "stream_rel None (ps' @ rest) new'"
      using next_ok by (auto simp: recv_next_def)
    have "chan_inv ((old @ [m]) @ new') (?c, sp, R_Test)"
      using \<open>ring_ok ?c ps'\<close> \<open>send_rel ?c sp rest\<close> \<open>sp \<noteq> S_Test \<Longrightarrow> length ps' < 32\<close> i(2) m True
      by (intro chan_invI) (auto simp: list_all2_appendI)
    then show ?thesis using i(1) m(1) by simp
  next
    case False
    then show ?thesis
      unfolding i(1) using \<open>ring_ok ?c ps'\<close> \<open>send_rel ?c sp rest\<close> \<open>sp \<noteq> S_Test \<Longrightarrow> length ps' < 32\<close> i(2) next_ok
      by (intro chan_invI) (auto simp: recv_next_def)
  qed
qed

section \<open>Any interleaving\<close>

lemma chan_step_inv:
  assumes "chan_step fill size_clear s ns t" "chan_inv sent s"
  shows "chan_inv (sent @ ns) t"
  using assms
proof cases
  case (step_enqueue m ty i data c sp rp)
  with assms(2) show ?thesis using inv_enqueue msg_ok_init by simp
next
  case (step_poll c sp)
  from step_poll(3) assms(2) obtain ps rest old new where p: "chan_parts sent c sp R_Test ps rest old new"
    unfolding step_poll by (auto simp: chan_inv_def)
  note i = chan_partsD [OF this]
  have "ps \<noteq> []" using ring_ok_receive(1) [OF i(3)] step_poll(4) by simp
  then have "chan_inv (old @ new) (c, sp, R_Read)" using i by (intro chan_invI) auto
  then show ?thesis using step_poll i(1) by simp
next
  case (step_fill c d e d' rp)
  with assms(2) inv_fill [of sent c rp d] show ?thesis by auto
next
  case (step_read usd c d ready sp)
  with assms(2) inv_read [of sent c sp usd fill] show ?thesis by auto
next
  case (step_publish c d rp)
  with assms(2) inv_publish [of sent c rp d] show ?thesis by simp
next
  case (step_release c sp d ready)
  with assms(2) inv_release [of sent c sp d ready] show ?thesis by simp
qed (use assms(2) in \<open>auto intro: inv_dequeue inv_test\<close>)

lemma chan_run_inv:
  "chan_run fill size_clear (c, S_Test, R_Test) ms t \<Longrightarrow> chan_start c \<Longrightarrow> chan_inv ms t"
  by (induction rule: chan_run.induct) (auto intro: chan_step_inv chan_start_inv)

section \<open>Progress\<close>

text \<open>The work left on a channel: a piece to be sent counts twice, a piece in the ring once.\<close>

definition chan_left :: "urpc2_data list \<Rightarrow> chan \<Rightarrow> nat \<Rightarrow> bool" where
  "chan_left sent c n \<longleftrightarrow>
     (\<exists>ps rest old new. chan_parts sent c S_Test R_Test ps rest old new \<and> n = 2 * length rest + length ps)"

lemma pieces_not_empty [simp]: "pieces m k \<noteq> []"
  by (simp add: pieces.simps [of m k])

lemma queue_pieces_empty [simp]: "queue_pieces ms = [] \<longleftrightarrow> ms = []" "[] = queue_pieces ms \<longleftrightarrow> ms = []"
  by (cases ms; auto)+

lemma chan_left_0: "chan_left sent c 0 \<Longrightarrow> list_all2 arrives sent (delivered c)"
  by (auto simp: chan_left_def chan_parts_def stream_rel_def split: option.splits)

lemma chan_left_inv: "chan_left sent c n \<Longrightarrow> chan_inv sent (c, S_Test, R_Test)"
  by (auto simp: chan_left_def chan_inv_def)

lemma send_fill_flags: "send_fill d (e\<lparr>flags := x\<rparr>) = send_fill d e"
  by (simp add: send_fill_def)

lemma send_step_left:
  assumes "chan_left sent (c\<lparr>sendobj := Some d\<rparr>) n" "\<not> waiting (ring c (current_send c))"
  shows "\<exists>d' c' n'. send_step d c = Ok (d', c') \<and> n' < n \<and>
           chan_left sent (c'\<lparr>sendobj := (if size_in_bytes d' \<le> index d' then None else Some d')\<rparr>) n'"
proof -
  let ?c = "c\<lparr>sendobj := Some d\<rparr>"
  obtain ps rest old new where p: "chan_parts sent ?c S_Test R_Test ps rest old new" "n = 2 * length rest + length ps"
    using assms(1) by (auto simp: chan_left_def)
  note i = chan_partsD [OF p(1)]
  obtain m k where m: "msg_ok m" "k = 0 \<or> k < length (bytes m)" "k \<le> length (bytes m)" "d = at_index m k"
      "rest = pieces m k @ queue_pieces (send_queue ?c)" "\<forall>m\<in>set (send_queue ?c). msg_ok m"
    by (rule send_rel_obj [OF i(5), of d]) simp_all
  have len: "length ps < 32" using ring_ok_send(1) [OF i(3)] assms(2) i(3) by (auto simp: ring_ok_def)
  obtain e where e: "send_fill d (ring c (current_send c)) = Ok (e, at_index m (k + piece_len (length (bytes m)) k))"
      "carries e (piece m k)"
    using send_fill_ok [OF m(1,3), of "ring c (current_send c)"] ring_ok_send(2) [OF i(3)] m(4) by auto
  define d' where "d' = at_index m (k + piece_len (length (bytes m)) k)"
  define c' where "c' = (put_entry (current_send c) (publish e) c)\<lparr>current_send := (current_send c + 1) mod 32\<rparr>"
  let ?c' = "c'\<lparr>sendobj := (if size_in_bytes d' \<le> index d' then None else Some d')\<rparr>"
  have step: "send_step d c = Ok (d', c')" using e(1) by (simp add: send_step_def d'_def c'_def)
  let ?f = "(put_entry (current_send c) e c)\<lparr>sendobj := Some d'\<rparr>"
  have "send_rel ?f S_Publish rest"
    using m e(2) unfolding send_rel_def by (simp, intro exI [of _ m] exI [of _ k]) (simp add: sending_def d'_def)
  then obtain q rest' where q: "rest = q # rest'" "holds (publish (ring ?f (current_send ?f))) q" "send_rel ?c' S_Test rest'"
    using send_rel_publish [of ?f rest d' ?c'] by (auto simp: c'_def)
  have "ring_ok ((put_entry (current_send ?c) (publish e) ?c)\<lparr>current_send := (current_send ?c + 1) mod 32\<rparr>) (ps @ [q])"
    using i(3) len q(2) by (intro ring_ok_publish) auto
  then have "ring_ok ?c' (ps @ [q])" by (rule ring_ok_cong) (simp_all add: c'_def put_entry_def)
  then have "chan_parts sent ?c' S_Test R_Test (ps @ [q]) rest' old new"
    using i q(1,3) by (simp add: chan_parts_def c'_def)
  then have "chan_left sent ?c' (2 * length rest' + length (ps @ [q]))" unfolding chan_left_def by blast
  then show ?thesis using step q(1) p(2) by (intro exI conjI) auto
qed

lemma recv_step_left:
  assumes "chan_left sent (c\<lparr>usd_store := st\<rparr>) n" "waiting (ring c (current_receive c))" "size_clear usd"
    "d = (case st of None \<Rightarrow> usd\<lparr>index := 0\<rparr> | Some d \<Rightarrow> d)"
  shows "\<exists>d' ready c' n'. recv_step fill d c = Ok (d', ready, c') \<and> n' < n \<and>
           chan_left sent (c'\<lparr>usd_store := (if ready then None else Some d')\<rparr>) n'"
proof -
  let ?c = "c\<lparr>usd_store := st\<rparr>" and ?e = "ring c (current_receive c)"
  obtain ps rest old new where p: "chan_parts sent ?c S_Test R_Test ps rest old new" "n = 2 * length rest + length ps"
    using assms(1) by (auto simp: chan_left_def)
  note i = chan_partsD [OF p(1)]
  obtain q ps' where ps: "ps = q # ps'" using ring_ok_receive(1) [OF i(3)] assms(2) by (cases ps) auto
  obtain d' ready where d: "recv_entry fill d ?e = Ok (d', ready)" "recv_next d' ready (ps' @ rest) new"
    using recv_ok [of st q "ps' @ rest" new ?e usd fill] i(6) ps assms(3,4) ring_ok_receive(2) [OF i(3) ps]
    by (auto simp: size_clear_def)
  define c' where "c' = (put_entry (current_receive c) (release ?e) c)
      \<lparr>current_receive := (current_receive c + 1) mod 32, delivered := (if ready then delivered c @ [d'] else delivered c)\<rparr>"
  let ?c' = "c'\<lparr>usd_store := (if ready then None else Some d')\<rparr>"
  have step: "recv_step fill d c = Ok (d', ready, c')" using d(1) by (simp add: recv_step_def c'_def Let_def)
  have "ring_ok ?c' ps'" using ring_ok_release [OF i(3) [unfolded ps]] by (rule ring_ok_cong) (simp_all add: c'_def put_entry_def)
  moreover have "send_rel ?c' S_Test rest"
    by (rule send_rel_receive [OF i(5,3)]) (use ps in \<open>auto simp: c'_def fun_eq_iff\<close>)
  ultimately have "\<exists>old' new'. chan_parts sent ?c' S_Test R_Test ps' rest old' new'"
  proof (cases ready)
    case True
    then obtain m new' where m: "new = m # new'" "arrives m d'" "stream_rel None (ps' @ rest) new'"
      using d(2) by (auto simp: recv_next_def)
    have "list_all2 arrives (old @ [m]) (delivered ?c')" using i(2) m(2) True by (simp add: c'_def list_all2_appendI)
    with m True \<open>ring_ok ?c' ps'\<close> \<open>send_rel ?c' S_Test rest\<close> i(1)
    show ?thesis by (intro exI [of _ "old @ [m]"] exI [of _ new']) (simp add: chan_parts_def)
  next
    case False
    with d(2) \<open>ring_ok ?c' ps'\<close> \<open>send_rel ?c' S_Test rest\<close> i(1,2)
    show ?thesis by (intro exI [of _ old] exI [of _ new]) (simp add: chan_parts_def recv_next_def c'_def)
  qed
  then have "chan_left sent ?c' (2 * length rest + length ps')" unfolding chan_left_def by blast
  then show ?thesis using step p(2) ps by (intro exI conjI) auto
qed

text \<open>A call of \<open>core_send\<close> or of \<open>core_recv\<close> returns and makes progress.\<close>

lemma core_send_loop_left:
  assumes "chan_left sent (c\<lparr>sendobj := Some d\<rparr>) n"
  shows "\<exists>st d' c' n'. core_send_loop d c = Some (Ok (st, d', c')) \<and> n' \<le> n \<and>
           (\<not> waiting (ring c (current_send c)) \<longrightarrow> n' < n) \<and>
           chan_left sent (c'\<lparr>sendobj := (if st = DONE_WITH_TASK then None else Some d')\<rparr>) n'"
  using assms
proof (induction n arbitrary: c d rule: less_induct)
  case (less n)
  show ?case
  proof (cases "waiting (ring c (current_send c))")
    case True
    with less.prems show ?thesis by (auto simp: core_send_loop.simps [of d c])
  next
    case False
    obtain d' c' n' where s: "send_step d c = Ok (d', c')" "n' < n"
        "chan_left sent (c'\<lparr>sendobj := (if size_in_bytes d' \<le> index d' then None else Some d')\<rparr>) n'"
      using send_step_left [OF less.prems False] by blast
    show ?thesis
    proof (cases "size_in_bytes d' \<le> index d'")
      case True
      with s False show ?thesis by (auto simp: core_send_loop.simps [of d c] intro!: exI [of _ n'])
    next
      case more: False
      have "core_send_loop d c = core_send_loop d' c'" using s(1) False more by (simp add: core_send_loop.simps [of d c])
      moreover have "chan_left sent (c'\<lparr>sendobj := Some d'\<rparr>) n'" using s(3) more by simp
      moreover obtain st e c'' k where "core_send_loop d' c' = Some (Ok (st, e, c''))" "k \<le> n'"
          "chan_left sent (c''\<lparr>sendobj := (if st = DONE_WITH_TASK then None else Some e)\<rparr>) k"
        using less.IH [OF s(2) calculation(2)] by blast
      ultimately show ?thesis using s(2) by (auto intro!: exI [of _ k])
    qed
  qed
qed

lemma core_recv_left:
  assumes "chan_left sent (c\<lparr>usd_store := Some d\<rparr>) n"
  shows "\<exists>st d' c' n'. core_recv fill d c = Some (Ok (st, d', c')) \<and> n' \<le> n \<and>
           chan_left sent (c'\<lparr>usd_store := (if st = DONE_WITH_TASK then None else Some d')\<rparr>) n'"
  using assms
proof (induction n arbitrary: c d rule: less_induct)
  case (less n)
  have clear: "size_clear (d\<lparr>size_in_bytes := 0\<rparr>)" by (simp add: size_clear_def)
  show ?case
  proof (cases "waiting (ring c (current_receive c))")
    case False
    with less.prems show ?thesis by (auto simp: core_recv.simps [of fill d c])
  next
    case True
    obtain d' ready c' n' where s: "recv_step fill d c = Ok (d', ready, c')" "n' < n"
        "chan_left sent (c'\<lparr>usd_store := (if ready then None else Some d')\<rparr>) n'"
      using recv_step_left [OF less.prems True clear] by fastforce
    show ?thesis
    proof (cases ready)
      case True
      with s \<open>waiting (ring c (current_receive c))\<close> show ?thesis
        by (auto simp: core_recv.simps [of fill d c] intro!: exI [of _ n'])
    next
      case False
      then have "chan_left sent (c'\<lparr>usd_store := Some d'\<rparr>) n'" using s(3) by simp
      from less.IH [OF s(2) this]
      obtain st e c'' k where "core_recv fill d' c' = Some (Ok (st, e, c''))" "k \<le> n'"
          "chan_left sent (c''\<lparr>usd_store := (if st = DONE_WITH_TASK then None else Some e)\<rparr>) k"
        by blast
      with s(1,2) True False show ?thesis
        by (auto simp: core_recv.simps [of fill d c] intro!: exI [of _ k])
    qed
  qed
qed

section \<open>Rounds of the two cores\<close>

lemma receive_round_left:
  assumes "chan_left sent c n" "waiting (ring c (current_receive c))" "size_clear usd"
  shows "\<exists>c' n'. receive_round fill usd c = Some (Ok c') \<and> n' < n \<and> chan_left sent c' n'"
proof -
  let ?d = "case usd_store c of None \<Rightarrow> usd\<lparr>index := 0\<rparr> | Some d \<Rightarrow> d"
  have "c\<lparr>usd_store := usd_store c\<rparr> = c" by simp
  then obtain d ready c1 k where s: "recv_step fill ?d c = Ok (d, ready, c1)" "k < n"
      "chan_left sent (c1\<lparr>usd_store := (if ready then None else Some d)\<rparr>) k"
    using recv_step_left [of sent "usd_store c" c n usd ?d fill] assms by auto
  show ?thesis
  proof (cases ready)
    case True
    with s assms(2) show ?thesis by (auto simp: receive_round_def core_recv.simps [of fill _ c])
  next
    case False
    then have "chan_left sent (c1\<lparr>usd_store := Some d\<rparr>) k" using s(3) by simp
    from core_recv_left [OF this] obtain st e c2 j where r: "core_recv fill d c1 = Some (Ok (st, e, c2))" "j \<le> k"
        "chan_left sent (c2\<lparr>usd_store := (if st = DONE_WITH_TASK then None else Some e)\<rparr>) j"
      by blast
    have "core_recv fill ?d c = core_recv fill d c1" using s(1) assms(2) False by (simp add: core_recv.simps [of fill _ c])
    then have "receive_round fill usd c = Some (Ok (c2\<lparr>usd_store := (if st = DONE_WITH_TASK then None else Some e)\<rparr>))"
      using r(1) by (simp add: receive_round_def)
    moreover have "j < n" using r(2) s(2) by simp
    ultimately show ?thesis using r(3) by blast
  qed
qed

lemma send_round_left:
  assumes "chan_left sent c n" "\<not> waiting (ring c (current_send c))" "sendobj c \<noteq> None \<or> \<not> queue_empty c"
  shows "\<exists>c' n'. send_round c = Some (Ok c') \<and> n' < n \<and> chan_left sent c' n'"
proof -
  obtain d c1 where d: "(case sendobj c of None \<Rightarrow> dequeue c | Some d \<Rightarrow> Ok (d, c)) = Ok (d, c1)"
      "chan_left sent (c1\<lparr>sendobj := Some d\<rparr>) n" "ring c1 = ring c" "current_send c1 = current_send c"
  proof (cases "sendobj c")
    case None
    then obtain m ms where q: "send_queue c = m # ms" using assms(3) by (cases "send_queue c") (auto simp: queue_empty_def)
    obtain ps rest old new where p: "chan_parts sent c S_Test R_Test ps rest old new" "n = 2 * length rest + length ps"
      using assms(1) by (auto simp: chan_left_def)
    have m: "msg_ok m" "\<forall>m\<in>set ms. msg_ok m" "rest = pieces m 0 @ queue_pieces ms"
      using chan_partsD(5) [OF p(1)] None q by (auto simp: send_rel_def)
    let ?c = "c\<lparr>send_queue := ms, sendobj := Some m\<rparr>"
    have "send_rel ?c S_Test rest"
      using m unfolding send_rel_def by (simp, intro exI [of _ m] exI [of _ "0 :: nat"]) (simp add: sending_def at_index_0)
    moreover have "ring_ok ?c ps" using chan_partsD(3) [OF p(1)] by (rule ring_ok_cong) simp_all
    ultimately have "chan_parts sent ?c S_Test R_Test ps rest old new" using p(1) by (simp add: chan_parts_def)
    then have "chan_left sent ?c n" using p(2) unfolding chan_left_def by blast
    with that [of m "c\<lparr>send_queue := ms\<rparr>"] None q show ?thesis by (simp add: dequeue_def)
  next
    case (Some d)
    then have "c\<lparr>sendobj := Some d\<rparr> = c" by simp
    with Some that [of d c] assms(1) show ?thesis by simp
  qed
  have "size_in_bytes d < 2 ^ 63"
  proof -
    obtain ps rest old new where "chan_parts sent (c1\<lparr>sendobj := Some d\<rparr>) S_Test R_Test ps rest old new"
      using d(2) by (auto simp: chan_left_def)
    then obtain m k where "sending m k S_Test (ring c (current_send c)) d"
      using chan_partsD(5) d(3,4) by (fastforce simp: send_rel_def)
    then have "msg_ok m" "d = at_index m k" by (auto simp: sending_def)
    then show ?thesis using at_index_conds(5) [of m 0] by simp
  qed
  moreover obtain st e c2 k where r: "core_send_loop d c1 = Some (Ok (st, e, c2))" "k < n"
      "chan_left sent (c2\<lparr>sendobj := (if st = DONE_WITH_TASK then None else Some e)\<rparr>) k"
    using core_send_loop_left [OF d(2)] d(3,4) assms(2) by auto
  ultimately have "send_round c = Some (Ok (c2\<lparr>sendobj := (if st = DONE_WITH_TASK then None else Some e)\<rparr>))"
    using d(1) by (simp add: send_round_def core_send_def)
  with r(2,3) show ?thesis by blast
qed

lemma urpc2_round_left:
  assumes "chan_left sa out n" "chan_left sb inc k" "size_clear usd"
  shows "\<exists>out' inc' n' k'. urpc2_round fill usd (out, inc) = Some (Ok (out', inc')) \<and> chan_left sa out' n' \<and> chan_left sb inc' k' \<and>
           (n' + k' < n + k \<or>
            out' = out \<and> inc' = inc \<and> n' = n \<and> k' = k \<and> \<not> waiting (ring inc (current_receive inc)) \<and>
            (sendobj out = None \<and> queue_empty out \<or> waiting (ring out (current_send out))))"
proof (cases "waiting (ring inc (current_receive inc))")
  case True
  then obtain inc' k' where "receive_round fill usd inc = Some (Ok inc')" "k' < k" "chan_left sb inc' k'"
    using receive_round_left [OF assms(2) _ assms(3)] by blast
  with True assms(1) show ?thesis
    by (intro exI [of _ out] exI [of _ inc'] exI [of _ n] exI [of _ k']) (simp add: urpc2_round_def)
next
  case False
  show ?thesis
  proof (cases "sendobj out = None \<and> queue_empty out \<or> waiting (ring out (current_send out))")
    case True
    with False assms show ?thesis
      by (intro exI [of _ out] exI [of _ inc] exI [of _ n] exI [of _ k]) (auto simp: urpc2_round_def)
  next
    case send: False
    then obtain out' n' where "send_round out = Some (Ok out')" "n' < n" "chan_left sa out' n'"
      using send_round_left [OF assms(1)] by blast
    with False send assms(2) show ?thesis
      by (intro exI [of _ out'] exI [of _ inc] exI [of _ n'] exI [of _ k]) (auto simp: urpc2_round_def)
  qed
qed

text \<open>The cores take turns; \<open>usd0\<close> and \<open>usd1\<close> are the local variables of their loops.\<close>

definition turn :: "(nat \<Rightarrow> u8) \<Rightarrow> urpc2_data \<Rightarrow> urpc2_data \<Rightarrow> chan \<times> chan \<Rightarrow> (chan \<times> chan) outcome option" where
  "turn fill usd0 usd1 = (\<lambda>(ab, ba).
     (case urpc2_round fill usd0 (ab, ba) of
        Some (Ok (ab, ba)) \<Rightarrow> map_option (\<lambda>r. bind_outcome r (\<lambda>(ba, ab). Ok (ab, ba))) (urpc2_round fill usd1 (ba, ab))
      | r \<Rightarrow> r))"

fun turns :: "nat \<Rightarrow> (nat \<Rightarrow> u8) \<Rightarrow> urpc2_data \<Rightarrow> urpc2_data \<Rightarrow> chan \<times> chan \<Rightarrow> (chan \<times> chan) outcome option" where
  "turns 0 fill usd0 usd1 s = Some (Ok s)"
| "turns (Suc n) fill usd0 usd1 s =
     (case turn fill usd0 usd1 s of Some (Ok s) \<Rightarrow> turns n fill usd0 usd1 s | r \<Rightarrow> r)"

lemma chan_left_quiet:
  assumes "chan_left sent c n" "\<not> waiting (ring c (current_receive c))"
    "sendobj c = None \<and> queue_empty c \<or> waiting (ring c (current_send c))"
  shows "n = 0"
proof -
  obtain ps rest old new where p: "chan_parts sent c S_Test R_Test ps rest old new" "n = 2 * length rest + length ps"
    using assms(1) by (auto simp: chan_left_def)
  note i = chan_partsD [OF p(1)]
  have "ps = []" using ring_ok_receive(1) [OF i(3)] assms(2) by simp
  moreover have "\<not> waiting (ring c (current_send c))" using ring_ok_send(1) [OF i(3)] calculation by simp
  ultimately show ?thesis using assms(3) i(5) p(2) by (auto simp: send_rel_def queue_empty_def)
qed

lemma turn_left:
  assumes "chan_left sa ab n" "chan_left sb ba k" "size_clear usd0" "size_clear usd1"
  shows "\<exists>ab' ba' n' k'. turn fill usd0 usd1 (ab, ba) = Some (Ok (ab', ba')) \<and> chan_left sa ab' n' \<and> chan_left sb ba' k' \<and>
           (n' + k' < n + k \<or> n' + k' = 0)"
proof -
  obtain ab1 ba1 n1 k1 where r0: "urpc2_round fill usd0 (ab, ba) = Some (Ok (ab1, ba1))" "chan_left sa ab1 n1" "chan_left sb ba1 k1"
      and p0: "n1 + k1 < n + k \<or>
            ab1 = ab \<and> ba1 = ba \<and> n1 = n \<and> k1 = k \<and> \<not> waiting (ring ba (current_receive ba)) \<and>
            (sendobj ab = None \<and> queue_empty ab \<or> waiting (ring ab (current_send ab)))"
    using urpc2_round_left [OF assms(1-3), of fill] by blast
  obtain ab2 ba2 n2 k2 where r1: "urpc2_round fill usd1 (ba1, ab1) = Some (Ok (ba2, ab2))" "chan_left sb ba2 k2" "chan_left sa ab2 n2"
      and p1: "k2 + n2 < k1 + n1 \<or>
            ba2 = ba1 \<and> ab2 = ab1 \<and> k2 = k1 \<and> n2 = n1 \<and> \<not> waiting (ring ab1 (current_receive ab1)) \<and>
            (sendobj ba1 = None \<and> queue_empty ba1 \<or> waiting (ring ba1 (current_send ba1)))"
    using urpc2_round_left [OF r0(3,2) assms(4), of fill] by blast
  have "turn fill usd0 usd1 (ab, ba) = Some (Ok (ab2, ba2))" using r0(1) r1(1) by (simp add: turn_def)
  moreover have "n2 + k2 < n + k \<or> n2 + k2 = 0"
  proof (cases "n1 + k1 < n + k \<or> k2 + n2 < k1 + n1")
    case True
    with p0 p1 show ?thesis by auto
  next
    case False
    then have "n = 0" "k = 0" using p0 p1 chan_left_quiet [OF assms(1)] chan_left_quiet [OF assms(2)] by auto
    then show ?thesis using False p0 p1 by auto
  qed
  ultimately show ?thesis using r1(2,3) by blast
qed

lemma turns_left:
  assumes "chan_left sa ab n" "chan_left sb ba k" "size_clear usd0" "size_clear usd1" "n + k \<le> N"
  shows "\<exists>ab' ba'. turns N fill usd0 usd1 (ab, ba) = Some (Ok (ab', ba')) \<and> chan_left sa ab' 0 \<and> chan_left sb ba' 0"
  using assms
proof (induction N arbitrary: ab ba n k)
  case 0
  then show ?case by auto
next
  case (Suc N)
  obtain ab' ba' n' k' where t: "turn fill usd0 usd1 (ab, ba) = Some (Ok (ab', ba'))" "chan_left sa ab' n'" "chan_left sb ba' k'"
      "n' + k' < n + k \<or> n' + k' = 0"
    using turn_left [OF Suc.prems(1-4), of fill] by blast
  then have "n' + k' \<le> N" using Suc.prems(5) by auto
  from Suc.IH [OF t(2,3) Suc.prems(3,4) this] t(1) show ?case by simp
qed

lemma enqueue_all_left:
  assumes "chan_start c" "\<forall>m\<in>set ms. msg_ok m"
  shows "chan_left ms (fold enqueue ms c) (2 * length (queue_pieces ms))"
proof -
  have f: "fold enqueue ms c = c\<lparr>send_queue := send_queue c @ ms\<rparr>"
    by (induction ms arbitrary: c) (simp_all add: enqueue_def)
  let ?c = "c\<lparr>send_queue := ms\<rparr>"
  have "chan_parts ms ?c S_Test R_Test [] (queue_pieces ms) [] ms"
    using assms by (auto simp: chan_parts_def chan_start_def ring_ok_def send_rel_def stream_rel_def)
  moreover have "fold enqueue ms c = ?c" using f assms(1) by (simp add: chan_start_def)
  ultimately show ?thesis unfolding chan_left_def by fastforce
qed

end
