(* ===== verification/Urpc_Properties.thy ===== *)
theory Urpc_Properties
  imports Urpc_Run
begin

text \<open>
  The properties of the messages between the cores: what is delivered in every interleaving, that the
  messages arrive when both cores keep running, and what an uninitialised variable of the receiver does.
\<close>

section \<open>Examples\<close>

definition chan_zero :: chan where
  "chan_zero =
     \<lparr>ring = (\<lambda>_. \<lparr>flags = 0, body = replicate 63 0\<rparr>), current_send = 0, current_receive = 0, send_queue = [],
      sendobj = None, usd_store = None, delivered = []\<rparr>"

lemma chan_zero_start: "chan_start chan_zero"
  by (simp add: chan_start_def chan_zero_def waiting_def)

definition long_msg :: urpc2_data where
  "long_msg = init_urpc2_data 3 0 100 (replicate 100 7)"

definition short_msg :: urpc2_data where
  "short_msg = init_urpc2_data 1 0 2 [104, 105]"

definition usd_zero :: urpc2_data where
  "usd_zero = \<lparr>msg_type = 0, msg_id = 0, size_in_bytes = 0, index = 0, bytes = []\<rparr>"

lemma example_msgs: "msg_ok long_msg" "msg_ok short_msg" "length (bytes long_msg) = 100" "size_clear usd_zero"
  by (simp_all add: long_msg_def short_msg_def msg_ok_def init_urpc2_data_def size_clear_def usd_zero_def)

section \<open>Safety\<close>



section \<open>Liveness\<close>



section \<open>The uninitialised size\<close>

lemma high_half:
  fixes s t :: u64
  assumes "drop_bit 32 s \<noteq> 0"
  shows "2 ^ 32 \<le> unat (push_bit 32 (drop_bit 32 s) OR t)"
proof (rule ccontr)
  let ?w = "push_bit 32 (drop_bit 32 s) OR t"
  assume "\<not> 2 ^ 32 \<le> unat ?w"
  then have "unat (drop_bit 32 ?w) = 0"
    unfolding unat_drop_bit_eq by (simp add: drop_bit_eq_div)
  then have "drop_bit 32 ?w = 0" by (simp add: unat_eq_zero)
  moreover have "drop_bit 32 ?w = drop_bit 32 s OR drop_bit 32 t"
    by (rule bit_word_eqI) (auto simp: bit_simps dest: bit_imp_le_length)
  ultimately show False using assms by (simp add: or_eq_0_iff)
qed

lemma low_half: "ucast (push_bit 32 s OR t :: u64) = (ucast t :: u32)"
  by (rule bit_word_eqI) (auto simp: bit_simps)

text \<open>
  C27: The receiver writes only four bytes of the 64-bit size into a variable that was not initialised. If the other four bytes are
  not zero, the first entry of a message of 62 to 119 bytes is accepted, and the second one is copied past the end of the
  buffer that was allocated for the message.
\<close>

theorem urpc2_size_overrun:
  assumes "msg_ok m" "61 < length (bytes m)" "length (bytes m) < 120" "drop_bit 32 (size_in_bytes usd) \<noteq> 0"
    "length (body e0) = 63" "length (body e1) = 63"
  shows "\<exists>f0 m0 f1 m1 d. send_fill m e0 = Ok (f0, m0) \<and> send_fill m0 e1 = Ok (f1, m1) \<and> index m1 = size_in_bytes m1 \<and>
           recv_entry fill (usd\<lparr>index := 0\<rparr>) (publish f0) = Ok (d, False) \<and> recv_entry fill d (publish f1) = Abort"
proof -
  let ?n = "length (bytes m)"
  have len: "piece_len ?n 0 = 57" "piece_len ?n 57 = ?n - 57" using assms(2,3) by (auto simp: piece_len_def is_last_def)
  obtain f0 where f0: "send_fill m e0 = Ok (f0, at_index m 57)" "carries f0 (piece m 0)"
    using send_fill_ok [OF assms(1) _ assms(5), of 0] len(1) at_index_0 [OF assms(1)] by auto
  obtain f1 where f1: "send_fill (at_index m 57) e1 = Ok (f1, at_index m ?n)" "carries f1 (piece m 57)"
    using send_fill_ok [OF assms(1) _ assms(6), of 57] len(2) assms(2) by auto
  have h: "holds (publish f0) (piece m 0)" using f0(2) by (auto simp: holds_def)
  have b: "length (body (publish f0)) = 63" "length (body (publish f1)) = 63"
    using f0(2) f1(2) by (auto simp: carries_def publish_def)
  note first = first_entry [OF assms(2) h]
  define sz where "sz = push_bit 32 (drop_bit 32 (size_in_bytes usd)) OR of_le_bytes (le_bytes32 (of_nat ?n))"
  have big: "2 ^ 32 \<le> unat sz" unfolding sz_def by (rule high_half [OF assms(4)])
  have small: "unat (ucast sz :: u32) = ?n"
    unfolding sz_def low_half le_bytes32_inverse unat_ucast_32 unat_ucast_64
    using assms(1) by (simp add: msg_ok_def unat_of_nat)
  define d0 where "d0 = usd\<lparr>index := 0, size_in_bytes := sz, bytes := map fill [0..<?n], msg_type := msg_type m, msg_id := msg_id m\<rparr>"
  have begin_ok: "recv_begin fill (usd\<lparr>index := 0\<rparr>) (publish f0) = Ok (d0, 6)"
    using first b(1) small by (simp add: recv_begin_def peek_def sz_def d0_def)
  have rem: "\<not> sz \<le> k + 63" "\<not> sz \<le> k" if "unat k \<le> 57" for k :: u64
    using that big unat_plus_less [of k 63] by (simp_all add: word_le_nat_alt)
  define d1 where "d1 = d0\<lparr>bytes := take 57 (drop 6 (body (publish f0))) @ drop 57 (bytes d0), index := 57\<rparr>"
  have "recv_piece d0 6 (publish f0) = Ok d1"
    using rem(1) [of 0] b(1) assms(2)
    by (simp add: recv_piece_def piece_length_def small_rem_def peek_def poke_def d0_def d1_def)
  then have "recv_entry fill (usd\<lparr>index := 0\<rparr>) (publish f0) = Ok (d1, False)"
    using begin_ok first(1) rem(2) [of 57] by (simp add: recv_entry_def d1_def d0_def)
  moreover have "recv_entry fill d1 (publish f1) = Abort"
    using rem(1) [of 57] b assms(2,3)
    by (simp add: recv_entry_def recv_piece_def piece_length_def small_rem_def peek_def poke_def d1_def d0_def)
  moreover have "index (at_index m ?n) = size_in_bytes (at_index m ?n)"
    using at_index_conds(1) [OF assms(1)] assms(1) by (simp add: word_unat_eq_iff msg_ok_def)
  ultimately show ?thesis using f0(1) f1(1) by blast
qed

theorem urpc2_size_overrun_witness:
  "\<exists>f0 m0 f1 m1 d. send_fill long_msg (ring chan_zero 0) = Ok (f0, m0) \<and> send_fill m0 (ring chan_zero 1) = Ok (f1, m1) \<and>
     index m1 = size_in_bytes m1 \<and>
     recv_entry (\<lambda>_. 0) (usd_zero\<lparr>size_in_bytes := 2 ^ 40, index := 0\<rparr>) (publish f0) = Ok (d, False) \<and>
     recv_entry (\<lambda>_. 0) d (publish f1) = Abort"
proof -
  have "drop_bit 32 (size_in_bytes (usd_zero\<lparr>size_in_bytes := 2 ^ 40\<rparr>)) \<noteq> 0" by (simp add: drop_bit_eq_div)
  from urpc2_size_overrun [OF example_msgs(1) _ _ this, of "ring chan_zero 0" "ring chan_zero 1" "\<lambda>_. 0"]
  show ?thesis using example_msgs(3) by (simp add: chan_zero_def)
qed

end
