(* ===== verification/Spec2Isabelle.thy ===== *)
theory Spec2Isabelle
  imports Mdb_Properties Net_Properties Alloc_Properties Vspace_Properties Sched_Properties Urpc_Properties
begin

text \<open>
  A verification development for the AOS Barrelfish operating system: parts of its kernel
  and of its libraries, translated into HOL definitions, with the theorems that make them
  correct.

  \<^descr> \<open>Prelude\<close>: machine words, error codes, the outcome of a call, shared lemmas.

  \<^descr> \<open>Caps\<close>: the capability predicates, which the Hamlet compiler generates when the system
  is built, as a parameter with the laws \<open>cap_order\<close>; the predicates that the generator in
  \<^verbatim>\<open>tools/hamlet\<close> emits for \<^verbatim>\<open>capabilities/caps.hl\<close> satisfy them.

  \<^descr> \<open>Mdb_Tree\<close>, \<open>Mdb_Balance\<close>, \<open>Mdb_Query\<close>, \<open>Mdb_Range\<close>, \<open>Mdb\<close>, \<open>Mdb_Properties\<close>: the mapping
  database, \<^verbatim>\<open>lib/mdb\<close>.
\<close>

end
